(* ===== verification/Prelude.thy ===== *)
theory Prelude
  imports Main "HOL-Library.Word"
begin

text \<open>
  What every component shares: the C integer types as words, the exit
  codes, the collections of hints the component proofs use, and generic
  lemmas on sums over thread indices and on updated functions.

  Names: \<open>cint\<close> and \<open>cuint\<close> are the 32-bit \<open>int\<close> and
  \<open>unsigned int\<close> of the LP64 platform the programs are built for (the bits
  are the same, signedness is chosen by the operation that reads them),
  \<open>cllong\<close> is the 64-bit \<open>long long int\<close>.
\<close>

type_synonym cint = "32 word"
type_synonym cuint = "32 word"
type_synonym cllong = "64 word"

abbreviation EXIT_SUCCESS :: int where "EXIT_SUCCESS \<equiv> 0"
abbreviation EXIT_FAILURE :: int where "EXIT_FAILURE \<equiv> 1"

text \<open>What a call of a C function that may end the process amounts to: it returns a new
  state, or the process ends with an exit code.\<close>
datatype 's outcome = Returns 's | Exits int 's

named_theorems step_defs \<open>definitions of the atomic steps of a program\<close>
named_theorems lock_defs \<open>definitions of the lock operations and of their invariants\<close>

section \<open>Sums over thread indices\<close>

lemma sum_upd_add:
  fixes f :: "'l \<Rightarrow> 'm::comm_monoid_add" and n :: nat
  assumes "i < n"
  shows "(\<Sum>j<n. f ((c(i := x)) j)) + f (c i) = (\<Sum>j<n. f (c j)) + f x"
proof -
  have "(\<Sum>j<n. f ((c(i := x)) j)) = f ((c(i := x)) i) + (\<Sum>j\<in>{..<n} - {i}. f ((c(i := x)) j))"
    using assms by (intro sum.remove) simp_all
  also have "(\<Sum>j\<in>{..<n} - {i}. f ((c(i := x)) j)) = (\<Sum>j\<in>{..<n} - {i}. f (c j))"
    by (rule sum.cong) auto
  finally have a: "(\<Sum>j<n. f ((c(i := x)) j)) = f x + (\<Sum>j\<in>{..<n} - {i}. f (c j))" by simp
  have b: "(\<Sum>j<n. f (c j)) = f (c i) + (\<Sum>j\<in>{..<n} - {i}. f (c j))"
    using assms by (intro sum.remove) simp_all
  show ?thesis by (simp only: a b ac_simps)
qed

lemma sum_upd_int:
  fixes f :: "'l \<Rightarrow> int" and n :: nat
  assumes "i < n"
  shows "(\<Sum>j<n. f ((c(i := x)) j)) = (\<Sum>j<n. f (c j)) - f (c i) + f x"
  using sum_upd_add [OF assms, of f c x] by simp

lemma sum_upd_less:
  fixes f :: "'l \<Rightarrow> nat" and n :: nat
  assumes "i < n" and "f x < f (c i)"
  shows "(\<Sum>j<n. f ((c(i := x)) j)) < (\<Sum>j<n. f (c j))"
  using sum_upd_add [OF assms(1), of f c x] assms(2) by linarith

lemma sum_upd_same:
  fixes f :: "'l \<Rightarrow> nat" and n :: nat
  assumes "i < n" and "f x = f (c i)"
  shows "(\<Sum>j<n. f ((c(i := x)) j)) = (\<Sum>j<n. f (c j))"
  using sum_upd_add [OF assms(1), of f c x] assms(2) by linarith

lemma member_le_sum_nat:
  fixes f :: "nat \<Rightarrow> nat"
  assumes "i < n"
  shows "f i \<le> (\<Sum>j<n. f j)"
  using assms by (intro member_le_sum) auto

section \<open>Updated functions\<close>

lemma fun_upd_None [simp]: "f k = None \<Longrightarrow> f(k := None) = f"
  by (rule fun_upd_idem)

end
