(* ===== verification/Ipc.thy ===== *)
theory Ipc
  imports Prelude
begin

text \<open>
  The library objects the critical-section methods are built on, as POSIX and
  Linux document them: the default mutex, unnamed and named semaphores, System V
  semaphores with \<open>SEM_UNDO\<close>, POSIX and System V message queues. Kernel-wide
  tables are the fields of \<open>kernel\<close>. A blocking call answers \<open>WAIT\<close> when it
  would sleep. Whether a call fails for a reason outside the model (memory, limits,
  permissions, a signal) is decided by a parameter of type \<open>faults\<close>.
\<close>

datatype call =
    C_mutex_init | C_mutex_destroy | C_mutex_lock | C_mutex_unlock
  | C_sem_init | C_sem_destroy | C_sem_open | C_sem_close | C_sem_unlink | C_sem_wait | C_sem_post
  | C_semget | C_semctl_setval | C_semctl_rmid | C_semop
  | C_mq_open | C_mq_unlink | C_mq_close | C_mq_send | C_mq_receive
  | C_msgget | C_msgctl_rmid | C_msgsnd | C_msgrcv

type_synonym faults = "call \<Rightarrow> bool"

definition no_faults :: faults where
  "no_faults c = False"

text \<open>Only the given call fails.\<close>
definition fault_at :: "call \<Rightarrow> faults" where
  "fault_at c = (\<lambda>d. d = c)"

datatype 'a callres = OK 'a | EFAIL | WAIT

record mutex =
  mx_live :: bool
  mx_owner :: "nat option"

record named_sem =
  ns_value :: nat
  ns_linked :: bool

record posix_mq =
  pq_maxmsg :: nat
  pq_msgsize :: nat
  pq_msgs :: "string list"
  pq_linked :: bool

record kernel =
  sem_names :: "string \<Rightarrow> nat option"
  named_sems :: "nat \<Rightarrow> named_sem option"
  sysv_keys :: "int \<Rightarrow> nat option"
  sysv_vals :: "nat \<Rightarrow> nat option"
  sysv_adj :: "nat \<Rightarrow> int"
  mq_names :: "string \<Rightarrow> nat option"
  mqs :: "nat \<Rightarrow> posix_mq option"
  msqs :: "nat \<Rightarrow> int list option"
  next_id :: nat

section \<open>Mutexes and unnamed semaphores\<close>

definition mutex_init :: "faults \<Rightarrow> mutex \<Rightarrow> mutex callres" where
  "mutex_init flt m =
     (if flt C_mutex_init then EFAIL else OK \<lparr>mx_live = True, mx_owner = None\<rparr>)"

definition mutex_destroy :: "faults \<Rightarrow> mutex \<Rightarrow> mutex callres" where
  "mutex_destroy flt m =
     (if flt C_mutex_destroy \<or> \<not> mx_live m \<or> mx_owner m \<noteq> None then EFAIL
      else OK (m\<lparr>mx_live := False\<rparr>))"

definition mutex_lock :: "faults \<Rightarrow> nat \<Rightarrow> mutex \<Rightarrow> mutex callres" where
  "mutex_lock flt i m =
     (if flt C_mutex_lock \<or> \<not> mx_live m then EFAIL
      else if mx_owner m = None then OK (m\<lparr>mx_owner := Some i\<rparr>)
      else WAIT)"

definition mutex_unlock :: "faults \<Rightarrow> mutex \<Rightarrow> mutex callres" where
  "mutex_unlock flt m =
     (if flt C_mutex_unlock \<or> \<not> mx_live m then EFAIL
      else OK (m\<lparr>mx_owner := None\<rparr>))"

text \<open>An unnamed semaphore is its value, \<open>None\<close> while it is not initialised.\<close>

definition sem_init :: "faults \<Rightarrow> nat \<Rightarrow> nat option callres" where
  "sem_init flt v = (if flt C_sem_init then EFAIL else OK (Some v))"

definition sem_destroy :: "faults \<Rightarrow> nat option \<Rightarrow> nat option callres" where
  "sem_destroy flt s = (if flt C_sem_destroy \<or> s = None then EFAIL else OK None)"

definition sem_wait :: "faults \<Rightarrow> nat option \<Rightarrow> nat option callres" where
  "sem_wait flt s =
     (if flt C_sem_wait then EFAIL
      else case s of None \<Rightarrow> EFAIL | Some v \<Rightarrow> if v = 0 then WAIT else OK (Some (v - 1)))"

definition sem_post :: "faults \<Rightarrow> nat option \<Rightarrow> nat option callres" where
  "sem_post flt s =
     (if flt C_sem_post then EFAIL
      else case s of None \<Rightarrow> EFAIL | Some v \<Rightarrow> OK (Some (v + 1)))"

section \<open>Named semaphores\<close>

text \<open>\<open>sem_open (name, O_CREAT [| O_EXCL], ..., value)\<close>: an existing semaphore keeps
  its value, and is an error when \<open>O_EXCL\<close> is given.\<close>
definition sem_open ::
    "faults \<Rightarrow> bool \<Rightarrow> string \<Rightarrow> nat \<Rightarrow> 'x kernel_scheme \<Rightarrow> (nat \<times> 'x kernel_scheme) callres" where
  "sem_open flt excl name v k =
     (if flt C_sem_open then EFAIL
      else case sem_names k name of
        Some sid \<Rightarrow> if excl then EFAIL else OK (sid, k)
      | None \<Rightarrow> OK (next_id k,
          k\<lparr>sem_names := (sem_names k)(name := Some (next_id k)),
            named_sems := (named_sems k)(next_id k := Some \<lparr>ns_value = v, ns_linked = True\<rparr>),
            next_id := next_id k + 1\<rparr>))"

definition sem_unlink :: "faults \<Rightarrow> string \<Rightarrow> 'x kernel_scheme \<Rightarrow> 'x kernel_scheme callres" where
  "sem_unlink flt name k =
     (if flt C_sem_unlink then EFAIL
      else case sem_names k name of
        None \<Rightarrow> EFAIL
      | Some sid \<Rightarrow> OK (k\<lparr>sem_names := (sem_names k)(name := None),
          named_sems := (named_sems k)(sid := map_option (ns_linked_update (\<lambda>_. False))
            (named_sems k sid))\<rparr>))"

text \<open>Closing the last reference of an unlinked semaphore frees it.\<close>
definition sem_close :: "faults \<Rightarrow> nat \<Rightarrow> 'x kernel_scheme \<Rightarrow> 'x kernel_scheme callres" where
  "sem_close flt sid k =
     (if flt C_sem_close then EFAIL
      else case named_sems k sid of
        None \<Rightarrow> EFAIL
      | Some s \<Rightarrow> OK (if ns_linked s then k
                     else k\<lparr>named_sems := (named_sems k)(sid := None)\<rparr>))"

definition named_wait :: "faults \<Rightarrow> nat \<Rightarrow> 'x kernel_scheme \<Rightarrow> 'x kernel_scheme callres" where
  "named_wait flt sid k =
     (if flt C_sem_wait then EFAIL
      else case named_sems k sid of
        None \<Rightarrow> EFAIL
      | Some s \<Rightarrow> if ns_value s = 0 then WAIT
          else OK (k\<lparr>named_sems := (named_sems k)(sid := Some (s\<lparr>ns_value := ns_value s - 1\<rparr>))\<rparr>))"

definition named_post :: "faults \<Rightarrow> nat \<Rightarrow> 'x kernel_scheme \<Rightarrow> 'x kernel_scheme callres" where
  "named_post flt sid k =
     (if flt C_sem_post then EFAIL
      else case named_sems k sid of
        None \<Rightarrow> EFAIL
      | Some s \<Rightarrow>
          OK (k\<lparr>named_sems := (named_sems k)(sid := Some (s\<lparr>ns_value := ns_value s + 1\<rparr>))\<rparr>))"

section \<open>System V semaphores\<close>

text \<open>\<open>semget (IPC_PRIVATE, 1, ...)\<close> is \<open>semget_private\<close>; with a key and
  \<open>IPC_CREAT\<close> an existing set is returned as it is. A new set starts at 0.\<close>

definition semget_private :: "faults \<Rightarrow> 'x kernel_scheme \<Rightarrow> (nat \<times> 'x kernel_scheme) callres" where
  "semget_private flt k =
     (if flt C_semget then EFAIL
      else OK (next_id k,
        k\<lparr>sysv_vals := (sysv_vals k)(next_id k := Some 0),
          sysv_adj := (sysv_adj k)(next_id k := 0),
          next_id := next_id k + 1\<rparr>))"

definition semget_key ::
    "faults \<Rightarrow> int \<Rightarrow> 'x kernel_scheme \<Rightarrow> (nat \<times> 'x kernel_scheme) callres" where
  "semget_key flt key k =
     (if flt C_semget then EFAIL
      else case sysv_keys k key of
        Some sid \<Rightarrow> OK (sid, k)
      | None \<Rightarrow> OK (next_id k,
          k\<lparr>sysv_keys := (sysv_keys k)(key := Some (next_id k)),
            sysv_vals := (sysv_vals k)(next_id k := Some 0),
            sysv_adj := (sysv_adj k)(next_id k := 0),
            next_id := next_id k + 1\<rparr>))"

text \<open>\<open>SETVAL\<close> also clears the undo entries of every process.\<close>
definition semctl_setval ::
    "faults \<Rightarrow> nat \<Rightarrow> nat \<Rightarrow> 'x kernel_scheme \<Rightarrow> 'x kernel_scheme callres" where
  "semctl_setval flt sid v k =
     (if flt C_semctl_setval \<or> sysv_vals k sid = None then EFAIL
      else OK (k\<lparr>sysv_vals := (sysv_vals k)(sid := Some v),
                 sysv_adj := (sysv_adj k)(sid := 0)\<rparr>))"

definition semctl_rmid :: "faults \<Rightarrow> nat \<Rightarrow> 'x kernel_scheme \<Rightarrow> 'x kernel_scheme callres" where
  "semctl_rmid flt sid k =
     (if flt C_semctl_rmid \<or> sysv_vals k sid = None then EFAIL
      else OK (k\<lparr>sysv_vals := (sysv_vals k)(sid := None),
                 sysv_keys := (\<lambda>key. if sysv_keys k key = Some sid then None else sysv_keys k key)\<rparr>))"

text \<open>\<open>semop\<close> with one operation \<open>-1\<close> or \<open>+1\<close> and \<open>SEM_UNDO\<close>.\<close>
definition semop_undo ::
    "faults \<Rightarrow> nat \<Rightarrow> int \<Rightarrow> 'x kernel_scheme \<Rightarrow> 'x kernel_scheme callres" where
  "semop_undo flt sid oper k =
     (if flt C_semop then EFAIL
      else case sysv_vals k sid of
        None \<Rightarrow> EFAIL
      | Some v \<Rightarrow> if int v + oper < 0 then WAIT
          else OK (k\<lparr>sysv_vals := (sysv_vals k)(sid := Some (nat (int v + oper))),
                     sysv_adj := (sysv_adj k)(sid := sysv_adj k sid - oper)\<rparr>))"

text \<open>What the kernel does with the undo entry of a set when the process ends.\<close>
definition sysv_exit :: "nat \<Rightarrow> 'x kernel_scheme \<Rightarrow> 'x kernel_scheme" where
  "sysv_exit sid k =
     k\<lparr>sysv_vals := (sysv_vals k)(sid := map_option (\<lambda>v. nat (int v + sysv_adj k sid)) (sysv_vals k sid)),
       sysv_adj := (sysv_adj k)(sid := 0)\<rparr>"

section \<open>Message queues\<close>

text \<open>\<open>mq_open (name, O_CREAT | O_EXCL | O_RDWR, ..., attr)\<close>.\<close>
definition mq_open ::
    "faults \<Rightarrow> string \<Rightarrow> nat \<Rightarrow> nat \<Rightarrow> 'x kernel_scheme \<Rightarrow> (nat \<times> 'x kernel_scheme) callres" where
  "mq_open flt name maxmsg msgsize k =
     (if flt C_mq_open \<or> mq_names k name \<noteq> None then EFAIL
      else OK (next_id k,
        k\<lparr>mq_names := (mq_names k)(name := Some (next_id k)),
          mqs := (mqs k)(next_id k := Some \<lparr>pq_maxmsg = maxmsg, pq_msgsize = msgsize,
                                            pq_msgs = [], pq_linked = True\<rparr>),
          next_id := next_id k + 1\<rparr>))"

definition mq_unlink :: "faults \<Rightarrow> string \<Rightarrow> 'x kernel_scheme \<Rightarrow> 'x kernel_scheme callres" where
  "mq_unlink flt name k =
     (if flt C_mq_unlink then EFAIL
      else case mq_names k name of
        None \<Rightarrow> EFAIL
      | Some q \<Rightarrow> OK (k\<lparr>mq_names := (mq_names k)(name := None),
          mqs := (mqs k)(q := map_option (pq_linked_update (\<lambda>_. False)) (mqs k q))\<rparr>))"

definition mq_close :: "faults \<Rightarrow> nat \<Rightarrow> 'x kernel_scheme \<Rightarrow> 'x kernel_scheme callres" where
  "mq_close flt q k =
     (if flt C_mq_close then EFAIL
      else case mqs k q of
        None \<Rightarrow> EFAIL
      | Some m \<Rightarrow> OK (if pq_linked m then k else k\<lparr>mqs := (mqs k)(q := None)\<rparr>))"

text \<open>All messages have priority 0, so the queue is first in, first out.\<close>
definition mq_send ::
    "faults \<Rightarrow> nat \<Rightarrow> string \<Rightarrow> nat \<Rightarrow> 'x kernel_scheme \<Rightarrow> 'x kernel_scheme callres" where
  "mq_send flt q msg len k =
     (if flt C_mq_send then EFAIL
      else case mqs k q of
        None \<Rightarrow> EFAIL
      | Some m \<Rightarrow> if pq_msgsize m < len then EFAIL
          else if pq_maxmsg m \<le> length (pq_msgs m) then WAIT
          else OK (k\<lparr>mqs := (mqs k)(q := Some (m\<lparr>pq_msgs := pq_msgs m @ [msg]\<rparr>))\<rparr>))"

definition mq_receive ::
    "faults \<Rightarrow> nat \<Rightarrow> nat \<Rightarrow> 'x kernel_scheme \<Rightarrow> (string \<times> 'x kernel_scheme) callres" where
  "mq_receive flt q len k =
     (if flt C_mq_receive then EFAIL
      else case mqs k q of
        None \<Rightarrow> EFAIL
      | Some m \<Rightarrow> if len < pq_msgsize m then EFAIL
          else case pq_msgs m of
            [] \<Rightarrow> WAIT
          | msg # rest \<Rightarrow> OK (msg, k\<lparr>mqs := (mqs k)(q := Some (m\<lparr>pq_msgs := rest\<rparr>))\<rparr>))"

text \<open>System V queues hold the types of messages of size 0; Linux limits their number
  by the default \<open>msg_qbytes\<close>.\<close>

definition msgget_private :: "faults \<Rightarrow> 'x kernel_scheme \<Rightarrow> (nat \<times> 'x kernel_scheme) callres" where
  "msgget_private flt k =
     (if flt C_msgget then EFAIL
      else OK (next_id k,
        k\<lparr>msqs := (msqs k)(next_id k := Some []), next_id := next_id k + 1\<rparr>))"

definition msgctl_rmid :: "faults \<Rightarrow> nat \<Rightarrow> 'x kernel_scheme \<Rightarrow> 'x kernel_scheme callres" where
  "msgctl_rmid flt q k =
     (if flt C_msgctl_rmid \<or> msqs k q = None then EFAIL
      else OK (k\<lparr>msqs := (msqs k)(q := None)\<rparr>))"

definition msgsnd :: "faults \<Rightarrow> nat \<Rightarrow> int \<Rightarrow> 'x kernel_scheme \<Rightarrow> 'x kernel_scheme callres" where
  "msgsnd flt q mtype k =
     (if flt C_msgsnd \<or> mtype \<le> 0 then EFAIL
      else case msqs k q of
        None \<Rightarrow> EFAIL
      | Some ms \<Rightarrow> if 16384 \<le> length ms then WAIT
          else OK (k\<lparr>msqs := (msqs k)(q := Some (ms @ [mtype]))\<rparr>))"

definition msgrcv :: "faults \<Rightarrow> nat \<Rightarrow> 'x kernel_scheme \<Rightarrow> (int \<times> 'x kernel_scheme) callres" where
  "msgrcv flt q k =
     (if flt C_msgrcv then EFAIL
      else case msqs k q of
        None \<Rightarrow> EFAIL
      | Some [] \<Rightarrow> WAIT
      | Some (t # ms) \<Rightarrow> OK (t, k\<lparr>msqs := (msqs k)(q := Some ms)\<rparr>))"

lemmas ipc_defs =
  mutex_init_def mutex_destroy_def mutex_lock_def mutex_unlock_def
  sem_init_def sem_destroy_def sem_wait_def sem_post_def
  sem_open_def sem_unlink_def sem_close_def named_wait_def named_post_def
  semget_private_def semget_key_def semctl_setval_def semctl_rmid_def semop_undo_def
  mq_open_def mq_unlink_def mq_close_def mq_send_def mq_receive_def
  msgget_private_def msgctl_rmid_def msgsnd_def msgrcv_def

end
