(* ===== verification/Interleaving.thy ===== *)
theory Interleaving
  imports Prelude
begin

text \<open>
  Threads of one process as an interleaving of atomic steps. A thread is its
  index, a step function of it reads and writes the shared state and its own
  local state, and \<open>None\<close> means that it cannot move (it waits or has
  returned). The scheduler is any sequence of thread indices: \<open>run_sched\<close>
  executes one, \<open>reach\<close> is reachability under all of them.
\<close>

type_synonym ('g, 'l) tstep = "nat \<Rightarrow> 'g \<Rightarrow> 'l \<Rightarrow> ('g \<times> 'l) option"
type_synonym ('g, 'l) conf = "'g \<times> (nat \<Rightarrow> 'l)"

definition sched_step ::
    "nat \<Rightarrow> ('g, 'l) tstep \<Rightarrow> nat \<Rightarrow> ('g, 'l) conf \<Rightarrow> ('g, 'l) conf option" where
  "sched_step n ts i c =
     (if i < n then
        (case ts i (fst c) (snd c i) of
           None \<Rightarrow> None
         | Some (g, l) \<Rightarrow> Some (g, (snd c)(i := l)))
      else None)"

fun run_sched ::
    "nat \<Rightarrow> ('g, 'l) tstep \<Rightarrow> nat list \<Rightarrow> ('g, 'l) conf \<Rightarrow> ('g, 'l) conf option" where
  "run_sched n ts [] c = Some c"
| "run_sched n ts (i # is) c =
     (case sched_step n ts i c of None \<Rightarrow> None | Some c' \<Rightarrow> run_sched n ts is c')"

inductive reach :: "nat \<Rightarrow> ('g, 'l) tstep \<Rightarrow> ('g, 'l) conf \<Rightarrow> ('g, 'l) conf \<Rightarrow> bool"
  for n :: nat and ts :: "('g, 'l) tstep" and c0 :: "('g, 'l) conf" where
  reach_init: "reach n ts c0 c0"
| reach_step: "reach n ts c0 c \<Longrightarrow> sched_step n ts i c = Some c' \<Longrightarrow> reach n ts c0 c'"

text \<open>No thread can take a step.\<close>
definition stuck :: "nat \<Rightarrow> ('g, 'l) tstep \<Rightarrow> ('g, 'l) conf \<Rightarrow> bool" where
  "stuck n ts c \<longleftrightarrow> (\<forall>i<n. ts i (fst c) (snd c i) = None)"

lemma sched_step_Some:
  "sched_step n ts i c = Some c' \<longleftrightarrow>
     i < n \<and> (\<exists>g l. ts i (fst c) (snd c i) = Some (g, l) \<and> c' = (g, (snd c)(i := l)))"
  by (auto simp: sched_step_def split: option.splits)

lemma reach_trans: "reach n ts c1 c2 \<Longrightarrow> reach n ts c0 c1 \<Longrightarrow> reach n ts c0 c2"
  by (induction rule: reach.induct) (auto intro: reach.intros)

lemma reach_one: "sched_step n ts i c = Some c' \<Longrightarrow> reach n ts c c'"
  by (blast intro: reach.intros)

lemma reach_first:
  "sched_step n ts i c = Some c' \<Longrightarrow> reach n ts c' c'' \<Longrightarrow> reach n ts c c''"
  by (blast intro: reach_trans reach_one)

lemma run_sched_append:
  "run_sched n ts (is @ js) c =
     (case run_sched n ts is c of None \<Rightarrow> None | Some c' \<Rightarrow> run_sched n ts js c')"
  by (induction "is" arbitrary: c) (auto split: option.splits)

lemma run_sched_reach: "run_sched n ts is c = Some c' \<Longrightarrow> reach n ts c c'"
  by (induction "is" arbitrary: c) (auto intro: reach_init reach_first split: option.splits)

lemma reach_run_sched: "reach n ts c c' \<Longrightarrow> \<exists>is. run_sched n ts is c = Some c'"
proof (induction rule: reach.induct)
  case reach_init
  have "run_sched n ts [] c = Some c" by simp
  then show ?case by blast
next
  case (reach_step d i d')
  then obtain "is" where "run_sched n ts is c = Some d" by blast
  then have "run_sched n ts (is @ [i]) c = Some d'"
    using reach_step.hyps by (simp add: run_sched_append)
  then show ?case by blast
qed

lemma reach_iff_run: "reach n ts c c' \<longleftrightarrow> (\<exists>is. run_sched n ts is c = Some c')"
  by (blast intro: run_sched_reach reach_run_sched)

text \<open>A state found by executing a schedule is reachable.\<close>
lemma run_case:
  assumes "case run_sched n ts is c of None \<Rightarrow> False | Some c' \<Rightarrow> P c'"
  shows "\<exists>c'. reach n ts c c' \<and> P c'"
  using assms by (cases "run_sched n ts is c") (auto dest: run_sched_reach)

text \<open>The invariant rule: it holds at the start and every step of every thread keeps it.\<close>
lemma reach_invariant:
  assumes "reach n ts c0 c" and "P c0"
    and "\<And>g ls i g' l'. P (g, ls) \<Longrightarrow> i < n \<Longrightarrow> ts i g (ls i) = Some (g', l') \<Longrightarrow>
           P (g', ls(i := l'))"
  shows "P c"
  using assms(1)
proof (induction rule: reach.induct)
  case reach_init
  show ?case by (rule assms(2))
next
  case (reach_step d i d')
  then show ?case
    using assms(3) [of "fst d" "snd d" i] by (auto simp: sched_step_Some)
qed

lemma not_stuck_step:
  "\<not> stuck n ts c \<longleftrightarrow> (\<exists>i c'. sched_step n ts i c = Some c')"
  by (auto simp: stuck_def sched_step_Some)

text \<open>When every step makes a number smaller, no run is longer than the number at its start.\<close>
lemma run_bound:
  fixes m :: "('g, 'l) conf \<Rightarrow> nat"
  assumes "run_sched n ts is c = Some c'"
    and "\<And>g ls i g' l'. i < n \<Longrightarrow> ts i g (ls i) = Some (g', l') \<Longrightarrow> m (g', ls(i := l')) < m (g, ls)"
  shows "length is + m c' \<le> m c"
  using assms(1)
proof (induction "is" arbitrary: c)
  case (Cons i "is")
  obtain c1 where c1: "sched_step n ts i c = Some c1" "run_sched n ts is c1 = Some c'"
    using Cons.prems by (auto split: option.splits)
  have "m c1 < m c"
    using c1(1) assms(2) [of i "fst c" "snd c"] by (auto simp: sched_step_Some)
  then show ?case using Cons.IH [OF c1(2)] by simp
qed simp

end
