(* ===== verification/Lock_Interface.thy ===== *)
theory Lock_Interface
  imports Interleaving
begin

text \<open>
  The interface between the critical-section methods and the programs that use
  them. A method is an entry routine, taken one atomic step at a time, and an
  exit routine; a program is what its threads do outside and inside the
  critical section. \<open>locked_step\<close> composes the two the way the sources do
  (\<open>cs_enter (id)\<close>, body, \<open>cs_leave (id)\<close>). The locale
  \<open>mutex_protocol\<close> states what a method promises, \<open>simple_lock\<close> the
  common case of a single lock word, semaphore or queue, and the lemmas proved
  from these contracts hold of every method that interprets them.
\<close>

section \<open>Methods, programs and their composition\<close>

text \<open>What one step of an entry or exit routine does: it waits in the kernel,
  goes on (a busy wait stays in the routine), returns, or ends the process.\<close>
datatype ('s, 'p) lock_res = Blocked | Spin 's 'p | Passed 's | Died int 's

text \<open>Where a thread stands: outside, in the entry routine, in the critical
  section, or in the exit routine. The second parameter is the thread's own locals.\<close>
datatype ('p, 'l) phase = Out 'l | Try 'p 'l | In 'l | Leave 'l

text \<open>What one step of a program does: it goes on, calls \<open>cs_enter\<close> or
  \<open>cs_leave\<close>, or ends the process with an exit code.\<close>
datatype ('d, 'l) act = Go 'd 'l | Sync 'd 'l | Quit 'd int

record ('s, 'd) world =
  lockst :: 's
  data :: 'd
  exited :: "int option"

definition locked_step ::
  "(nat \<Rightarrow> 's \<Rightarrow> 'p \<Rightarrow> ('s, 'p) lock_res) \<Rightarrow> (nat \<Rightarrow> 's \<Rightarrow> ('s, unit) lock_res) \<Rightarrow> 'p \<Rightarrow>
   (nat \<Rightarrow> 'd \<Rightarrow> 'l \<Rightarrow> ('d, 'l) act option) \<Rightarrow> (nat \<Rightarrow> 'd \<Rightarrow> 'l \<Rightarrow> ('d, 'l) act option) \<Rightarrow>
   (('s, 'd) world, ('p, 'l) phase) tstep" where
  "locked_step enter leave start outs ins i w ph =
     (if exited w \<noteq> None then None
      else case ph of
        Out l \<Rightarrow>
          (case outs i (data w) l of
             None \<Rightarrow> None
           | Some (Go d l') \<Rightarrow> Some (w\<lparr>data := d\<rparr>, Out l')
           | Some (Sync d l') \<Rightarrow> Some (w\<lparr>data := d\<rparr>, Try start l')
           | Some (Quit d x) \<Rightarrow> Some (w\<lparr>data := d, exited := Some x\<rparr>, Out l))
      | Try p l \<Rightarrow>
          (case enter i (lockst w) p of
             Blocked \<Rightarrow> None
           | Spin s p' \<Rightarrow> Some (w\<lparr>lockst := s\<rparr>, Try p' l)
           | Passed s \<Rightarrow> Some (w\<lparr>lockst := s\<rparr>, In l)
           | Died x s \<Rightarrow> Some (w\<lparr>lockst := s, exited := Some x\<rparr>, Try p l))
      | In l \<Rightarrow>
          (case ins i (data w) l of
             None \<Rightarrow> None
           | Some (Go d l') \<Rightarrow> Some (w\<lparr>data := d\<rparr>, In l')
           | Some (Sync d l') \<Rightarrow> Some (w\<lparr>data := d\<rparr>, Leave l')
           | Some (Quit d x) \<Rightarrow> Some (w\<lparr>data := d, exited := Some x\<rparr>, In l))
      | Leave l \<Rightarrow>
          (case leave i (lockst w) of
             Blocked \<Rightarrow> None
           | Spin s u \<Rightarrow> Some (w\<lparr>lockst := s\<rparr>, Leave l)
           | Passed s \<Rightarrow> Some (w\<lparr>lockst := s\<rparr>, Out l)
           | Died x s \<Rightarrow> Some (w\<lparr>lockst := s, exited := Some x\<rparr>, Leave l)))"

text \<open>What the method sees of a thread, and what the program sees of it.\<close>
datatype 'p role = Idle | Trying 'p | Holding

fun role_of :: "('p, 'l) phase \<Rightarrow> 'p role" where
  "role_of (Out l) = Idle"
| "role_of (Try p l) = Trying p"
| "role_of (In l) = Holding"
| "role_of (Leave l) = Holding"

fun erase :: "('p, 'l) phase \<Rightarrow> (unit, 'l) phase" where
  "erase (Out l) = Out l"
| "erase (Try p l) = Try () l"
| "erase (In l) = In l"
| "erase (Leave l) = Leave l"

abbreviation roles :: "(nat \<Rightarrow> ('p, 'l) phase) \<Rightarrow> nat \<Rightarrow> 'p role" where
  "roles ls \<equiv> role_of \<circ> ls"

abbreviation phases :: "(nat \<Rightarrow> ('p, 'l) phase) \<Rightarrow> nat \<Rightarrow> (unit, 'l) phase" where
  "phases ls \<equiv> erase \<circ> ls"

definition alone :: "nat \<Rightarrow> (nat \<Rightarrow> ('p, 'l) phase) \<Rightarrow> nat \<Rightarrow> bool" where
  "alone n c i \<longleftrightarrow> (\<forall>j<n. j \<noteq> i \<longrightarrow> role_of (c j) \<noteq> Holding)"

lemma role_of_Idle: "role_of x = Idle \<longleftrightarrow> (\<exists>l. x = Out l)"
  by (cases x) auto

lemma role_of_Trying: "role_of x = Trying p \<longleftrightarrow> (\<exists>l. x = Try p l)"
  by (cases x) auto

lemma role_of_Holding: "role_of x = Holding \<longleftrightarrow> (\<exists>l. x = In l \<or> x = Leave l)"
  by (cases x) auto

lemma holding_erase [simp]: "role_of (erase x) = Holding \<longleftrightarrow> role_of x = Holding"
  by (cases x) auto

lemma alone_phases [simp]: "alone n (phases ls) i \<longleftrightarrow> alone n ls i"
  by (simp add: alone_def)

lemma roles_upd: "roles (ls(i := x)) = (roles ls)(i := role_of x)"
  by (simp add: fun_upd_comp)

lemma phases_upd: "phases (ls(i := x)) = (phases ls)(i := erase x)"
  by (simp add: fun_upd_comp)

lemma erase_simps:
  "erase x = Out l \<longleftrightarrow> x = Out l"
  "erase x = Try () l \<longleftrightarrow> (\<exists>p. x = Try p l)"
  "erase x = In l \<longleftrightarrow> x = In l"
  "erase x = Leave l \<longleftrightarrow> x = Leave l"
  by (cases x; auto)+

text \<open>One lemma per phase: what a step of \<open>locked_step\<close> is there.\<close>

lemma locked_step_cases:
  assumes "locked_step enter leave start outs ins i w ph = Some (w', ph')"
  obtains
    (out_go) l d l' where "exited w = None" "ph = Out l" "outs i (data w) l = Some (Go d l')"
      "w' = w\<lparr>data := d\<rparr>" "ph' = Out l'"
  | (out_sync) l d l' where "exited w = None" "ph = Out l" "outs i (data w) l = Some (Sync d l')"
      "w' = w\<lparr>data := d\<rparr>" "ph' = Try start l'"
  | (out_quit) l d x where "exited w = None" "ph = Out l" "outs i (data w) l = Some (Quit d x)"
      "w' = w\<lparr>data := d, exited := Some x\<rparr>" "ph' = Out l"
  | (spin) p l s p' where "exited w = None" "ph = Try p l" "enter i (lockst w) p = Spin s p'"
      "w' = w\<lparr>lockst := s\<rparr>" "ph' = Try p' l"
  | (passed) p l s where "exited w = None" "ph = Try p l" "enter i (lockst w) p = Passed s"
      "w' = w\<lparr>lockst := s\<rparr>" "ph' = In l"
  | (died) p l s x where "exited w = None" "ph = Try p l" "enter i (lockst w) p = Died x s"
      "w' = w\<lparr>lockst := s, exited := Some x\<rparr>" "ph' = Try p l"
  | (in_go) l d l' where "exited w = None" "ph = In l" "ins i (data w) l = Some (Go d l')"
      "w' = w\<lparr>data := d\<rparr>" "ph' = In l'"
  | (in_sync) l d l' where "exited w = None" "ph = In l" "ins i (data w) l = Some (Sync d l')"
      "w' = w\<lparr>data := d\<rparr>" "ph' = Leave l'"
  | (in_quit) l d x where "exited w = None" "ph = In l" "ins i (data w) l = Some (Quit d x)"
      "w' = w\<lparr>data := d, exited := Some x\<rparr>" "ph' = In l"
  | (leave_spin) l s where "exited w = None" "ph = Leave l" "leave i (lockst w) = Spin s ()"
      "w' = w\<lparr>lockst := s\<rparr>" "ph' = Leave l"
  | (left) l s where "exited w = None" "ph = Leave l" "leave i (lockst w) = Passed s"
      "w' = w\<lparr>lockst := s\<rparr>" "ph' = Out l"
  | (leave_died) l s x where "exited w = None" "ph = Leave l" "leave i (lockst w) = Died x s"
      "w' = w\<lparr>lockst := s, exited := Some x\<rparr>" "ph' = Leave l"
  using assms unfolding locked_step_def
  by (auto split: if_splits phase.splits option.splits act.splits lock_res.splits)

text \<open>A property of the method's state that no entry or exit step can break holds throughout.\<close>
lemma lock_frame:
  assumes "reach n (locked_step enter leave start outs ins) c0 c" and "P (lockst (fst c0))"
    and spin: "\<And>i s p s' p'. P s \<Longrightarrow> enter i s p = Spin s' p' \<Longrightarrow> P s'"
    and pass: "\<And>i s p s'. P s \<Longrightarrow> enter i s p = Passed s' \<Longrightarrow> P s'"
    and died: "\<And>i s p x s'. P s \<Longrightarrow> enter i s p = Died x s' \<Longrightarrow> P s'"
    and lspin: "\<And>i s s'. P s \<Longrightarrow> leave i s = Spin s' () \<Longrightarrow> P s'"
    and left: "\<And>i s s'. P s \<Longrightarrow> leave i s = Passed s' \<Longrightarrow> P s'"
    and ldied: "\<And>i s x s'. P s \<Longrightarrow> leave i s = Died x s' \<Longrightarrow> P s'"
  shows "P (lockst (fst c))"
  using assms(1,2)
proof (induction rule: reach.induct)
  case (reach_step d i d')
  then obtain w' ph' where st: "locked_step enter leave start outs ins i (fst d) (snd d i) = Some (w', ph')"
    and d': "d' = (w', (snd d)(i := ph'))"
    by (auto simp: sched_step_Some)
  have P: "P (lockst (fst d))" using reach_step by blast
  show ?case
    using st by (cases rule: locked_step_cases)
      (auto simp: d' P intro: spin [OF P] pass [OF P] died [OF P] lspin [OF P] left [OF P] ldied [OF P])
qed

end
