(* ===== verification/Critical_Section.thy ===== *)
theory Critical_Section
  imports Lock_Interface
begin

text \<open>
  The contracts. \<open>mutex_protocol\<close>: what an entry/exit protocol promises its
  callers. \<open>simple_lock\<close>: a lock that is free or held by one thread, which is
  a \<open>mutex_protocol\<close>. \<open>cs_client\<close>: an invariant of a program that
  may assume mutual exclusion inside its critical section. \<open>locked_program\<close>:
  the two together give the invariant of every interleaving, and
  \<open>live_program\<close> adds that the end can be reached from everywhere.
\<close>

section \<open>What a protocol promises\<close>

text \<open>\<open>J\<close> relates the protocol's state to the roles of the threads, and \<open>dies\<close>
  are the exit codes with which the protocol itself may end the process.\<close>

locale mutex_protocol =
  fixes n :: nat
    and enter :: "nat \<Rightarrow> 's \<Rightarrow> 'p \<Rightarrow> ('s, 'p) lock_res"
    and leave :: "nat \<Rightarrow> 's \<Rightarrow> ('s, unit) lock_res"
    and start :: 'p
    and dies :: "int \<Rightarrow> bool"
    and J :: "'s \<Rightarrow> (nat \<Rightarrow> 'p role) \<Rightarrow> bool"
  assumes J_start: "J s r \<Longrightarrow> i < n \<Longrightarrow> r i = Idle \<Longrightarrow> J s (r(i := Trying start))"
    and J_spin: "J s r \<Longrightarrow> i < n \<Longrightarrow> r i = Trying p \<Longrightarrow> enter i s p = Spin s' p' \<Longrightarrow>
                   J s' (r(i := Trying p'))"
    and J_pass: "J s r \<Longrightarrow> i < n \<Longrightarrow> r i = Trying p \<Longrightarrow> enter i s p = Passed s' \<Longrightarrow>
                   J s' (r(i := Holding))"
    and J_died: "J s r \<Longrightarrow> i < n \<Longrightarrow> r i = Trying p \<Longrightarrow> enter i s p = Died x s' \<Longrightarrow>
                   dies x \<and> J s' r"
    and J_left: "J s r \<Longrightarrow> i < n \<Longrightarrow> r i = Holding \<Longrightarrow> leave i s = Passed s' \<Longrightarrow>
                   J s' (r(i := Idle))"
    and J_lspin: "J s r \<Longrightarrow> i < n \<Longrightarrow> r i = Holding \<Longrightarrow> leave i s = Spin s' u \<Longrightarrow> J s' r"
    and J_ldied: "J s r \<Longrightarrow> i < n \<Longrightarrow> r i = Holding \<Longrightarrow> leave i s = Died x s' \<Longrightarrow>
                   dies x \<and> J s' r"
    and J_excl: "J s r \<Longrightarrow> i < n \<Longrightarrow> j < n \<Longrightarrow> r i = Holding \<Longrightarrow> r j = Holding \<Longrightarrow> i = j"

text \<open>A protocol that never ends the process, whose exit routine returns at once, and
  whose entry routine lets somebody in when nobody is inside.\<close>

locale live_protocol = mutex_protocol n enter leave start "\<lambda>_. False" J
  for n :: nat
    and enter :: "nat \<Rightarrow> 's \<Rightarrow> 'p \<Rightarrow> ('s, 'p) lock_res"
    and leave :: "nat \<Rightarrow> 's \<Rightarrow> ('s, unit) lock_res"
    and start :: 'p
    and J :: "'s \<Rightarrow> (nat \<Rightarrow> 'p role) \<Rightarrow> bool" +
  fixes rank :: "'s \<Rightarrow> (nat \<Rightarrow> 'p role) \<Rightarrow> nat"
  assumes J_leaves: "J s r \<Longrightarrow> i < n \<Longrightarrow> r i = Holding \<Longrightarrow> \<exists>s'. leave i s = Passed s'"
    and J_progress: "J s r \<Longrightarrow> j < n \<Longrightarrow> r j = Trying q \<Longrightarrow> \<forall>k<n. r k \<noteq> Holding \<Longrightarrow>
                   \<exists>i p. i < n \<and> r i = Trying p \<and>
                     ((\<exists>s'. enter i s p = Passed s') \<or>
                      (\<exists>s' p'. enter i s p = Spin s' p' \<and> rank s' (r(i := Trying p')) < rank s r))"

text \<open>A lock whose state is free (\<open>None\<close>) or held by one thread.\<close>

locale simple_lock =
  fixes enter :: "nat \<Rightarrow> 's \<Rightarrow> 'p \<Rightarrow> ('s, 'p) lock_res"
    and leave :: "nat \<Rightarrow> 's \<Rightarrow> ('s, unit) lock_res"
    and start :: 'p
    and dies :: "int \<Rightarrow> bool"
    and lk :: "'s \<Rightarrow> nat option \<Rightarrow> bool"
  assumes lk_pass: "lk s h \<Longrightarrow> h \<noteq> Some i \<Longrightarrow> enter i s p = Passed s' \<Longrightarrow> h = None \<and> lk s' (Some i)"
    and lk_spin: "lk s h \<Longrightarrow> h \<noteq> Some i \<Longrightarrow> enter i s p = Spin s' p' \<Longrightarrow> lk s' h"
    and lk_died: "lk s h \<Longrightarrow> h \<noteq> Some i \<Longrightarrow> enter i s p = Died x s' \<Longrightarrow> dies x \<and> lk s' h"
    and lk_left: "lk s (Some i) \<Longrightarrow> leave i s = Passed s' \<Longrightarrow> lk s' None"
    and lk_lspin: "lk s (Some i) \<Longrightarrow> leave i s = Spin s' u \<Longrightarrow> lk s' (Some i)"
    and lk_ldied: "lk s (Some i) \<Longrightarrow> leave i s = Died x s' \<Longrightarrow> dies x \<and> lk s' (Some i)"

locale live_lock = simple_lock enter leave start "\<lambda>_. False" lk
  for enter :: "nat \<Rightarrow> 's \<Rightarrow> 'p \<Rightarrow> ('s, 'p) lock_res"
    and leave :: "nat \<Rightarrow> 's \<Rightarrow> ('s, unit) lock_res"
    and start :: 'p
    and lk :: "'s \<Rightarrow> nat option \<Rightarrow> bool" +
  fixes prank :: "'p \<Rightarrow> nat"
  assumes lk_leaves: "lk s (Some i) \<Longrightarrow> \<exists>s'. leave i s = Passed s'"
    and lk_free: "lk s None \<Longrightarrow> (\<exists>s'. enter i s p = Passed s') \<or>
                    (\<exists>s' p'. enter i s p = Spin s' p' \<and> prank p' < prank p)"

text \<open>The protocol invariant of a simple lock: some holder explains the lock word,
  and exactly the holder is in the critical section.\<close>

definition lock_J ::
    "nat \<Rightarrow> ('s \<Rightarrow> nat option \<Rightarrow> bool) \<Rightarrow> 's \<Rightarrow> (nat \<Rightarrow> 'p role) \<Rightarrow> bool" where
  "lock_J n lk s r \<longleftrightarrow>
     (\<exists>h. lk s h \<and> (\<forall>i. h = Some i \<longrightarrow> i < n) \<and> (\<forall>i<n. r i = Holding \<longleftrightarrow> h = Some i))"

fun role_rank :: "('p \<Rightarrow> nat) \<Rightarrow> 'p role \<Rightarrow> nat" where
  "role_rank pr (Trying p) = pr p"
| "role_rank pr Idle = 0"
| "role_rank pr Holding = 0"

definition lock_rank :: "nat \<Rightarrow> ('p \<Rightarrow> nat) \<Rightarrow> 's \<Rightarrow> (nat \<Rightarrow> 'p role) \<Rightarrow> nat" where
  "lock_rank n pr s r = (\<Sum>i<n. role_rank pr (r i))"

lemma lock_JI:
  "lk s h \<Longrightarrow> (\<And>i. h = Some i \<Longrightarrow> i < n) \<Longrightarrow> (\<And>i. i < n \<Longrightarrow> r i = Holding \<longleftrightarrow> h = Some i) \<Longrightarrow>
     lock_J n lk s r"
  unfolding lock_J_def by blast

sublocale simple_lock \<subseteq> mutex_protocol n enter leave start dies "lock_J n lk" for n
proof unfold_locales
  fix s :: 's and r :: "nat \<Rightarrow> 'p role" and i
  assume J: "lock_J n lk s r" and i: "i < n"
  obtain h where h: "lk s h" "\<And>k. h = Some k \<Longrightarrow> k < n"
      "\<And>k. k < n \<Longrightarrow> r k = Holding \<longleftrightarrow> h = Some k" "r i = Holding \<longleftrightarrow> h = Some i"
    using J i unfolding lock_J_def by blast
  { assume "r i = Idle"
    then show "lock_J n lk s (r(i := Trying start))"
      using h i by (intro lock_JI [of lk s h]) auto }
  { fix p assume r: "r i = Trying p"
    have hi: "h \<noteq> Some i" using h(4) r by auto
    { fix s' p' assume "enter i s p = Spin s' p'"
      from lk_spin [OF h(1) hi this] show "lock_J n lk s' (r(i := Trying p'))"
        using h hi i by (intro lock_JI [of lk s' h]) auto }
    { fix s' assume "enter i s p = Passed s'"
      from lk_pass [OF h(1) hi this] show "lock_J n lk s' (r(i := Holding))"
        using h i by (intro lock_JI [of lk s' "Some i"]) auto }
    { fix x s' assume "enter i s p = Died x s'"
      from lk_died [OF h(1) hi this] show "dies x \<and> lock_J n lk s' r"
        using h by (auto intro: lock_JI) } }
  { assume r: "r i = Holding"
    have hi: "h = Some i" using h(4) r by auto
    note held = h(1) [unfolded hi]
    { fix s' assume "leave i s = Passed s'"
      from lk_left [OF held this] show "lock_J n lk s' (r(i := Idle))"
        using h hi i by (intro lock_JI [of lk s' None]) auto }
    { fix s' u assume "leave i s = Spin s' u"
      from lk_lspin [OF held this] show "lock_J n lk s' r"
        using h hi by (auto intro: lock_JI) }
    { fix x s' assume "leave i s = Died x s'"
      from lk_ldied [OF held this] show "dies x \<and> lock_J n lk s' r"
        using h hi by (auto intro: lock_JI) } }
  { fix j assume "j < n" "r i = Holding" "r j = Holding"
    then show "i = j" using h(3,4) by auto }
qed

sublocale live_lock \<subseteq> live_protocol n enter leave start "lock_J n lk" "lock_rank n prank" for n
proof unfold_locales
  fix s :: 's and r :: "nat \<Rightarrow> 'p role" and i
  assume J: "lock_J n lk s r" and i: "i < n"
  obtain h where h: "lk s h" "\<And>k. h = Some k \<Longrightarrow> k < n"
      "\<And>k. k < n \<Longrightarrow> r k = Holding \<longleftrightarrow> h = Some k" "r i = Holding \<longleftrightarrow> h = Some i"
    using J i unfolding lock_J_def by blast
  { assume "r i = Holding"
    then show "\<exists>s'. leave i s = Passed s'" using lk_leaves h by blast }
  { fix q assume r: "r i = Trying q" and no: "\<forall>k<n. r k \<noteq> Holding"
    have hN: "h = None"
    proof (cases h)
      case (Some k)
      then show ?thesis using h no by auto
    qed simp
    have *: "lock_rank n prank s' (r(i := Trying p')) < lock_rank n prank s r"
      if "prank p' < prank q" for s' p'
      unfolding lock_rank_def using that r i
      by (intro sum_upd_less [where f = "role_rank prank"]) auto
    have "(\<exists>s'. enter i s q = Passed s') \<or>
             (\<exists>s' p'. enter i s q = Spin s' p' \<and>
                lock_rank n prank s' (r(i := Trying p')) < lock_rank n prank s r)"
      using lk_free [OF h(1) [unfolded hN], of i q] * by metis
    then show "\<exists>i p. i < n \<and> r i = Trying p \<and>
            ((\<exists>s'. enter i s p = Passed s') \<or>
             (\<exists>s' p'. enter i s p = Spin s' p' \<and>
                lock_rank n prank s' (r(i := Trying p')) < lock_rank n prank s r))"
      using i r by (intro exI conjI) }
qed

section \<open>What a program promises, and the composition\<close>

text \<open>\<open>Q\<close> is the program's invariant over its data and the phases of its
  threads; inside the critical section it is used and kept with no other thread
  inside. \<open>R\<close> is what holds when the process ends with an exit code.\<close>

locale cs_client =
  fixes n :: nat
    and outs :: "nat \<Rightarrow> 'd \<Rightarrow> 'l \<Rightarrow> ('d, 'l) act option"
    and ins :: "nat \<Rightarrow> 'd \<Rightarrow> 'l \<Rightarrow> ('d, 'l) act option"
    and Q :: "'d \<Rightarrow> (nat \<Rightarrow> (unit, 'l) phase) \<Rightarrow> bool"
    and R :: "'d \<Rightarrow> int \<Rightarrow> bool"
  assumes Q_out_go: "Q d c \<Longrightarrow> i < n \<Longrightarrow> c i = Out l \<Longrightarrow> outs i d l = Some (Go d' l') \<Longrightarrow>
                       Q d' (c(i := Out l'))"
    and Q_out_sync: "Q d c \<Longrightarrow> i < n \<Longrightarrow> c i = Out l \<Longrightarrow> outs i d l = Some (Sync d' l') \<Longrightarrow>
                       Q d' (c(i := Try () l'))"
    and Q_out_quit: "Q d c \<Longrightarrow> i < n \<Longrightarrow> c i = Out l \<Longrightarrow> outs i d l = Some (Quit d' x) \<Longrightarrow>
                       R d' x"
    and Q_enter: "Q d c \<Longrightarrow> i < n \<Longrightarrow> c i = Try () l \<Longrightarrow> alone n c i \<Longrightarrow> Q d (c(i := In l))"
    and Q_in_go: "Q d c \<Longrightarrow> i < n \<Longrightarrow> c i = In l \<Longrightarrow> alone n c i \<Longrightarrow>
                       ins i d l = Some (Go d' l') \<Longrightarrow> Q d' (c(i := In l'))"
    and Q_in_sync: "Q d c \<Longrightarrow> i < n \<Longrightarrow> c i = In l \<Longrightarrow> alone n c i \<Longrightarrow>
                       ins i d l = Some (Sync d' l') \<Longrightarrow> Q d' (c(i := Leave l'))"
    and Q_in_quit: "Q d c \<Longrightarrow> i < n \<Longrightarrow> c i = In l \<Longrightarrow> alone n c i \<Longrightarrow>
                       ins i d l = Some (Quit d' x) \<Longrightarrow> R d' x"
    and Q_leave: "Q d c \<Longrightarrow> i < n \<Longrightarrow> c i = Leave l \<Longrightarrow> alone n c i \<Longrightarrow> Q d (c(i := Out l))"

locale locked_program =
  mutex_protocol n enter leave start dies J + cs_client n outs ins Q R
  for n :: nat
    and enter :: "nat \<Rightarrow> 's \<Rightarrow> 'p \<Rightarrow> ('s, 'p) lock_res"
    and leave :: "nat \<Rightarrow> 's \<Rightarrow> ('s, unit) lock_res"
    and start :: 'p
    and dies :: "int \<Rightarrow> bool"
    and J :: "'s \<Rightarrow> (nat \<Rightarrow> 'p role) \<Rightarrow> bool"
    and outs :: "nat \<Rightarrow> 'd \<Rightarrow> 'l \<Rightarrow> ('d, 'l) act option"
    and ins :: "nat \<Rightarrow> 'd \<Rightarrow> 'l \<Rightarrow> ('d, 'l) act option"
    and Q :: "'d \<Rightarrow> (nat \<Rightarrow> (unit, 'l) phase) \<Rightarrow> bool"
    and R :: "'d \<Rightarrow> int \<Rightarrow> bool"
begin

lemma alone_holder:
  assumes "J s (roles ls)" and "i < n" and "role_of (ls i) = Holding"
  shows "alone n ls i"
  unfolding alone_def using assms J_excl [OF assms(1)] by (metis comp_apply)

lemma alone_entered:
  assumes "J s (roles ls)" and "i < n" and "role_of (ls i) = Trying p" and "enter i s p = Passed s'"
  shows "alone n ls i"
proof -
  have "J s' ((roles ls)(i := Holding))"
    by (rule J_pass [OF assms(1,2) _ assms(4)]) (simp add: assms)
  from J_excl [OF this] show ?thesis
    unfolding alone_def using assms(2) by (metis comp_apply fun_upd_other fun_upd_same)
qed

text \<open>The invariant of the composition: the protocol's, and the program's until the
  process has ended, its result afterwards.\<close>
definition inv :: "('s, 'd) world \<times> (nat \<Rightarrow> ('p, 'l) phase) \<Rightarrow> bool" where
  "inv c \<longleftrightarrow> J (lockst (fst c)) (roles (snd c)) \<and>
     (case exited (fst c) of
        None \<Rightarrow> Q (data (fst c)) (phases (snd c))
      | Some x \<Rightarrow> R (data (fst c)) x \<or> dies x)"

lemma inv_start:
  "J s (\<lambda>_. Idle) \<Longrightarrow> Q d (phases (\<lambda>i. Out (l i))) \<Longrightarrow>
     inv (\<lparr>lockst = s, data = d, exited = None\<rparr>, \<lambda>i. Out (l i))"
  by (simp add: inv_def comp_def)

lemma inv_step:
  assumes "inv (w, ls)" and "i < n"
    and "locked_step enter leave start outs ins i w (ls i) = Some (w', ph')"
  shows "inv (w', ls(i := ph'))"
  using assms(3)
proof (cases rule: locked_step_cases)
  case (out_go l d l')
  have "role_of (ls i) = role_of ph'" using out_go by simp
  then have "roles (ls(i := ph')) = roles ls" by (auto simp: fun_eq_iff)
  then show ?thesis
    using assms(1,2) out_go Q_out_go [of "data w" "phases ls" i l d l']
    by (simp add: inv_def phases_upd)
next
  case (out_sync l d l')
  then show ?thesis
    using assms(1,2) Q_out_sync [of "data w" "phases ls" i l d l']
      J_start [of "lockst w" "roles ls" i]
    by (simp add: inv_def phases_upd roles_upd)
next
  case (out_quit l d x)
  have "role_of (ls i) = role_of ph'" using out_quit by simp
  then have "roles (ls(i := ph')) = roles ls" by (auto simp: fun_eq_iff)
  then show ?thesis
    using assms(1,2) out_quit Q_out_quit [of "data w" "phases ls" i l d x]
    by (simp add: inv_def)
next
  case (spin p l s p')
  have "phases (ls(i := ph')) = phases ls" using spin by (auto simp: fun_eq_iff)
  then show ?thesis
    using assms(1,2) spin J_spin [of "lockst w" "roles ls" i p s p']
    by (simp add: inv_def roles_upd)
next
  case (passed p l s)
  have "alone n ls i"
    using assms(1,2) passed alone_entered [of "lockst w" ls i p s] by (simp add: inv_def)
  then show ?thesis
    using assms(1,2) passed J_pass [of "lockst w" "roles ls" i p s]
      Q_enter [of "data w" "phases ls" i l]
    by (simp add: inv_def roles_upd phases_upd)
next
  case (died p l s x)
  moreover have "ls(i := ph') = ls" using died by auto
  ultimately show ?thesis
    using assms(1,2) J_died [of "lockst w" "roles ls" i p x s] by (auto simp: inv_def)
next
  case (in_go l d l')
  have "alone n ls i"
    using assms(1,2) in_go alone_holder [of "lockst w" ls i] by (simp add: inv_def)
  moreover have "roles (ls(i := ph')) = roles ls" using in_go by (auto simp: fun_eq_iff)
  ultimately show ?thesis
    using assms(1,2) in_go Q_in_go [of "data w" "phases ls" i l d l']
    by (simp add: inv_def phases_upd)
next
  case (in_sync l d l')
  have "alone n ls i"
    using assms(1,2) in_sync alone_holder [of "lockst w" ls i] by (simp add: inv_def)
  moreover have "roles (ls(i := ph')) = roles ls" using in_sync by (auto simp: fun_eq_iff)
  ultimately show ?thesis
    using assms(1,2) in_sync Q_in_sync [of "data w" "phases ls" i l d l']
    by (simp add: inv_def phases_upd)
next
  case (in_quit l d x)
  have "alone n ls i"
    using assms(1,2) in_quit alone_holder [of "lockst w" ls i] by (simp add: inv_def)
  moreover have "roles (ls(i := ph')) = roles ls" using in_quit by (auto simp: fun_eq_iff)
  ultimately show ?thesis
    using assms(1,2) in_quit Q_in_quit [of "data w" "phases ls" i l d x]
    by (simp add: inv_def)
next
  case (leave_spin l s)
  moreover have "ls(i := ph') = ls" using leave_spin by auto
  ultimately show ?thesis
    using assms(1,2) J_lspin [of "lockst w" "roles ls" i s] by (auto simp: inv_def)
next
  case (left l s)
  have "alone n ls i"
    using assms(1,2) left alone_holder [of "lockst w" ls i] by (simp add: inv_def)
  moreover have "J s ((roles ls)(i := Idle))"
    using assms(1,2) left J_left [of "lockst w" "roles ls" i s] by (simp add: inv_def)
  ultimately show ?thesis
    using assms(1,2) left Q_leave [of "data w" "phases ls" i l]
    by (simp add: inv_def phases_upd roles_upd)
next
  case (leave_died l s x)
  moreover have "ls(i := ph') = ls" using leave_died by auto
  ultimately show ?thesis
    using assms(1,2) J_ldied [of "lockst w" "roles ls" i x s] by (auto simp: inv_def)
qed

lemma inv_reach:
  assumes "reach n (locked_step enter leave start outs ins) c0 c" and "inv c0"
  shows "inv c"
  using assms by (rule reach_invariant) (rule inv_step)

lemma mutual_exclusion:
  assumes "reach n (locked_step enter leave start outs ins) c0 c" and "inv c0"
    and "i < n" "j < n" "role_of (snd c i) = Holding" "role_of (snd c j) = Holding"
  shows "i = j"
  using inv_reach [OF assms(1,2)] assms(3-) J_excl [of _ "roles (snd c)" i j] by (auto simp: inv_def)

lemma result:
  assumes "reach n (locked_step enter leave start outs ins) c0 c" and "inv c0"
    and "exited (fst c) = Some x"
  shows "R (data (fst c)) x \<or> dies x"
  using inv_reach [OF assms(1,2)] assms(3) by (simp add: inv_def)

lemma running:
  assumes "reach n (locked_step enter leave start outs ins) c0 c" and "inv c0"
    and "exited (fst c) = None"
  shows "Q (data (fst c)) (phases (snd c))"
  using inv_reach [OF assms(1,2)] assms(3) by (simp add: inv_def)

end

text \<open>What a protocol promises whatever the program does.\<close>

sublocale mutex_protocol \<subseteq>
    any: locked_program n enter leave start dies J outs ins "\<lambda>_ _. True" "\<lambda>_ _. True" for outs ins
  by unfold_locales simp_all

context mutex_protocol
begin

lemma any_inv:
  "J s (\<lambda>_. Idle) \<Longrightarrow>
     any.inv (\<lparr>lockst = s, data = d, exited = None\<rparr>, \<lambda>i. Out (l i))"
  by (simp add: any.inv_def comp_def)

lemma J_step:
  assumes "J (lockst w) (roles ls)" "i < n"
    and "locked_step enter leave start outs ins i w (ls i) = Some (w', ph')"
  shows "J (lockst w') (roles (ls(i := ph')))"
  using any.inv_step [where w = w and ls = ls, OF _ assms(2,3)] assms(1) by (simp add: any.inv_def split: option.splits)

lemma J_reach:
  assumes "J s (\<lambda>_. Idle)"
    and "reach n (locked_step enter leave start outs ins)
           (\<lparr>lockst = s, data = d, exited = None\<rparr>, \<lambda>i. Out (l i)) c"
  shows "J (lockst (fst c)) (roles (snd c))"
  using any.inv_reach [OF assms(2) any_inv [OF assms(1)]] by (simp add: any.inv_def)

lemma exclusion:
  assumes "J s (\<lambda>_. Idle)"
    and "reach n (locked_step enter leave start outs ins)
           (\<lparr>lockst = s, data = d, exited = None\<rparr>, \<lambda>i. Out (l i)) c"
    and "i < n" "j < n" "role_of (snd c i) = Holding" "role_of (snd c j) = Holding"
  shows "i = j"
  using any.mutual_exclusion [OF assms(2) any_inv [OF assms(1)] assms(3-)] .

end

section \<open>Getting in\<close>

locale live_locked =
  live_protocol n enter leave start J rank +
  locked_program n enter leave start "\<lambda>_. False" J outs ins Q R
  for n :: nat
    and enter :: "nat \<Rightarrow> 's \<Rightarrow> 'p \<Rightarrow> ('s, 'p) lock_res"
    and leave :: "nat \<Rightarrow> 's \<Rightarrow> ('s, unit) lock_res"
    and start :: 'p
    and J :: "'s \<Rightarrow> (nat \<Rightarrow> 'p role) \<Rightarrow> bool"
    and rank :: "'s \<Rightarrow> (nat \<Rightarrow> 'p role) \<Rightarrow> nat"
    and outs :: "nat \<Rightarrow> 'd \<Rightarrow> 'l \<Rightarrow> ('d, 'l) act option"
    and ins :: "nat \<Rightarrow> 'd \<Rightarrow> 'l \<Rightarrow> ('d, 'l) act option"
    and Q :: "'d \<Rightarrow> (nat \<Rightarrow> (unit, 'l) phase) \<Rightarrow> bool"
    and R :: "'d \<Rightarrow> int \<Rightarrow> bool"
begin

text \<open>While nobody is inside and somebody wants in, somebody gets in: entry steps alone
  lead there, and the program notices nothing but that entry.\<close>
lemma enterable:
  assumes "inv (w, ls)" "exited w = None" "j < n" "role_of (ls j) = Trying q"
    and "\<forall>k<n. role_of (ls k) \<noteq> Holding"
  shows "\<exists>c' i l. reach n (locked_step enter leave start outs ins) (w, ls) c' \<and> inv c' \<and>
           exited (fst c') = None \<and> data (fst c') = data w \<and> i < n \<and>
           phases ls i = Try () l \<and> phases (snd c') = (phases ls)(i := In l)"
  using assms
proof (induction "rank (lockst w) (roles ls)" arbitrary: w ls j q rule: less_induct)
  case less
  let ?step = "locked_step enter leave start outs ins"
  have J: "J (lockst w) (roles ls)"
    using less.prems(1) by (simp add: inv_def)
  obtain i p where i: "i < n" "role_of (ls i) = Trying p"
    and or: "(\<exists>s'. enter i (lockst w) p = Passed s') \<or>
       (\<exists>s' p'. enter i (lockst w) p = Spin s' p' \<and>
          rank s' ((roles ls)(i := Trying p')) < rank (lockst w) (roles ls))"
    using J_progress [OF J, of j q] less.prems(3,4,5) by auto
  obtain l where l: "ls i = Try p l" using i(2) by (auto simp: role_of_Trying)
  from or show ?case
  proof (elim disjE exE conjE)
    fix s' assume e: "enter i (lockst w) p = Passed s'"
    have st: "?step i w (ls i) = Some (w\<lparr>lockst := s'\<rparr>, In l)"
      using e l less.prems(2) by (simp add: locked_step_def)
    have "reach n ?step (w, ls) (w\<lparr>lockst := s'\<rparr>, ls(i := In l))"
      by (rule reach_one [of _ _ i]) (simp add: sched_step_def i(1) st)
    then show ?thesis
      using inv_step [OF less.prems(1) i(1) st] i l less.prems(2)
      by (intro exI [of _ "(w\<lparr>lockst := s'\<rparr>, ls(i := In l))"] exI [of _ i] exI [of _ l])
        (simp add: phases_upd)
  next
    fix s' p' assume e: "enter i (lockst w) p = Spin s' p'"
      and r: "rank s' ((roles ls)(i := Trying p')) < rank (lockst w) (roles ls)"
    let ?w = "w\<lparr>lockst := s'\<rparr>" and ?ls = "ls(i := Try p' l)"
    have st: "?step i w (ls i) = Some (?w, Try p' l)"
      using e l less.prems(2) by (simp add: locked_step_def)
    have one: "sched_step n ?step i (w, ls) = Some (?w, ?ls)"
      using i(1) st by (simp add: sched_step_def)
    have eq: "phases ?ls = phases ls" using l by (auto simp: fun_eq_iff)
    have rk: "rank (lockst ?w) (roles ?ls) < rank (lockst w) (roles ls)"
      using r by (simp add: roles_upd)
    have "\<exists>c' i l. reach n ?step (?w, ?ls) c' \<and> inv c' \<and>
           exited (fst c') = None \<and> data (fst c') = data ?w \<and> i < n \<and>
           phases ?ls i = Try () l \<and> phases (snd c') = (phases ?ls)(i := In l)"
      by (rule less.hyps [OF rk inv_step [OF less.prems(1) i(1) st] _ i(1), of p'])
        (use less.prems in auto)
    then show ?thesis unfolding eq using reach_first [OF one] by auto
  qed
qed

end

sublocale live_protocol \<subseteq>
    any: live_locked n enter leave start J rank outs ins "\<lambda>_ _. True" "\<lambda>_ _. True" for outs ins
  by unfold_locales

context live_protocol
begin

lemma entry_possible:
  assumes "J s (\<lambda>_. Idle)"
    and "reach n (locked_step enter leave start outs ins)
           (\<lparr>lockst = s, data = d, exited = None\<rparr>, \<lambda>i. Out (l i)) c"
    and "exited (fst c) = None" "j < n" "role_of (snd c j) = Trying q"
  shows "\<exists>c' i. reach n (locked_step enter leave start outs ins) c c' \<and> i < n \<and>
           role_of (snd c' i) = Holding"
proof (cases "\<exists>k<n. role_of (snd c k) = Holding")
  case True
  then show ?thesis by (blast intro: reach_init)
next
  case False
  have inv: "any.inv (fst c, snd c)"
    using any.inv_reach [OF assms(2) any_inv [OF assms(1)]] by simp
  obtain c' i k where c': "reach n (locked_step enter leave start outs ins) c c'" "i < n"
      "phases (snd c') = (phases (snd c))(i := In k)"
    using any.enterable [OF inv assms(3-5), of outs ins] False by fastforce
  then have "erase (snd c' i) = In k" by (metis comp_apply fun_upd_same)
  then have "role_of (snd c' i) = Holding" by (auto simp: erase_simps)
  then show ?thesis using c' by blast
qed

end

lemma lock_J_free: "lk s None \<Longrightarrow> lock_J n lk s (\<lambda>_. Idle)"
  unfolding lock_J_def by (intro exI [of _ None]) auto

section \<open>Reaching the end\<close>

text \<open>Every step of the program outside busy waiting makes \<open>mu\<close> smaller, inside
  the critical section a thread can always go on, and when every thread is outside
  one of them can, unless the program is finished (\<open>fin\<close>).\<close>

locale live_client = cs_client n outs ins Q R
  for n :: nat
    and outs :: "nat \<Rightarrow> 'd \<Rightarrow> 'l \<Rightarrow> ('d, 'l) act option"
    and ins :: "nat \<Rightarrow> 'd \<Rightarrow> 'l \<Rightarrow> ('d, 'l) act option"
    and Q :: "'d \<Rightarrow> (nat \<Rightarrow> (unit, 'l) phase) \<Rightarrow> bool"
    and R :: "'d \<Rightarrow> int \<Rightarrow> bool" +
  fixes mu :: "'d \<Rightarrow> (nat \<Rightarrow> (unit, 'l) phase) \<Rightarrow> nat"
    and fin :: "'d \<Rightarrow> (nat \<Rightarrow> (unit, 'l) phase) \<Rightarrow> bool"
  assumes mu_out_go: "Q d c \<Longrightarrow> i < n \<Longrightarrow> c i = Out l \<Longrightarrow> outs i d l = Some (Go d' l') \<Longrightarrow>
                        mu d' (c(i := Out l')) < mu d c"
    and mu_out_sync: "Q d c \<Longrightarrow> i < n \<Longrightarrow> c i = Out l \<Longrightarrow> outs i d l = Some (Sync d' l') \<Longrightarrow>
                        mu d' (c(i := Try () l')) < mu d c"
    and mu_enter: "Q d c \<Longrightarrow> i < n \<Longrightarrow> c i = Try () l \<Longrightarrow> mu d (c(i := In l)) < mu d c"
    and mu_in_go: "Q d c \<Longrightarrow> i < n \<Longrightarrow> c i = In l \<Longrightarrow> ins i d l = Some (Go d' l') \<Longrightarrow>
                        mu d' (c(i := In l')) < mu d c"
    and mu_in_sync: "Q d c \<Longrightarrow> i < n \<Longrightarrow> c i = In l \<Longrightarrow> ins i d l = Some (Sync d' l') \<Longrightarrow>
                        mu d' (c(i := Leave l')) < mu d c"
    and mu_leave: "Q d c \<Longrightarrow> i < n \<Longrightarrow> c i = Leave l \<Longrightarrow> mu d (c(i := Out l)) < mu d c"
    and ins_go: "Q d c \<Longrightarrow> i < n \<Longrightarrow> c i = In l \<Longrightarrow> ins i d l \<noteq> None"
    and outs_go: "Q d c \<Longrightarrow> \<not> fin d c \<Longrightarrow> \<forall>i<n. \<exists>l. c i = Out l \<Longrightarrow>
                        \<exists>i l. i < n \<and> c i = Out l \<and> outs i d l \<noteq> None"

locale live_program =
  live_locked n enter leave start J rank outs ins Q R + live_client n outs ins Q R mu fin
  for n :: nat
    and enter :: "nat \<Rightarrow> 's \<Rightarrow> 'p \<Rightarrow> ('s, 'p) lock_res"
    and leave :: "nat \<Rightarrow> 's \<Rightarrow> ('s, unit) lock_res"
    and start :: 'p
    and J :: "'s \<Rightarrow> (nat \<Rightarrow> 'p role) \<Rightarrow> bool"
    and rank :: "'s \<Rightarrow> (nat \<Rightarrow> 'p role) \<Rightarrow> nat"
    and outs :: "nat \<Rightarrow> 'd \<Rightarrow> 'l \<Rightarrow> ('d, 'l) act option"
    and ins :: "nat \<Rightarrow> 'd \<Rightarrow> 'l \<Rightarrow> ('d, 'l) act option"
    and Q :: "'d \<Rightarrow> (nat \<Rightarrow> (unit, 'l) phase) \<Rightarrow> bool"
    and R :: "'d \<Rightarrow> int \<Rightarrow> bool"
    and mu :: "'d \<Rightarrow> (nat \<Rightarrow> (unit, 'l) phase) \<Rightarrow> nat"
    and fin :: "'d \<Rightarrow> (nat \<Rightarrow> (unit, 'l) phase) \<Rightarrow> bool"
begin

abbreviation pstep :: "(('s, 'd) world, ('p, 'l) phase) tstep" where
  "pstep \<equiv> locked_step enter leave start outs ins"

abbreviation work :: "('s, 'd) world \<times> (nat \<Rightarrow> ('p, 'l) phase) \<Rightarrow> nat" where
  "work c \<equiv> mu (data (fst c)) (phases (snd c))"

text \<open>The process has ended, or the program has done all its work.\<close>
abbreviation over :: "('s, 'd) world \<times> (nat \<Rightarrow> ('p, 'l) phase) \<Rightarrow> bool" where
  "over c \<equiv> exited (fst c) \<noteq> None \<or> fin (data (fst c)) (phases (snd c))"

text \<open>From \<open>c\<close> a state with less work left, or the end, can be reached.\<close>
definition advances :: "('s, 'd) world \<times> (nat \<Rightarrow> ('p, 'l) phase) \<Rightarrow> bool" where
  "advances c \<longleftrightarrow> (\<exists>c'. reach n pstep c c' \<and> inv c' \<and>
     (exited (fst c') \<noteq> None \<or> exited (fst c') = None \<and> work c' < work c))"

lemma advances_one:
  assumes "inv (w, ls)" "i < n" "pstep i w (ls i) = Some (w', ph')"
    and "exited w' = None \<Longrightarrow> mu (data w') (phases (ls(i := ph'))) < mu (data w) (phases ls)"
  shows "advances (w, ls)"
proof -
  have "sched_step n pstep i (w, ls) = Some (w', ls(i := ph'))"
    using assms(2,3) by (simp add: sched_step_def)
  then have "reach n pstep (w, ls) (w', ls(i := ph'))" by (rule reach_one)
  moreover have "inv (w', ls(i := ph'))" by (rule inv_step [OF assms(1-3)])
  ultimately show ?thesis unfolding advances_def using assms(4)
    by (intro exI [of _ "(w', ls(i := ph'))"]) auto
qed

lemma advances_enter:
  assumes "inv (w, ls)" "exited w = None" "j < n" "role_of (ls j) = Trying q"
    and "\<forall>k<n. role_of (ls k) \<noteq> Holding"
  shows "advances (w, ls)"
proof -
  obtain c' i l where c': "reach n pstep (w, ls) c'" "inv c'" "exited (fst c') = None"
      "data (fst c') = data w" "i < n" "phases ls i = Try () l"
      "phases (snd c') = (phases ls)(i := In l)"
    using enterable [OF assms] by blast
  have "work c' < work (w, ls)"
    using mu_enter [of "data w" "phases ls" i l] c' assms(1,2) by (simp add: inv_def)
  then show ?thesis unfolding advances_def using c'(1-3) by blast
qed

lemma advances_holder:
  assumes "inv (w, ls)" "exited w = None" "i < n" "role_of (ls i) = Holding"
  shows "advances (w, ls)"
proof -
  have J: "J (lockst w) (roles ls)" and Q: "Q (data w) (phases ls)"
    using assms(1,2) by (simp_all add: inv_def)
  from assms(4) obtain l where "ls i = In l \<or> ls i = Leave l" by (auto simp: role_of_Holding)
  then show ?thesis
  proof
    assume l: "ls i = In l"
    then obtain a where a: "ins i (data w) l = Some a"
      using ins_go [OF Q assms(3)] by fastforce
    show ?thesis
    proof (cases a)
      case (Go d l')
      show ?thesis
        by (rule advances_one [OF assms(1,3), of "w\<lparr>data := d\<rparr>" "In l'"])
          (use a l Go Q assms mu_in_go [of "data w" "phases ls" i l d l']
            in \<open>simp_all add: locked_step_def phases_upd del: fun_upd_apply\<close>)
    next
      case (Sync d l')
      show ?thesis
        by (rule advances_one [OF assms(1,3), of "w\<lparr>data := d\<rparr>" "Leave l'"])
          (use a l Sync Q assms mu_in_sync [of "data w" "phases ls" i l d l']
            in \<open>simp_all add: locked_step_def phases_upd del: fun_upd_apply\<close>)
    next
      case (Quit d x)
      show ?thesis
        by (rule advances_one [OF assms(1,3), of "w\<lparr>data := d, exited := Some x\<rparr>" "In l"])
          (use a l Quit assms in \<open>simp_all add: locked_step_def\<close>)
    qed
  next
    assume l: "ls i = Leave l"
    obtain s' where s': "leave i (lockst w) = Passed s'"
      using J_leaves [OF J assms(3)] assms(4) by auto
    show ?thesis
      by (rule advances_one [OF assms(1,3), of "w\<lparr>lockst := s'\<rparr>" "Out l"])
        (use s' l Q assms mu_leave [of "data w" "phases ls" i l]
          in \<open>simp_all add: locked_step_def phases_upd del: fun_upd_apply\<close>)
  qed
qed

lemma advances_outside:
  assumes "inv (w, ls)" "exited w = None" "\<forall>i<n. \<exists>l. ls i = Out l"
    and "\<not> fin (data w) (phases ls)"
  shows "advances (w, ls)"
proof -
  have Q: "Q (data w) (phases ls)"
    using assms(1,2) by (simp_all add: inv_def)
  have "\<forall>i<n. \<exists>l. phases ls i = Out l" using assms(3) by (simp add: erase_simps)
  from outs_go [OF Q assms(4) this] obtain i l a
    where i: "i < n" "ls i = Out l" and a: "outs i (data w) l = Some a"
    by (auto simp: erase_simps)
  show ?thesis
  proof (cases a)
    case (Go d l')
    show ?thesis
      by (rule advances_one [OF assms(1) i(1), of "w\<lparr>data := d\<rparr>" "Out l'"])
        (use a i Go Q assms mu_out_go [of "data w" "phases ls" i l d l']
          in \<open>simp_all add: locked_step_def phases_upd del: fun_upd_apply\<close>)
  next
    case (Sync d l')
    show ?thesis
      by (rule advances_one [OF assms(1) i(1), of "w\<lparr>data := d\<rparr>" "Try start l'"])
        (use a i Sync Q assms mu_out_sync [of "data w" "phases ls" i l d l']
          in \<open>simp_all add: locked_step_def phases_upd del: fun_upd_apply\<close>)
  next
    case (Quit d x)
    show ?thesis
      by (rule advances_one [OF assms(1) i(1), of "w\<lparr>data := d, exited := Some x\<rparr>" "Out l"])
        (use a i Quit assms in \<open>simp_all add: locked_step_def\<close>)
  qed
qed

lemma advances:
  assumes "inv (w, ls)" "exited w = None" "\<not> fin (data w) (phases ls)"
  shows "advances (w, ls)"
proof (cases "\<exists>i<n. role_of (ls i) = Holding")
  case True
  then show ?thesis using advances_holder [OF assms(1,2)] by blast
next
  case none: False
  show ?thesis
  proof (cases "\<exists>i<n. \<exists>p. role_of (ls i) = Trying p")
    case True
    then show ?thesis using advances_enter [OF assms(1,2)] none by blast
  next
    case False
    then have "\<forall>i<n. role_of (ls i) = Idle" using none by (metis role.exhaust)
    then show ?thesis using advances_outside [OF assms(1,2) _ assms(3)] by (auto simp: role_of_Idle)
  qed
qed

lemma ends_inv:
  assumes "inv c"
  shows "\<exists>c'. reach n pstep c c' \<and> inv c' \<and> over c'"
  using assms
proof (induction "work c" arbitrary: c rule: less_induct)
  case less
  show ?case
  proof (cases "over c")
    case True
    then show ?thesis using less.prems by (blast intro: reach_init)
  next
    case False
    then have "advances (fst c, snd c)" using advances [of "fst c" "snd c"] less.prems by simp
    then obtain c' where c': "reach n pstep c c'" "inv c'"
      "exited (fst c') \<noteq> None \<or> work c' < work c"
      unfolding advances_def by auto
    from c'(3) show ?thesis
    proof
      assume "work c' < work c"
      from less.hyps [OF this c'(2)] show ?thesis using c'(1) by (blast intro: reach_trans)
    qed (use c' in blast)
  qed
qed

text \<open>From every reachable state some schedule leads to the end.\<close>
lemma can_be_over:
  assumes "reach n pstep c0 c" and "inv c0"
  obtains c' where "reach n pstep c c'" "inv c'" "over c'"
  using ends_inv [OF inv_reach [OF assms]] by blast

text \<open>No deadlock: until the end, some thread can take a step.\<close>
lemma no_deadlock:
  assumes "reach n pstep c0 c" and "inv c0" and "\<not> over c"
  shows "\<not> stuck n pstep c"
proof -
  obtain c' where c': "reach n pstep c c'" "over c'"
    using can_be_over [OF assms(1,2)] by blast
  obtain "is" where "run_sched n pstep is c = Some c'" using reach_run_sched [OF c'(1)] by blast
  then show ?thesis
    using c'(2) assms(3)
    by (cases "is") (auto simp: not_stuck_step split: option.splits)
qed

end

end
