(* ===== verification/CS_Methods.thy ===== *)
theory CS_Methods
  imports Ipc Critical_Section
begin

text \<open>
  \<open>everything.h\<close>: the ten methods of critical-section access control.
  \<open>cs_vars\<close> holds its file-scope variables (on top of the kernel's tables),
  \<open>cs_init\<close>, \<open>cs_destroy\<close>, \<open>cs_enter\<close> and \<open>cs_leave\<close> are the
  functions of the same names, the entry routine one atomic access at a time.
  \<open>cs_lk\<close> says when a method's state is free or held; it is the law behind
  the interpretation \<open>everything\<close> of \<open>simple_lock\<close>, for every method but
  \<open>CS_METHOD_ATOMIC\<close> (no control at all) and \<open>CS_METHOD_LOCKED\<close> (racy).
\<close>

abbreviation CS_METHOD_ATOMIC :: int where "CS_METHOD_ATOMIC \<equiv> 0"
abbreviation CS_METHOD_LOCKED :: int where "CS_METHOD_LOCKED \<equiv> 1"
abbreviation CS_METHOD_XCHG :: int where "CS_METHOD_XCHG \<equiv> 2"
abbreviation CS_METHOD_TEST_XCHG :: int where "CS_METHOD_TEST_XCHG \<equiv> 3"
abbreviation CS_METHOD_MUTEX :: int where "CS_METHOD_MUTEX \<equiv> 4"
abbreviation CS_METHOD_SEM_POSIX :: int where "CS_METHOD_SEM_POSIX \<equiv> 5"
abbreviation CS_METHOD_SEM_POSIX_NAMED :: int where "CS_METHOD_SEM_POSIX_NAMED \<equiv> 6"
abbreviation CS_METHOD_SEM_SYSV :: int where "CS_METHOD_SEM_SYSV \<equiv> 7"
abbreviation CS_METHOD_MQ_POSIX :: int where "CS_METHOD_MQ_POSIX \<equiv> 8"
abbreviation CS_METHOD_MQ_SYSV :: int where "CS_METHOD_MQ_SYSV \<equiv> 9"

definition SEM_NAME :: string where "SEM_NAME = ''/named_sem_st61014''"
definition MQ_NAME :: string where "MQ_NAME = ''/st61014_mq''"
definition MESSAGE :: string where "MESSAGE = ''Message''"
definition MESSAGE_SIZE :: nat where "MESSAGE_SIZE = 10"

text \<open>The fields of \<open>struct sembuf\<close> that the code sets.\<close>
record sembuf =
  sem_num :: nat
  sem_oper :: int
  sem_undo :: bool

text \<open>The variables of the header; \<open>cs_named_sem\<close> is \<open>None\<close> for
  \<open>SEM_FAILED\<close>, and \<open>err_log\<close> collects what is printed to the error stream.\<close>
record cs_vars = kernel +
  busy_wait_yields :: bool
  locked :: bool
  locked_atomic :: bool
  cs_mutex :: mutex
  cs_named_sem :: "nat option"
  cs_sem :: "nat option"
  sem_op_enter :: sembuf
  sem_op_leave :: sembuf
  sysv_semid :: nat
  message_queue :: nat
  message_buffer :: string
  mq_sysv :: nat
  msg_type :: int
  cs_method_used :: int
  cs_var_allocated :: bool
  err_log :: "string list"

text \<open>\<open>perror (msg)\<close>, and \<open>perror (msg); exit (EXIT_FAILURE)\<close>.\<close>
definition perror :: "string \<Rightarrow> cs_vars \<Rightarrow> cs_vars" where
  "perror msg v = v\<lparr>err_log := err_log v @ [msg]\<rparr>"

definition die :: "string \<Rightarrow> cs_vars \<Rightarrow> cs_vars outcome" where
  "die msg v = Exits EXIT_FAILURE (perror msg v)"

section \<open>Initialisation\<close>

definition init_mutex :: "faults \<Rightarrow> cs_vars \<Rightarrow> cs_vars outcome" where
  "init_mutex flt v =
     (case mutex_init flt (cs_mutex v) of
        OK m \<Rightarrow> Returns (v\<lparr>cs_mutex := m\<rparr>)
      | _ \<Rightarrow> die ''pthread_mutex_init failed'' v)"

definition init_sem_posix :: "faults \<Rightarrow> cs_vars \<Rightarrow> cs_vars outcome" where
  "init_sem_posix flt v =
     (case sem_init flt 1 of
        OK s \<Rightarrow> Returns (v\<lparr>cs_sem := s\<rparr>)
      | _ \<Rightarrow> die ''sem_init failed'' v)"

definition init_sem_named :: "faults \<Rightarrow> cs_vars \<Rightarrow> cs_vars outcome" where
  "init_sem_named flt v =
     (case sem_open flt True SEM_NAME 1 v of
        OK (sid, v1) \<Rightarrow>
          (let v2 = v1\<lparr>cs_named_sem := Some sid\<rparr>
           in case sem_unlink flt SEM_NAME v2 of OK v3 \<Rightarrow> Returns v3 | _ \<Rightarrow> Returns v2)
      | _ \<Rightarrow> die ''sem_open'' (v\<lparr>cs_named_sem := None\<rparr>))"

definition init_sem_sysv :: "faults \<Rightarrow> cs_vars \<Rightarrow> cs_vars outcome" where
  "init_sem_sysv flt v =
     (let v = v\<lparr>sem_op_enter := \<lparr>sem_num = 0, sem_oper = -1, sem_undo = True\<rparr>,
                sem_op_leave := \<lparr>sem_num = 0, sem_oper = 1, sem_undo = True\<rparr>\<rparr>
      in case semget_private flt v of
        OK (sid, v1) \<Rightarrow>
          (let v2 = v1\<lparr>sysv_semid := sid\<rparr>
           in case semctl_setval flt (sysv_semid v2) 1 v2 of
             OK v3 \<Rightarrow> Returns v3
           | _ \<Rightarrow> die ''Error setting semaphore value'' v2)
      | _ \<Rightarrow> die ''Error creating semaphore'' v)"

definition init_mq_posix :: "faults \<Rightarrow> cs_vars \<Rightarrow> cs_vars outcome" where
  "init_mq_posix flt v =
     (case mq_open flt MQ_NAME 1 MESSAGE_SIZE v of
        OK (q, v1) \<Rightarrow>
          (let v2 = v1\<lparr>message_queue := q\<rparr>
           in case mq_unlink flt MQ_NAME v2 of
             OK v3 \<Rightarrow>
               (case mq_send flt (message_queue v3) MESSAGE MESSAGE_SIZE v3 of
                  OK v4 \<Rightarrow> Returns v4
                | _ \<Rightarrow> die ''mq_send'' v3)
           | _ \<Rightarrow> die ''mq_unlink'' v2)
      | _ \<Rightarrow> die ''mq_open'' v)"

definition init_mq_sysv :: "faults \<Rightarrow> cs_vars \<Rightarrow> cs_vars outcome" where
  "init_mq_sysv flt v =
     (let v = v\<lparr>msg_type := 1\<rparr>
      in case msgget_private flt v of
        OK (q, v1) \<Rightarrow>
          (let v2 = v1\<lparr>mq_sysv := q\<rparr>
           in case msgsnd flt (mq_sysv v2) (msg_type v2) v2 of
             OK v3 \<Rightarrow> Returns v3
           | _ \<Rightarrow> die ''innit_msgsnd'' v2)
      | _ \<Rightarrow> die ''msgget'' v)"

text \<open>The \<open>switch\<close> of \<open>cs_init\<close>, and the function.\<close>
definition init_switch :: "faults \<Rightarrow> cs_vars \<Rightarrow> cs_vars outcome" where
  "init_switch flt v =
     (let m = cs_method_used v in
      if m = CS_METHOD_ATOMIC then Returns v
      else if m = CS_METHOD_LOCKED \<or> m = CS_METHOD_TEST_XCHG then Returns (v\<lparr>locked := False\<rparr>)
      else if m = CS_METHOD_XCHG then Returns (v\<lparr>locked_atomic := False\<rparr>)
      else if m = CS_METHOD_MUTEX then init_mutex flt v
      else if m = CS_METHOD_SEM_POSIX then init_sem_posix flt v
      else if m = CS_METHOD_SEM_POSIX_NAMED then init_sem_named flt v
      else if m = CS_METHOD_SEM_SYSV then init_sem_sysv flt v
      else if m = CS_METHOD_MQ_POSIX then init_mq_posix flt v
      else if m = CS_METHOD_MQ_SYSV then init_mq_sysv flt v
      else die ''Error: The method is not defined.'' v)"

definition cs_init :: "faults \<Rightarrow> int \<Rightarrow> cs_vars \<Rightarrow> cs_vars outcome" where
  "cs_init flt method v =
     (case init_switch flt (v\<lparr>cs_method_used := method\<rparr>) of
        Returns v' \<Rightarrow> Returns (v'\<lparr>cs_var_allocated := True\<rparr>)
      | Exits x v' \<Rightarrow> Exits x v')"

section \<open>Destruction\<close>

text \<open>The \<open>switch\<close> of \<open>cs_destroy\<close>: a failing call is only reported.\<close>
definition destroy_switch :: "faults \<Rightarrow> cs_vars \<Rightarrow> cs_vars" where
  "destroy_switch flt v =
     (let m = cs_method_used v in
      if m = CS_METHOD_MUTEX then
        (case mutex_destroy flt (cs_mutex v) of
           OK mx \<Rightarrow> v\<lparr>cs_mutex := mx\<rparr> | _ \<Rightarrow> perror ''pthread_mutex_destroy'' v)
      else if m = CS_METHOD_SEM_POSIX then
        (case sem_destroy flt (cs_sem v) of
           OK s \<Rightarrow> v\<lparr>cs_sem := s\<rparr> | _ \<Rightarrow> perror ''sem_destroy'' v)
      else if m = CS_METHOD_SEM_POSIX_NAMED then
        (case cs_named_sem v of
           None \<Rightarrow> v
         | Some sid \<Rightarrow>
             (case sem_close flt sid v of
                OK v' \<Rightarrow> v'\<lparr>cs_named_sem := None\<rparr>
              | _ \<Rightarrow> (perror ''sem_close'' v)\<lparr>cs_named_sem := None\<rparr>))
      else if m = CS_METHOD_SEM_SYSV then
        (case semctl_rmid flt (sysv_semid v) v of
           OK v' \<Rightarrow> v' | _ \<Rightarrow> perror ''Error destroying semaphore'' v)
      else if m = CS_METHOD_MQ_POSIX then
        (case mq_close flt (message_queue v) v of
           OK v' \<Rightarrow> v' | _ \<Rightarrow> perror ''mq_close'' v)
      else if m = CS_METHOD_MQ_SYSV then
        (case msgctl_rmid flt (mq_sysv v) v of
           OK v' \<Rightarrow> v' | _ \<Rightarrow> perror ''msgctl_destroy'' v)
      else v)"

definition cs_destroy :: "faults \<Rightarrow> cs_vars \<Rightarrow> cs_vars" where
  "cs_destroy flt v =
     (if \<not> cs_var_allocated v then v
      else (destroy_switch flt v)\<lparr>cs_var_allocated := False\<rparr>)"

section \<open>Entry and exit\<close>

text \<open>Where a thread is in the entry routine: at the test of the busy wait, between the
  test and the exchange (\<open>TEST_XCHG\<close>) or the assignment (\<open>LOCKED\<close>), at
  \<open>sched_yield\<close>. The blocking methods are one call, at \<open>At_test\<close>.\<close>
datatype enter_pc = At_test | At_xchg | At_set | At_yield

text \<open>The body of the busy wait: \<open>if (busy_wait_yields) sched_yield ();\<close>\<close>
definition wait_body :: "cs_vars \<Rightarrow> (cs_vars, enter_pc) lock_res" where
  "wait_body v = Spin v (if busy_wait_yields v then At_yield else At_test)"

definition cs_enter :: "faults \<Rightarrow> nat \<Rightarrow> cs_vars \<Rightarrow> enter_pc \<Rightarrow> (cs_vars, enter_pc) lock_res" where
  "cs_enter flt i v pc =
     (let m = cs_method_used v in
      if pc = At_yield then Spin v At_test
      else if m = CS_METHOD_LOCKED then
        (if pc = At_set then Passed (v\<lparr>locked := True\<rparr>)
         else if locked v then wait_body v else Spin v At_set)
      else if m = CS_METHOD_TEST_XCHG then
        (if pc = At_xchg then
           (if locked v then wait_body v else Passed (v\<lparr>locked := True\<rparr>))
         else if locked v then wait_body v else Spin v At_xchg)
      else if m = CS_METHOD_XCHG then
        (if locked_atomic v then wait_body v else Passed (v\<lparr>locked_atomic := True\<rparr>))
      else if m = CS_METHOD_MUTEX then
        (case mutex_lock flt i (cs_mutex v) of
           OK mx \<Rightarrow> Passed (v\<lparr>cs_mutex := mx\<rparr>) | EFAIL \<Rightarrow> Passed v | WAIT \<Rightarrow> Blocked)
      else if m = CS_METHOD_SEM_POSIX then
        (case sem_wait flt (cs_sem v) of
           OK s \<Rightarrow> Passed (v\<lparr>cs_sem := s\<rparr>) | EFAIL \<Rightarrow> Passed v | WAIT \<Rightarrow> Blocked)
      else if m = CS_METHOD_SEM_POSIX_NAMED then
        (case cs_named_sem v of
           None \<Rightarrow> Passed v
         | Some sid \<Rightarrow> (case named_wait flt sid v of
             OK v' \<Rightarrow> Passed v' | EFAIL \<Rightarrow> Passed v | WAIT \<Rightarrow> Blocked))
      else if m = CS_METHOD_SEM_SYSV then
        (case semop_undo flt (sysv_semid v) (sem_oper (sem_op_enter v)) v of
           OK v' \<Rightarrow> Passed v' | EFAIL \<Rightarrow> Passed v | WAIT \<Rightarrow> Blocked)
      else if m = CS_METHOD_MQ_POSIX then
        (case mq_receive flt (message_queue v) MESSAGE_SIZE v of
           OK (msg, v') \<Rightarrow> Passed (v'\<lparr>message_buffer := msg\<rparr>) | EFAIL \<Rightarrow> Passed v | WAIT \<Rightarrow> Blocked)
      else if m = CS_METHOD_MQ_SYSV then
        (case msgrcv flt (mq_sysv v) v of
           OK (t, v') \<Rightarrow> Passed (v'\<lparr>msg_type := t\<rparr>) | EFAIL \<Rightarrow> Passed v | WAIT \<Rightarrow> Blocked)
      else Passed v)"

definition cs_leave :: "faults \<Rightarrow> nat \<Rightarrow> cs_vars \<Rightarrow> (cs_vars, unit) lock_res" where
  "cs_leave flt i v =
     (let m = cs_method_used v in
      if m = CS_METHOD_LOCKED \<or> m = CS_METHOD_TEST_XCHG then Passed (v\<lparr>locked := False\<rparr>)
      else if m = CS_METHOD_XCHG then Passed (v\<lparr>locked_atomic := False\<rparr>)
      else if m = CS_METHOD_MUTEX then
        (case mutex_unlock flt (cs_mutex v) of
           OK mx \<Rightarrow> Passed (v\<lparr>cs_mutex := mx\<rparr>) | EFAIL \<Rightarrow> Passed v | WAIT \<Rightarrow> Blocked)
      else if m = CS_METHOD_SEM_POSIX then
        (case sem_post flt (cs_sem v) of
           OK s \<Rightarrow> Passed (v\<lparr>cs_sem := s\<rparr>) | EFAIL \<Rightarrow> Passed v | WAIT \<Rightarrow> Blocked)
      else if m = CS_METHOD_SEM_POSIX_NAMED then
        (case cs_named_sem v of
           None \<Rightarrow> Passed v
         | Some sid \<Rightarrow> (case named_post flt sid v of
             OK v' \<Rightarrow> Passed v' | EFAIL \<Rightarrow> Passed v | WAIT \<Rightarrow> Blocked))
      else if m = CS_METHOD_SEM_SYSV then
        (case semop_undo flt (sysv_semid v) (sem_oper (sem_op_leave v)) v of
           OK v' \<Rightarrow> Passed v' | EFAIL \<Rightarrow> Passed v | WAIT \<Rightarrow> Blocked)
      else if m = CS_METHOD_MQ_POSIX then
        (case mq_send flt (message_queue v) MESSAGE MESSAGE_SIZE v of
           OK v' \<Rightarrow> Passed v' | EFAIL \<Rightarrow> Passed v | WAIT \<Rightarrow> Blocked)
      else if m = CS_METHOD_MQ_SYSV then
        (case msgsnd flt (mq_sysv v) (msg_type v) v of
           OK v' \<Rightarrow> Passed v' | EFAIL \<Rightarrow> Passed v | WAIT \<Rightarrow> Blocked)
      else Passed v)"

section \<open>When a method's state is free, and when it is held\<close>

text \<open>The calls of entry and exit do not fail: the assumption the header makes
  ("not error checking according to assignment").\<close>
definition quiet :: "faults \<Rightarrow> bool" where
  "quiet flt \<longleftrightarrow>
     \<not> flt C_mutex_lock \<and> \<not> flt C_mutex_unlock \<and> \<not> flt C_sem_wait \<and> \<not> flt C_sem_post \<and>
     \<not> flt C_semop \<and> \<not> flt C_mq_send \<and> \<not> flt C_mq_receive \<and> \<not> flt C_msgsnd \<and> \<not> flt C_msgrcv"

text \<open>One token is available while the lock is free, none while it is held.\<close>
definition tokens :: "nat option \<Rightarrow> nat" where
  "tokens h = (if h = None then 1 else 0)"

definition method_state :: "cs_vars \<Rightarrow> nat option \<Rightarrow> bool" where
  "method_state v h \<longleftrightarrow>
     (let m = cs_method_used v in
      if m = CS_METHOD_XCHG then locked_atomic v = (h \<noteq> None)
      else if m = CS_METHOD_TEST_XCHG then locked v = (h \<noteq> None)
      else if m = CS_METHOD_MUTEX then cs_mutex v = \<lparr>mx_live = True, mx_owner = h\<rparr>
      else if m = CS_METHOD_SEM_POSIX then cs_sem v = Some (tokens h)
      else if m = CS_METHOD_SEM_POSIX_NAMED then
        (\<exists>sid s. cs_named_sem v = Some sid \<and> named_sems v sid = Some s \<and> ns_value s = tokens h)
      else if m = CS_METHOD_SEM_SYSV then
        sysv_vals v (sysv_semid v) = Some (tokens h) \<and>
        sysv_adj v (sysv_semid v) = 1 - int (tokens h) \<and>
        sem_oper (sem_op_enter v) = -1 \<and> sem_oper (sem_op_leave v) = 1
      else if m = CS_METHOD_MQ_POSIX then
        (\<exists>q. mqs v (message_queue v) = Some q \<and> pq_maxmsg q = 1 \<and> pq_msgsize q = MESSAGE_SIZE \<and>
             pq_msgs q = replicate (tokens h) MESSAGE)
      else if m = CS_METHOD_MQ_SYSV then
        msg_type v = 1 \<and> msqs v (mq_sysv v) = Some (replicate (tokens h) 1)
      else False)"

definition cs_lk :: "faults \<Rightarrow> cs_vars \<Rightarrow> nat option \<Rightarrow> bool" where
  "cs_lk flt v h \<longleftrightarrow> quiet flt \<and> method_state v h"

text \<open>The methods that \<open>cs_lk\<close> covers.\<close>
definition safe_method :: "int \<Rightarrow> bool" where
  "safe_method m \<longleftrightarrow> CS_METHOD_XCHG \<le> m \<and> m \<le> CS_METHOD_MQ_SYSV"

lemma safe_method_cases:
  assumes "safe_method m"
  obtains "m = 2" | "m = 3" | "m = 4" | "m = 5" | "m = 6" | "m = 7" | "m = 8" | "m = 9"
proof -
  have "m = 2 \<or> m = 3 \<or> m = 4 \<or> m = 5 \<or> m = 6 \<or> m = 7 \<or> m = 8 \<or> m = 9"
    using assms unfolding safe_method_def by presburger
  then show thesis using that by blast
qed

lemma cs_lk_safe: "cs_lk flt v h \<Longrightarrow> safe_method (cs_method_used v)"
  by (auto simp: cs_lk_def method_state_def Let_def safe_method_def split: if_splits)

lemma cs_lk_quiet: "cs_lk flt v h \<Longrightarrow> quiet flt"
  by (simp add: cs_lk_def)

lemma tokens_simps [simp]: "tokens None = 1" "tokens (Some i) = 0"
  by (simp_all add: tokens_def)

fun cs_prank :: "enter_pc \<Rightarrow> nat" where
  "cs_prank At_yield = 2"
| "cs_prank At_test = 1"
| "cs_prank At_set = 1"
| "cs_prank At_xchg = 0"

lemma cs_prank_pos: "p \<noteq> At_xchg \<Longrightarrow> 0 < cs_prank p"
  by (cases p) auto

lemmas enter_defs = cs_enter_def cs_leave_def cs_lk_def method_state_def quiet_def wait_body_def ipc_defs

lemma cs_enter_pass:
  assumes "cs_lk flt v h" "h \<noteq> Some i" "cs_enter flt i v pc = Passed v'"
  shows "h = None \<and> cs_lk flt v' (Some i)"
  using cs_lk_safe [OF assms(1)]
  by (cases rule: safe_method_cases; cases h; insert assms)
    (auto simp: enter_defs Let_def split: if_splits)

lemma cs_enter_spin:
  assumes "cs_lk flt v h" "cs_enter flt i v pc = Spin v' pc'"
  shows "v' = v"
  using cs_lk_safe [OF assms(1)]
  by (cases rule: safe_method_cases; insert assms)
    (auto simp: enter_defs Let_def split: if_splits callres.splits option.splits list.splits)

lemma cs_enter_alive: "cs_enter flt i v pc \<noteq> Died x v'"
  by (auto simp: cs_enter_def wait_body_def Let_def split: callres.splits option.splits)

lemma cs_leave_free:
  assumes "cs_lk flt v (Some i)"
  shows "\<exists>v'. cs_leave flt i v = Passed v' \<and> cs_lk flt v' None"
  using cs_lk_safe [OF assms]
  by (cases rule: safe_method_cases; insert assms) (auto simp: enter_defs Let_def)

lemma cs_enter_free:
  assumes "cs_lk flt v None"
  shows "(\<exists>v'. cs_enter flt i v pc = Passed v') \<or>
         (\<exists>v' pc'. cs_enter flt i v pc = Spin v' pc' \<and> cs_prank pc' < cs_prank pc)"
  using cs_lk_safe [OF assms]
  by (cases rule: safe_method_cases; cases pc; insert assms) (auto simp: enter_defs Let_def)

interpretation everything: live_lock "cs_enter flt" "cs_leave flt" At_test "cs_lk flt" cs_prank
  for flt
proof unfold_locales
  fix s h i p s' p' x u
  show "cs_lk flt s h \<Longrightarrow> h \<noteq> Some i \<Longrightarrow> cs_enter flt i s p = Passed s' \<Longrightarrow>
      h = None \<and> cs_lk flt s' (Some i)"
    by (rule cs_enter_pass)
  show "cs_lk flt s h \<Longrightarrow> h \<noteq> Some i \<Longrightarrow> cs_enter flt i s p = Spin s' p' \<Longrightarrow> cs_lk flt s' h"
    using cs_enter_spin by blast
  show "cs_lk flt s h \<Longrightarrow> h \<noteq> Some i \<Longrightarrow> cs_enter flt i s p = Died x s' \<Longrightarrow> False \<and> cs_lk flt s' h"
    using cs_enter_alive by blast
  show "cs_lk flt s (Some i) \<Longrightarrow> cs_leave flt i s = Passed s' \<Longrightarrow> cs_lk flt s' None"
    using cs_leave_free by fastforce
  show "cs_lk flt s (Some i) \<Longrightarrow> cs_leave flt i s = Spin s' u \<Longrightarrow> cs_lk flt s' (Some i)"
    using cs_leave_free by fastforce
  show "cs_lk flt s (Some i) \<Longrightarrow> cs_leave flt i s = Died x s' \<Longrightarrow> False \<and> cs_lk flt s' (Some i)"
    using cs_leave_free by fastforce
  show "cs_lk flt s (Some i) \<Longrightarrow> \<exists>s'. cs_leave flt i s = Passed s'"
    using cs_leave_free by blast
  show "cs_lk flt s None \<Longrightarrow> (\<exists>s'. cs_enter flt i s p = Passed s') \<or>
      (\<exists>s' p'. cs_enter flt i s p = Spin s' p' \<and> cs_prank p' < cs_prank p)"
    by (rule cs_enter_free)
qed

section \<open>The life of a method: initialisation, use, destruction\<close>

text \<open>The calls whose failure \<open>cs_init\<close> checks.\<close>
definition init_calls :: "int \<Rightarrow> call list" where
  "init_calls m =
     (if m = CS_METHOD_MUTEX then [C_mutex_init]
      else if m = CS_METHOD_SEM_POSIX then [C_sem_init]
      else if m = CS_METHOD_SEM_POSIX_NAMED then [C_sem_open]
      else if m = CS_METHOD_SEM_SYSV then [C_semget, C_semctl_setval]
      else if m = CS_METHOD_MQ_POSIX then [C_mq_open, C_mq_unlink, C_mq_send]
      else if m = CS_METHOD_MQ_SYSV then [C_msgget, C_msgsnd]
      else [])"

text \<open>What the initialisation needs: a known method, its calls do not fail, and the name
  it creates exclusively is not taken.\<close>
definition init_ok :: "faults \<Rightarrow> int \<Rightarrow> cs_vars \<Rightarrow> bool" where
  "init_ok flt m v \<longleftrightarrow>
     CS_METHOD_ATOMIC \<le> m \<and> m \<le> CS_METHOD_MQ_SYSV \<and> list_all (\<lambda>c. \<not> flt c) (init_calls m) \<and>
     (m = CS_METHOD_SEM_POSIX_NAMED \<longrightarrow> sem_names v SEM_NAME = None) \<and>
     (m = CS_METHOD_MQ_POSIX \<longrightarrow> mq_names v MQ_NAME = None)"

lemmas init_defs = cs_init_def init_switch_def init_mutex_def init_sem_posix_def
  init_sem_named_def init_sem_sysv_def init_mq_posix_def init_mq_sysv_def die_def perror_def
  init_calls_def

lemma method_range:
  assumes "0 \<le> m" "m \<le> (9::int)"
  shows "m = 0 \<or> m = 1 \<or> m = 2 \<or> m = 3 \<or> m = 4 \<or> m = 5 \<or> m = 6 \<or> m = 7 \<or> m = 8 \<or> m = 9"
  using assms by presburger

lemma cs_init_returns:
  assumes "init_ok flt m v"
  shows "\<exists>v'. cs_init flt m v = Returns v' \<and> cs_var_allocated v' \<and> cs_method_used v' = m \<and>
    err_log v' = err_log v \<and> busy_wait_yields v' = busy_wait_yields v \<and>
    (safe_method m \<longrightarrow> quiet flt \<longrightarrow> cs_lk flt v' None)"
proof -
  have "0 \<le> m" "m \<le> 9" using assms by (simp_all add: init_ok_def)
  from method_range [OF this] show ?thesis
    by (elim disjE; cases "flt C_sem_unlink"; insert assms)
      (simp_all add: init_ok_def init_defs cs_lk_def method_state_def ipc_defs safe_method_def MESSAGE_SIZE_def)
qed

lemma cs_init_exits:
  assumes "\<not> init_ok flt m v"
  shows "\<exists>v' msg. cs_init flt m v = Exits EXIT_FAILURE v' \<and> err_log v' = err_log v @ [msg] \<and>
    cs_var_allocated v' = cs_var_allocated v"
proof (cases "0 \<le> m \<and> m \<le> 9")
  case True
  then have "m = 0 \<or> m = 1 \<or> m = 2 \<or> m = 3 \<or> m = 4 \<or> m = 5 \<or> m = 6 \<or> m = 7 \<or> m = 8 \<or> m = 9"
    using method_range by blast
  then show ?thesis
    by (elim disjE; insert assms)
      (auto simp add: init_ok_def init_defs ipc_defs Let_def MESSAGE_SIZE_def)
next
  case False
  then show ?thesis by (auto simp: init_defs)
qed

text \<open>The variables of a starting process, on an empty kernel.\<close>
definition cs_start :: cs_vars where
  "cs_start =
     \<lparr>sem_names = (\<lambda>_. None), named_sems = (\<lambda>_. None), sysv_keys = (\<lambda>_. None),
      sysv_vals = (\<lambda>_. None), sysv_adj = (\<lambda>_. 0), mq_names = (\<lambda>_. None), mqs = (\<lambda>_. None),
      msqs = (\<lambda>_. None), next_id = 0,
      busy_wait_yields = False, locked = False, locked_atomic = False,
      cs_mutex = \<lparr>mx_live = False, mx_owner = None\<rparr>, cs_named_sem = None, cs_sem = None,
      sem_op_enter = \<lparr>sem_num = 0, sem_oper = 0, sem_undo = False\<rparr>,
      sem_op_leave = \<lparr>sem_num = 0, sem_oper = 0, sem_undo = False\<rparr>,
      sysv_semid = 0, message_queue = 0, message_buffer = '''', mq_sysv = 0, msg_type = 0,
      cs_method_used = -1, cs_var_allocated = False, err_log = []\<rparr>"

text \<open>The kernel's tables of IPC objects, and the part of them that the method in use
  did not create.\<close>

type_synonym ipc_tables =
  "(string \<Rightarrow> nat option) \<times> (nat \<Rightarrow> named_sem option) \<times> (int \<Rightarrow> nat option) \<times>
   (nat \<Rightarrow> nat option) \<times> (string \<Rightarrow> nat option) \<times> (nat \<Rightarrow> posix_mq option) \<times>
   (nat \<Rightarrow> int list option)"

definition ipc_tables :: "cs_vars \<Rightarrow> ipc_tables" where
  "ipc_tables v = (sem_names v, named_sems v, sysv_keys v, sysv_vals v, mq_names v, mqs v, msqs v)"

definition fresh_next :: "cs_vars \<Rightarrow> bool" where
  "fresh_next v \<longleftrightarrow> named_sems v (next_id v) = None \<and> sysv_vals v (next_id v) = None \<and>
     mqs v (next_id v) = None \<and> msqs v (next_id v) = None \<and>
     (\<forall>key. sysv_keys v key \<noteq> Some (next_id v))"

text \<open>The method in use owns one object, and without it the tables are \<open>T\<close>.\<close>
definition owns :: "ipc_tables \<Rightarrow> cs_vars \<Rightarrow> bool" where
  "owns T v \<longleftrightarrow> cs_var_allocated v \<and>
     (let m = cs_method_used v in
      if m = CS_METHOD_SEM_POSIX_NAMED then
        (\<exists>sid s. cs_named_sem v = Some sid \<and> named_sems v sid = Some s \<and> \<not> ns_linked s \<and>
          T = (sem_names v, (named_sems v)(sid := None), sysv_keys v, sysv_vals v,
               mq_names v, mqs v, msqs v))
      else if m = CS_METHOD_SEM_SYSV then
        sysv_vals v (sysv_semid v) \<noteq> None \<and> (\<forall>key. sysv_keys v key \<noteq> Some (sysv_semid v)) \<and>
        T = (sem_names v, named_sems v, sysv_keys v, (sysv_vals v)(sysv_semid v := None),
             mq_names v, mqs v, msqs v)
      else if m = CS_METHOD_MQ_POSIX then
        (\<exists>q. mqs v (message_queue v) = Some q \<and> \<not> pq_linked q) \<and>
        T = (sem_names v, named_sems v, sysv_keys v, sysv_vals v, mq_names v,
             (mqs v)(message_queue v := None), msqs v)
      else if m = CS_METHOD_MQ_SYSV then
        msqs v (mq_sysv v) \<noteq> None \<and>
        T = (sem_names v, named_sems v, sysv_keys v, sysv_vals v, mq_names v, mqs v,
             (msqs v)(mq_sysv v := None))
      else T = ipc_tables v)"

definition removal_ok :: "faults \<Rightarrow> bool" where
  "removal_ok flt \<longleftrightarrow> \<not> flt C_sem_unlink \<and> \<not> flt C_sem_close \<and> \<not> flt C_semctl_rmid \<and>
     \<not> flt C_mq_close \<and> \<not> flt C_msgctl_rmid"

lemmas owns_defs = owns_def ipc_tables_def cs_enter_def cs_leave_def wait_body_def ipc_defs

lemma owns_pass: "owns T v \<Longrightarrow> cs_enter flt i v pc = Passed v' \<Longrightarrow> owns T v'"
  by (auto simp: owns_defs Let_def split: if_splits option.splits list.splits)

lemma owns_spin: "owns T v \<Longrightarrow> cs_enter flt i v pc = Spin v' pc' \<Longrightarrow> owns T v'"
  by (auto simp: owns_defs Let_def split: if_splits option.splits list.splits)

lemma owns_leave: "owns T v \<Longrightarrow> cs_leave flt i v = Passed v' \<Longrightarrow> owns T v'"
  by (auto simp: owns_defs Let_def split: if_splits option.splits list.splits)

lemma leave_no_spin: "cs_leave flt i v \<noteq> Spin v' u" "cs_leave flt i v \<noteq> Died x v'"
  by (auto simp: cs_leave_def Let_def split: callres.splits option.splits)

lemma owns_init:
  assumes "cs_init flt m v = Returns v'" "removal_ok flt" "fresh_next v"
  shows "owns (ipc_tables v) v'"
proof -
  have ok: "init_ok flt m v" using assms(1) cs_init_exits by fastforce
  then have "0 \<le> m" "m \<le> 9" by (simp_all add: init_ok_def)
  from method_range [OF this] show ?thesis
    by (elim disjE; insert assms ok)
      (auto simp: init_ok_def init_defs owns_def ipc_tables_def ipc_defs MESSAGE_SIZE_def
         removal_ok_def fresh_next_def)
qed

lemma owns_destroy:
  assumes "owns T v" "removal_ok flt"
  shows "ipc_tables (cs_destroy flt v) = T"
  using assms
  by (auto simp: owns_def ipc_tables_def cs_destroy_def destroy_switch_def perror_def ipc_defs
      removal_ok_def Let_def split: if_splits option.splits callres.splits)

section \<open>Properties of the methods\<close>

text \<open>The states a program with a method starts in.\<close>
definition cs_program_start :: "cs_vars \<Rightarrow> 'd \<Rightarrow> (nat \<Rightarrow> 'l) \<Rightarrow> (cs_vars, 'd) world \<times> (nat \<Rightarrow> (enter_pc, 'l) phase)" where
  "cs_program_start v d l = (\<lparr>lockst = v, data = d, exited = None\<rparr>, \<lambda>i. Out (l i))"

abbreviation cs_step ::
  "faults \<Rightarrow> (nat \<Rightarrow> 'd \<Rightarrow> 'l \<Rightarrow> ('d, 'l) act option) \<Rightarrow> (nat \<Rightarrow> 'd \<Rightarrow> 'l \<Rightarrow> ('d, 'l) act option) \<Rightarrow>
   ((cs_vars, 'd) world, (enter_pc, 'l) phase) tstep" where
  "cs_step flt \<equiv> locked_step (cs_enter flt) (cs_leave flt) At_test"

text \<open>A program whose threads only enter and leave.\<close>
definition enter_only :: "nat \<Rightarrow> unit \<Rightarrow> unit \<Rightarrow> (unit, unit) act option" where
  "enter_only i d l = Some (Sync () ())"

lemma cs_init_lk:
  assumes "cs_init flt m v0 = Returns v" "safe_method m" "quiet flt"
  shows "cs_lk flt v None"
proof -
  have "init_ok flt m v0" using assms(1) cs_init_exits by fastforce
  from cs_init_returns [OF this] show ?thesis using assms by auto
qed

lemma run_from_init:
  assumes "case cs_init flt m s of Exits x w \<Rightarrow> False
      | Returns v \<Rightarrow> (case run_sched n ts is (f v) of None \<Rightarrow> False | Some c \<Rightarrow> P c)"
  shows "\<exists>v c. cs_init flt m s = Returns v \<and> reach n ts (f v) c \<and> P c"
  using assms by (cases "cs_init flt m s") (auto dest!: run_case)

text \<open>C1. Mutual exclusion: after \<open>cs_init\<close> has returned with any method from
  \<open>CS_METHOD_XCHG\<close> to \<open>CS_METHOD_MQ_SYSV\<close>, and whatever the program does
  between \<open>cs_enter\<close> and \<open>cs_leave\<close> and outside of them, no interleaving of any
  number of threads has two of them in the critical section.\<close>
theorem everything_mutual_exclusion:
  assumes "safe_method m" "quiet flt" "cs_init flt m v0 = Returns v"
    and "reach n (cs_step flt outs ins) (cs_program_start v d l) c"
    and "i < n" "j < n" "role_of (snd c i) = Holding" "role_of (snd c j) = Holding"
  shows "i = j"
  by (rule everything.exclusion
    [OF lock_J_free [where lk = "cs_lk flt", OF cs_init_lk [OF assms(3,1,2)]]
        assms(4) [unfolded cs_program_start_def] assms(5-)])

theorem everything_mutual_exclusion_witness:
  "\<exists>v c. cs_init no_faults CS_METHOD_SEM_SYSV cs_start = Returns v \<and>
     reach 2 (cs_step no_faults enter_only enter_only) (cs_program_start v () (\<lambda>_. ())) c \<and>
     role_of (snd c 0) = Holding \<and> role_of (snd c 1) \<noteq> Holding"
proof -
  have q: "quiet no_faults" by (simp add: quiet_def no_faults_def)
  have sm: "safe_method 7" by (simp add: safe_method_def)
  have run: "case cs_init no_faults CS_METHOD_SEM_SYSV cs_start of Exits x w \<Rightarrow> False
      | Returns v \<Rightarrow> (case run_sched 2 (cs_step no_faults enter_only enter_only) [0, 1, 0]
          (cs_program_start v () (\<lambda>_. ())) of None \<Rightarrow> False
        | Some c \<Rightarrow> role_of (snd c 0) = Holding)"
    by code_simp
  obtain v c where v: "cs_init no_faults CS_METHOD_SEM_SYSV cs_start = Returns v"
    and c: "reach 2 (cs_step no_faults enter_only enter_only)
      (cs_program_start v () (\<lambda>_. ())) c" "role_of (snd c 0) = Holding"
    using run_from_init [OF run] by blast
  have "role_of (snd c 1) \<noteq> Holding"
    using everything_mutual_exclusion [OF sm q v c(1), of 0 1] c(2) by auto
  then show ?thesis using v c by blast
qed

text \<open>C30. Progress: with the same methods, in every reachable state of every program in which
  some thread is in \<open>cs_enter\<close>, an interleaving leads to a thread in the critical section;
  the methods neither deadlock nor lose the lock.\<close>
theorem everything_entry_possible:
  assumes "safe_method m" "quiet flt" "cs_init flt m v0 = Returns v"
    and "reach n (cs_step flt outs ins) (cs_program_start v d l) c"
    and "exited (fst c) = None" "j < n" "role_of (snd c j) = Trying q"
  shows "\<exists>c' i. reach n (cs_step flt outs ins) c c' \<and> i < n \<and> role_of (snd c' i) = Holding"
  using everything.entry_possible
    [OF lock_J_free [where lk = "cs_lk flt", OF cs_init_lk [OF assms(3,1,2)]]
        assms(4) [unfolded cs_program_start_def] assms(5-)] .

theorem everything_entry_possible_witness:
  "\<exists>v c c' i. cs_init no_faults CS_METHOD_TEST_XCHG cs_start = Returns v \<and>
     reach 2 (cs_step no_faults enter_only enter_only) (cs_program_start v () (\<lambda>_. ())) c \<and>
     reach 2 (cs_step no_faults enter_only enter_only) c c' \<and> i < 2 \<and> role_of (snd c' i) = Holding"
proof -
  have q: "quiet no_faults" by (simp add: quiet_def no_faults_def)
  have sm: "safe_method 3" by (simp add: safe_method_def)
  have run: "case cs_init no_faults CS_METHOD_TEST_XCHG cs_start of Exits x w \<Rightarrow> False
      | Returns v \<Rightarrow> (case run_sched 2 (cs_step no_faults enter_only enter_only) [0, 1, 0, 1]
          (cs_program_start v () (\<lambda>_. ())) of None \<Rightarrow> False
        | Some c \<Rightarrow> exited (fst c) = None \<and> role_of (snd c 1) = Trying At_xchg)"
    by code_simp
  obtain v c where v: "cs_init no_faults CS_METHOD_TEST_XCHG cs_start = Returns v"
    and c: "reach 2 (cs_step no_faults enter_only enter_only)
      (cs_program_start v () (\<lambda>_. ())) c" "exited (fst c) = None" "role_of (snd c 1) = Trying At_xchg"
    using run_from_init [OF run] by blast
  have "(1::nat) < 2" by simp
  from everything_entry_possible [OF sm q v c(1,2) this c(3)] show ?thesis using v c(1) by blast
qed

text \<open>C32. \<open>cs_init\<close> on every argument and in every environment: it returns exactly when the
  method is known, the calls it checks succeed and the name it creates exclusively is free;
  then the variables are marked as allocated and nothing was reported. Otherwise it ends the
  process with \<open>EXIT_FAILURE\<close> after one message, without marking them.\<close>
theorem cs_init_spec:
  "case cs_init flt m v of
     Returns v' \<Rightarrow> init_ok flt m v \<and> cs_var_allocated v' \<and> cs_method_used v' = m \<and>
       err_log v' = err_log v
   | Exits x v' \<Rightarrow> \<not> init_ok flt m v \<and> x = EXIT_FAILURE \<and>
       cs_var_allocated v' = cs_var_allocated v \<and> (\<exists>msg. err_log v' = err_log v @ [msg])"
proof (cases "init_ok flt m v")
  case True
  from cs_init_returns [OF this] show ?thesis using True by auto
next
  case False
  from cs_init_exits [OF this] show ?thesis using False by auto
qed

lemma owns_reach:
  assumes "reach n (cs_step flt outs ins) (cs_program_start v d l) c" "owns T v"
  shows "owns T (lockst (fst c))"
proof (rule lock_frame [OF assms(1), where P = "owns T"])
  show "owns T (lockst (fst (cs_program_start v d l)))"
    by (simp add: cs_program_start_def assms(2))
qed (blast intro: owns_pass owns_spin owns_leave dest: leave_no_spin [THEN notE] cs_enter_alive [THEN notE])+

text \<open>C33. No IPC object outlives the program: whatever its threads did and wherever they stand,
  \<open>cs_destroy\<close> (run by \<open>atexit\<close>) leaves the kernel's tables of semaphores and
  queues and their names as they were before \<open>cs_init\<close>, when the removing calls succeed.\<close>
theorem no_ipc_left:
  assumes "cs_init flt m v0 = Returns v" "removal_ok flt" "fresh_next v0"
    and "reach n (cs_step flt outs ins) (cs_program_start v d l) c"
  shows "ipc_tables (cs_destroy flt (lockst (fst c))) = ipc_tables v0"
  by (rule owns_destroy [OF owns_reach [OF assms(4) owns_init [OF assms(1-3)]] assms(2)])

theorem no_ipc_left_witness:
  "\<exists>v c. cs_init no_faults CS_METHOD_MQ_POSIX cs_start = Returns v \<and>
     reach 2 (cs_step no_faults enter_only enter_only) (cs_program_start v () (\<lambda>_. ())) c \<and>
     role_of (snd c 1) = Holding \<and>
     ipc_tables (cs_destroy no_faults (lockst (fst c))) = ipc_tables cs_start"
proof -
  have run: "case cs_init no_faults CS_METHOD_MQ_POSIX cs_start of Exits x w \<Rightarrow> False
      | Returns v \<Rightarrow> (case run_sched 2 (cs_step no_faults enter_only enter_only) [1, 1]
          (cs_program_start v () (\<lambda>_. ())) of None \<Rightarrow> False
        | Some c \<Rightarrow> role_of (snd c 1) = Holding)"
    by code_simp
  obtain v c where v: "cs_init no_faults CS_METHOD_MQ_POSIX cs_start = Returns v"
    and c: "reach 2 (cs_step no_faults enter_only enter_only)
      (cs_program_start v () (\<lambda>_. ())) c" "role_of (snd c 1) = Holding"
    using run_from_init [OF run] by blast
  have "removal_ok no_faults" "fresh_next cs_start"
    by (simp_all add: removal_ok_def no_faults_def fresh_next_def cs_start_def)
  from no_ipc_left [OF v this c(1)] show ?thesis using v c by blast
qed

text \<open>A failing initialisation can leave an object behind: when \<open>semctl\<close> fails after
  \<open>semget\<close>, or the first \<open>msgsnd\<close> after \<open>msgget\<close>, the process ends with the
  new object in the kernel, and \<open>cs_destroy\<close>, which sees nothing allocated, does not
  remove it.\<close>
theorem init_failure_leaks:
  "(\<exists>v. cs_init (fault_at C_semctl_setval) CS_METHOD_SEM_SYSV cs_start = Exits EXIT_FAILURE v \<and>
        sysv_vals (cs_destroy no_faults v) (sysv_semid v) = Some 0) \<and>
   (\<exists>v. cs_init (fault_at C_msgsnd) CS_METHOD_MQ_SYSV cs_start = Exits EXIT_FAILURE v \<and>
        msqs (cs_destroy no_faults v) (mq_sysv v) = Some [])"
  by (simp add: init_defs ipc_defs fault_at_def cs_start_def cs_destroy_def)

text \<open>\<open>CS_METHOD_LOCKED\<close> does not exclude: two threads that both read \<open>locked\<close>
  before either sets it are in the critical section together.\<close>
theorem locked_method_race:
  "\<exists>v c. cs_init no_faults CS_METHOD_LOCKED cs_start = Returns v \<and>
     reach 2 (cs_step no_faults enter_only enter_only) (cs_program_start v () (\<lambda>_. ())) c \<and>
     role_of (snd c 0) = Holding \<and> role_of (snd c 1) = Holding"
proof -
  have "case cs_init no_faults CS_METHOD_LOCKED cs_start of Exits x w \<Rightarrow> False
      | Returns v \<Rightarrow> (case run_sched 2 (cs_step no_faults enter_only enter_only) [0, 1, 0, 1, 0, 1]
          (cs_program_start v () (\<lambda>_. ())) of None \<Rightarrow> False
        | Some c \<Rightarrow> role_of (snd c 0) = Holding \<and> role_of (snd c 1) = Holding)"
    by code_simp
  from run_from_init [OF this] show ?thesis .
qed

text \<open>A blocking call that fails is not noticed: when \<open>sem_wait\<close> fails (a signal
  handler interrupts it), \<open>cs_enter\<close> returns all the same, and two threads are in the
  critical section together.\<close>
theorem failed_wait_enters:
  "\<exists>v c. cs_init (fault_at C_sem_wait) CS_METHOD_SEM_POSIX cs_start = Returns v \<and>
     reach 2 (cs_step (fault_at C_sem_wait) enter_only enter_only)
       (cs_program_start v () (\<lambda>_. ())) c \<and>
     role_of (snd c 0) = Holding \<and> role_of (snd c 1) = Holding"
proof -
  have "case cs_init (fault_at C_sem_wait) CS_METHOD_SEM_POSIX cs_start of Exits x w \<Rightarrow> False
      | Returns v \<Rightarrow>
        (case run_sched 2 (cs_step (fault_at C_sem_wait) enter_only enter_only) [0, 0, 1, 1]
          (cs_program_start v () (\<lambda>_. ())) of None \<Rightarrow> False
        | Some c \<Rightarrow> role_of (snd c 0) = Holding \<and> role_of (snd c 1) = Holding)"
    by code_simp
  from run_from_init [OF this] show ?thesis .
qed

end
