(* ===== verification/CS_Variants.thy ===== *)
theory CS_Variants
  imports CS_Methods
begin

text \<open>
  The five earlier headers, one family of methods each:
  \<open>locked_testAset_xchng.h\<close> (prefix \<open>lx\<close>), \<open>mutex_sem_namedSem.h\<close>
  (\<open>ms\<close>), \<open>sem_sysv.h\<close> (\<open>sv\<close>), \<open>messageQueue_posix.h\<close>
  (\<open>mp\<close>) and \<open>messageQueue_sysV.h\<close> (\<open>mv\<close>). They use the variables of
  \<open>cs_vars\<close> (\<open>semid\<close> of \<open>sem_sysv.h\<close> is \<open>sysv_semid\<close>). The other
  methods are accepted by \<open>cs_init\<close> and do nothing. Unlike \<open>everything.h\<close>
  the blocking calls are checked, and a failure ends the process.
\<close>

text \<open>The cases of \<open>cs_init\<close> that only \<open>break\<close>.\<close>
definition other_method :: "cs_vars \<Rightarrow> cs_vars outcome" where
  "other_method v =
     (if CS_METHOD_ATOMIC \<le> cs_method_used v \<and> cs_method_used v \<le> CS_METHOD_MQ_SYSV then Returns v
      else die ''Error: The method is not defined.'' v)"

definition allocated :: "cs_vars outcome \<Rightarrow> cs_vars outcome" where
  "allocated r =
     (case r of Returns v \<Rightarrow> Returns (v\<lparr>cs_var_allocated := True\<rparr>) | Exits x v \<Rightarrow> Exits x v)"

text \<open>A checked blocking call inside \<open>cs_enter\<close> or \<open>cs_leave\<close>.\<close>
definition checked :: "string \<Rightarrow> cs_vars \<Rightarrow> cs_vars callres \<Rightarrow> (cs_vars, 'p) lock_res" where
  "checked msg v r =
     (case r of OK v' \<Rightarrow> Passed v' | EFAIL \<Rightarrow> Died EXIT_FAILURE (perror msg v) | WAIT \<Rightarrow> Blocked)"

definition map_call :: "('a \<Rightarrow> 'b) \<Rightarrow> 'a callres \<Rightarrow> 'b callres" where
  "map_call f r = (case r of OK a \<Rightarrow> OK (f a) | EFAIL \<Rightarrow> EFAIL | WAIT \<Rightarrow> WAIT)"

section \<open>locked_testAset_xchng.h\<close>

definition lx_init :: "int \<Rightarrow> cs_vars \<Rightarrow> cs_vars outcome" where
  "lx_init method v0 =
     (let v = v0\<lparr>cs_method_used := method\<rparr>; m = cs_method_used v in
      allocated
       (if m = CS_METHOD_LOCKED \<or> m = CS_METHOD_TEST_XCHG then Returns (v\<lparr>locked := False\<rparr>)
        else if m = CS_METHOD_XCHG then Returns (v\<lparr>locked_atomic := False\<rparr>)
        else other_method v))"

definition lx_destroy :: "cs_vars \<Rightarrow> cs_vars outcome" where
  "lx_destroy v = (if \<not> cs_var_allocated v then Returns v else Returns v)"

definition lx_enter :: "nat \<Rightarrow> cs_vars \<Rightarrow> enter_pc \<Rightarrow> (cs_vars, enter_pc) lock_res" where
  "lx_enter i v pc =
     (let m = cs_method_used v in
      if pc = At_yield then Spin v At_test
      else if m = CS_METHOD_LOCKED then
        (if pc = At_set then Passed (v\<lparr>locked := True\<rparr>)
         else if locked v then wait_body v else Spin v At_set)
      else if m = CS_METHOD_TEST_XCHG then
        (if pc = At_xchg then
           (if locked v then wait_body v else Passed (v\<lparr>locked := True\<rparr>))
         else if locked v then wait_body v else Spin v At_xchg)
      else if m = CS_METHOD_XCHG then
        (if locked_atomic v then wait_body v else Passed (v\<lparr>locked_atomic := True\<rparr>))
      else Passed v)"

definition lx_leave :: "nat \<Rightarrow> cs_vars \<Rightarrow> (cs_vars, unit) lock_res" where
  "lx_leave i v =
     (let m = cs_method_used v in
      if m = CS_METHOD_LOCKED then Passed (v\<lparr>locked := False\<rparr>)
      else if m = CS_METHOD_TEST_XCHG then Passed (v\<lparr>locked := False\<rparr>)
      else if m = CS_METHOD_XCHG then Passed (v\<lparr>locked_atomic := False\<rparr>)
      else Passed v)"

section \<open>mutex_sem_namedSem.h\<close>

text \<open>\<open>sem_open\<close> without \<open>O_EXCL\<close>: an existing semaphore is taken as it is.\<close>
definition ms_init :: "faults \<Rightarrow> int \<Rightarrow> cs_vars \<Rightarrow> cs_vars outcome" where
  "ms_init flt method v0 =
     (let v = v0\<lparr>cs_method_used := method\<rparr>; m = cs_method_used v in
      allocated
       (if m = CS_METHOD_MUTEX then
          (case mutex_init flt (cs_mutex v) of
             OK mx \<Rightarrow> Returns (v\<lparr>cs_mutex := mx\<rparr>) | _ \<Rightarrow> die ''pthread_mutex_init failed'' v)
        else if m = CS_METHOD_SEM_POSIX then
          (case sem_init flt 1 of
             OK s \<Rightarrow> Returns (v\<lparr>cs_sem := s\<rparr>) | _ \<Rightarrow> die ''sem_init failed'' v)
        else if m = CS_METHOD_SEM_POSIX_NAMED then
          (case sem_open flt False SEM_NAME 1 v of
             OK (sid, v1) \<Rightarrow>
               (let v2 = v1\<lparr>cs_named_sem := Some sid\<rparr>
                in case sem_unlink flt SEM_NAME v2 of OK v3 \<Rightarrow> Returns v3 | _ \<Rightarrow> Returns v2)
           | _ \<Rightarrow> die ''sem_open'' (v\<lparr>cs_named_sem := None\<rparr>))
        else other_method v))"

text \<open>A failing call ends the process, and nothing clears \<open>cs_var_allocated\<close>.\<close>
definition ms_destroy :: "faults \<Rightarrow> cs_vars \<Rightarrow> cs_vars outcome" where
  "ms_destroy flt v =
     (let m = cs_method_used v in
      if \<not> cs_var_allocated v then Returns v
      else if m = CS_METHOD_MUTEX then
        (case mutex_destroy flt (cs_mutex v) of
           OK mx \<Rightarrow> Returns (v\<lparr>cs_mutex := mx\<rparr>) | _ \<Rightarrow> die ''pthread_mutex_destroy'' v)
      else if m = CS_METHOD_SEM_POSIX then
        (case sem_destroy flt (cs_sem v) of
           OK s \<Rightarrow> Returns (v\<lparr>cs_sem := s\<rparr>) | _ \<Rightarrow> die ''sem_destroy'' v)
      else if m = CS_METHOD_SEM_POSIX_NAMED then
        (case cs_named_sem v of
           None \<Rightarrow> Returns v
         | Some sid \<Rightarrow>
             (case sem_close flt sid v of
                OK v' \<Rightarrow> Returns (v'\<lparr>cs_named_sem := None\<rparr>) | _ \<Rightarrow> die ''sem_close'' v))
      else Returns v)"

definition ms_enter :: "faults \<Rightarrow> nat \<Rightarrow> cs_vars \<Rightarrow> enter_pc \<Rightarrow> (cs_vars, enter_pc) lock_res" where
  "ms_enter flt i v pc =
     (let m = cs_method_used v in
      if m = CS_METHOD_MUTEX then
        checked ''pthread_mutex_lock'' v
          (map_call (\<lambda>mx. v\<lparr>cs_mutex := mx\<rparr>) (mutex_lock flt i (cs_mutex v)))
      else if m = CS_METHOD_SEM_POSIX then
        checked ''sem_wait'' v (map_call (\<lambda>s. v\<lparr>cs_sem := s\<rparr>) (sem_wait flt (cs_sem v)))
      else if m = CS_METHOD_SEM_POSIX_NAMED then
        checked ''sem_named_wait'' v
          (case cs_named_sem v of None \<Rightarrow> EFAIL | Some sid \<Rightarrow> named_wait flt sid v)
      else Passed v)"

definition ms_leave :: "faults \<Rightarrow> nat \<Rightarrow> cs_vars \<Rightarrow> (cs_vars, unit) lock_res" where
  "ms_leave flt i v =
     (let m = cs_method_used v in
      if m = CS_METHOD_MUTEX then
        checked ''pthread_mutex_lock'' v
          (map_call (\<lambda>mx. v\<lparr>cs_mutex := mx\<rparr>) (mutex_unlock flt (cs_mutex v)))
      else if m = CS_METHOD_SEM_POSIX then
        checked ''sem_post'' v (map_call (\<lambda>s. v\<lparr>cs_sem := s\<rparr>) (sem_post flt (cs_sem v)))
      else if m = CS_METHOD_SEM_POSIX_NAMED then
        checked ''sem_named_post'' v
          (case cs_named_sem v of None \<Rightarrow> EFAIL | Some sid \<Rightarrow> named_post flt sid v)
      else Passed v)"

section \<open>sem_sysv.h\<close>

definition SEM_KEY :: int where "SEM_KEY = 61014"

text \<open>The set has a key, so other processes can see it and it survives a killed process.\<close>
definition sv_init :: "faults \<Rightarrow> int \<Rightarrow> cs_vars \<Rightarrow> cs_vars outcome" where
  "sv_init flt method v0 =
     (let v = v0\<lparr>cs_method_used := method\<rparr>; m = cs_method_used v in
      allocated
       (if m = CS_METHOD_SEM_SYSV then
          (case semget_key flt SEM_KEY v of
             OK (sid, v1) \<Rightarrow>
               (let v2 = v1\<lparr>sysv_semid := sid\<rparr>
                in case semctl_setval flt (sysv_semid v2) 1 v2 of
                  OK v3 \<Rightarrow> Returns v3
                | _ \<Rightarrow> die ''Error setting semaphore value'' v2)
           | _ \<Rightarrow> die ''Error creating semaphore'' v)
        else other_method v))"

definition sv_destroy :: "faults \<Rightarrow> cs_vars \<Rightarrow> cs_vars outcome" where
  "sv_destroy flt v =
     (if \<not> cs_var_allocated v then Returns v
      else if cs_method_used v = CS_METHOD_SEM_SYSV then
        (case semctl_rmid flt (sysv_semid v) v of
           OK v' \<Rightarrow> Returns v' | _ \<Rightarrow> die ''Error destroying semaphore'' v)
      else Returns v)"

text \<open>The local \<open>struct sembuf\<close> of the two functions, with its field values.\<close>
definition sv_enter_op :: sembuf where
  "sv_enter_op = \<lparr>sem_num = 0, sem_oper = -1, sem_undo = True\<rparr>"

definition sv_leave_op :: sembuf where
  "sv_leave_op = \<lparr>sem_num = 0, sem_oper = 1, sem_undo = True\<rparr>"

definition sv_enter :: "faults \<Rightarrow> nat \<Rightarrow> cs_vars \<Rightarrow> enter_pc \<Rightarrow> (cs_vars, enter_pc) lock_res" where
  "sv_enter flt i v pc =
     (if cs_method_used v = CS_METHOD_SEM_SYSV then
        checked ''Error entering critical section'' v
          (semop_undo flt (sysv_semid v) (sem_oper sv_enter_op) v)
      else Passed v)"

definition sv_leave :: "faults \<Rightarrow> nat \<Rightarrow> cs_vars \<Rightarrow> (cs_vars, unit) lock_res" where
  "sv_leave flt i v =
     (if cs_method_used v = CS_METHOD_SEM_SYSV then
        checked ''Error exiting critical section'' v
          (semop_undo flt (sysv_semid v) (sem_oper sv_leave_op) v)
      else Passed v)"

section \<open>messageQueue_posix.h\<close>

text \<open>The first message is sent before the name is removed.\<close>
definition mp_init :: "faults \<Rightarrow> int \<Rightarrow> cs_vars \<Rightarrow> cs_vars outcome" where
  "mp_init flt method v0 =
     (let v = v0\<lparr>cs_method_used := method\<rparr>; m = cs_method_used v in
      allocated
       (if m = CS_METHOD_MQ_POSIX then
          (case mq_open flt MQ_NAME 1 MESSAGE_SIZE v of
             OK (q, v1) \<Rightarrow>
               (let v2 = v1\<lparr>message_queue := q\<rparr>
                in case mq_send flt (message_queue v2) MESSAGE MESSAGE_SIZE v2 of
                  OK v3 \<Rightarrow>
                    (case mq_unlink flt MQ_NAME v3 of
                       OK v4 \<Rightarrow> Returns v4 | _ \<Rightarrow> die ''mq_unlink'' v3)
                | _ \<Rightarrow> die ''innit_mq_send'' v2)
           | _ \<Rightarrow> die ''mq_open'' v)
        else other_method v))"

definition mp_destroy :: "faults \<Rightarrow> cs_vars \<Rightarrow> cs_vars outcome" where
  "mp_destroy flt v =
     (if \<not> cs_var_allocated v then Returns v
      else if cs_method_used v = CS_METHOD_MQ_POSIX then
        (case mq_close flt (message_queue v) v of
           OK v' \<Rightarrow> Returns (v'\<lparr>cs_var_allocated := False\<rparr>) | _ \<Rightarrow> Returns (perror ''mq_close'' v))
      else Returns v)"

definition mp_enter :: "faults \<Rightarrow> nat \<Rightarrow> cs_vars \<Rightarrow> enter_pc \<Rightarrow> (cs_vars, enter_pc) lock_res" where
  "mp_enter flt i v pc =
     (if cs_method_used v = CS_METHOD_MQ_POSIX then
        checked ''mq_receive'' v
          (map_call (\<lambda>(msg, v'). v'\<lparr>message_buffer := msg\<rparr>)
            (mq_receive flt (message_queue v) MESSAGE_SIZE v))
      else Passed v)"

definition mp_leave :: "faults \<Rightarrow> nat \<Rightarrow> cs_vars \<Rightarrow> (cs_vars, unit) lock_res" where
  "mp_leave flt i v =
     (if cs_method_used v = CS_METHOD_MQ_POSIX then
        checked ''mq_send'' v (mq_send flt (message_queue v) MESSAGE MESSAGE_SIZE v)
      else Passed v)"

section \<open>messageQueue_sysV.h\<close>

definition mv_init :: "faults \<Rightarrow> int \<Rightarrow> cs_vars \<Rightarrow> cs_vars outcome" where
  "mv_init flt method v0 =
     (let v = v0\<lparr>cs_method_used := method\<rparr>; m = cs_method_used v in
      allocated
       (if m = CS_METHOD_MQ_SYSV then
          (let v = v\<lparr>msg_type := 1\<rparr>
           in case msgget_private flt v of
             OK (q, v1) \<Rightarrow>
               (let v2 = v1\<lparr>mq_sysv := q\<rparr>
                in case msgsnd flt (mq_sysv v2) (msg_type v2) v2 of
                  OK v3 \<Rightarrow> Returns v3 | _ \<Rightarrow> die ''innit_msgsnd'' v2)
           | _ \<Rightarrow> die ''msgget'' v)
        else other_method v))"

definition mv_destroy :: "faults \<Rightarrow> cs_vars \<Rightarrow> cs_vars outcome" where
  "mv_destroy flt v =
     (if \<not> cs_var_allocated v then Returns v
      else if cs_method_used v = CS_METHOD_MQ_SYSV then
        (case msgctl_rmid flt (mq_sysv v) v of
           OK v' \<Rightarrow> Returns (v'\<lparr>cs_var_allocated := False\<rparr>)
         | _ \<Rightarrow> Returns (perror ''msgctl_destroy'' v))
      else Returns v)"

definition mv_enter :: "faults \<Rightarrow> nat \<Rightarrow> cs_vars \<Rightarrow> enter_pc \<Rightarrow> (cs_vars, enter_pc) lock_res" where
  "mv_enter flt i v pc =
     (if cs_method_used v = CS_METHOD_MQ_SYSV then
        checked ''msgrcv'' v
          (map_call (\<lambda>(t, v'). v'\<lparr>msg_type := t\<rparr>) (msgrcv flt (mq_sysv v) v))
      else Passed v)"

definition mv_leave :: "faults \<Rightarrow> nat \<Rightarrow> cs_vars \<Rightarrow> (cs_vars, unit) lock_res" where
  "mv_leave flt i v =
     (if cs_method_used v = CS_METHOD_MQ_SYSV then
        checked ''msgsnd'' v (msgsnd flt (mq_sysv v) (msg_type v) v)
      else Passed v)"

section \<open>Each header is a lock for its methods, whatever fails\<close>

definition exit_failure :: "int \<Rightarrow> bool" where
  "exit_failure x \<longleftrightarrow> x = EXIT_FAILURE"

definition lx_lk :: "cs_vars \<Rightarrow> nat option \<Rightarrow> bool" where
  "lx_lk v h \<longleftrightarrow> (cs_method_used v = CS_METHOD_XCHG \<or> cs_method_used v = CS_METHOD_TEST_XCHG) \<and>
     method_state v h"

definition ms_lk :: "cs_vars \<Rightarrow> nat option \<Rightarrow> bool" where
  "ms_lk v h \<longleftrightarrow> (cs_method_used v = CS_METHOD_MUTEX \<or> cs_method_used v = CS_METHOD_SEM_POSIX \<or>
     cs_method_used v = CS_METHOD_SEM_POSIX_NAMED) \<and> method_state v h"

definition sv_lk :: "cs_vars \<Rightarrow> nat option \<Rightarrow> bool" where
  "sv_lk v h \<longleftrightarrow> cs_method_used v = CS_METHOD_SEM_SYSV \<and>
     sysv_vals v (sysv_semid v) = Some (tokens h) \<and>
     sysv_adj v (sysv_semid v) = 1 - int (tokens h)"

definition mp_lk :: "cs_vars \<Rightarrow> nat option \<Rightarrow> bool" where
  "mp_lk v h \<longleftrightarrow> cs_method_used v = CS_METHOD_MQ_POSIX \<and> method_state v h"

definition mv_lk :: "cs_vars \<Rightarrow> nat option \<Rightarrow> bool" where
  "mv_lk v h \<longleftrightarrow> cs_method_used v = CS_METHOD_MQ_SYSV \<and> method_state v h"

lemmas variant_defs = exit_failure_def method_state_def checked_def map_call_def perror_def
  wait_body_def ipc_defs
  lx_lk_def lx_enter_def lx_leave_def ms_lk_def ms_enter_def ms_leave_def
  sv_lk_def sv_enter_def sv_leave_def sv_enter_op_def sv_leave_op_def
  mp_lk_def mp_enter_def mp_leave_def mv_lk_def mv_enter_def mv_leave_def

interpretation lx: live_lock lx_enter lx_leave At_test lx_lk cs_prank
  by unfold_locales
    (auto simp: variant_defs Let_def split: if_splits intro: cs_prank_pos)

interpretation ms: simple_lock "ms_enter flt" "ms_leave flt" At_test exit_failure ms_lk for flt
  by unfold_locales
    (auto simp: variant_defs Let_def tokens_def split: if_splits option.splits callres.splits)

interpretation sv: simple_lock "sv_enter flt" "sv_leave flt" At_test exit_failure sv_lk for flt
  by unfold_locales
    (auto simp: variant_defs Let_def tokens_def split: if_splits option.splits callres.splits)

interpretation mp: simple_lock "mp_enter flt" "mp_leave flt" At_test exit_failure mp_lk for flt
  by unfold_locales
    (auto simp: variant_defs Let_def tokens_def split: if_splits option.splits callres.splits list.splits)

interpretation mv: simple_lock "mv_enter flt" "mv_leave flt" At_test exit_failure mv_lk for flt
  by unfold_locales
    (auto simp: variant_defs Let_def tokens_def split: if_splits option.splits callres.splits list.splits)

section \<open>The header a program includes\<close>

datatype header = LX | MS | SV | MP | MV

fun own_methods :: "header \<Rightarrow> int list" where
  "own_methods LX = [CS_METHOD_XCHG, CS_METHOD_TEST_XCHG]"
| "own_methods MS = [CS_METHOD_MUTEX, CS_METHOD_SEM_POSIX, CS_METHOD_SEM_POSIX_NAMED]"
| "own_methods SV = [CS_METHOD_SEM_SYSV]"
| "own_methods MP = [CS_METHOD_MQ_POSIX]"
| "own_methods MV = [CS_METHOD_MQ_SYSV]"

fun hdr_init :: "header \<Rightarrow> faults \<Rightarrow> int \<Rightarrow> cs_vars \<Rightarrow> cs_vars outcome" where
  "hdr_init LX flt = lx_init"
| "hdr_init MS flt = ms_init flt"
| "hdr_init SV flt = sv_init flt"
| "hdr_init MP flt = mp_init flt"
| "hdr_init MV flt = mv_init flt"

fun hdr_destroy :: "header \<Rightarrow> faults \<Rightarrow> cs_vars \<Rightarrow> cs_vars outcome" where
  "hdr_destroy LX flt = lx_destroy"
| "hdr_destroy MS flt = ms_destroy flt"
| "hdr_destroy SV flt = sv_destroy flt"
| "hdr_destroy MP flt = mp_destroy flt"
| "hdr_destroy MV flt = mv_destroy flt"

fun hdr_enter :: "header \<Rightarrow> faults \<Rightarrow> nat \<Rightarrow> cs_vars \<Rightarrow> enter_pc \<Rightarrow> (cs_vars, enter_pc) lock_res" where
  "hdr_enter LX flt = lx_enter"
| "hdr_enter MS flt = ms_enter flt"
| "hdr_enter SV flt = sv_enter flt"
| "hdr_enter MP flt = mp_enter flt"
| "hdr_enter MV flt = mv_enter flt"

fun hdr_leave :: "header \<Rightarrow> faults \<Rightarrow> nat \<Rightarrow> cs_vars \<Rightarrow> (cs_vars, unit) lock_res" where
  "hdr_leave LX flt = lx_leave"
| "hdr_leave MS flt = ms_leave flt"
| "hdr_leave SV flt = sv_leave flt"
| "hdr_leave MP flt = mp_leave flt"
| "hdr_leave MV flt = mv_leave flt"

fun hdr_lk :: "header \<Rightarrow> cs_vars \<Rightarrow> nat option \<Rightarrow> bool" where
  "hdr_lk LX = lx_lk"
| "hdr_lk MS = ms_lk"
| "hdr_lk SV = sv_lk"
| "hdr_lk MP = mp_lk"
| "hdr_lk MV = mv_lk"

lemma lx_dies: "simple_lock lx_enter lx_leave exit_failure lx_lk"
  by (rule simple_lock.intro)
    (auto dest: lx.lk_pass lx.lk_spin lx.lk_died lx.lk_left lx.lk_lspin lx.lk_ldied)

interpretation hdr: simple_lock "hdr_enter h flt" "hdr_leave h flt" At_test exit_failure "hdr_lk h"
  for h flt
  by (cases h)
    (simp_all add: lx_dies ms.simple_lock_axioms sv.simple_lock_axioms mp.simple_lock_axioms
      mv.simple_lock_axioms)

lemmas hdr_init_defs = lx_init_def ms_init_def sv_init_def mp_init_def mv_init_def allocated_def
  other_method_def die_def ipc_defs MESSAGE_SIZE_def

text \<open>What \<open>sem_open\<close> of \<open>mutex_sem_namedSem.h\<close> may find: no semaphore with its name, or one with the
  value 1.\<close>
definition named_sem_free :: "cs_vars \<Rightarrow> bool" where
  "named_sem_free v0 \<longleftrightarrow> (case sem_names v0 SEM_NAME of
     None \<Rightarrow> True | Some sid \<Rightarrow> map_option ns_value (named_sems v0 sid) = Some 1)"

lemma hdr_init_lk:
  assumes "hdr_init h flt m v0 = Returns v" "m \<in> set (own_methods h)"
    and "m = CS_METHOD_SEM_POSIX_NAMED \<Longrightarrow> named_sem_free v0"
  shows "hdr_lk h v None"
  using assms
  by (cases h)
    (auto simp: hdr_init_defs lx_lk_def ms_lk_def sv_lk_def mp_lk_def mv_lk_def method_state_def
      named_sem_free_def Let_def split: if_splits option.splits callres.splits)

section \<open>Properties of the five headers\<close>

abbreviation hdr_step ::
  "header \<Rightarrow> faults \<Rightarrow> (nat \<Rightarrow> 'd \<Rightarrow> 'l \<Rightarrow> ('d, 'l) act option) \<Rightarrow>
   (nat \<Rightarrow> 'd \<Rightarrow> 'l \<Rightarrow> ('d, 'l) act option) \<Rightarrow> ((cs_vars, 'd) world, (enter_pc, 'l) phase) tstep" where
  "hdr_step h flt \<equiv> locked_step (hdr_enter h flt) (hdr_leave h flt) At_test"

lemma hdr_inv:
  assumes "hdr_lk h v None"
    and "reach n (hdr_step h flt outs ins) (cs_program_start v d l) c"
  shows "lock_J n (hdr_lk h) (lockst (fst c)) (roles (snd c))"
  by (rule hdr.J_reach [OF lock_J_free [where lk = "hdr_lk h", OF assms(1)]
        assms(2) [unfolded cs_program_start_def]])

text \<open>C23. The five earlier headers exclude too: with each method a header implements except \<open>CS_METHOD_LOCKED\<close>, after
  a successful \<open>cs_init\<close>, whichever calls then fail and whatever the program does, two of its threads are never in the
  critical section together, because a failing call in \<open>cs_enter\<close> or \<open>cs_leave\<close> ends the process. The named
  semaphore, which is opened without \<open>O_EXCL\<close>, must not have been left behind with a value other than 1, and no other
  process may use the objects meanwhile.\<close>
theorem headers_mutual_exclusion:
  assumes "hdr_init h flt m v0 = Returns v" "m \<in> set (own_methods h)"
    and "m = CS_METHOD_SEM_POSIX_NAMED \<Longrightarrow> named_sem_free v0"
    and "reach n (hdr_step h flt outs ins) (cs_program_start v d l) c"
    and "i < n" "j < n" "role_of (snd c i) = Holding" "role_of (snd c j) = Holding"
  shows "i = j"
  using hdr_inv [OF hdr_init_lk [OF assms(1-3)] assms(4)] assms(5-)
  unfolding lock_J_def by auto

lemma run_from_hdr_init:
  assumes "case hdr_init h flt m s of Exits x w \<Rightarrow> False
      | Returns v \<Rightarrow> (case run_sched n ts is (f v) of None \<Rightarrow> False | Some c \<Rightarrow> P c)"
  shows "\<exists>v c. hdr_init h flt m s = Returns v \<and> reach n ts (f v) c \<and> P c"
  using assms by (cases "hdr_init h flt m s") (auto dest!: run_case)

theorem headers_mutual_exclusion_witness:
  "\<exists>v c. hdr_init MS (fault_at C_sem_post) CS_METHOD_SEM_POSIX cs_start = Returns v \<and>
     reach 2 (hdr_step MS (fault_at C_sem_post) enter_only enter_only)
       (cs_program_start v () (\<lambda>_. ())) c \<and>
     exited (fst c) = Some EXIT_FAILURE \<and> role_of (snd c 0) = Holding \<and> role_of (snd c 1) \<noteq> Holding"
proof -
  have run: "case hdr_init MS (fault_at C_sem_post) CS_METHOD_SEM_POSIX cs_start of Exits x w \<Rightarrow> False
      | Returns v \<Rightarrow>
        (case run_sched 2 (hdr_step MS (fault_at C_sem_post) enter_only enter_only) [0, 0, 1, 0, 0]
          (cs_program_start v () (\<lambda>_. ())) of None \<Rightarrow> False
        | Some c \<Rightarrow> exited (fst c) = Some EXIT_FAILURE \<and> role_of (snd c 0) = Holding)"
    by code_simp
  obtain v c where v: "hdr_init MS (fault_at C_sem_post) CS_METHOD_SEM_POSIX cs_start = Returns v"
    and c: "reach 2 (hdr_step MS (fault_at C_sem_post) enter_only enter_only)
      (cs_program_start v () (\<lambda>_. ())) c"
      "exited (fst c) = Some EXIT_FAILURE" "role_of (snd c 0) = Holding"
    using run_from_hdr_init [OF run] by blast
  have "role_of (snd c 1) \<noteq> Holding"
  proof
    assume h: "role_of (snd c 1) = Holding"
    have "CS_METHOD_SEM_POSIX = CS_METHOD_SEM_POSIX_NAMED \<Longrightarrow> named_sem_free cs_start" by simp
    from headers_mutual_exclusion [OF v _ this c(1) _ _ c(3) h] show False by simp
  qed
  then show ?thesis using v c by blast
qed

text \<open>The methods that a header and \<open>everything.h\<close> both implement.\<close>
fun shared_methods :: "header \<Rightarrow> int list" where
  "shared_methods LX = [CS_METHOD_LOCKED, CS_METHOD_XCHG, CS_METHOD_TEST_XCHG]"
| "shared_methods h = own_methods h"

text \<open>C24. \<open>everything.h\<close> replaces the five: for each method that it shares with an earlier header, \<open>CS_METHOD_LOCKED\<close>
  included, the entry sections of the two do the same from the same state, and so do the exit sections. For the busy waits
  this holds access by access and in every state; for the methods of the other four headers in the states a program with
  that method can be in, free or held by a thread, where the exit is that of the holder, and as long as the calls do not fail
  (a failing call is ignored by \<open>everything.h\<close> and ends the process with the others).\<close>
theorem headers_agree:
  assumes "cs_method_used v \<in> set (shared_methods h)" "h \<noteq> LX \<Longrightarrow> cs_lk flt v k \<and> pc = At_test"
  shows "hdr_enter h flt i v pc = cs_enter flt i v pc \<and>
    (h = LX \<or> k = Some i \<longrightarrow> hdr_leave h flt i v = cs_leave flt i v)"
proof (cases h)
  case LX
  then show ?thesis using assms(1)
    by (auto simp: lx_enter_def cs_enter_def lx_leave_def cs_leave_def Let_def)
next
  case MS
  then show ?thesis using assms
    by (cases k) (auto simp: variant_defs enter_defs)
next
  case SV
  then show ?thesis using assms
    by (cases k) (auto simp: variant_defs enter_defs)
next
  case MP
  then show ?thesis using assms
    by (cases k) (auto simp: variant_defs enter_defs)
next
  case MV
  then show ?thesis using assms
    by (cases k) (auto simp: variant_defs enter_defs)
qed

text \<open>A System V semaphore that is held by thread 0.\<close>
definition held_sysv :: cs_vars where
  "held_sysv = cs_start\<lparr>cs_method_used := CS_METHOD_SEM_SYSV, sysv_vals := [0 \<mapsto> 0], sysv_adj := (\<lambda>_. 1),
     sem_op_enter := sv_enter_op, sem_op_leave := sv_leave_op\<rparr>"

theorem headers_agree_witness:
  "cs_method_used held_sysv \<in> set (shared_methods SV) \<and> cs_lk no_faults held_sysv (Some 0) \<and>
   hdr_enter SV no_faults 1 held_sysv At_test = cs_enter no_faults 1 held_sysv At_test \<and>
   hdr_enter SV no_faults 1 held_sysv At_test = Blocked \<and>
   hdr_leave SV no_faults 0 held_sysv = cs_leave no_faults 0 held_sysv"
proof -
  have m: "cs_method_used held_sysv \<in> set (shared_methods SV)" by (simp add: held_sysv_def)
  have lk: "cs_lk no_faults held_sysv (Some 0)"
    by (simp add: held_sysv_def cs_lk_def quiet_def no_faults_def method_state_def cs_start_def sv_enter_op_def sv_leave_op_def)
  have "hdr_enter SV no_faults 1 held_sysv At_test = Blocked"
    by (simp add: held_sysv_def cs_start_def sv_enter_def sv_enter_op_def checked_def no_faults_def ipc_defs)
  then show ?thesis
    using m lk headers_agree [of held_sysv SV no_faults "Some 0" At_test 1] headers_agree [of held_sysv SV no_faults "Some 0" At_test 0]
    by simp
qed

text \<open>A named semaphore left behind by another program: \<open>mutex_sem_namedSem.h\<close> opens it
  with the value it has, so with value 0 every thread blocks for ever; \<open>everything.h\<close>
  creates the semaphore exclusively and ends the process.\<close>
theorem stale_named_semaphore:
  assumes "sem_names v0 SEM_NAME = Some sid" "named_sems v0 sid = Some s"
  shows "(\<exists>v. ms_init no_faults CS_METHOD_SEM_POSIX_NAMED v0 = Returns v \<and>
            map_option ns_value (named_sems v sid) = Some (ns_value s) \<and>
            (ns_value s = 0 \<longrightarrow> (\<forall>i pc. ms_enter no_faults i v pc = Blocked))) \<and>
         (\<exists>v. cs_init no_faults CS_METHOD_SEM_POSIX_NAMED v0 = Exits EXIT_FAILURE v)"
  using assms
  by (simp add: hdr_init_defs init_defs ms_enter_def checked_def no_faults_def)

theorem stale_named_semaphore_witness:
  "\<exists>v. ms_init no_faults CS_METHOD_SEM_POSIX_NAMED
      (cs_start\<lparr>sem_names := [SEM_NAME \<mapsto> 3],
        named_sems := [3 \<mapsto> \<lparr>ns_value = 0, ns_linked = True\<rparr>]\<rparr>) = Returns v \<and>
    ms_enter no_faults 0 v At_test = Blocked"
  using stale_named_semaphore [of "cs_start\<lparr>sem_names := [SEM_NAME \<mapsto> 3],
        named_sems := [3 \<mapsto> \<lparr>ns_value = 0, ns_linked = True\<rparr>]\<rparr>" 3 "\<lparr>ns_value = 0, ns_linked = True\<rparr>"]
  by auto

text \<open>Destroying twice (once by hand and once at exit): \<open>everything.h\<close> does nothing the
  second time, in any state and environment; \<open>mutex_sem_namedSem.h\<close>, which never clears
  \<open>cs_var_allocated\<close>, fails on the destroyed mutex or semaphore and turns a successful
  exit into \<open>EXIT_FAILURE\<close>.\<close>
theorem destroy_twice:
  "cs_destroy flt (cs_destroy flt v) = cs_destroy flt v \<and>
   (case ms_init no_faults CS_METHOD_MUTEX v of
      Exits x w \<Rightarrow> False
    | Returns v1 \<Rightarrow> (case ms_destroy no_faults v1 of
        Exits x w \<Rightarrow> False
      | Returns v2 \<Rightarrow> (\<exists>v3. ms_destroy no_faults v2 = Exits EXIT_FAILURE v3))) \<and>
   (case ms_init no_faults CS_METHOD_SEM_POSIX v of
      Exits x w \<Rightarrow> False
    | Returns v1 \<Rightarrow> (case ms_destroy no_faults v1 of
        Exits x w \<Rightarrow> False
      | Returns v2 \<Rightarrow> (\<exists>v3. ms_destroy no_faults v2 = Exits EXIT_FAILURE v3)))"
  by (simp add: hdr_init_defs ms_destroy_def no_faults_def cs_destroy_def)

text \<open>Failing to send the first message: \<open>messageQueue_posix.h\<close> still has the queue's
  name in the kernel, and every later start, in any environment, ends with
  \<open>EXIT_FAILURE\<close>; \<open>everything.h\<close> has removed the name before.\<close>
theorem queue_name_left:
  "(case mp_init (fault_at C_mq_send) CS_METHOD_MQ_POSIX cs_start of
      Returns v \<Rightarrow> False
    | Exits x v \<Rightarrow> x = EXIT_FAILURE \<and> mq_names v MQ_NAME \<noteq> None \<and>
        (\<forall>flt. \<exists>v'. mp_init flt CS_METHOD_MQ_POSIX v = Exits EXIT_FAILURE v')) \<and>
   (case cs_init (fault_at C_mq_send) CS_METHOD_MQ_POSIX cs_start of
      Returns v \<Rightarrow> False
    | Exits x v \<Rightarrow> x = EXIT_FAILURE \<and> mq_names v MQ_NAME = None \<and>
        (\<exists>v'. cs_init no_faults CS_METHOD_MQ_POSIX v = Returns v'))"
  by (simp add: hdr_init_defs init_defs fault_at_def no_faults_def cs_start_def)

text \<open>\<open>SEM_UNDO\<close> of \<open>sem_sysv.h\<close>: wherever the threads of a program are when the
  process ends or is killed, the kernel's undo leaves the semaphore, which has a key and
  outlives the process, with the value 1.\<close>
theorem sysv_undo_restores:
  assumes "sv_init flt CS_METHOD_SEM_SYSV v0 = Returns v"
    and "reach n (hdr_step SV flt outs ins) (cs_program_start v d l) c"
  shows "sysv_vals (sysv_exit (sysv_semid (lockst (fst c))) (lockst (fst c)))
           (sysv_semid (lockst (fst c))) = Some 1"
proof -
  have "hdr_lk SV v None"
    using hdr_init_lk [of SV flt CS_METHOD_SEM_SYSV v0 v] assms(1) by simp
  from hdr_inv [OF this assms(2)] show ?thesis
    by (auto simp: lock_J_def sv_lk_def sysv_exit_def tokens_def split: if_splits)
qed

theorem sysv_undo_restores_witness:
  "\<exists>v c. sv_init no_faults CS_METHOD_SEM_SYSV cs_start = Returns v \<and>
     reach 2 (hdr_step SV no_faults enter_only enter_only) (cs_program_start v () (\<lambda>_. ())) c \<and>
     sysv_vals (lockst (fst c)) (sysv_semid (lockst (fst c))) = Some 0 \<and>
     sysv_vals (sysv_exit (sysv_semid (lockst (fst c))) (lockst (fst c)))
       (sysv_semid (lockst (fst c))) = Some 1"
proof -
  have run: "case hdr_init SV no_faults CS_METHOD_SEM_SYSV cs_start of Exits x w \<Rightarrow> False
      | Returns v \<Rightarrow>
        (case run_sched 2 (hdr_step SV no_faults enter_only enter_only) [0, 0]
          (cs_program_start v () (\<lambda>_. ())) of None \<Rightarrow> False
        | Some c \<Rightarrow> sysv_vals (lockst (fst c)) (sysv_semid (lockst (fst c))) = Some 0)"
    by code_simp
  obtain v c where v: "sv_init no_faults CS_METHOD_SEM_SYSV cs_start = Returns v"
    and c: "reach 2 (hdr_step SV no_faults enter_only enter_only)
      (cs_program_start v () (\<lambda>_. ())) c"
      "sysv_vals (lockst (fst c)) (sysv_semid (lockst (fst c))) = Some 0"
    using run_from_hdr_init [OF run] by auto
  from sysv_undo_restores [OF v c(1)] show ?thesis using v c by blast
qed

end
