(* ===== verification/Libc.thy ===== *)
theory Libc
  imports Prelude
begin

text \<open>
  The parts of the C library that the argument handling of the programs uses:
  the conversions \<open>atoi\<close>, \<open>atoll\<close> and \<open>atof\<close>, and \<open>getopt\<close> as the GNU library
  implements it (options may follow other arguments, options without an
  argument may be clustered, \<open>--\<close> ends the options).
\<close>

section \<open>Numbers\<close>

definition is_space :: "char \<Rightarrow> bool" where
  "is_space c \<longleftrightarrow> c = CHR '' '' \<or> (9 \<le> (of_char c :: nat) \<and> (of_char c :: nat) \<le> 13)"

definition digit_of :: "char \<Rightarrow> int option" where
  "digit_of c = (let n = (of_char c :: nat) in
     if 48 \<le> n \<and> n \<le> 57 then Some (int n - 48) else None)"

fun digits :: "int \<Rightarrow> string \<Rightarrow> int" where
  "digits acc [] = acc"
| "digits acc (c # cs) =
     (case digit_of c of None \<Rightarrow> acc | Some d \<Rightarrow> digits (10 * acc + d) cs)"

definition signed_digits :: "string \<Rightarrow> int" where
  "signed_digits s =
     (case s of
        [] \<Rightarrow> 0
      | c # cs \<Rightarrow>
          if c = CHR ''-'' then - digits 0 cs
          else if c = CHR ''+'' then digits 0 cs
          else digits 0 s)"

text \<open>\<open>strtol (s, NULL, 10)\<close> and \<open>strtoll\<close>: out of range values are clamped to 64 bits.\<close>
definition strtol :: "string \<Rightarrow> int" where
  "strtol s = max (- (2 ^ 63)) (min (2 ^ 63 - 1) (signed_digits (dropWhile is_space s)))"

definition atoi :: "string \<Rightarrow> cint" where
  "atoi s = word_of_int (strtol s)"

definition atoll :: "string \<Rightarrow> cllong" where
  "atoll s = word_of_int (strtol s)"

text \<open>\<open>strtol (s, NULL, 0)\<close>: hexadecimal after \<open>0x\<close>, octal after \<open>0\<close>, else decimal.\<close>
definition xdigit_of :: "char \<Rightarrow> int option" where
  "xdigit_of c = (let n = (of_char c :: nat) in
     if 48 \<le> n \<and> n \<le> 57 then Some (int n - 48)
     else if 65 \<le> n \<and> n \<le> 70 then Some (int n - 55)
     else if 97 \<le> n \<and> n \<le> 102 then Some (int n - 87) else None)"

fun digits_in :: "int \<Rightarrow> int \<Rightarrow> string \<Rightarrow> int" where
  "digits_in base acc [] = acc"
| "digits_in base acc (c # cs) =
     (case xdigit_of c of
        None \<Rightarrow> acc
      | Some d \<Rightarrow> if d < base then digits_in base (base * acc + d) cs else acc)"

definition unsigned_in :: "string \<Rightarrow> int" where
  "unsigned_in s =
     (case s of
        c # x # y # cs \<Rightarrow>
          if c = CHR ''0'' \<and> (x = CHR ''x'' \<or> x = CHR ''X'') \<and> xdigit_of y \<noteq> None then digits_in 16 0 (y # cs)
          else if c = CHR ''0'' then digits_in 8 0 s
          else digits_in 10 0 s
      | c # cs \<Rightarrow> if c = CHR ''0'' then digits_in 8 0 s else digits_in 10 0 s
      | [] \<Rightarrow> 0)"

definition strtol_any :: "string \<Rightarrow> int" where
  "strtol_any s =
     max (- (2 ^ 63)) (min (2 ^ 63 - 1)
       (case dropWhile is_space s of
          [] \<Rightarrow> 0
        | c # cs \<Rightarrow> if c = CHR ''-'' then - unsigned_in cs
                   else if c = CHR ''+'' then unsigned_in cs
                   else unsigned_in (c # cs)))"

section \<open>Options\<close>

text \<open>What one call of \<open>getopt\<close> returns: an option with its argument (empty when it takes
  none), or \<open>'?'\<close> with \<open>optopt\<close>.\<close>
datatype opt_event = Opt char string | Bad char

text \<open>Whether an option is in the option string, and whether it takes an argument.\<close>
fun opt_kind :: "string \<Rightarrow> char \<Rightarrow> bool option" where
  "opt_kind [] c = None"
| "opt_kind (x # xs) c =
     (if c = CHR '':'' then None
      else if x = c then Some (case xs of [] \<Rightarrow> False | y # ys \<Rightarrow> y = CHR '':'')
      else opt_kind xs c)"

text \<open>The options of one argument \<open>-abc\<close>; the boolean tells that the last one still
  needs an argument from the next word.\<close>
fun cluster :: "string \<Rightarrow> string \<Rightarrow> opt_event list \<times> char option" where
  "cluster optstring [] = ([], None)"
| "cluster optstring (c # cs) =
     (case opt_kind optstring c of
        None \<Rightarrow> (let (es, r) = cluster optstring cs in (Bad c # es, r))
      | Some False \<Rightarrow> (let (es, r) = cluster optstring cs in (Opt c [] # es, r))
      | Some True \<Rightarrow> if cs = [] then ([], Some c) else ([Opt c cs], None))"

fun getopt :: "string \<Rightarrow> string list \<Rightarrow> opt_event list" where
  "getopt optstring [] = []"
| "getopt optstring (a # as) =
     (if a = ''--'' then []
      else if a = [] \<or> a = ''-'' \<or> hd a \<noteq> CHR ''-'' then getopt optstring as
      else case cluster optstring (tl a) of
        (es, None) \<Rightarrow> es @ getopt optstring as
      | (es, Some c) \<Rightarrow>
          (case as of
             [] \<Rightarrow> es @ [Bad c]
           | b # bs \<Rightarrow> es @ Opt c b # getopt optstring bs))"

text \<open>What is left of the arguments from \<open>optind\<close> on: \<open>getopt\<close> moves the
  other arguments behind the options.\<close>
fun operands :: "string \<Rightarrow> string list \<Rightarrow> string list" where
  "operands optstring [] = []"
| "operands optstring (a # as) =
     (if a = ''--'' then as
      else if a = [] \<or> a = ''-'' \<or> hd a \<noteq> CHR ''-'' then a # operands optstring as
      else case cluster optstring (tl a) of
        (es, None) \<Rightarrow> operands optstring as
      | (es, Some c) \<Rightarrow> (case as of [] \<Rightarrow> [] | b # bs \<Rightarrow> operands optstring bs))"

text \<open>The loop \<open>while ((opt = getopt (...)) != -1) switch (opt) ...\<close>.\<close>
fun opt_loop :: "('c \<Rightarrow> opt_event \<Rightarrow> 'c outcome) \<Rightarrow> 'c \<Rightarrow> opt_event list \<Rightarrow> 'c outcome" where
  "opt_loop f c [] = Returns c"
| "opt_loop f c (e # es) =
     (case f c e of Exits x c' \<Rightarrow> Exits x c' | Returns c' \<Rightarrow> opt_loop f c' es)"

lemma opt_loop_invariant:
  assumes "\<And>c e c'. P c \<Longrightarrow> f c e = Returns c' \<Longrightarrow> P c'"
    and "opt_loop f c es = Returns c'" and "P c"
  shows "P c'"
  using assms(2,3) by (induction es arbitrary: c) (auto split: outcome.splits intro: assms(1))

lemma opt_loop_exit:
  assumes "\<And>c e x c'. f c e = Exits x c' \<Longrightarrow> X x"
    and "opt_loop f c es = Exits x c'"
  shows "X x"
  using assms(2) by (induction es arbitrary: c) (auto split: outcome.splits intro: assms(1))

section \<open>Seconds\<close>

text \<open>\<open>atof\<close> for times: \<open>double\<close> seconds in the programs, here whole microseconds, the resolution of
  \<open>gettimeofday\<close>, and without exponents. First the digits after the point, the first one weighing \<open>w\<close> microseconds.\<close>
fun fraction_us :: "int \<Rightarrow> string \<Rightarrow> int" where
  "fraction_us w [] = 0"
| "fraction_us w (c # cs) =
     (case digit_of c of None \<Rightarrow> 0 | Some d \<Rightarrow> d * w + fraction_us (w div 10) cs)"

definition unsigned_us :: "string \<Rightarrow> int" where
  "unsigned_us s =
     1000000 * digits 0 s +
     (case dropWhile (\<lambda>c. digit_of c \<noteq> None) s of
        [] \<Rightarrow> 0
      | c # cs \<Rightarrow> if c = CHR ''.'' then fraction_us 100000 cs else 0)"

definition atof_us :: "string \<Rightarrow> int" where
  "atof_us s =
     (case dropWhile is_space s of
        [] \<Rightarrow> 0
      | c # cs \<Rightarrow> if c = CHR ''-'' then - unsigned_us cs
                 else if c = CHR ''+'' then unsigned_us cs
                 else unsigned_us (c # cs))"

end
