(* ===== verification/Deposit.thy ===== *)
theory Deposit
  imports Critical_Section Libc
begin

text \<open>
  The bank deposit programs: \<open>bank_deposit.c\<close>, its older version
  \<open>new/bank_deposit.c\<close> and the two versions of \<open>bank_deposit_CPUtime.c\<close>.
  This theory holds what they share, the threads: \<open>thread_count\<close> workers that
  deposit in a loop, and the main thread (index \<open>thread_count\<close>) that creates
  them, joins them and compares the balance with the expected one. A deposit is
  one read and one write of \<open>account_balance\<close>.
\<close>

section \<open>The options and the shared data\<close>

record dcfg =
  sync_start :: bool
  verbose :: int
  thread_count :: cuint
  bank_transactions_per_thread :: cuint
  bank_transaction_amount :: cllong
  bank_transaction_fee :: cllong
  account_start :: cllong
  cs_method :: cint
  yields :: bool
  join_checked :: bool

text \<open>Which of the calls fail. The deposit programs do not check \<open>pthread_join\<close> (the code: no error can occur);
  \<open>join_checked\<close> is set for the programs of \<open>Thread_Add\<close>, whose \<open>main\<close> is the same up to that check.\<close>
record denv =
  barrier_init_fails :: bool
  barrier_wait_fails :: "nat \<Rightarrow> bool"
  create_fails :: "nat \<Rightarrow> bool"
  join_fails :: "nat \<Rightarrow> bool"

record dstate =
  account_balance :: cllong
  arrived :: nat
  created :: nat
  returned :: "nat \<Rightarrow> bool"

text \<open>Where a worker or the main thread is, with its local variables.\<close>
datatype dpc =
    W_start | W_wait | W_loop cint | W_deposit cint | W_store cint cllong | W_end
  | M_barrier | M_create nat | M_join nat | M_check

text \<open>The value \<open>main\<close> compares the balance with; the product of the two unsigned numbers
  is taken in 32 bits, as the code has it.\<close>
definition expected :: "dcfg \<Rightarrow> cllong" where
  "expected cfg = account_start cfg +
     ucast (thread_count cfg * bank_transactions_per_thread cfg) *
       (bank_transaction_amount cfg - bank_transaction_fee cfg)"

definition deposit_money :: "dcfg \<Rightarrow> dstate \<Rightarrow> cllong" where
  "deposit_money cfg d = account_balance d + bank_transaction_amount cfg - bank_transaction_fee cfg"

section \<open>The threads\<close>

text \<open>\<open>bank_deposit\<close> up to its loop: the synchronous start.\<close>
definition start_step :: "dcfg \<Rightarrow> denv \<Rightarrow> nat \<Rightarrow> dstate \<Rightarrow> (dstate, dpc) act option" where
  "start_step cfg env i d =
     (if i < created d then
        (if sync_start cfg then
           (if barrier_wait_fails env i then Some (Quit d 3)
            else Some (Go (d\<lparr>arrived := arrived d + 1\<rparr>) W_wait))
         else Some (Go d (W_loop 0)))
      else None)"

definition wait_step :: "dcfg \<Rightarrow> dstate \<Rightarrow> (dstate, dpc) act option" where
  "wait_step cfg d = (if unat (thread_count cfg) \<le> arrived d then Some (Go d (W_loop 0)) else None)"

text \<open>\<open>main\<close> from the barrier on.\<close>
definition main_step :: "dcfg \<Rightarrow> denv \<Rightarrow> dstate \<Rightarrow> dpc \<Rightarrow> (dstate, dpc) act option" where
  "main_step cfg env d pc =
     (case pc of
        M_barrier \<Rightarrow>
          if sync_start cfg \<and> barrier_init_fails env then Some (Quit d 3)
          else Some (Go d (M_create 0))
      | M_create i \<Rightarrow>
          if i < unat (thread_count cfg) then
            (if create_fails env i then Some (Quit d 3)
             else Some (Go (d\<lparr>created := i + 1\<rparr>) (M_create (i + 1))))
          else Some (Go d (M_join 0))
      | M_join i \<Rightarrow>
          if i < unat (thread_count cfg) then
            (if join_checked cfg \<and> join_fails env i then Some (Quit d 3)
             else if returned d i then Some (Go d (M_join (i + 1))) else None)
          else Some (Go d M_check)
      | M_check \<Rightarrow>
          if account_balance d \<noteq> expected cfg then Some (Quit d EXIT_FAILURE)
          else Some (Quit d EXIT_SUCCESS)
      | _ \<Rightarrow> None)"

text \<open>Outside the critical section: a worker enters it once per round of its loop.\<close>
definition deposit_outs :: "dcfg \<Rightarrow> denv \<Rightarrow> nat \<Rightarrow> dstate \<Rightarrow> dpc \<Rightarrow> (dstate, dpc) act option" where
  "deposit_outs cfg env i d pc =
     (if i = unat (thread_count cfg) then main_step cfg env d pc
      else case pc of
        W_start \<Rightarrow> start_step cfg env i d
      | W_wait \<Rightarrow> wait_step cfg d
      | W_loop k \<Rightarrow>
          if k < bank_transactions_per_thread cfg then Some (Sync d (W_deposit k))
          else Some (Go (d\<lparr>returned := (returned d)(i := True)\<rparr>) W_end)
      | _ \<Rightarrow> None)"

text \<open>Inside: \<open>account_balance = deposit_money (bank_transaction_amount)\<close>.\<close>
definition deposit_ins :: "dcfg \<Rightarrow> nat \<Rightarrow> dstate \<Rightarrow> dpc \<Rightarrow> (dstate, dpc) act option" where
  "deposit_ins cfg i d pc =
     (case pc of
        W_deposit k \<Rightarrow> Some (Go d (W_store k (deposit_money cfg d)))
      | W_store k v \<Rightarrow> Some (Sync (d\<lparr>account_balance := v\<rparr>) (W_loop (k + 1)))
      | _ \<Rightarrow> None)"

text \<open>Without critical section control: the same loop, never entering, or with sections that are empty.\<close>
definition plain_outs :: "dcfg \<Rightarrow> denv \<Rightarrow> nat \<Rightarrow> dstate \<Rightarrow> dpc \<Rightarrow> (dstate, dpc) act option" where
  "plain_outs cfg env i d pc =
     (if i = unat (thread_count cfg) then main_step cfg env d pc
      else case pc of
        W_start \<Rightarrow> start_step cfg env i d
      | W_wait \<Rightarrow> wait_step cfg d
      | W_loop k \<Rightarrow>
          if k < bank_transactions_per_thread cfg then Some (Go d (W_deposit k))
          else Some (Go (d\<lparr>returned := (returned d)(i := True)\<rparr>) W_end)
      | W_deposit k \<Rightarrow> Some (Go d (W_store k (deposit_money cfg d)))
      | W_store k v \<Rightarrow> Some (Go (d\<lparr>account_balance := v\<rparr>) (W_loop (k + 1)))
      | _ \<Rightarrow> None)"

definition deposit_data :: "dcfg \<Rightarrow> dstate" where
  "deposit_data cfg =
     \<lparr>account_balance = account_start cfg, arrived = 0, created = 0, returned = \<lambda>_. False\<rparr>"

definition deposit_locals :: "dcfg \<Rightarrow> nat \<Rightarrow> dpc" where
  "deposit_locals cfg i = (if i = unat (thread_count cfg) then M_barrier else W_start)"

section \<open>The invariant\<close>

abbreviation workers :: "dcfg \<Rightarrow> nat" where
  "workers cfg \<equiv> unat (thread_count cfg)"

abbreviation rounds :: "dcfg \<Rightarrow> nat" where
  "rounds cfg \<equiv> unat (bank_transactions_per_thread cfg)"

text \<open>The number of deposits a worker has completed.\<close>
fun pc_deposits :: "nat \<Rightarrow> dpc \<Rightarrow> nat" where
  "pc_deposits T (W_loop k) = unat k"
| "pc_deposits T (W_deposit k) = unat k"
| "pc_deposits T (W_store k v) = unat k"
| "pc_deposits T W_end = T"
| "pc_deposits T _ = 0"

fun deposits :: "nat \<Rightarrow> (unit, dpc) phase \<Rightarrow> nat" where
  "deposits T (Out l) = pc_deposits T l"
| "deposits T (Try p l) = pc_deposits T l"
| "deposits T (In l) = pc_deposits T l"
| "deposits T (Leave l) = pc_deposits T l"

text \<open>The phases a worker can be in.\<close>
fun worker_ok :: "dcfg \<Rightarrow> dstate \<Rightarrow> nat \<Rightarrow> (unit, dpc) phase \<Rightarrow> bool" where
  "worker_ok cfg d i (Out W_start) = (\<not> returned d i)"
| "worker_ok cfg d i (Out W_wait) = (\<not> returned d i \<and> sync_start cfg)"
| "worker_ok cfg d i (Out (W_loop k)) = (\<not> returned d i \<and> k \<le> bank_transactions_per_thread cfg)"
| "worker_ok cfg d i (Out W_end) = returned d i"
| "worker_ok cfg d i (Try u (W_deposit k)) = (\<not> returned d i \<and> k < bank_transactions_per_thread cfg)"
| "worker_ok cfg d i (In (W_deposit k)) = (\<not> returned d i \<and> k < bank_transactions_per_thread cfg)"
| "worker_ok cfg d i (In (W_store k v)) = (\<not> returned d i \<and> k < bank_transactions_per_thread cfg \<and>
     v = deposit_money cfg d)"
| "worker_ok cfg d i (Leave (W_loop k)) = (\<not> returned d i \<and> k \<le> bank_transactions_per_thread cfg)"
| "worker_ok cfg d i _ = False"

text \<open>What the main thread knows where it is.\<close>
fun main_ok :: "dcfg \<Rightarrow> dstate \<Rightarrow> (unit, dpc) phase \<Rightarrow> bool" where
  "main_ok cfg d (Out M_barrier) = (created d = 0)"
| "main_ok cfg d (Out (M_create i)) = (created d = i \<and> i \<le> workers cfg)"
| "main_ok cfg d (Out (M_join i)) = (created d = workers cfg \<and> i \<le> workers cfg \<and> (\<forall>j<i. returned d j))"
| "main_ok cfg d (Out M_check) = (\<forall>j<workers cfg. returned d j)"
| "main_ok cfg d _ = False"

definition past_start :: "(unit, dpc) phase \<Rightarrow> nat" where
  "past_start ph = (if ph = Out W_start then 0 else 1)"

definition deposit_Q :: "dcfg \<Rightarrow> dstate \<Rightarrow> (nat \<Rightarrow> (unit, dpc) phase) \<Rightarrow> bool" where
  "deposit_Q cfg d c \<longleftrightarrow>
     account_balance d = account_start cfg +
       of_nat (\<Sum>i<workers cfg. deposits (rounds cfg) (c i)) *
         (bank_transaction_amount cfg - bank_transaction_fee cfg) \<and>
     (\<forall>i<workers cfg. worker_ok cfg d i (c i)) \<and>
     main_ok cfg d (c (workers cfg)) \<and>
     (sync_start cfg \<longrightarrow> arrived d = (\<Sum>i<workers cfg. past_start (c i)))"

text \<open>How the process can end: a failing call, or the comparison on the exact balance.\<close>
definition deposit_R :: "dcfg \<Rightarrow> denv \<Rightarrow> dstate \<Rightarrow> int \<Rightarrow> bool" where
  "deposit_R cfg env d x \<longleftrightarrow>
     (x = 3 \<and> (barrier_init_fails env \<or> (\<exists>i. barrier_wait_fails env i) \<or> (\<exists>i. create_fails env i) \<or>
       join_checked cfg \<and> (\<exists>i. join_fails env i))) \<or>
     (account_balance d = account_start cfg + of_nat (workers cfg * rounds cfg) *
         (bank_transaction_amount cfg - bank_transaction_fee cfg) \<and>
      x = (if account_balance d = expected cfg then EXIT_SUCCESS else EXIT_FAILURE))"

text \<open>The work left.\<close>
fun worker_mu :: "nat \<Rightarrow> (unit, dpc) phase \<Rightarrow> nat" where
  "worker_mu T (Out W_start) = 5 * T + 3"
| "worker_mu T (Out W_wait) = 5 * T + 2"
| "worker_mu T (Out (W_loop k)) = 5 * (T - unat k) + 1"
| "worker_mu T (Try u (W_deposit k)) = 5 * (T - unat k)"
| "worker_mu T (In (W_deposit k)) = 5 * (T - unat k) - 1"
| "worker_mu T (In (W_store k v)) = 5 * (T - unat k) - 2"
| "worker_mu T (Leave (W_loop k)) = 5 * (T - unat k) + 2"
| "worker_mu T _ = 0"

fun main_mu :: "nat \<Rightarrow> (unit, dpc) phase \<Rightarrow> nat" where
  "main_mu n (Out M_barrier) = 2 * n + 5"
| "main_mu n (Out (M_create i)) = (n - i) + n + 4"
| "main_mu n (Out (M_join i)) = (n - i) + 2"
| "main_mu n (Out M_check) = 1"
| "main_mu n _ = 0"

definition deposit_mu :: "dcfg \<Rightarrow> dstate \<Rightarrow> (nat \<Rightarrow> (unit, dpc) phase) \<Rightarrow> nat" where
  "deposit_mu cfg d c =
     (\<Sum>i<workers cfg. worker_mu (rounds cfg) (c i)) + main_mu (workers cfg) (c (workers cfg))"

section \<open>The invariant is kept\<close>

lemma worker_ok_same:
  assumes "worker_ok cfg d i x" "returned d' i = returned d i" "account_balance d' = account_balance d"
  shows "worker_ok cfg d' i x"
  using assms by (cases "(cfg, d, i, x)" rule: worker_ok.cases) (auto simp: deposit_money_def)

lemma worker_ok_outside:
  assumes "worker_ok cfg d i x" "returned d' i = returned d i" "role_of x \<noteq> Holding"
  shows "worker_ok cfg d' i x"
  using assms by (cases "(cfg, d, i, x)" rule: worker_ok.cases) auto

lemma main_ok_same:
  assumes "main_ok cfg d x" "created d' = created d" "\<And>j. returned d j \<Longrightarrow> returned d' j"
  shows "main_ok cfg d' x"
  using assms by (cases "(cfg, d, x)" rule: main_ok.cases) auto

text \<open>A step of worker \<open>i\<close> that completes \<open>m\<close> deposits.\<close>
lemma deposit_Q_worker:
  assumes Q: "deposit_Q cfg d c" and i: "i < workers cfg"
    and x: "worker_ok cfg d' i x" "deposits (rounds cfg) x = deposits (rounds cfg) (c i) + m"
      "account_balance d' = account_balance d + of_nat m * (bank_transaction_amount cfg - bank_transaction_fee cfg)"
    and fr: "created d' = created d" "\<And>j. returned d j \<Longrightarrow> returned d' j"
      "\<And>j. j < workers cfg \<Longrightarrow> j \<noteq> i \<Longrightarrow> worker_ok cfg d' j (c j)"
    and a: "sync_start cfg \<Longrightarrow> arrived d' + past_start (c i) = arrived d + past_start x"
  shows "deposit_Q cfg d' (c(i := x))"
proof -
  let ?D = "\<lambda>c. \<Sum>j<workers cfg. deposits (rounds cfg) (c j)"
  have s: "?D (c(i := x)) = ?D c + m"
    using sum_upd_add [OF i, of "deposits (rounds cfg)" c x] x(2) by linarith
  have p: "(\<Sum>j<workers cfg. past_start ((c(i := x)) j)) + past_start (c i) =
      (\<Sum>j<workers cfg. past_start (c j)) + past_start x"
    by (rule sum_upd_add [OF i])
  have "account_balance d' = account_start cfg + of_nat (?D (c(i := x))) *
      (bank_transaction_amount cfg - bank_transaction_fee cfg)"
  proof -
    have "account_balance d = account_start cfg + of_nat (?D c) *
        (bank_transaction_amount cfg - bank_transaction_fee cfg)"
      using Q by (simp add: deposit_Q_def)
    then show ?thesis unfolding s x(3) by (simp only: of_nat_add distrib_right add.assoc)
  qed
  moreover have "\<forall>j<workers cfg. worker_ok cfg d' j ((c(i := x)) j)"
    using x(1) fr(3) by simp
  moreover have "main_ok cfg d' ((c(i := x)) (workers cfg))"
    using Q i fr(1,2) by (auto simp: deposit_Q_def intro: main_ok_same)
  moreover have "sync_start cfg \<longrightarrow> arrived d' = (\<Sum>j<workers cfg. past_start ((c(i := x)) j))"
    using Q a p by (auto simp: deposit_Q_def)
  ultimately show ?thesis unfolding deposit_Q_def by blast
qed

text \<open>A step of the main thread.\<close>
lemma deposit_Q_main:
  assumes Q: "deposit_Q cfg d c" and "main_ok cfg d' x"
    and "account_balance d' = account_balance d" "returned d' = returned d" "arrived d' = arrived d"
  shows "deposit_Q cfg d' (c(workers cfg := x))"
proof -
  have "(\<Sum>j<workers cfg. f ((c(workers cfg := x)) j)) = (\<Sum>j<workers cfg. f (c j))" for f :: "_ \<Rightarrow> nat"
    by (rule sum.cong) auto
  then show ?thesis
    using assms worker_ok_same [of cfg d _ _ d'] by (auto simp: deposit_Q_def)
qed

lemma deposit_Q_phase:
  assumes "deposit_Q cfg d c" "i < workers cfg" "worker_ok cfg d i x"
    "deposits (rounds cfg) x = deposits (rounds cfg) (c i)" "past_start x = past_start (c i)"
  shows "deposit_Q cfg d (c(i := x))"
  using assms by (intro deposit_Q_worker [where m = 0]) (auto simp: deposit_Q_def)

lemma deposit_Q_ok: "deposit_Q cfg d c \<Longrightarrow> i < workers cfg \<Longrightarrow> worker_ok cfg d i (c i)"
  by (simp add: deposit_Q_def)

lemma deposit_Q_main_ok: "deposit_Q cfg d c \<Longrightarrow> main_ok cfg d (c (workers cfg))"
  by (simp add: deposit_Q_def)

lemma loop_word: "k < t \<Longrightarrow> unat (k + 1) = unat k + 1 \<and> k + 1 \<le> t" for k :: cuint
  using unsigned_less [of t, where ?'a = nat]
  by (simp add: word_less_nat_alt word_le_nat_alt unat_word_ariths)


lemmas deposit_step_defs = deposit_outs_def deposit_ins_def main_step_def start_step_def wait_step_def

lemma out_go_main:
  assumes "deposit_Q cfg d c" "c (workers cfg) = Out l" "main_step cfg env d l = Some (Go d' l')"
  shows "deposit_Q cfg d' (c(workers cfg := Out l'))"
proof (rule deposit_Q_main [OF assms(1)])
  show "main_ok cfg d' (Out l')"
    using deposit_Q_main_ok [OF assms(1)] assms(2,3)
    by (cases l) (auto simp: main_step_def less_Suc_eq split: if_splits)
qed (use assms(3) in \<open>cases l; auto simp: main_step_def split: if_splits\<close>)+

lemma out_go_worker:
  assumes Q: "deposit_Q cfg d c" and i: "i < workers cfg" and c: "c i = Out l"
    and st: "deposit_outs cfg env i d l = Some (Go d' l')"
  shows "deposit_Q cfg d' (c(i := Out l'))"
proof -
  have ok: "worker_ok cfg d i (Out l)" using deposit_Q_ok [OF Q i] c by simp
  show ?thesis
  proof (rule deposit_Q_worker [OF Q i, where m = 0])
    show "worker_ok cfg d' i (Out l')"
      using ok st i by (cases l) (auto simp: deposit_step_defs split: if_splits)
    show "deposits (rounds cfg) (Out l') = deposits (rounds cfg) (c i) + 0"
      using ok st i c by (cases l) (auto simp: deposit_step_defs not_less dest: antisym split: if_splits)
    show "account_balance d' = account_balance d + of_nat 0 *
        (bank_transaction_amount cfg - bank_transaction_fee cfg)"
      using ok st i by (cases l) (auto simp: deposit_step_defs split: if_splits)
    show "created d' = created d"
      using ok st i by (cases l) (auto simp: deposit_step_defs split: if_splits)
    show "\<And>j. returned d j \<Longrightarrow> returned d' j"
      using ok st i by (cases l) (auto simp: deposit_step_defs split: if_splits)
    show "worker_ok cfg d' j (c j)" if "j < workers cfg" "j \<noteq> i" for j
      using deposit_Q_ok [OF Q that(1)] that(2) st i ok
      by (intro worker_ok_same [of cfg d j "c j" d']; cases l)
        (auto simp: deposit_step_defs split: if_splits)
    show "arrived d' + past_start (c i) = arrived d + past_start (Out l')" if "sync_start cfg"
      using ok st i c that by (cases l) (auto simp: deposit_step_defs past_start_def split: if_splits)
  qed
qed


lemma in_go_worker:
  assumes Q: "deposit_Q cfg d c" and i: "i < workers cfg" and c: "c i = In l"
    and st: "deposit_ins cfg i d l = Some (Go d' l')"
  shows "deposit_Q cfg d' (c(i := In l'))"
proof -
  have ok: "worker_ok cfg d i (In l)" using deposit_Q_ok [OF Q i] c by simp
  then have "d' = d" "worker_ok cfg d i (In l')" "deposits (rounds cfg) (In l') = deposits (rounds cfg) (In l)"
    using st by (cases l; auto simp: deposit_ins_def)+
  then show ?thesis using deposit_Q_phase [OF Q i, of "In l'"] c by (simp add: past_start_def)
qed

lemma in_sync_worker:
  assumes Q: "deposit_Q cfg d c" and i: "i < workers cfg" and c: "c i = In l"
    and al: "alone n c i" "workers cfg \<le> n" and st: "deposit_ins cfg i d l = Some (Sync d' l')"
  shows "deposit_Q cfg d' (c(i := Leave l'))"
proof -
  have ok: "worker_ok cfg d i (In l)" using deposit_Q_ok [OF Q i] c by simp
  then obtain k where k: "l = W_store k (deposit_money cfg d)" "k < bank_transactions_per_thread cfg"
      "\<not> returned d i" "d' = d\<lparr>account_balance := deposit_money cfg d\<rparr>" "l' = W_loop (k + 1)"
    using st by (cases l) (auto simp: deposit_ins_def)
  show ?thesis
  proof (rule deposit_Q_worker [OF Q i, where m = 1])
    show "worker_ok cfg d' j (c j)" if "j < workers cfg" "j \<noteq> i" for j
      using deposit_Q_ok [OF Q that(1)] that al k
      by (intro worker_ok_outside [of cfg d j "c j" d']) (auto simp: alone_def)
  qed (use k loop_word [OF k(2)] c in \<open>auto simp: past_start_def deposit_money_def\<close>)
qed

interpretation deposit: cs_client "workers cfg + 1" "deposit_outs cfg env" "deposit_ins cfg"
    "deposit_Q cfg" "deposit_R cfg env" for cfg env
proof unfold_locales
  fix d c i l d' l' x
  assume Q: "deposit_Q cfg d c" and i: "i < workers cfg + 1"
  { assume l: "c i = Out l" and st: "deposit_outs cfg env i d l = Some (Go d' l')"
    show "deposit_Q cfg d' (c(i := Out l'))"
    proof (cases "i = workers cfg")
      case True
      then show ?thesis using out_go_main [OF Q _ _, of l env d' l'] l st by (simp add: deposit_outs_def)
    next
      case False
      then show ?thesis using out_go_worker [OF Q _ l st] i by simp
    qed }
  { assume l: "c i = Out l" and st: "deposit_outs cfg env i d l = Some (Sync d' l')"
    have ni: "i < workers cfg" using i st
      by (cases "i = workers cfg") (auto simp: deposit_step_defs split: dpc.splits if_splits)
    have ok: "worker_ok cfg d i (Out l)" using deposit_Q_ok [OF Q ni] l by simp
    then have "d' = d" "worker_ok cfg d i (Try () l')" "deposits (rounds cfg) (Try () l') = deposits (rounds cfg) (Out l)"
        "l \<noteq> W_start"
      using st ni by (cases l; auto simp: deposit_step_defs split: if_splits)+
    then show "deposit_Q cfg d' (c(i := Try () l'))"
      using deposit_Q_phase [OF Q ni, of "Try () l'"] l by (simp add: past_start_def) }
  { assume l: "c i = Out l" and st: "deposit_outs cfg env i d l = Some (Quit d' x)"
    show "deposit_R cfg env d' x"
    proof (cases "i = workers cfg")
      case True
      have "deposits (rounds cfg) (c j) = rounds cfg" if "l = M_check" "j < workers cfg" for j
        using deposit_Q_ok [OF Q that(2)] deposit_Q_main_ok [OF Q] l True that
        by (cases "(cfg, d, j, c j)" rule: worker_ok.cases) auto
      then show ?thesis
        using True st Q by (cases l) (auto simp: deposit_R_def deposit_Q_def deposit_step_defs split: if_splits)
    next
      case False
      then show ?thesis
        using st by (cases l) (auto simp: deposit_R_def deposit_step_defs split: if_splits)
    qed }
  { assume l: "c i = Try () l"
    have ni: "i < workers cfg" using i l deposit_Q_main_ok [OF Q] by (cases "i = workers cfg") auto
    have "worker_ok cfg d i (In l)" using deposit_Q_ok [OF Q ni] l by (cases l) auto
    then show "deposit_Q cfg d (c(i := In l))"
      using deposit_Q_phase [OF Q ni, of "In l"] l by (simp add: past_start_def) }
  { assume l: "c i = In l" and al: "alone (workers cfg + 1) c i"
    have ni: "i < workers cfg" using i l deposit_Q_main_ok [OF Q] by (cases "i = workers cfg") auto
    show "deposit_ins cfg i d l = Some (Go d' l') \<Longrightarrow> deposit_Q cfg d' (c(i := In l'))"
      by (rule in_go_worker [OF Q ni l])
    show "deposit_ins cfg i d l = Some (Sync d' l') \<Longrightarrow> deposit_Q cfg d' (c(i := Leave l'))"
      by (rule in_sync_worker [OF Q ni l al]) simp
    show "deposit_ins cfg i d l = Some (Quit d' x) \<Longrightarrow> deposit_R cfg env d' x"
      by (auto simp: deposit_ins_def split: dpc.splits) }
  { assume l: "c i = Leave l"
    have ni: "i < workers cfg" using i l deposit_Q_main_ok [OF Q] by (cases "i = workers cfg") auto
    have "worker_ok cfg d i (Out l)" "l \<noteq> W_start" using deposit_Q_ok [OF Q ni] l by (cases l; auto)+
    then show "deposit_Q cfg d (c(i := Out l))"
      using deposit_Q_phase [OF Q ni, of "Out l"] l by (simp add: past_start_def) }
qed

section \<open>The work left gets smaller\<close>

lemma mu_worker:
  assumes "i < workers cfg" "worker_mu (rounds cfg) x < worker_mu (rounds cfg) (c i)"
  shows "deposit_mu cfg d' (c(i := x)) < deposit_mu cfg d c"
  using sum_upd_less [of i "workers cfg" "worker_mu (rounds cfg)" x c] assms
  by (simp add: deposit_mu_def)

lemma mu_main:
  assumes "main_mu (workers cfg) x < main_mu (workers cfg) (c (workers cfg))"
  shows "deposit_mu cfg d' (c(workers cfg := x)) < deposit_mu cfg d c"
proof -
  have "(\<Sum>j<workers cfg. worker_mu (rounds cfg) ((c(workers cfg := x)) j)) =
      (\<Sum>j<workers cfg. worker_mu (rounds cfg) (c j))"
    by (rule sum.cong) auto
  then show ?thesis using assms by (simp add: deposit_mu_def)
qed

text \<open>When all threads are outside, one of them can move: the main thread unless it joins, else
  the worker it joins unless that one waits at the barrier, else one that has not come there.\<close>
lemma deposit_outs_go:
  assumes Q: "deposit_Q cfg d c" and out: "\<forall>i<workers cfg + 1. \<exists>l. c i = Out l"
  shows "\<exists>i l. i < workers cfg + 1 \<and> c i = Out l \<and> deposit_outs cfg env i d l \<noteq> None"
proof -
  obtain lm where lm: "c (workers cfg) = Out lm" using out by auto
  show ?thesis
  proof (cases "deposit_outs cfg env (workers cfg) d lm")
    case (Some a)
    then show ?thesis using lm by (intro exI [of _ "workers cfg"]) simp
  next
    case None
    then obtain j where j: "j < workers cfg" "lm = M_join j" "\<not> returned d j"
      using deposit_Q_main_ok [OF Q] lm by (cases lm) (auto simp: deposit_step_defs split: if_splits)
    have cr: "created d = workers cfg" using deposit_Q_main_ok [OF Q] lm j by simp
    obtain l where l: "c j = Out l" using out j by (meson trans_less_add1)
    have ok: "worker_ok cfg d j (Out l)" using deposit_Q_ok [OF Q j(1)] l by simp
    show ?thesis
    proof (cases "deposit_outs cfg env j d l")
      case (Some a)
      then show ?thesis using l j by (intro exI [of _ j]) simp
    next
      case None
      then have w: "l = W_wait" "arrived d < workers cfg" "sync_start cfg"
        using ok j cr by (cases l; auto simp: deposit_step_defs split: if_splits)+
      have "\<exists>k<workers cfg. c k = Out W_start"
      proof (rule ccontr)
        assume "\<not> ?thesis"
        then have "(\<Sum>i<workers cfg. past_start (c i)) = (\<Sum>i<workers cfg. 1)"
          by (intro sum.cong) (auto simp: past_start_def)
        then show False using Q w by (simp add: deposit_Q_def)
      qed
      then obtain k where k: "k < workers cfg" "c k = Out W_start" by blast
      then have "deposit_outs cfg env k d W_start \<noteq> None"
        using cr by (simp add: deposit_step_defs)
      then show ?thesis using k by (intro exI [of _ k] exI [of _ W_start]) simp
    qed
  qed
qed

interpretation deposit: live_client "workers cfg + 1" "deposit_outs cfg env" "deposit_ins cfg"
    "deposit_Q cfg" "deposit_R cfg env" "deposit_mu cfg" "\<lambda>_ _. False" for cfg env
proof unfold_locales
  fix d c i l d' l' x
  assume Q: "deposit_Q cfg d c"
  show "\<forall>i<workers cfg + 1. \<exists>l. c i = Out l \<Longrightarrow>
      \<exists>i l. i < workers cfg + 1 \<and> c i = Out l \<and> deposit_outs cfg env i d l \<noteq> None"
    by (rule deposit_outs_go [OF Q])
  assume i: "i < workers cfg + 1"
  { assume l: "c i = Out l" and st: "deposit_outs cfg env i d l = Some (Go d' l')"
    show "deposit_mu cfg d' (c(i := Out l')) < deposit_mu cfg d c"
    proof (cases "i = workers cfg")
      case True
      have "main_mu (workers cfg) (Out l') < main_mu (workers cfg) (c (workers cfg))"
        using st l True deposit_Q_main_ok [OF Q] by (cases l) (auto simp: deposit_step_defs split: if_splits)
      then show ?thesis using mu_main True by blast
    next
      case False
      then have ni: "i < workers cfg" using i by simp
      have "worker_mu (rounds cfg) (Out l') < worker_mu (rounds cfg) (c i)"
        using st l ni deposit_Q_ok [OF Q ni] by (cases l) (auto simp: deposit_step_defs split: if_splits)
      then show ?thesis using mu_worker [OF ni] by blast
    qed }
  { assume l: "c i = Out l" and st: "deposit_outs cfg env i d l = Some (Sync d' l')"
    have ni: "i < workers cfg" using i st
      by (cases "i = workers cfg") (auto simp: deposit_step_defs split: dpc.splits if_splits)
    have "worker_mu (rounds cfg) (Try () l') < worker_mu (rounds cfg) (c i)"
      using st l ni by (cases l) (auto simp: deposit_step_defs split: if_splits)
    then show "deposit_mu cfg d' (c(i := Try () l')) < deposit_mu cfg d c"
      using mu_worker [OF ni] by blast }
  { assume l: "c i = Try () l"
    have ni: "i < workers cfg" using i l deposit_Q_main_ok [OF Q] by (cases "i = workers cfg") auto
    have "worker_mu (rounds cfg) (In l) < worker_mu (rounds cfg) (c i)"
      using l deposit_Q_ok [OF Q ni] by (cases l) (auto simp: word_less_nat_alt)
    then show "deposit_mu cfg d (c(i := In l)) < deposit_mu cfg d c"
      using mu_worker [OF ni] by blast }
  { assume l: "c i = In l"
    have ni: "i < workers cfg" using i l deposit_Q_main_ok [OF Q] by (cases "i = workers cfg") auto
    note ok = deposit_Q_ok [OF Q ni, unfolded l]
    show "deposit_ins cfg i d l \<noteq> None"
      using ok by (cases l) (auto simp: deposit_ins_def)
    { assume st: "deposit_ins cfg i d l = Some (Go d' l')"
      have "worker_mu (rounds cfg) (In l') < worker_mu (rounds cfg) (c i)"
        using l ok st by (cases l) (auto simp: deposit_ins_def word_less_nat_alt)
      then show "deposit_mu cfg d' (c(i := In l')) < deposit_mu cfg d c"
        using mu_worker [OF ni] by blast }
    { assume st: "deposit_ins cfg i d l = Some (Sync d' l')"
      have "worker_mu (rounds cfg) (Leave l') < worker_mu (rounds cfg) (c i)"
        using l ok st loop_word [of _ "bank_transactions_per_thread cfg"]
        by (cases l) (auto simp: deposit_ins_def word_less_nat_alt)
      then show "deposit_mu cfg d' (c(i := Leave l')) < deposit_mu cfg d c"
        using mu_worker [OF ni] by blast } }
  { assume l: "c i = Leave l"
    have ni: "i < workers cfg" using i l deposit_Q_main_ok [OF Q] by (cases "i = workers cfg") auto
    have "worker_mu (rounds cfg) (Out l) < worker_mu (rounds cfg) (c i)"
      using l deposit_Q_ok [OF Q ni] by (cases l) auto
    then show "deposit_mu cfg d (c(i := Out l)) < deposit_mu cfg d c"
      using mu_worker [OF ni] by blast }
qed

lemma deposit_Q_start: "deposit_Q cfg (deposit_data cfg) (phases (\<lambda>i. Out (deposit_locals cfg i)))"
  by (simp add: deposit_Q_def deposit_data_def deposit_locals_def past_start_def)

text \<open>No call of the environment fails.\<close>
definition env_ok :: "denv \<Rightarrow> bool" where
  "env_ok env \<longleftrightarrow> \<not> barrier_init_fails env \<and> (\<forall>i. \<not> barrier_wait_fails env i) \<and>
     (\<forall>i. \<not> create_fails env i) \<and> (\<forall>i. \<not> join_fails env i)"

definition env0 :: denv where
  "env0 = \<lparr>barrier_init_fails = False, barrier_wait_fails = \<lambda>_. False, create_fails = \<lambda>_. False,
     join_fails = \<lambda>_. False\<rparr>"

lemma env0_ok: "env_ok env0"
  by (simp add: env_ok_def env0_def)

end
