(* ===== verification/Threads.thy ===== *)
theory Threads
  imports Lock_Interface
begin

text \<open>
  Programs whose threads use no lock at all: \<open>free_step\<close> runs the same atomic actions as
  \<open>locked_step\<close>, with the exit code of the process beside the shared data. After the
  process has ended nobody moves.
\<close>

type_synonym 'd process = "'d \<times> int option"

definition free_step :: "(nat \<Rightarrow> 'd \<Rightarrow> 'l \<Rightarrow> ('d, 'l) act option) \<Rightarrow> ('d process, 'l) tstep" where
  "free_step outs i g l =
     (case snd g of
        Some x \<Rightarrow> None
      | None \<Rightarrow>
          (case outs i (fst g) l of
             None \<Rightarrow> None
           | Some (Go d l') \<Rightarrow> Some ((d, None), l')
           | Some (Sync d l') \<Rightarrow> Some ((d, None), l')
           | Some (Quit d x) \<Rightarrow> Some ((d, Some x), l)))"

lemma free_step_Go:
  "outs i (fst g) l = Some (Go d l') \<Longrightarrow> snd g = None \<Longrightarrow> free_step outs i g l = Some ((d, None), l')"
  by (simp add: free_step_def)

lemma free_step_Quit:
  "outs i (fst g) l = Some (Quit d x) \<Longrightarrow> snd g = None \<Longrightarrow> free_step outs i g l = Some ((d, Some x), l)"
  by (simp add: free_step_def)

lemma free_step_cases:
  assumes "free_step outs i g l = Some (g', l')" and "\<And>d l'. outs i (fst g) l \<noteq> Some (Sync d l')"
  obtains (Go) "outs i (fst g) l = Some (Go (fst g') l')" "snd g = None" "snd g' = None"
    | (Quit) x where "outs i (fst g) l = Some (Quit (fst g') x)" "snd g = None" "snd g' = Some x" "l' = l"
  using assms by (auto simp: free_step_def split: option.splits act.splits)

text \<open>A process that has ended stays as it is.\<close>
lemma ended_stays:
  assumes "reach n (free_step outs) c0 c" "snd (fst c0) = Some x"
  shows "c = c0"
  using assms by (induction rule: reach.induct) (auto simp: sched_step_Some free_step_def)

text \<open>The invariant rule for such a program: \<open>P\<close> while it runs, \<open>R\<close> of how it ends.\<close>
lemma free_invariant:
  assumes "reach n (free_step outs) c0 c" and "P (fst (fst c0)) (snd c0)" "snd (fst c0) = None"
    and sync: "\<And>i d l d' l'. outs i d l \<noteq> Some (Sync d' l')"
    and go: "\<And>d ls i d' l'. P d ls \<Longrightarrow> i < n \<Longrightarrow> outs i d (ls i) = Some (Go d' l') \<Longrightarrow> P d' (ls(i := l'))"
    and quit: "\<And>d ls i d' x. P d ls \<Longrightarrow> i < n \<Longrightarrow> outs i d (ls i) = Some (Quit d' x) \<Longrightarrow> P d' ls \<and> R d' x"
  shows "P (fst (fst c)) (snd c) \<and> (\<forall>x. snd (fst c) = Some x \<longrightarrow> R (fst (fst c)) x)"
proof (rule reach_invariant [where P = "\<lambda>c. P (fst (fst c)) (snd c) \<and>
      (\<forall>x. snd (fst c) = Some x \<longrightarrow> R (fst (fst c)) x)", OF assms(1)])
  show "P (fst (fst c0)) (snd c0) \<and> (\<forall>x. snd (fst c0) = Some x \<longrightarrow> R (fst (fst c0)) x)"
    using assms(2,3) by simp
next
  fix g ls i g' l'
  assume I: "P (fst (fst (g, ls))) (snd (g, ls)) \<and>
      (\<forall>x. snd (fst (g, ls)) = Some x \<longrightarrow> R (fst (fst (g, ls))) x)"
    and i: "i < n" and st: "free_step outs i g (ls i) = Some (g', l')"
  from st sync show "P (fst (fst (g', ls(i := l')))) (snd (g', ls(i := l'))) \<and>
      (\<forall>x. snd (fst (g', ls(i := l'))) = Some x \<longrightarrow> R (fst (fst (g', ls(i := l')))) x)"
  proof (cases rule: free_step_cases)
    case Go
    then show ?thesis using go [of "fst g" ls i] I i by simp
  next
    case (Quit x)
    then show ?thesis using quit [of "fst g" ls i] I i by auto
  qed
qed

text \<open>When every step of a thread makes \<open>f\<close> of the shared data plus its own weight smaller, runs are
  no longer than the sum at their start.\<close>
lemma free_run_bound:
  assumes "run_sched n (free_step outs) sched ((d, None), ls) = Some c"
    and sync: "\<And>i d l d' l'. outs i d l \<noteq> Some (Sync d' l')"
    and less: "\<And>i d l d' l'. outs i d l = Some (Go d' l') \<Longrightarrow> f d' + w l' < f d + (w l :: nat)"
  shows "length sched \<le> 1 + f d + (\<Sum>i<n. w (ls i))"
proof -
  let ?m = "\<lambda>c. if snd (fst c) \<noteq> None then 0 else 1 + f (fst (fst c)) + (\<Sum>i<n. w (snd c i))"
  have "?m (g', ls(i := l')) < ?m (g, ls)"
    if "i < n" "free_step outs i g (ls i) = Some (g', l')" for g ls i g' l'
    using that(2) sync
  proof (cases rule: free_step_cases)
    case Go
    then show ?thesis using less [OF Go(1)] sum_upd_add [OF that(1), of w ls l'] by simp
  qed simp
  from run_bound [where m = ?m, OF assms(1) this] show ?thesis by simp
qed

text \<open>A process that can no longer move, although a thread could, has ended.\<close>
lemma free_stuck_ended:
  assumes "stuck n (free_step outs) c" "i < n" "outs i (fst (fst c)) (snd c i) \<noteq> None"
  shows "snd (fst c) \<noteq> None"
proof
  assume run: "snd (fst c) = None"
  obtain a where "outs i (fst (fst c)) (snd c i) = Some a" using assms(3) by blast
  then show False using assms(1,2) run by (cases a) (auto simp: stuck_def free_step_def)
qed

text \<open>The same when the last step of the process may leave the invariant: \<open>P\<close> while it runs, \<open>R\<close> when it
  has ended.\<close>
lemma free_outcome:
  assumes "reach n (free_step outs) ((d0, None), ls0) c" and "P d0 ls0"
    and sync: "\<And>i d l d' l'. outs i d l \<noteq> Some (Sync d' l')"
    and go: "\<And>d ls i d' l'. P d ls \<Longrightarrow> i < n \<Longrightarrow> outs i d (ls i) = Some (Go d' l') \<Longrightarrow> P d' (ls(i := l'))"
    and quit: "\<And>d ls i d' x. P d ls \<Longrightarrow> i < n \<Longrightarrow> outs i d (ls i) = Some (Quit d' x) \<Longrightarrow> R d' x"
  shows "case snd (fst c) of None \<Rightarrow> P (fst (fst c)) (snd c) | Some x \<Rightarrow> R (fst (fst c)) x"
  using assms(1)
proof (induction rule: reach.induct)
  case reach_init
  then show ?case using assms(2) by simp
next
  case (reach_step c i c')
  obtain g' l' where s: "free_step outs i (fst c) (snd c i) = Some (g', l')" "i < n" "c' = (g', (snd c)(i := l'))"
    using reach_step.hyps(2) by (auto simp: sched_step_Some)
  from s(1) sync show ?case
  proof (cases rule: free_step_cases)
    case Go
    then have "P (fst g') ((snd c)(i := l'))"
      using go [of "fst (fst c)" "snd c", OF _ s(2) Go(1)] reach_step.IH by simp
    then show ?thesis unfolding s(3) using Go(3) by (simp only: fst_conv snd_conv option.case)
  next
    case (Quit x)
    then have "R (fst g') x"
      using quit [of "fst (fst c)" "snd c", OF _ s(2) Quit(1)] reach_step.IH by simp
    then show ?thesis unfolding s(3) using Quit(3) by simp
  qed
qed

text \<open>A program whose runs are bounded: each step takes from the energy of the shared data and the weights of the
  threads, an invariant holds until it ends, and somebody can go on unless the program waits for something from
  outside.\<close>
locale bounded_program =
  fixes n :: nat
    and outs :: "nat \<Rightarrow> 'd \<Rightarrow> 'l \<Rightarrow> ('d, 'l) act option"
    and inv :: "'d \<Rightarrow> (nat \<Rightarrow> 'l) \<Rightarrow> bool"
    and ending :: "'d \<Rightarrow> int \<Rightarrow> bool"
    and weight :: "'l \<Rightarrow> nat"
    and energy :: "'d \<Rightarrow> nat"
    and waits :: bool
  assumes no_sync: "outs i d l \<noteq> Some (Sync d' l')"
    and spends: "inv d ls \<Longrightarrow> i < n \<Longrightarrow> outs i d (ls i) = Some (Go d' l') \<Longrightarrow> energy d' + weight l' < energy d + weight (ls i)"
    and inv_step: "inv d ls \<Longrightarrow> i < n \<Longrightarrow> outs i d (ls i) = Some (Go d' l') \<Longrightarrow> inv d' (ls(i := l'))"
    and quit: "inv d ls \<Longrightarrow> i < n \<Longrightarrow> outs i d (ls i) = Some (Quit d' x) \<Longrightarrow> ending d' x"
    and moves: "inv d ls \<Longrightarrow> \<not> waits \<Longrightarrow> \<exists>i<n. outs i d (ls i) \<noteq> None"
begin

lemma outcome:
  assumes "reach n (free_step outs) ((d, None), ls) c" "inv d ls"
  shows "case snd (fst c) of None \<Rightarrow> inv (fst (fst c)) (snd c) | Some x \<Rightarrow> ending (fst (fst c)) x"
  using assms no_sync inv_step quit by (rule free_outcome)

lemma while_running: "reach n (free_step outs) ((d, None), ls) ((d', None), ls') \<Longrightarrow> inv d ls \<Longrightarrow> inv d' ls'"
  using outcome by fastforce

lemma at_end: "reach n (free_step outs) ((d, None), ls) ((d', Some x), ls') \<Longrightarrow> inv d ls \<Longrightarrow> ending d' x"
  using outcome by fastforce

lemma run_length:
  assumes "run_sched n (free_step outs) sched ((d, None), ls) = Some c" "inv d ls"
  shows "length sched \<le> 1 + energy d + (\<Sum>i<n. weight (ls i))"
  using assms
proof (induction sched arbitrary: d ls)
  case (Cons i sched)
  obtain g' l' where s: "free_step outs i (d, None) (ls i) = Some (g', l')" "i < n"
      "run_sched n (free_step outs) sched (g', ls(i := l')) = Some c"
    using Cons.prems(1) by (auto simp: sched_step_Some split: option.splits)
  from s(1) no_sync show ?case
  proof (cases rule: free_step_cases)
    case Go
    have o: "outs i d (ls i) = Some (Go (fst g') l')" using Go(1) by simp
    have "run_sched n (free_step outs) sched ((fst g', None), ls(i := l')) = Some c"
      using s(3) Go(3) by (metis prod.collapse)
    then have "length sched \<le> 1 + energy (fst g') + (\<Sum>j<n. weight ((ls(i := l')) j))"
      using inv_step [OF Cons.prems(2) s(2) o] by (rule Cons.IH)
    then show ?thesis
      using spends [OF Cons.prems(2) s(2) o] sum_upd_add [OF s(2), of weight ls l'] by simp
  next
    case (Quit x)
    have "sched = []"
    proof (cases sched)
      case (Cons j js)
      then show ?thesis using s(3) Quit(3) by (auto simp: sched_step_Some free_step_def split: option.splits)
    qed
    then show ?thesis by simp
  qed
qed simp

lemma stuck_end:
  assumes "reach n (free_step outs) ((d, None), ls) ((d', x), ls')" "inv d ls"
    and "stuck n (free_step outs) ((d', x), ls')" "\<not> waits"
  shows "\<exists>e. x = Some e \<and> ending d' e"
proof (cases x)
  case None
  then have "inv d' ls'" using while_running assms(1,2) by blast
  from moves [OF this assms(4)] show ?thesis using free_stuck_ended [OF assms(3)] None by auto
next
  case (Some e)
  then show ?thesis using at_end assms(1,2) by blast
qed

end

text \<open>A program in which the threads' weights alone shrink, in every state.\<close>
locale finite_program =
  fixes n :: nat
    and outs :: "nat \<Rightarrow> 'd \<Rightarrow> 'l \<Rightarrow> ('d, 'l) act option"
    and inv :: "'d \<Rightarrow> (nat \<Rightarrow> 'l) \<Rightarrow> bool"
    and ending :: "'d \<Rightarrow> int \<Rightarrow> bool"
    and weight :: "'l \<Rightarrow> nat"
    and waits :: bool
  assumes no_sync: "outs i d l \<noteq> Some (Sync d' l')"
    and less: "outs i d l = Some (Go d' l') \<Longrightarrow> weight l' < weight l"
    and inv_step: "inv d ls \<Longrightarrow> i < n \<Longrightarrow> outs i d (ls i) = Some (Go d' l') \<Longrightarrow> inv d' (ls(i := l'))"
    and quit: "inv d ls \<Longrightarrow> i < n \<Longrightarrow> outs i d (ls i) = Some (Quit d' x) \<Longrightarrow> ending d' x"
    and moves: "inv d ls \<Longrightarrow> \<not> waits \<Longrightarrow> \<exists>i<n. outs i d (ls i) \<noteq> None"

sublocale finite_program \<subseteq> bounded: bounded_program n outs inv ending weight "\<lambda>_. 0" waits
  by unfold_locales (use no_sync less inv_step quit moves in auto)

context finite_program
begin

lemma run_length:
  assumes "run_sched n (free_step outs) sched ((d, None), ls) = Some c"
  shows "length sched \<le> 1 + (\<Sum>i<n. weight (ls i))"
  using free_run_bound [where f = "\<lambda>_. 0", OF assms no_sync] less by simp

lemmas outcome = bounded.outcome
lemmas while_running = bounded.while_running
lemmas at_end = bounded.at_end
lemmas stuck_end = bounded.stuck_end

end

end
