(* ===== verification/Plain_Deposit.thy ===== *)
theory Plain_Deposit
  imports Deposit Threads
begin

text \<open>
  The deposit threads without control, as all four programs of the repository run them: \<open>bank_deposit.c\<close> and
  \<open>new/bank_deposit.c\<close> have no entry section, and those of \<open>cs_methods.h\<close> are empty. What arrives of the deposits in
  spite of the lost updates, and that every run ends.
\<close>

definition plain_step :: "dcfg \<Rightarrow> denv \<Rightarrow> (dstate process, dpc) tstep" where
  "plain_step cfg env = free_step (plain_outs cfg env)"

definition plain_start :: "dcfg \<Rightarrow> (dstate process, dpc) conf" where
  "plain_start cfg = ((deposit_data cfg, None), deposit_locals cfg)"

section \<open>The invariant\<close>

text \<open>The balance after \<open>m\<close> deposits that arrived.\<close>
definition balance_after :: "dcfg \<Rightarrow> nat \<Rightarrow> cllong" where
  "balance_after cfg m = account_start cfg + of_nat m * (bank_transaction_amount cfg - bank_transaction_fee cfg)"

text \<open>The deposits that were made.\<close>
definition made :: "dcfg \<Rightarrow> (nat \<Rightarrow> dpc) \<Rightarrow> nat" where
  "made cfg ls = (\<Sum>i<workers cfg. pc_deposits (rounds cfg) (ls i))"

text \<open>What is about to be stored: a balance that was read when at most \<open>n\<close> deposits had been made, the thread's own
  earlier ones among them, and one deposit more.\<close>
definition pending :: "dcfg \<Rightarrow> nat \<Rightarrow> nat \<Rightarrow> cllong \<Rightarrow> bool" where
  "pending cfg n own v \<longleftrightarrow> (\<exists>m. v = balance_after cfg m \<and> 1 \<le> m \<and> m \<le> n + 1 \<and> (1 \<le> own \<longrightarrow> 2 \<le> m) \<and>
     (workers cfg = 1 \<longrightarrow> m = n + 1))"

fun plain_ok :: "dcfg \<Rightarrow> nat \<Rightarrow> dstate \<Rightarrow> nat \<Rightarrow> dpc \<Rightarrow> bool" where
  "plain_ok cfg n d i W_start = (\<not> returned d i)"
| "plain_ok cfg n d i W_wait = (\<not> returned d i \<and> sync_start cfg)"
| "plain_ok cfg n d i (W_loop k) = (\<not> returned d i \<and> k \<le> bank_transactions_per_thread cfg)"
| "plain_ok cfg n d i (W_deposit k) = (\<not> returned d i \<and> k < bank_transactions_per_thread cfg)"
| "plain_ok cfg n d i (W_store k v) = (\<not> returned d i \<and> k < bank_transactions_per_thread cfg \<and> pending cfg n (unat k) v)"
| "plain_ok cfg n d i W_end = returned d i"
| "plain_ok cfg n d i _ = False"

text \<open>The balance: at most as many deposits as were made; the thread that stored last had read the result of its own
  deposit before, unless it was its first.\<close>
definition balance_ok :: "dcfg \<Rightarrow> dstate \<Rightarrow> (nat \<Rightarrow> dpc) \<Rightarrow> bool" where
  "balance_ok cfg d ls \<longleftrightarrow> (\<exists>m. account_balance d = balance_after cfg m \<and> m \<le> made cfg ls \<and>
     (workers cfg = 1 \<longrightarrow> m = made cfg ls) \<and>
     (made cfg ls \<noteq> 0 \<longrightarrow> 1 \<le> m \<and>
        (\<exists>i<workers cfg. 1 \<le> pc_deposits (rounds cfg) (ls i) \<and> (2 \<le> pc_deposits (rounds cfg) (ls i) \<longrightarrow> 2 \<le> m))))"

definition plain_inv :: "dcfg \<Rightarrow> dstate \<Rightarrow> (nat \<Rightarrow> dpc) \<Rightarrow> bool" where
  "plain_inv cfg d ls \<longleftrightarrow> balance_ok cfg d ls \<and> (\<forall>i<workers cfg. plain_ok cfg (made cfg ls) d i (ls i)) \<and>
     main_ok cfg d (Out (ls (workers cfg))) \<and>
     (sync_start cfg \<longrightarrow> arrived d = (\<Sum>i<workers cfg. past_start (Out (ls i))))"

text \<open>How the process ends: by a failing call, or with the comparison after every thread has made its deposits. At least
  two of them arrive (one, if each thread makes one only), and at most all.\<close>
definition plain_end :: "dcfg \<Rightarrow> denv \<Rightarrow> dstate \<Rightarrow> int \<Rightarrow> bool" where
  "plain_end cfg env d x \<longleftrightarrow> x = 3 \<and> \<not> env_ok env \<or>
     x = (if account_balance d = expected cfg then EXIT_SUCCESS else EXIT_FAILURE) \<and>
     (\<forall>i<workers cfg. returned d i) \<and>
     (\<exists>m. account_balance d = balance_after cfg m \<and> m \<le> workers cfg * rounds cfg \<and>
        (workers cfg = 1 \<longrightarrow> m = rounds cfg) \<and> (workers cfg \<noteq> 0 \<longrightarrow> min 2 (rounds cfg) \<le> m))"

section \<open>The steps keep it\<close>

lemmas plain_defs = plain_outs_def start_step_def wait_step_def main_step_def

lemma made_upd:
  assumes "i < workers cfg"
  shows "made cfg (ls(i := l)) + pc_deposits (rounds cfg) (ls i) = made cfg ls + pc_deposits (rounds cfg) l"
  unfolding made_def by (rule sum_upd_add [OF assms])

lemma made_other: "workers cfg \<le> i \<Longrightarrow> made cfg (ls(i := l)) = made cfg ls"
  unfolding made_def by (rule sum.cong) auto

lemma pc_deposits_le_made: "i < workers cfg \<Longrightarrow> pc_deposits (rounds cfg) (ls i) \<le> made cfg ls"
  unfolding made_def by (rule member_le_sum) auto

lemma pending_more: "pending cfg n own v \<Longrightarrow> n \<le> n' \<Longrightarrow> workers cfg \<noteq> 1 \<or> n' = n \<Longrightarrow> pending cfg n' own v"
  unfolding pending_def by auto

lemma plain_ok_other:
  assumes "plain_ok cfg n d j l" "n \<le> n'" "workers cfg \<noteq> 1 \<or> n' = n" "returned d' j = returned d j"
  shows "plain_ok cfg n' d' j l"
  using assms by (cases l) (auto intro: pending_more)

lemma balance_okI:
  assumes "account_balance d = balance_after cfg m" "m \<le> made cfg ls" "workers cfg = 1 \<longrightarrow> m = made cfg ls"
    and "made cfg ls \<noteq> 0 \<Longrightarrow> 1 \<le> m"
    and "made cfg ls \<noteq> 0 \<Longrightarrow> \<exists>i<workers cfg. 1 \<le> pc_deposits (rounds cfg) (ls i) \<and>
      (2 \<le> pc_deposits (rounds cfg) (ls i) \<longrightarrow> 2 \<le> m)"
  shows "balance_ok cfg d ls"
  unfolding balance_ok_def by (rule exI [of _ m]) (use assms in blast)

lemma balance_okE:
  assumes "balance_ok cfg d ls"
  obtains m where "account_balance d = balance_after cfg m" "m \<le> made cfg ls" "workers cfg = 1 \<longrightarrow> m = made cfg ls"
    "made cfg ls \<noteq> 0 \<Longrightarrow> 1 \<le> m"
    "made cfg ls \<noteq> 0 \<Longrightarrow> \<exists>i<workers cfg. 1 \<le> pc_deposits (rounds cfg) (ls i) \<and>
      (2 \<le> pc_deposits (rounds cfg) (ls i) \<longrightarrow> 2 \<le> m)"
  using assms unfolding balance_ok_def by blast

text \<open>A step that stores nothing.\<close>
lemma balance_same:
  assumes "balance_ok cfg d ls" "account_balance d' = account_balance d"
    and "\<And>j. j < workers cfg \<Longrightarrow> pc_deposits (rounds cfg) (ls' j) = pc_deposits (rounds cfg) (ls j)"
  shows "balance_ok cfg d' ls' \<and> made cfg ls' = made cfg ls"
proof -
  have m: "made cfg ls' = made cfg ls" unfolding made_def by (rule sum.cong) (use assms(3) in auto)
  obtain n where n: "account_balance d = balance_after cfg n" "n \<le> made cfg ls" "workers cfg = 1 \<longrightarrow> n = made cfg ls"
    "made cfg ls \<noteq> 0 \<Longrightarrow> 1 \<le> n"
    "made cfg ls \<noteq> 0 \<Longrightarrow> \<exists>i<workers cfg. 1 \<le> pc_deposits (rounds cfg) (ls i) \<and>
      (2 \<le> pc_deposits (rounds cfg) (ls i) \<longrightarrow> 2 \<le> n)"
    using assms(1) by (elim balance_okE) blast
  have "balance_ok cfg d' ls'"
    by (rule balance_okI [where m = n]) (use n assms(2,3) m in auto)
  then show ?thesis using m by blast
qed

lemma balance_store:
  assumes "balance_ok cfg d ls" "i < workers cfg" "ls i = W_store k v" "k < bank_transactions_per_thread cfg"
    and "pending cfg (made cfg ls) (unat k) v"
  shows "balance_ok cfg (d\<lparr>account_balance := v\<rparr>) (ls(i := W_loop (k + 1))) \<and>
    made cfg (ls(i := W_loop (k + 1))) = made cfg ls + 1"
proof -
  note k1 = loop_word [OF assms(4)]
  have m: "made cfg (ls(i := W_loop (k + 1))) = made cfg ls + 1"
    using made_upd [OF assms(2), of ls "W_loop (k + 1)"] assms(3) k1 by simp
  obtain j where j: "v = balance_after cfg j" "1 \<le> j" "j \<le> made cfg ls + 1" "1 \<le> unat k \<longrightarrow> 2 \<le> j"
      "workers cfg = 1 \<longrightarrow> j = made cfg ls + 1"
    using assms(5) unfolding pending_def by blast
  have "\<exists>h<workers cfg. 1 \<le> pc_deposits (rounds cfg) ((ls(i := W_loop (k + 1))) h) \<and>
      (2 \<le> pc_deposits (rounds cfg) ((ls(i := W_loop (k + 1))) h) \<longrightarrow> 2 \<le> j)"
    using assms(2) j(4) k1 by (intro exI [of _ i]) auto
  then have "balance_ok cfg (d\<lparr>account_balance := v\<rparr>) (ls(i := W_loop (k + 1)))"
    by (intro balance_okI [where m = j]) (use j m in simp_all)
  then show ?thesis using m by simp
qed

text \<open>What a thread reads is right for its next store.\<close>
lemma balance_read:
  assumes "balance_ok cfg d ls" "i < workers cfg" "ls i = W_deposit k"
  shows "pending cfg (made cfg ls) (unat k) (deposit_money cfg d)"
proof -
  obtain m where m: "account_balance d = balance_after cfg m" "m \<le> made cfg ls" "workers cfg = 1 \<longrightarrow> m = made cfg ls"
      "made cfg ls \<noteq> 0 \<longrightarrow> 1 \<le> m"
    using assms(1) by (elim balance_okE) blast
  have "deposit_money cfg d = balance_after cfg (m + 1)"
    by (simp add: deposit_money_def m(1) balance_after_def algebra_simps)
  moreover have "1 \<le> unat k \<longrightarrow> made cfg ls \<noteq> 0" using pc_deposits_le_made [OF assms(2), of ls] assms(3) by simp
  ultimately show ?thesis unfolding pending_def using m(2-4) by (intro exI [of _ "m + 1"]) auto
qed

lemma main_keep:
  assumes "main_ok cfg d (Out l)" "created d' = created d" "\<And>j. returned d j \<Longrightarrow> returned d' j"
  shows "main_ok cfg d' (Out l)"
  using assms by (cases l) auto

text \<open>A step of a worker.\<close>
lemma plain_worker_inv:
  assumes inv: "plain_inv cfg d ls" and i: "i < workers cfg" and st: "plain_outs cfg env i d (ls i) = Some (Go d' l')"
  shows "plain_inv cfg d' (ls(i := l'))"
proof -
  have b: "balance_ok cfg d ls" and ok: "plain_ok cfg (made cfg ls) d i (ls i)"
    and oks: "\<And>j. j < workers cfg \<Longrightarrow> plain_ok cfg (made cfg ls) d j (ls j)"
    and mn: "main_ok cfg d (Out (ls (workers cfg)))"
    and ar: "sync_start cfg \<longrightarrow> arrived d = (\<Sum>i<workers cfg. past_start (Out (ls i)))"
    using inv i by (auto simp: plain_inv_def)
  let ?ls = "ls(i := l')"
  have 1: "balance_ok cfg d' ?ls \<and> (made cfg ?ls = made cfg ls \<or> made cfg ?ls = made cfg ls + 1) \<and>
      plain_ok cfg (made cfg ?ls) d' i l'"
  proof (cases "\<exists>k v. ls i = W_store k v")
    case True
    then obtain k v where l: "ls i = W_store k v" by blast
    then have "k < bank_transactions_per_thread cfg" "pending cfg (made cfg ls) (unat k) v" "\<not> returned d i"
      using ok by simp_all
    moreover have "d' = d\<lparr>account_balance := v\<rparr>" "l' = W_loop (k + 1)" using st l i by (auto simp: plain_defs)
    ultimately show ?thesis using balance_store [OF b i l] loop_word [of k "bank_transactions_per_thread cfg"] by simp
  next
    case False
    have "account_balance d' = account_balance d \<and> pc_deposits (rounds cfg) l' = pc_deposits (rounds cfg) (ls i)"
      using st i False ok by (cases "ls i") (auto simp: plain_defs word_le_nat_alt word_less_nat_alt split: if_splits)
    then have k: "balance_ok cfg d' ?ls \<and> made cfg ?ls = made cfg ls" using balance_same [OF b, of d' ?ls] by simp
    have "plain_ok cfg (made cfg ls) d' i l'"
      using st i False ok balance_read [OF b i] by (cases "ls i") (auto simp: plain_defs split: if_splits)
    then show ?thesis using k by simp
  qed
  have f: "created d' = created d" "\<And>j. returned d j \<Longrightarrow> returned d' j" "\<And>j. j \<noteq> i \<Longrightarrow> returned d' j = returned d j"
    using st i by (cases "ls i"; auto simp: plain_defs split: if_splits)+
  have "plain_ok cfg (made cfg ?ls) d' j (?ls j)" if j: "j < workers cfg" for j
  proof (cases "j = i")
    case False
    have "made cfg ls \<le> made cfg ?ls" "workers cfg \<noteq> 1 \<or> made cfg ?ls = made cfg ls" using 1 i j False by auto
    from plain_ok_other [OF oks [OF j] this f(3) [OF False]] False show ?thesis by simp
  qed (use 1 in simp)
  moreover have "main_ok cfg d' (Out (?ls (workers cfg)))" using main_keep [OF mn f(1)] f(2) i by simp
  moreover have "sync_start cfg \<longrightarrow> arrived d' = (\<Sum>j<workers cfg. past_start (Out (?ls j)))"
  proof
    assume s: "sync_start cfg"
    have "arrived d' + past_start (Out (ls i)) = arrived d + past_start (Out l')"
      using st i s ok by (cases "ls i") (auto simp: plain_defs past_start_def split: if_splits)
    then show "arrived d' = (\<Sum>j<workers cfg. past_start (Out (?ls j)))"
      using ar s sum_upd_add [OF i, of "\<lambda>l. past_start (Out l)" ls l'] by simp
  qed
  ultimately show ?thesis using 1 by (simp add: plain_inv_def)
qed

lemma plain_invI:
  assumes "balance_ok cfg d ls" "\<And>j. j < workers cfg \<Longrightarrow> plain_ok cfg (made cfg ls) d j (ls j)"
    and "main_ok cfg d (Out (ls (workers cfg)))"
    and "sync_start cfg \<Longrightarrow> arrived d = (\<Sum>i<workers cfg. past_start (Out (ls i)))"
  shows "plain_inv cfg d ls"
  using assms by (simp add: plain_inv_def)

lemma plain_main_inv:
  assumes inv: "plain_inv cfg d ls" and st: "main_step cfg env d (ls (workers cfg)) = Some (Go d' l')"
  shows "plain_inv cfg d' (ls(workers cfg := l'))"
proof (rule plain_invI)
  have f: "account_balance d' = account_balance d" "arrived d' = arrived d" "returned d' = returned d"
    using st by (cases "ls (workers cfg)"; auto simp: main_step_def split: if_splits)+
  have b: "balance_ok cfg d ls" and mn: "main_ok cfg d (Out (ls (workers cfg)))"
    and oks: "\<And>j. j < workers cfg \<Longrightarrow> plain_ok cfg (made cfg ls) d j (ls j)"
    and ar: "sync_start cfg \<Longrightarrow> arrived d = (\<Sum>i<workers cfg. past_start (Out (ls i)))"
    using inv by (simp_all add: plain_inv_def)
  have k: "balance_ok cfg d' (ls(workers cfg := l'))" "made cfg (ls(workers cfg := l')) = made cfg ls"
    using balance_same [OF b f(1), of "ls(workers cfg := l')"] by simp_all
  show "balance_ok cfg d' (ls(workers cfg := l'))" by (rule k(1))
  show "plain_ok cfg (made cfg (ls(workers cfg := l'))) d' j ((ls(workers cfg := l')) j)" if j: "j < workers cfg" for j
    unfolding k(2) using plain_ok_other [OF oks [OF j], of "made cfg ls" d'] j f(3) by simp
  have "main_ok cfg d' (Out l')"
    using mn st by (cases "ls (workers cfg)") (auto simp: main_step_def less_Suc_eq split: if_splits)
  then show "main_ok cfg d' (Out ((ls(workers cfg := l')) (workers cfg)))" by simp
  show "arrived d' = (\<Sum>i<workers cfg. past_start (Out ((ls(workers cfg := l')) i)))" if "sync_start cfg"
    unfolding f(2) ar [OF that] by (rule sum.cong) auto
qed

lemma plain_outs_main: "plain_outs cfg env (workers cfg) d l = main_step cfg env d l"
  by (simp add: plain_outs_def)

lemma all_made:
  assumes "\<And>i. i < workers cfg \<Longrightarrow> ls i = W_end"
  shows "made cfg ls = workers cfg * rounds cfg"
  unfolding made_def using assms by simp

lemma plain_quit:
  assumes inv: "plain_inv cfg d ls" and i: "i < workers cfg + 1" and st: "plain_outs cfg env i d (ls i) = Some (Quit d' x)"
  shows "plain_end cfg env d' x"
proof (cases "i = workers cfg \<and> ls i = M_check")
  case True
  have "returned d j \<and> ls j = W_end" if "j < workers cfg" for j
    using inv True that by (cases "ls j") (auto simp: plain_inv_def dest!: spec [of _ j])
  note e = this
  have "balance_ok cfg d ls" using inv by (simp add: plain_inv_def)
  then obtain m where m: "account_balance d = balance_after cfg m" "m \<le> made cfg ls" "workers cfg = 1 \<longrightarrow> m = made cfg ls"
      "made cfg ls \<noteq> 0 \<Longrightarrow> 1 \<le> m"
      "made cfg ls \<noteq> 0 \<Longrightarrow> \<exists>j<workers cfg. 1 \<le> pc_deposits (rounds cfg) (ls j) \<and>
         (2 \<le> pc_deposits (rounds cfg) (ls j) \<longrightarrow> 2 \<le> m)"
    by (elim balance_okE) blast
  have a: "made cfg ls = workers cfg * rounds cfg" using all_made e by blast
  have "min 2 (rounds cfg) \<le> m" if "workers cfg \<noteq> 0"
  proof (cases "rounds cfg = 0")
    case False
    then have "made cfg ls \<noteq> 0" using a that by simp
    then obtain j where "j < workers cfg" "1 \<le> m" "2 \<le> pc_deposits (rounds cfg) (ls j) \<longrightarrow> 2 \<le> m" using m(4,5) by blast
    then show ?thesis using e [of j] by (auto simp: min_def)
  qed simp
  moreover have "d' = d" "x = (if account_balance d = expected cfg then EXIT_SUCCESS else EXIT_FAILURE)"
    using st True by (auto simp: plain_defs split: if_splits)
  moreover have "m \<le> workers cfg * rounds cfg" "workers cfg = 1 \<longrightarrow> m = rounds cfg" using m(2,3) a by simp_all
  ultimately show ?thesis using m(1) e unfolding plain_end_def by blast
next
  case False
  then have "x = 3 \<and> \<not> env_ok env"
    using st i by (cases "ls i") (auto simp: plain_defs env_ok_def split: if_splits)
  then show ?thesis by (simp add: plain_end_def)
qed

section \<open>Every run ends\<close>

definition plain_weight :: "dcfg \<Rightarrow> dpc \<Rightarrow> nat" where
  "plain_weight cfg l =
     (case l of
        W_start \<Rightarrow> 3 * rounds cfg + 3
      | W_wait \<Rightarrow> 3 * rounds cfg + 2
      | W_loop k \<Rightarrow> 3 * (rounds cfg - unat k) + 1
      | W_deposit k \<Rightarrow> 3 * (rounds cfg - unat k)
      | W_store k v \<Rightarrow> 3 * (rounds cfg - unat k) - 1
      | W_end \<Rightarrow> 0
      | _ \<Rightarrow> main_mu (workers cfg) (Out l))"

lemma plain_spends:
  assumes inv: "plain_inv cfg d ls" and i: "i < workers cfg + 1" and st: "plain_outs cfg env i d (ls i) = Some (Go d' l')"
  shows "plain_weight cfg l' < plain_weight cfg (ls i)"
proof (cases "i = workers cfg")
  case True
  have "main_ok cfg d (Out (ls i))" using inv True by (simp add: plain_inv_def)
  then show ?thesis
    using st True by (cases "ls i") (auto simp: plain_defs plain_weight_def split: if_splits)
next
  case False
  then have "plain_ok cfg (made cfg ls) d i (ls i)" using inv i by (simp add: plain_inv_def)
  then show ?thesis
    using st False loop_word [of _ "bank_transactions_per_thread cfg"]
    by (cases "ls i") (auto simp: plain_defs plain_weight_def word_less_nat_alt word_le_nat_alt split: if_splits)
qed

lemma plain_moves:
  assumes inv: "plain_inv cfg d ls"
  shows "\<exists>i<workers cfg + 1. plain_outs cfg env i d (ls i) \<noteq> None"
proof (cases "main_step cfg env d (ls (workers cfg))")
  case (Some a)
  then show ?thesis by (intro exI [of _ "workers cfg"]) (simp add: plain_outs_main)
next
  case None
  have "main_ok cfg d (Out (ls (workers cfg)))" using inv by (simp add: plain_inv_def)
  then obtain j where j: "j < workers cfg" "\<not> returned d j" "created d = workers cfg"
    using None by (cases "ls (workers cfg)") (auto simp: main_step_def split: if_splits)
  have ok: "plain_ok cfg (made cfg ls) d j (ls j)" using inv j by (simp add: plain_inv_def)
  show ?thesis
  proof (cases "plain_outs cfg env j d (ls j)")
    case (Some a)
    then show ?thesis using j(1) by (intro exI [of _ j]) simp
  next
    case None
    then have w: "arrived d < workers cfg" "sync_start cfg"
      using ok j by (cases "ls j"; auto simp: plain_defs split: if_splits)+
    have "\<exists>k<workers cfg. ls k = W_start"
    proof (rule ccontr)
      assume "\<not> ?thesis"
      then have "(\<Sum>i<workers cfg. past_start (Out (ls i))) = (\<Sum>i<workers cfg. 1)"
        by (intro sum.cong) (auto simp: past_start_def)
      then show False using inv w by (simp add: plain_inv_def)
    qed
    then obtain k where "k < workers cfg" "ls k = W_start" by blast
    then show ?thesis using j(3) by (intro exI [of _ k]) (simp add: plain_defs)
  qed
qed

lemma plain_inv_start: "plain_inv cfg (deposit_data cfg) (deposit_locals cfg)"
proof -
  have "made cfg (deposit_locals cfg) = 0" by (simp add: made_def deposit_locals_def)
  then show ?thesis
    by (simp add: plain_inv_def balance_ok_def deposit_data_def deposit_locals_def past_start_def balance_after_def)
qed

interpretation plain: bounded_program "workers cfg + 1" "plain_outs cfg env" "plain_inv cfg" "plain_end cfg env"
    "plain_weight cfg" "\<lambda>_. 0" False
  for cfg env
proof (unfold_locales, goal_cases)
  case (1 i d l d' l')
  show ?case by (cases l) (auto simp: plain_defs)
next
  case (2 d ls i d' l')
  then show ?case using plain_spends [of cfg d ls i env d' l'] by simp
next
  case (3 d ls i d' l')
  then show ?case
    using plain_worker_inv [of cfg d ls i env d' l'] plain_main_inv [of cfg d ls env d' l']
    by (cases "i = workers cfg") (auto simp: plain_outs_main)
next
  case (4 d ls i d' x)
  then show ?case by (rule plain_quit)
next
  case (5 d ls)
  then show ?case using plain_moves by simp
qed

lemma plain_weights_start:
  "(\<Sum>i<workers cfg + 1. plain_weight cfg (deposit_locals cfg i)) = workers cfg * (3 * rounds cfg + 5) + 5"
  by (simp add: plain_weight_def deposit_locals_def algebra_simps)

end
