(* ===== verification/Bank_Deposit.thy ===== *)
theory Bank_Deposit
  imports CS_Variants Plain_Deposit
begin

text \<open>
  The four deposit programs: their arguments and what \<open>main\<close> does before the threads of \<open>Deposit\<close>.
  \<open>bank_deposit.c\<close> (prefix \<open>bd\<close>) and \<open>new/bank_deposit.c\<close> (\<open>nbd\<close>) have no critical section control; the
  two versions of \<open>bank_deposit_CPUtime.c\<close> (\<open>cpu20\<close> and \<open>cpu21\<close>) include a \<open>cs_methods.h\<close> whose
  \<open>cs_init\<close> checks the method and whose \<open>cs_enter\<close> and \<open>cs_leave\<close> are left to the reader. So the threads of
  all four are those of \<open>Plain_Deposit\<close>. The last two sections run the same threads with the entry and exit
  sections of \<open>everything.h\<close> and of the headers before it; no program of the repository does that (the \<open>cs_init\<close>
  of those headers has one parameter), but it is what the templates are to become.
\<close>

section \<open>Arguments\<close>

definition bd_defaults :: dcfg where
  "bd_defaults =
     \<lparr>sync_start = False, verbose = 1, thread_count = 3, bank_transactions_per_thread = 10000,
      bank_transaction_amount = 101, bank_transaction_fee = 1, account_start = 1,
      cs_method = -1, yields = False, join_checked = False\<rparr>"

definition bd_eval_opt :: "dcfg \<Rightarrow> opt_event \<Rightarrow> dcfg outcome" where
  "bd_eval_opt cfg e =
     (case e of
        Opt ch arg \<Rightarrow>
         (if ch = CHR ''c'' then
            (let cfg' = cfg\<lparr>thread_count := atoi arg\<rparr> in
             if thread_count cfg' < 1 \<or> thread_count cfg' > 100 then Exits 2 cfg' else Returns cfg')
          else if ch = CHR ''t'' then Returns (cfg\<lparr>bank_transactions_per_thread := atoi arg\<rparr>)
          else if ch = CHR ''a'' then Returns (cfg\<lparr>bank_transaction_amount := atoll arg\<rparr>)
          else if ch = CHR ''f'' then Returns (cfg\<lparr>bank_transaction_fee := atoll arg\<rparr>)
          else if ch = CHR ''s'' then Returns (cfg\<lparr>account_start := atoll arg\<rparr>)
          else if ch = CHR ''q'' then Returns (cfg\<lparr>verbose := 0\<rparr>)
          else if ch = CHR ''v'' then Returns (cfg\<lparr>verbose := verbose cfg + 1\<rparr>)
          else if ch = CHR ''w'' then Returns (cfg\<lparr>sync_start := True\<rparr>)
          else if ch = CHR ''h'' then Exits EXIT_SUCCESS cfg
          else Exits 2 cfg)
      | Bad c \<Rightarrow> Exits 2 cfg)"

definition bd_eval_args :: "string list \<Rightarrow> dcfg outcome" where
  "bd_eval_args args = opt_loop bd_eval_opt bd_defaults (getopt ''hwqvc:t:a:f:s:'' args)"

definition nbd_defaults :: dcfg where
  "nbd_defaults =
     \<lparr>sync_start = False, verbose = 1, thread_count = 3, bank_transactions_per_thread = 10000,
      bank_transaction_amount = 100, bank_transaction_fee = 1, account_start = 1000000,
      cs_method = -1, yields = False, join_checked = False\<rparr>"

definition nbd_eval_opt :: "dcfg \<Rightarrow> opt_event \<Rightarrow> dcfg outcome" where
  "nbd_eval_opt cfg e =
     (case e of
        Opt ch arg \<Rightarrow>
         (if ch = CHR ''c'' then
            (let cfg' = cfg\<lparr>thread_count := atoi arg\<rparr> in
             if thread_count cfg' < 1 \<or> thread_count cfg' > 100 then Exits 2 cfg' else Returns cfg')
          else if ch = CHR ''t'' then Returns (cfg\<lparr>bank_transactions_per_thread := atoi arg\<rparr>)
          else if ch = CHR ''a'' then Returns (cfg\<lparr>bank_transaction_amount := atoll arg\<rparr>)
          else if ch = CHR ''f'' then Returns (cfg\<lparr>bank_transaction_fee := atoll arg\<rparr>)
          else if ch = CHR ''s'' then Returns (cfg\<lparr>account_start := atoll arg\<rparr>)
          else if ch = CHR ''q'' then Returns (cfg\<lparr>verbose := 0\<rparr>)
          else if ch = CHR ''v'' then Returns (cfg\<lparr>verbose := verbose cfg + 1\<rparr>)
          else if ch = CHR ''w'' then Returns (cfg\<lparr>sync_start := True\<rparr>)
          else if ch = CHR ''h'' then Exits EXIT_SUCCESS cfg
          else Exits 2 cfg)
      | Bad c \<Rightarrow> Exits 2 cfg)"

definition nbd_eval_args :: "string list \<Rightarrow> dcfg outcome" where
  "nbd_eval_args args = opt_loop nbd_eval_opt nbd_defaults (getopt ''hwqvc:t:a:f:s:'' args)"

definition cpu21_defaults :: dcfg where
  "cpu21_defaults =
     \<lparr>sync_start = True, verbose = 1, thread_count = 3, bank_transactions_per_thread = 10000,
      bank_transaction_amount = 101, bank_transaction_fee = 1, account_start = 1,
      cs_method = -1, yields = False, join_checked = False\<rparr>"

definition cpu21_eval_opt :: "dcfg \<Rightarrow> opt_event \<Rightarrow> dcfg outcome" where
  "cpu21_eval_opt cfg e =
     (case e of
        Opt ch arg \<Rightarrow>
         (if ch = CHR ''c'' then
            (let cfg' = cfg\<lparr>thread_count := atoi arg\<rparr> in
             if thread_count cfg' < 1 \<or> thread_count cfg' > 1024 then Exits 2 cfg' else Returns cfg')
          else if ch = CHR ''t'' then Returns (cfg\<lparr>bank_transactions_per_thread := atoi arg\<rparr>)
          else if ch = CHR ''a'' then Returns (cfg\<lparr>bank_transaction_amount := atoll arg\<rparr>)
          else if ch = CHR ''f'' then Returns (cfg\<lparr>bank_transaction_fee := atoll arg\<rparr>)
          else if ch = CHR ''s'' then Returns (cfg\<lparr>account_start := atoll arg\<rparr>)
          else if ch = CHR ''q'' then Returns (cfg\<lparr>verbose := 0\<rparr>)
          else if ch = CHR ''v'' then Returns (cfg\<lparr>verbose := verbose cfg + 1\<rparr>)
          else if ch = CHR ''w'' then Returns (cfg\<lparr>sync_start := True\<rparr>)
          else if ch = CHR ''m'' then Returns (cfg\<lparr>cs_method := ucast (atoll arg)\<rparr>)
          else if ch = CHR ''y'' then Returns (cfg\<lparr>yields := True\<rparr>)
          else if ch = CHR ''h'' then Exits EXIT_SUCCESS cfg
          else Exits 2 cfg)
      | Bad c \<Rightarrow> Exits 2 cfg)"

definition cpu21_eval_args :: "string list \<Rightarrow> dcfg outcome" where
  "cpu21_eval_args args = opt_loop cpu21_eval_opt cpu21_defaults (getopt ''hwqvc:t:a:f:s:m:y'' args)"

definition cpu20_defaults :: dcfg where
  "cpu20_defaults =
     \<lparr>sync_start = True, verbose = 1, thread_count = 3, bank_transactions_per_thread = 10000,
      bank_transaction_amount = 101, bank_transaction_fee = 1, account_start = 1,
      cs_method = -1, yields = False, join_checked = False\<rparr>"

definition cpu20_eval_opt :: "dcfg \<Rightarrow> opt_event \<Rightarrow> dcfg outcome" where
  "cpu20_eval_opt cfg e =
     (case e of
        Opt ch arg \<Rightarrow>
         (if ch = CHR ''c'' then
            (let cfg' = cfg\<lparr>thread_count := atoi arg\<rparr> in
             if thread_count cfg' < 1 \<or> thread_count cfg' > 1024 then Exits 2 cfg' else Returns cfg')
          else if ch = CHR ''t'' then Returns (cfg\<lparr>bank_transactions_per_thread := atoi arg\<rparr>)
          else if ch = CHR ''a'' then Returns (cfg\<lparr>bank_transaction_amount := atoll arg\<rparr>)
          else if ch = CHR ''f'' then Returns (cfg\<lparr>bank_transaction_fee := atoll arg\<rparr>)
          else if ch = CHR ''s'' then Returns (cfg\<lparr>account_start := atoll arg\<rparr>)
          else if ch = CHR ''q'' then Returns (cfg\<lparr>verbose := 0\<rparr>)
          else if ch = CHR ''v'' then Returns (cfg\<lparr>verbose := verbose cfg + 1\<rparr>)
          else if ch = CHR ''w'' then Returns (cfg\<lparr>sync_start := True\<rparr>)
          else if ch = CHR ''m'' then Returns (cfg\<lparr>cs_method := ucast (atoll arg)\<rparr>)
          else if ch = CHR ''y'' then Returns (cfg\<lparr>yields := True\<rparr>)
          else if ch = CHR ''h'' then Exits EXIT_SUCCESS cfg
          else Exits 2 cfg)
      | Bad c \<Rightarrow> Exits 2 cfg)"

definition cpu20_eval_args :: "string list \<Rightarrow> dcfg outcome" where
  "cpu20_eval_args args = opt_loop cpu20_eval_opt cpu20_defaults (getopt ''hwqvc:t:a:f:s:m:y'' args)"

section \<open>The two versions of \<open>cs_methods.h\<close>\<close>

text \<open>Their variables, and the flag of the 2020 program.\<close>
record template =
  t_method_used :: cint
  t_var_allocated :: bool
  t_initialized :: bool

definition template0 :: template where
  "template0 = \<lparr>t_method_used = -1, t_var_allocated = False, t_initialized = False\<rparr>"

text \<open>\<open>Peterson_check\<close>; the number of threads comes as an \<open>int\<close>.\<close>
definition Peterson_check :: "cint \<Rightarrow> template \<Rightarrow> template outcome" where
  "Peterson_check threads t = (if threads \<noteq> 2 then Exits EXIT_FAILURE t else Returns t)"

text \<open>The switch on the method: \<open>CS_METHOD_PETERSON\<close> is 1, \<open>CS_METHOD_PETERSON_XCHG\<close> is 2, the last one 10.\<close>
definition template_switch :: "cint \<Rightarrow> template \<Rightarrow> template outcome" where
  "template_switch threads t =
     (if t_method_used t = 1 \<or> t_method_used t = 2 then Peterson_check threads t
      else if t_method_used t \<in> {0, 3, 4, 5, 6, 7, 8, 9, 10} then Returns t
      else Exits EXIT_FAILURE t)"

definition cs20_init :: "cint \<Rightarrow> cint \<Rightarrow> template \<Rightarrow> template outcome" where
  "cs20_init method threads t = template_switch threads (t\<lparr>t_method_used := method\<rparr>)"

definition cs21_init :: "cint \<Rightarrow> cint \<Rightarrow> template \<Rightarrow> template outcome" where
  "cs21_init method threads t =
     (case template_switch threads (t\<lparr>t_method_used := method\<rparr>) of
        Exits x t' \<Rightarrow> Exits x t'
      | Returns t' \<Rightarrow> Returns (t'\<lparr>t_var_allocated := True\<rparr>))"

text \<open>\<open>cs_enter\<close>, \<open>cs_leave\<close> and \<open>cs_destroy\<close>: every case of the switch is empty.\<close>
definition template_enter :: "nat \<Rightarrow> template \<Rightarrow> template" where "template_enter i t = t"
definition template_leave :: "nat \<Rightarrow> template \<Rightarrow> template" where "template_leave i t = t"
definition template_destroy :: "template \<Rightarrow> template" where "template_destroy t = t"

section \<open>The programs up to their threads\<close>

text \<open>\<open>release_resources\<close>, run by \<open>atexit\<close>, of the 2020 and of the 2021 program: the flag of the barrier
  and the header.\<close>
definition cpu20_release :: "bool \<times> template \<Rightarrow> bool \<times> template" where
  "cpu20_release s = (False, if t_initialized (snd s) then template_destroy (snd s) else snd s)"

definition cpu21_release :: "bool \<times> template \<Rightarrow> bool \<times> template" where
  "cpu21_release s = (False, template_destroy (snd s))"

text \<open>\<open>main\<close>: the arguments, the check that a method was given, \<open>cs_init\<close>.\<close>
definition cpu20_main :: "string list \<Rightarrow> (dcfg \<times> template) outcome" where
  "cpu20_main args =
     (case cpu20_eval_args args of
        Exits x cfg \<Rightarrow> Exits x (cfg, template0)
      | Returns cfg \<Rightarrow>
          if cs_method cfg <s 0 then Exits 2 (cfg, template0)
          else (case cs20_init (cs_method cfg) (thread_count cfg) template0 of
             Exits x t \<Rightarrow> Exits x (cfg, snd (cpu20_release (False, t)))
           | Returns t \<Rightarrow> Returns (cfg, t\<lparr>t_initialized := True\<rparr>)))"

definition cpu21_main :: "string list \<Rightarrow> (dcfg \<times> template) outcome" where
  "cpu21_main args =
     (case cpu21_eval_args args of
        Exits x cfg \<Rightarrow> Exits x (cfg, template0)
      | Returns cfg \<Rightarrow>
          if cs_method cfg <s 0 then Exits 2 (cfg, template0)
          else (case cs21_init (cs_method cfg) (thread_count cfg) template0 of
             Exits x t \<Rightarrow> Exits x (cfg, snd (cpu21_release (False, t)))
           | Returns t \<Rightarrow> Returns (cfg, t)))"

text \<open>The four programs, up to the barrier: the variables with which they go on, or the exit status.\<close>
datatype deposit_program = BANK_DEPOSIT | NEW_BANK_DEPOSIT | CPUTIME_2020 | CPUTIME_2021

definition deposit_main :: "deposit_program \<Rightarrow> string list \<Rightarrow> dcfg outcome" where
  "deposit_main p args =
     (case p of
        BANK_DEPOSIT \<Rightarrow> bd_eval_args args
      | NEW_BANK_DEPOSIT \<Rightarrow> nbd_eval_args args
      | CPUTIME_2020 \<Rightarrow> (case cpu20_main args of Exits x s \<Rightarrow> Exits x (fst s) | Returns s \<Rightarrow> Returns (fst s))
      | CPUTIME_2021 \<Rightarrow> (case cpu21_main args of Exits x s \<Rightarrow> Exits x (fst s) | Returns s \<Rightarrow> Returns (fst s)))"

section \<open>The threads with the empty sections\<close>

text \<open>\<open>bank_deposit\<close> between the entry and exit sections of \<open>cs_methods.h\<close>, and where a thread stands in it when the
  calls are not counted as steps.\<close>
definition template_step :: "dcfg \<Rightarrow> denv \<Rightarrow> ((template, dstate) world, (unit, dpc) phase) tstep" where
  "template_step cfg env =
     locked_step (\<lambda>i t u. Passed (template_enter i t)) (\<lambda>i t. Passed (template_leave i t)) ()
       (deposit_outs cfg env) (deposit_ins cfg)"

fun position :: "(unit, dpc) phase \<Rightarrow> dpc" where
  "position (Out l) = l"
| "position (Try p l) = l"
| "position (In l) = l"
| "position (Leave l) = l"

definition without_calls :: "((template, dstate) world, (unit, dpc) phase) conf \<Rightarrow> (dstate process, dpc) conf" where
  "without_calls c = ((data (fst c), exited (fst c)), position \<circ> snd c)"

lemma deposit_sections:
  "deposit_outs cfg env (workers cfg) d l = main_step cfg env d l"
  "main_step cfg env d l \<noteq> Some (Sync d' l')"
  "i \<noteq> workers cfg \<Longrightarrow> deposit_outs cfg env i d l = Some a \<Longrightarrow>
     plain_outs cfg env i d l = Some (case a of Sync d' l' \<Rightarrow> Go d' l' | _ \<Rightarrow> a)"
  "i \<noteq> workers cfg \<Longrightarrow> deposit_ins cfg i d l = Some a \<Longrightarrow>
     plain_outs cfg env i d l = Some (case a of Sync d' l' \<Rightarrow> Go d' l' | _ \<Rightarrow> a)"
proof -
  show "deposit_outs cfg env (workers cfg) d l = main_step cfg env d l" by (simp add: deposit_outs_def)
  show "main_step cfg env d l \<noteq> Some (Sync d' l')" by (cases l) (simp_all add: main_step_def)
  show "plain_outs cfg env i d l = Some (case a of Sync d' l' \<Rightarrow> Go d' l' | _ \<Rightarrow> a)"
    if "i \<noteq> workers cfg" "deposit_outs cfg env i d l = Some a"
    using that by (cases l) (auto simp: deposit_outs_def plain_outs_def start_step_def wait_step_def split: if_splits)
  show "plain_outs cfg env i d l = Some (case a of Sync d' l' \<Rightarrow> Go d' l' | _ \<Rightarrow> a)"
    if "i \<noteq> workers cfg" "deposit_ins cfg i d l = Some a"
    using that by (cases l) (auto simp: deposit_ins_def plain_outs_def)
qed

lemma template_one_step:
  assumes "template_step cfg env i w ph = Some (w', ph')" and "i = workers cfg \<longrightarrow> (\<exists>l. ph = Out l)"
  shows "(plain_step cfg env i (data w, exited w) (position ph) = Some ((data w', exited w'), position ph') \<or>
      data w' = data w \<and> exited w' = exited w \<and> position ph' = position ph) \<and> lockst w' = lockst w \<and>
    (i = workers cfg \<longrightarrow> (\<exists>l. ph' = Out l))"
proof (cases "i = workers cfg")
  case True
  show ?thesis
    using assms(1) [unfolded template_step_def]
    by (cases rule: locked_step_cases)
      (use assms(2) in \<open>simp_all add: True deposit_sections(1,2) plain_step_def free_step_def plain_outs_main\<close>)
next
  case False
  note s = deposit_sections(3,4) [OF False, where env = env]
  show ?thesis
    using assms(1) [unfolded template_step_def]
    by (cases rule: locked_step_cases)
      (simp_all add: False s plain_step_def free_step_def template_enter_def template_leave_def)
qed

text \<open>So these threads do what the threads without sections do.\<close>
theorem template_threads:
  assumes "reach (workers cfg + 1) (template_step cfg env)
    (\<lparr>lockst = t, data = deposit_data cfg, exited = None\<rparr>, \<lambda>i. Out (deposit_locals cfg i)) c"
  shows "reach (workers cfg + 1) (plain_step cfg env) (plain_start cfg) (without_calls c) \<and> lockst (fst c) = t \<and>
    (\<exists>l. snd c (workers cfg) = Out l)"
  using assms
proof (induction rule: reach.induct)
  case reach_init
  then show ?case by (simp add: without_calls_def plain_start_def comp_def reach.reach_init)
next
  case (reach_step c i c')
  then obtain w' ph' where st: "i < workers cfg + 1" "template_step cfg env i (fst c) (snd c i) = Some (w', ph')"
    and c': "c' = (w', (snd c)(i := ph'))" by (auto simp: sched_step_Some)
  have "i = workers cfg \<longrightarrow> (\<exists>l. snd c i = Out l)" using reach_step.IH by blast
  note one = template_one_step [OF st(2) this]
  have p: "position \<circ> snd c' = (position \<circ> snd c)(i := position ph')" unfolding c' by (simp add: fun_upd_comp)
  have "reach (workers cfg + 1) (plain_step cfg env) (plain_start cfg) (without_calls c')"
    using one
  proof (elim conjE disjE)
    assume "plain_step cfg env i (data (fst c), exited (fst c)) (position (snd c i)) = Some ((data w', exited w'), position ph')"
    then have "sched_step (workers cfg + 1) (plain_step cfg env) i (without_calls c) = Some (without_calls c')"
      using st(1) p by (simp add: sched_step_Some without_calls_def c')
    then show ?thesis using reach_step.IH by (blast intro: reach.reach_step)
  next
    assume "data w' = data (fst c)" "exited w' = exited (fst c)" "position ph' = position (snd c i)"
    then have "without_calls c' = without_calls c" using p by (simp add: without_calls_def c' fun_upd_idem)
    then show ?thesis using reach_step.IH by simp
  qed
  then show ?case using one reach_step.IH by (auto simp: c')
qed

section \<open>Properties\<close>

lemma expected_exact:
  assumes "workers cfg * rounds cfg < 2 ^ 32"
  shows "expected cfg = account_start cfg + of_nat (workers cfg * rounds cfg) *
    (bank_transaction_amount cfg - bank_transaction_fee cfg)"
proof -
  have "unat (thread_count cfg * bank_transactions_per_thread cfg) = workers cfg * rounds cfg"
    using assms by (simp add: unat_word_ariths)
  then have "ucast (thread_count cfg * bank_transactions_per_thread cfg) =
      (of_nat (workers cfg * rounds cfg) :: cllong)"
    by (metis of_nat_unat)
  then show ?thesis by (simp add: expected_def)
qed








text \<open>One thread, three transactions; the method is Peterson's with two threads.\<close>
definition one_thread :: "string list" where "one_thread = [''-c1'', ''-t'', ''3'', ''-m0'']"

definition one_thread_schedule :: "nat list" where
  "one_thread_schedule = [1, 1, 1, 0, 0] @ replicate 10 0 @ [1, 1, 1]"


text \<open>C31. They end: in all four programs, for \<open>n\<close> threads of \<open>t\<close> transactions, a run has at most
  \<open>n * (3 * t + 5) + 6\<close> steps, whatever is called and fails; and where nobody can go on, not even between the
  start barrier and the joins, the process has ended.\<close>
theorem deposits_end:
  assumes "deposit_main p args = Returns cfg"
    and "run_sched (workers cfg + 1) (plain_step cfg env) sched (plain_start cfg) = Some ((d, x), ls)"
  shows "length sched \<le> workers cfg * (3 * rounds cfg + 5) + 6 \<and>
    (stuck (workers cfg + 1) (plain_step cfg env) ((d, x), ls) \<longrightarrow>
       (\<exists>e. x = Some e \<and> (e = EXIT_SUCCESS \<or> e = EXIT_FAILURE \<or> e = 3 \<and> \<not> env_ok env)))"
proof (intro conjI impI)
  note run = assms(2) [unfolded plain_step_def plain_start_def]
  show "length sched \<le> workers cfg * (3 * rounds cfg + 5) + 6"
    using plain.run_length [OF run plain_inv_start] plain_weights_start [of cfg] by simp
  assume "stuck (workers cfg + 1) (plain_step cfg env) ((d, x), ls)"
  from plain.stuck_end [OF run_sched_reach [OF run] plain_inv_start this [unfolded plain_step_def]]
  show "\<exists>e. x = Some e \<and> (e = EXIT_SUCCESS \<or> e = EXIT_FAILURE \<or> e = 3 \<and> \<not> env_ok env)"
    by (auto simp: plain_end_def)
qed

theorem deposits_end_witness:
  "\<exists>cfg d ls. deposit_main CPUTIME_2021 one_thread = Returns cfg \<and>
     run_sched (workers cfg + 1) (plain_step cfg env0) one_thread_schedule (plain_start cfg) = Some ((d, Some EXIT_SUCCESS), ls) \<and>
     length one_thread_schedule \<le> workers cfg * (3 * rounds cfg + 5) + 6"
proof -
  have "case deposit_main CPUTIME_2021 one_thread of Exits x w \<Rightarrow> False
      | Returns cfg \<Rightarrow> thread_count cfg = 1 \<and>
        (case run_sched 2 (plain_step cfg env0) one_thread_schedule (plain_start cfg) of
           None \<Rightarrow> False | Some c \<Rightarrow> snd (fst c) = Some EXIT_SUCCESS)"
    by code_simp
  then obtain cfg d ls where main: "deposit_main CPUTIME_2021 one_thread = Returns cfg" and n: "workers cfg = 1"
    and r: "run_sched (workers cfg + 1) (plain_step cfg env0) one_thread_schedule (plain_start cfg) = Some ((d, Some EXIT_SUCCESS), ls)"
    by (auto simp: numeral_2_eq_2 split: outcome.splits option.splits)
  from deposits_end [OF main r] show ?thesis using main r by blast
qed

text \<open>Two threads of one transaction each can lose a deposit, and the program reports it with exit code 1.\<close>
theorem plain_lost_update:
  "(\<exists>cfg d ls. deposit_main BANK_DEPOSIT [''-c2'', ''-t1''] = Returns cfg \<and>
     reach (workers cfg + 1) (plain_step cfg env0) (plain_start cfg) ((d, Some 1), ls) \<and>
     account_balance d = 101 \<and> expected cfg = 201) \<and>
   (\<exists>cfg d ls. deposit_main NEW_BANK_DEPOSIT [''-c2'', ''-t1''] = Returns cfg \<and>
     reach (workers cfg + 1) (plain_step cfg env0) (plain_start cfg) ((d, Some 1), ls) \<and>
     account_balance d = 1000099 \<and> expected cfg = 1000198)"
proof -
  have *: "\<exists>cfg d ls. E = Returns cfg \<and>
     reach (workers cfg + 1) (plain_step cfg env0) (plain_start cfg) ((d, Some 1), ls) \<and>
     account_balance d = b \<and> expected cfg = e"
    if "case E of Exits x w \<Rightarrow> False | Returns cfg \<Rightarrow> thread_count cfg = 2 \<and> expected cfg = e \<and>
         (case run_sched 3 (plain_step cfg env0)
            [2, 2, 2, 2, 0, 1, 0, 1, 0, 1, 0, 1, 0, 1, 2, 2, 2, 2] (plain_start cfg) of None \<Rightarrow> False
          | Some c \<Rightarrow> account_balance (fst (fst c)) = b \<and> snd (fst c) = Some 1)" for E b e
    using that by (cases E) (fastforce dest!: run_case simp del: run_sched.simps)+
  show ?thesis by (intro conjI *; code_simp)
qed

definition overflow_args :: "string list" where
  "overflow_args = [''-m4'', ''-c2'', ''-t2147483648'', ''-a2'']"

text \<open>A false alarm: with 2 threads of 2147483648 transactions the product of the two unsigned numbers is 0 in 32 bits,
  and the expected balance is not the one after all deposits.\<close>
theorem expected_overflow:
  "\<exists>cfg. deposit_main CPUTIME_2021 overflow_args = Returns cfg \<and> workers cfg * rounds cfg = 2 ^ 32 \<and>
     expected cfg \<noteq> balance_after cfg (workers cfg * rounds cfg)"
proof -
  have "case deposit_main CPUTIME_2021 overflow_args of Exits x w \<Rightarrow> False
      | Returns cfg \<Rightarrow> thread_count cfg = 2 \<and> bank_transactions_per_thread cfg = 2147483648 \<and>
        account_start cfg = 1 \<and> bank_transaction_amount cfg = 2 \<and> bank_transaction_fee cfg = 1"
    by code_simp
  then obtain cfg where main: "deposit_main CPUTIME_2021 overflow_args = Returns cfg"
    and cfg: "thread_count cfg = 2" "bank_transactions_per_thread cfg = 2147483648"
      "account_start cfg = 1" "bank_transaction_amount cfg = 2" "bank_transaction_fee cfg = 1"
    by (auto split: outcome.splits)
  show ?thesis using main cfg by (simp add: expected_def balance_after_def)
qed

section \<open>The deposit threads with everything.h\<close>

definition cpu_step :: "faults \<Rightarrow> dcfg \<Rightarrow> denv \<Rightarrow> ((cs_vars, dstate) world, (enter_pc, dpc) phase) tstep" where
  "cpu_step flt cfg env = cs_step flt (deposit_outs cfg env) (deposit_ins cfg)"

definition cpu_start :: "dcfg \<Rightarrow> cs_vars \<Rightarrow> (cs_vars, dstate) world \<times> (nat \<Rightarrow> (enter_pc, dpc) phase)" where
  "cpu_start cfg v = cs_program_start v (deposit_data cfg) (deposit_locals cfg)"

interpretation deposit_everything: live_program "workers cfg + 1" "cs_enter flt" "cs_leave flt" At_test
    "lock_J (workers cfg + 1) (cs_lk flt)" "lock_rank (workers cfg + 1) cs_prank"
    "deposit_outs cfg env" "deposit_ins cfg" "deposit_Q cfg" "deposit_R cfg env" "deposit_mu cfg"
    "\<lambda>_ _. False"
  for flt cfg env
  by unfold_locales

lemma cpu_start_inv:
  assumes "cs_lk flt v None"
  shows "deposit_everything.inv cfg flt env (cpu_start cfg v)"
  unfolding cpu_start_def cs_program_start_def
  by (rule deposit_everything.inv_start [OF lock_J_free [where lk = "cs_lk flt", OF assms] deposit_Q_start])

lemma cpu_result:
  assumes "cs_lk flt v None" "reach (workers cfg + 1) (cpu_step flt cfg env) (cpu_start cfg v) c"
    "exited (fst c) = Some x"
  shows "deposit_R cfg env (data (fst c)) x"
  using deposit_everything.result [OF assms(2) [unfolded cpu_step_def] cpu_start_inv [OF assms(1)] assms(3)]
  by simp

lemma cpu_can_end:
  assumes "cs_lk flt v None" "reach (workers cfg + 1) (cpu_step flt cfg env) (cpu_start cfg v) c"
  obtains c' x where "reach (workers cfg + 1) (cpu_step flt cfg env) c c'" "exited (fst c') = Some x"
    "deposit_R cfg env (data (fst c')) x"
proof -
  obtain c' where c': "reach (workers cfg + 1) (cpu_step flt cfg env) c c'" "exited (fst c') \<noteq> None"
    using deposit_everything.can_be_over [OF assms(2) [unfolded cpu_step_def] cpu_start_inv [OF assms(1)]]
    unfolding cpu_step_def by metis
  then obtain x where x: "exited (fst c') = Some x" by blast
  from cpu_result [OF assms(1) reach_trans [OF c'(1) assms(2)] x] show thesis
    using that c'(1) x by blast
qed

text \<open>With every method of \<open>everything.h\<close> from \<open>CS_METHOD_XCHG\<close> on, as long as the number of transactions
  fits in 32 bits and the calls of \<open>cs_enter\<close> and \<open>cs_leave\<close> do not fail, no deposit is lost, and the end can
  be reached from everywhere.\<close>
theorem everything_deposit:
  assumes "cs_init flt m v0 = Returns v" "safe_method m" "quiet flt" "workers cfg * rounds cfg < 2 ^ 32"
    and "reach (workers cfg + 1) (cpu_step flt cfg env) (cpu_start cfg v) c"
  shows "(\<forall>x. exited (fst c) = Some x \<longrightarrow>
      x = EXIT_SUCCESS \<and> account_balance (data (fst c)) = balance_after cfg (workers cfg * rounds cfg) \<or> x = 3 \<and> \<not> env_ok env) \<and>
    (\<exists>c'. reach (workers cfg + 1) (cpu_step flt cfg env) c c' \<and> exited (fst c') \<noteq> None)"
proof -
  note lk = cs_init_lk [OF assms(1-3)]
  obtain c' x where "reach (workers cfg + 1) (cpu_step flt cfg env) c c'" "exited (fst c') = Some x"
    using cpu_can_end [OF lk assms(5)] .
  moreover have "x = EXIT_SUCCESS \<and> account_balance (data (fst c)) = balance_after cfg (workers cfg * rounds cfg) \<or> x = 3 \<and> \<not> env_ok env"
    if "exited (fst c) = Some x" for x
    using cpu_result [OF lk assms(5) that] expected_exact [OF assms(4)]
    unfolding deposit_R_def env_ok_def balance_after_def by (auto split: if_splits)
  ultimately show ?thesis by blast
qed

section \<open>With the earlier headers\<close>

definition hdr_main_step ::
    "header \<Rightarrow> faults \<Rightarrow> dcfg \<Rightarrow> denv \<Rightarrow> ((cs_vars, dstate) world, (enter_pc, dpc) phase) tstep" where
  "hdr_main_step h flt cfg env = hdr_step h flt (deposit_outs cfg env) (deposit_ins cfg)"

interpretation deposit_headers: locked_program "workers cfg + 1" "hdr_enter h flt" "hdr_leave h flt" At_test
    exit_failure "lock_J (workers cfg + 1) (hdr_lk h)"
    "deposit_outs cfg env" "deposit_ins cfg" "deposit_Q cfg" "deposit_R cfg env"
  for h flt cfg env
  by unfold_locales

text \<open>With the earlier headers a successful exit can be trusted in every environment: whatever
  calls fail while the program runs, when it ends with \<open>EXIT_SUCCESS\<close> every deposit has
  arrived (up to the 64 bits of the balance).\<close>
theorem header_deposit_sound:
  assumes "hdr_init h flt m v0 = Returns v" "m \<in> set (own_methods h)" "m = CS_METHOD_SEM_POSIX_NAMED \<Longrightarrow> named_sem_free v0"
    and "reach (workers cfg + 1) (hdr_main_step h flt cfg env) (cpu_start cfg v) c"
    and "exited (fst c) = Some EXIT_SUCCESS"
  shows "account_balance (data (fst c)) = account_start cfg +
    of_nat (workers cfg * rounds cfg) * (bank_transaction_amount cfg - bank_transaction_fee cfg)"
proof -
  have "deposit_R cfg env (data (fst c)) EXIT_SUCCESS \<or> exit_failure EXIT_SUCCESS"
    by (rule deposit_headers.result [OF assms(4) [unfolded hdr_main_step_def] _ assms(5)])
      (unfold cpu_start_def cs_program_start_def, rule deposit_headers.inv_start
        [OF lock_J_free [where lk = "hdr_lk h", OF hdr_init_lk [OF assms(1-3)]] deposit_Q_start])
  then show ?thesis by (simp add: deposit_R_def exit_failure_def)
qed

theorem header_deposit_sound_witness:
  "\<exists>v c. hdr_init SV no_faults CS_METHOD_SEM_SYSV cs_start = Returns v \<and>
     reach 2 (hdr_main_step SV no_faults
        (bd_defaults\<lparr>thread_count := 1, bank_transactions_per_thread := 1\<rparr>) env0)
       (cpu_start (bd_defaults\<lparr>thread_count := 1, bank_transactions_per_thread := 1\<rparr>) v) c \<and>
     exited (fst c) = Some EXIT_SUCCESS \<and> account_balance (data (fst c)) = 101"
proof -
  let ?cfg = "bd_defaults\<lparr>thread_count := 1, bank_transactions_per_thread := 1\<rparr>"
  have run: "case hdr_init SV no_faults CS_METHOD_SEM_SYSV cs_start of Exits x w \<Rightarrow> False
      | Returns v \<Rightarrow>
        (case run_sched 2 (hdr_main_step SV no_faults ?cfg env0) [1, 1, 1, 0, 0, 0, 0, 0, 0, 0, 1, 1, 1]
          (cpu_start ?cfg v) of None \<Rightarrow> False
        | Some c \<Rightarrow> exited (fst c) = Some EXIT_SUCCESS)"
    by code_simp
  obtain v c where v: "hdr_init SV no_faults CS_METHOD_SEM_SYSV cs_start = Returns v"
    and c: "reach 2 (hdr_main_step SV no_faults ?cfg env0) (cpu_start ?cfg v) c"
      "exited (fst c) = Some EXIT_SUCCESS"
    using run_from_hdr_init [OF run] by blast
  have "CS_METHOD_SEM_SYSV \<in> set (own_methods SV)" "CS_METHOD_SEM_SYSV = CS_METHOD_SEM_POSIX_NAMED \<Longrightarrow> named_sem_free cs_start"
    "workers ?cfg + 1 = 2"
    by simp_all
  then have "account_balance (data (fst c)) = account_start ?cfg +
      of_nat (workers ?cfg * rounds ?cfg) * (bank_transaction_amount ?cfg - bank_transaction_fee ?cfg)"
    using header_deposit_sound [OF v, of ?cfg env0 c] c by metis
  then have "account_balance (data (fst c)) = 101" by (simp add: bd_defaults_def)
  then show ?thesis using v c by blast
qed

end
