(* ===== verification/Peterson.thy ===== *)
theory Peterson
  imports Critical_Section
begin

text \<open>
  Peterson's algorithm. The four headers of \<open>04-critical_section\<close>
  (\<open>Peterson.h\<close>, \<open>Peterson_sched.h\<close>, \<open>Peterson_xchg.h\<close>,
  \<open>Peterson_xchg_sched.h\<close>) and the prologue and epilogue of
  \<open>bank_transactions_Peterson.c\<close>, first on memory in program order, where they
  interpret \<open>live_protocol\<close>, then on x86 store buffers, where the plain stores of
  \<open>Peterson.h\<close> fail ("The race on SMP systems is NOT solved") and the
  \<open>xchg\<close> versions do not.
\<close>

section \<open>The algorithm on memory in program order\<close>

record pet =
  flag :: "nat \<Rightarrow> bool"
  turn :: nat
  waits_per_thread :: "nat \<Rightarrow> nat"

text \<open>C's \<open>!self\<close>.\<close>
definition lnot :: "nat \<Rightarrow> nat" where
  "lnot self = (if self = 0 then 1 else 0)"

text \<open>Before each of the accesses of the entry section; the argument is \<open>counted\<close> of
  \<open>Peterson_prologue\<close>, unused by the headers.\<close>
datatype pet_pc = Set_flag | Set_turn | Test_flag bool | Test_turn bool | Pet_yield

definition Peterson_init :: "pet \<Rightarrow> pet" where
  "Peterson_init s = s\<lparr>flag := (flag s)(0 := False, 1 := False)\<rparr>"

text \<open>\<open>Peterson_wait\<close>; \<open>sched\<close> says whether the busy wait calls \<open>sched_yield\<close>.\<close>
definition Peterson_wait :: "bool \<Rightarrow> nat \<Rightarrow> pet \<Rightarrow> pet_pc \<Rightarrow> (pet, pet_pc) lock_res" where
  "Peterson_wait sched self s pc =
     (case pc of
        Set_flag \<Rightarrow> Spin (s\<lparr>flag := (flag s)(self := True)\<rparr>) Set_turn
      | Set_turn \<Rightarrow> Spin (s\<lparr>turn := lnot self\<rparr>) (Test_flag False)
      | Test_flag b \<Rightarrow> if flag s (lnot self) then Spin s (Test_turn b) else Passed s
      | Test_turn b \<Rightarrow>
          if turn s \<noteq> self then Spin s (if sched then Pet_yield else Test_flag b) else Passed s
      | Pet_yield \<Rightarrow> Spin s (Test_flag False))"

definition Peterson_post :: "nat \<Rightarrow> pet \<Rightarrow> (pet, unit) lock_res" where
  "Peterson_post self s = Passed (s\<lparr>flag := (flag s)(self := False)\<rparr>)"

text \<open>The versions in \<open>bank_transactions_Peterson.c\<close>: the first busy wait of a call is
  counted.\<close>
definition Peterson_prologue :: "nat \<Rightarrow> pet \<Rightarrow> pet_pc \<Rightarrow> (pet, pet_pc) lock_res" where
  "Peterson_prologue self s pc =
     (case pc of
        Set_flag \<Rightarrow> Spin (s\<lparr>flag := (flag s)(self := True)\<rparr>) Set_turn
      | Set_turn \<Rightarrow> Spin (s\<lparr>turn := lnot self\<rparr>) (Test_flag False)
      | Test_flag counted \<Rightarrow> if flag s (lnot self) then Spin s (Test_turn counted) else Passed s
      | Test_turn counted \<Rightarrow>
          if turn s = lnot self then
            (if \<not> counted
             then Spin (s\<lparr>waits_per_thread :=
                      (waits_per_thread s)(self := waits_per_thread s self + 1)\<rparr>) (Test_flag True)
             else Spin s (Test_flag True))
          else Passed s
      | Pet_yield \<Rightarrow> Spin s (Test_flag False))"

definition Peterson_epilogue :: "nat \<Rightarrow> pet \<Rightarrow> (pet, unit) lock_res" where
  "Peterson_epilogue self s = Passed (s\<lparr>flag := (flag s)(self := False)\<rparr>)"

section \<open>Its invariant\<close>

text \<open>A thread has raised its flag and given way.\<close>
fun asked :: "pet_pc role \<Rightarrow> bool" where
  "asked Idle = False"
| "asked (Trying Set_flag) = False"
| "asked (Trying Set_turn) = False"
| "asked (Trying p) = True"
| "asked Holding = True"

text \<open>A thread has raised its flag.\<close>
fun raised :: "pet_pc role \<Rightarrow> bool" where
  "raised Idle = False"
| "raised (Trying Set_flag) = False"
| "raised (Trying p) = True"
| "raised Holding = True"

definition pet_J :: "pet \<Rightarrow> (nat \<Rightarrow> pet_pc role) \<Rightarrow> bool" where
  "pet_J s r \<longleftrightarrow> (turn s = 0 \<or> turn s = 1) \<and>
     flag s 0 = raised (r 0) \<and> flag s 1 = raised (r 1) \<and>
     (r 0 = Holding \<and> asked (r 1) \<longrightarrow> turn s = 0) \<and>
     (r 1 = Holding \<and> asked (r 0) \<longrightarrow> turn s = 1)"

lemma asked_raised: "asked x \<Longrightarrow> raised x"
  by (cases x rule: asked.cases) auto

lemma asked_Trying: "asked (Trying p) \<longleftrightarrow> p \<noteq> Set_flag \<and> p \<noteq> Set_turn"
  by (cases p) auto

lemma raised_Trying: "raised (Trying p) \<longleftrightarrow> p \<noteq> Set_flag"
  by (cases p) auto

lemma role_ends: "\<not> asked Idle" "asked Holding" "\<not> raised Idle" "raised Holding"
  by simp_all

declare asked.simps [simp del] raised.simps [simp del]

lemmas pet_roles = asked_Trying raised_Trying role_ends

fun pc_rank :: "bool \<Rightarrow> pet_pc role \<Rightarrow> nat" where
  "pc_rank mine (Trying Set_flag) = 9"
| "pc_rank mine (Trying Set_turn) = 8"
| "pc_rank mine (Trying (Test_flag b)) = (if mine then 6 else 5)"
| "pc_rank mine (Trying (Test_turn b)) = (if mine then 5 else 7)"
| "pc_rank mine (Trying Pet_yield) = (if mine then 7 else 6)"
| "pc_rank mine Idle = 0"
| "pc_rank mine Holding = 0"

definition pet_rank :: "pet \<Rightarrow> (nat \<Rightarrow> pet_pc role) \<Rightarrow> nat" where
  "pet_rank s r = pc_rank (turn s = 0) (r 0) + pc_rank (turn s = 1) (r 1)"

lemmas pet_defs = pet_J_def lnot_def pet_roles

lemmas pet_ops = Peterson_wait_def Peterson_prologue_def Peterson_post_def Peterson_epilogue_def

text \<open>The entry routines of the headers and of the program.\<close>
definition pet_entry :: "(nat \<Rightarrow> pet \<Rightarrow> pet_pc \<Rightarrow> (pet, pet_pc) lock_res) \<Rightarrow> bool" where
  "pet_entry E \<longleftrightarrow> (\<exists>sched. E = Peterson_wait sched) \<or> E = Peterson_prologue"

lemma pet_start: "pet_J s r \<Longrightarrow> i < 2 \<Longrightarrow> r i = Idle \<Longrightarrow> pet_J s (r(i := Trying Set_flag))"
    by (auto simp: pet_defs less_2_cases_iff)
lemma pet_spin: "pet_entry E \<Longrightarrow> pet_J s r \<Longrightarrow> i < 2 \<Longrightarrow> r i = Trying p \<Longrightarrow> E i s p = Spin s' p' \<Longrightarrow>
      pet_J s' (r(i := Trying p'))"
  unfolding less_2_cases_iff pet_entry_def
    by (elim disjE; cases p; auto simp: pet_defs pet_ops split: if_splits)
lemma pet_pass: "pet_entry E \<Longrightarrow> pet_J s r \<Longrightarrow> i < 2 \<Longrightarrow> r i = Trying p \<Longrightarrow> E i s p = Passed s' \<Longrightarrow>
      pet_J s' (r(i := Holding))"
  unfolding less_2_cases_iff pet_entry_def
    by (elim disjE; cases p; auto simp: pet_defs pet_ops split: if_splits dest: asked_raised)
lemma pet_alive: "pet_entry E \<Longrightarrow> E i s p \<noteq> Died x s'"
  by (cases p) (auto simp: pet_entry_def pet_ops split: if_splits)
lemma pet_left: "pet_J s r \<Longrightarrow> i < 2 \<Longrightarrow> r i = Holding \<Longrightarrow> pet_J (s\<lparr>flag := (flag s)(i := False)\<rparr>) (r(i := Idle))"
  by (auto simp: pet_defs less_2_cases_iff)
lemma pet_excl: "pet_J s r \<Longrightarrow> i < 2 \<Longrightarrow> j < 2 \<Longrightarrow> r i = Holding \<Longrightarrow> r j = Holding \<Longrightarrow> i = j"
  by (auto simp: pet_defs less_2_cases_iff)

text \<open>The thread that \<open>turn\<close> names can go on when it is in the entry section, the other one when it is not.\<close>
lemma pet_mine:
  assumes "pet_entry E" "pet_J s r" "i < 2" "turn s = i" "r i = Trying p"
  shows "(\<exists>s'. E i s p = Passed s') \<or>
       (\<exists>s' p'. E i s p = Spin s' p' \<and> pet_rank s' (r(i := Trying p')) < pet_rank s r)"
proof -
  have o: "pc_rank True x \<le> pc_rank False x + 1" for x by (cases "(False, x)" rule: pc_rank.cases) auto
  show ?thesis using assms o [of "r 0"] o [of "r 1"] unfolding less_2_cases_iff pet_entry_def
    by (elim disjE; cases p; auto simp: pet_ops pet_rank_def lnot_def)
qed
lemma pet_other:
  assumes "pet_entry E" "pet_J s r" "i < 2" "turn s \<noteq> i" "r i = Trying p" "r (lnot i) = Idle"
  shows "(\<exists>s'. E i s p = Passed s') \<or>
       (\<exists>s' p'. E i s p = Spin s' p' \<and> pet_rank s' (r(i := Trying p')) < pet_rank s r)"
  using assms unfolding less_2_cases_iff pet_entry_def
    by (elim disjE; cases p; auto simp: pet_defs pet_ops pet_rank_def lnot_def split: if_splits)
lemma pet_progress:
  assumes "pet_entry E" "pet_J s r" "j < 2" "r j = Trying q" "\<forall>k<2. r k \<noteq> Holding"
  shows "\<exists>i p. i < 2 \<and> r i = Trying p \<and> ((\<exists>s'. E i s p = Passed s') \<or>
       (\<exists>s' p'. E i s p = Spin s' p' \<and> pet_rank s' (r(i := Trying p')) < pet_rank s r))"
proof -
  have t: "turn s < 2" using assms(2) by (auto simp: pet_J_def)
  show ?thesis
  proof (cases "r (turn s)")
    case (Trying p)
    with pet_mine [OF assms(1,2) t refl] t show ?thesis by blast
  next
    case Holding
    with assms(5) t show ?thesis by blast
  next
    case Idle
    then have "j \<noteq> turn s" "lnot j = turn s"
      using assms(3,4) t by (auto simp: lnot_def less_2_cases_iff)
    with pet_other [OF assms(1-3) _ assms(4)] Idle assms(3,4) show ?thesis by metis
  qed
qed
interpretation Peterson_h: live_protocol 2 "Peterson_wait sched" Peterson_post Set_flag pet_J pet_rank
  for sched
proof -
  have E: "pet_entry (Peterson_wait sched)" by (auto simp: pet_entry_def)
  show "live_protocol 2 (Peterson_wait sched) Peterson_post Set_flag pet_J pet_rank"
    by unfold_locales
      (use pet_start pet_spin [OF E] pet_pass [OF E] pet_alive [OF E] pet_left pet_excl pet_progress [OF E]
        in \<open>auto simp: Peterson_post_def\<close>)
qed

interpretation Peterson_bank: live_protocol 2 "Peterson_prologue" Peterson_epilogue Set_flag pet_J pet_rank
proof -
  have E: "pet_entry (Peterson_prologue)" by (auto simp: pet_entry_def)
  show "live_protocol 2 (Peterson_prologue) Peterson_epilogue Set_flag pet_J pet_rank"
    by unfold_locales
      (use pet_start pet_spin [OF E] pet_pass [OF E] pet_alive [OF E] pet_left pet_excl pet_progress [OF E]
        in \<open>auto simp: Peterson_epilogue_def\<close>)
qed

section \<open>Bounded waiting\<close>

text \<open>A thread stands in the busy wait.\<close>
definition waiting :: "pet_pc role \<Rightarrow> bool" where
  "waiting r \<longleftrightarrow> asked r \<and> r \<noteq> Holding"

text \<open>How often \<open>j\<close> enters along a schedule before \<open>i\<close> does.\<close>
fun overtakes ::
  "((pet, 'd) world, (pet_pc, 'l) phase) tstep \<Rightarrow> nat \<Rightarrow> nat \<Rightarrow> nat list \<Rightarrow>
   (pet, 'd) world \<times> (nat \<Rightarrow> (pet_pc, 'l) phase) \<Rightarrow> nat" where
  "overtakes ts i j [] c = 0"
| "overtakes ts i j (k # ks) c =
     (case sched_step 2 ts k c of
        None \<Rightarrow> 0
      | Some c' \<Rightarrow>
          if \<not> waiting (role_of (snd c' i)) then 0
          else (if role_of (snd c j) \<noteq> Holding \<and> role_of (snd c' j) = Holding then 1 else 0) +
               overtakes ts i j ks c')"

definition may_overtake :: "pet \<Rightarrow> nat \<Rightarrow> pet_pc role \<Rightarrow> nat" where
  "may_overtake s j r = (if waiting r \<and> turn s = j then 1 else 0)"

lemma waiting_Trying: "waiting (Trying p) \<longleftrightarrow> p \<noteq> Set_flag \<and> p \<noteq> Set_turn"
  by (simp add: waiting_def asked_Trying)

lemma waiting_ends [simp]: "\<not> waiting Idle" "\<not> waiting Holding"
  by (simp_all add: waiting_def role_ends)

text \<open>The busy wait of \<open>i\<close> changes neither \<open>turn\<close> nor the flags.\<close>
lemma pet_wait_still:
  assumes "pet_entry E" "E i s p = Spin s' p'" "p \<noteq> Set_flag" "p \<noteq> Set_turn"
  shows "turn s' = turn s"
  using assms unfolding pet_entry_def by (elim disjE; cases p) (auto simp: pet_ops split: if_splits)

text \<open>While \<open>i\<close> waits, \<open>j\<close> gives way when it asks again, and passes only on its turn.\<close>
lemma pet_give_way:
  assumes "pet_entry E" "E j s p = Spin s' p'" "i < 2" "j < 2" "i \<noteq> j"
  shows "may_overtake s' j (Trying p') \<le> may_overtake s j (Trying p)"
  using assms unfolding pet_entry_def less_2_cases_iff
  by (elim disjE; cases p)
    (auto simp: pet_ops may_overtake_def waiting_Trying lnot_def split: if_splits)

lemma pet_turn_pass:
  assumes "pet_entry E" "pet_J s r" "r i = x" "waiting x" "r j = Trying p" "E j s p = Passed s'"
    "i < 2" "j < 2" "i \<noteq> j"
  shows "may_overtake s j (Trying p) = 1"
  using assms asked_raised [of x] unfolding pet_entry_def less_2_cases_iff
  by (elim disjE; cases p)
    (auto simp: pet_ops pet_defs may_overtake_def waiting_def split: if_splits)

lemma overtake_step:
  assumes E: "pet_entry E" and J: "pet_J (lockst w) (roles ls)"
    and ij: "i < 2" "j < 2" "i \<noteq> j" and wi: "waiting (role_of (ls i))"
    and st: "locked_step E Peterson_post Set_flag outs ins k w (ls k) = Some (w', ph')" and k: "k < 2"
    and wi': "waiting (role_of ((ls(k := ph')) i))"
  shows "(if role_of (ls j) \<noteq> Holding \<and> role_of ((ls(k := ph')) j) = Holding then 1 else 0) +
      may_overtake (lockst w') j (role_of ((ls(k := ph')) j)) \<le> may_overtake (lockst w) j (role_of (ls j))"
proof -
  have "k = i \<or> k = j" using ij k by auto
  then show ?thesis
  proof
    assume ki: "k = i"
    from st show ?thesis
    proof (cases rule: locked_step_cases)
      case (spin p l s p')
      then have "p \<noteq> Set_flag" "p \<noteq> Set_turn" using wi ki by (auto simp: waiting_Trying)
      from pet_wait_still [OF E spin(3) this] show ?thesis
        using spin ki ij by (simp add: may_overtake_def)
    qed (use wi wi' ki pet_alive [OF E] in \<open>auto\<close>)
  next
    assume kj: "k = j"
    from st show ?thesis
    proof (cases rule: locked_step_cases)
      case (spin p l s p')
      from pet_give_way [OF E _ ij, of "lockst w" p s p'] show ?thesis
        using spin kj by simp
    next
      case (passed p l s)
      from pet_turn_pass [OF E J _ wi _ _ ij, of p s] show ?thesis
        using passed kj by (simp add: may_overtake_def)
    qed (use kj pet_alive [OF E] in \<open>auto simp: may_overtake_def waiting_Trying\<close>)
  qed
qed

lemma overtakes_bound:
  assumes "pet_J (lockst w) (roles ls)" "waiting (role_of (ls i))"
    and ij: "i < 2" "j < 2" "i \<noteq> j"
  shows "overtakes (locked_step (Peterson_wait sched) Peterson_post Set_flag outs ins) i j ks (w, ls) \<le>
     may_overtake (lockst w) j (role_of (ls j))"
  using assms(1,2)
proof (induction ks arbitrary: w ls)
  case (Cons k ks)
  let ?ts = "locked_step (Peterson_wait sched) Peterson_post Set_flag outs ins"
  have E: "pet_entry (Peterson_wait sched)" by (auto simp: pet_entry_def)
  show ?case
  proof (cases "sched_step 2 ?ts k (w, ls)")
    case None
    then show ?thesis by simp
  next
    case (Some c')
    then obtain w' ph' where st: "k < 2" "?ts k w (ls k) = Some (w', ph')" and c': "c' = (w', ls(k := ph'))"
      by (auto simp: sched_step_Some)
    show ?thesis
    proof (cases "waiting (role_of ((ls(k := ph')) i))")
      case False
      then show ?thesis using Some c' by (simp del: fun_upd_apply)
    next
      case True
      from Cons.IH [OF Peterson_h.J_step [OF Cons.prems(1) st] True]
        overtake_step [OF E Cons.prems(1) ij Cons.prems(2) st(2,1) True]
      show ?thesis using Some c' True by (simp del: fun_upd_apply)
    qed
  qed
qed simp

text \<open>C10. Peterson's algorithm with the accesses in program order (\<open>Peterson.h\<close> and
  \<open>Peterson_sched.h\<close>): after \<open>Peterson_init\<close>, in no interleaving of two threads of any
  program are both between \<open>Peterson_wait\<close> and \<open>Peterson_post\<close>, and while a thread
  is in \<open>Peterson_wait\<close> some interleaving leads a thread into the critical section.\<close>
theorem Peterson_correct:
  assumes "turn s < 2"
    and "reach 2 (locked_step (Peterson_wait sched) Peterson_post Set_flag outs ins)
           (\<lparr>lockst = Peterson_init s, data = d, exited = None\<rparr>, \<lambda>i. Out (l i)) c"
  shows "\<not> (role_of (snd c 0) = Holding \<and> role_of (snd c 1) = Holding) \<and>
    (\<forall>j<2. \<forall>q. exited (fst c) = None \<and> role_of (snd c j) = Trying q \<longrightarrow>
      (\<exists>c' i. reach 2 (locked_step (Peterson_wait sched) Peterson_post Set_flag outs ins) c c' \<and>
         i < 2 \<and> role_of (snd c' i) = Holding))"
proof -
  have J: "pet_J (Peterson_init s) (\<lambda>_. Idle)"
    using assms(1) by (auto simp: pet_defs Peterson_init_def less_2_cases_iff)
  show ?thesis
    using Peterson_h.exclusion [OF J assms(2), of 0 1] Peterson_h.entry_possible [OF J assms(2)]
    by auto
qed

text \<open>C39. Bounded waiting: once a thread stands in the busy wait of \<open>Peterson_wait\<close>, the
  other thread enters at most once before it, along every schedule.\<close>
theorem Peterson_bounded_waiting:
  assumes "turn s < 2"
    and "reach 2 (locked_step (Peterson_wait sched) Peterson_post Set_flag outs ins)
           (\<lparr>lockst = Peterson_init s, data = d, exited = None\<rparr>, \<lambda>i. Out (l i)) c"
    and "waiting (role_of (snd c i))" "i < 2" "j < 2" "i \<noteq> j"
  shows "overtakes (locked_step (Peterson_wait sched) Peterson_post Set_flag outs ins) i j ks c \<le> 1"
proof -
  have J: "pet_J (Peterson_init s) (\<lambda>_. Idle)"
    using assms(1) by (auto simp: pet_defs Peterson_init_def less_2_cases_iff)
  have "overtakes (locked_step (Peterson_wait sched) Peterson_post Set_flag outs ins) i j ks
      (fst c, snd c) \<le> may_overtake (lockst (fst c)) j (role_of (snd c j))"
    by (rule overtakes_bound [OF Peterson_h.J_reach [OF J assms(2)] assms(3-)])
  also have "\<dots> \<le> 1" by (simp add: may_overtake_def)
  finally show ?thesis by simp
qed

text \<open>Two threads that only enter and leave, and the state they start in.\<close>
definition pet_idle :: "nat \<Rightarrow> unit \<Rightarrow> unit \<Rightarrow> (unit, unit) act option" where
  "pet_idle i d l = Some (Sync () ())"

definition pet_zero :: pet where
  "pet_zero = \<lparr>flag = \<lambda>_. False, turn = 0, waits_per_thread = \<lambda>_. 0\<rparr>"

theorem Peterson_correct_witness:
  "\<exists>c. reach 2 (locked_step (Peterson_wait False) Peterson_post Set_flag pet_idle pet_idle)
       (\<lparr>lockst = Peterson_init pet_zero, data = (), exited = None\<rparr>, \<lambda>_. Out ()) c \<and>
     role_of (snd c 0) = Holding \<and> role_of (snd c 1) = Trying (Test_turn False) \<and>
     \<not> (role_of (snd c 0) = Holding \<and> role_of (snd c 1) = Holding)"
proof -
  have "case run_sched 2 (locked_step (Peterson_wait False) Peterson_post Set_flag pet_idle pet_idle)
      [0, 1, 0, 1, 0, 1, 0, 0, 1] (\<lparr>lockst = Peterson_init pet_zero, data = (), exited = None\<rparr>, \<lambda>_. Out ())
    of None \<Rightarrow> False
     | Some c \<Rightarrow> role_of (snd c 0) = Holding \<and> role_of (snd c 1) = Trying (Test_turn False)"
    by code_simp
  from run_case [OF this] obtain c where
    c: "reach 2 (locked_step (Peterson_wait False) Peterson_post Set_flag pet_idle pet_idle)
       (\<lparr>lockst = Peterson_init pet_zero, data = (), exited = None\<rparr>, \<lambda>_. Out ()) c"
    and r: "role_of (snd c 0) = Holding \<and> role_of (snd c 1) = Trying (Test_turn False)"
    by blast
  have "turn pet_zero < 2" by (simp add: pet_zero_def)
  from Peterson_correct [OF this c] show ?thesis using c r by blast
qed

theorem Peterson_bounded_waiting_witness:
  "\<exists>c. reach 2 (locked_step (Peterson_wait True) Peterson_post Set_flag pet_idle pet_idle)
       (\<lparr>lockst = Peterson_init pet_zero, data = (), exited = None\<rparr>, \<lambda>_. Out ()) c \<and>
     role_of (snd c 0) = Trying (Test_flag False) \<and>
     overtakes (locked_step (Peterson_wait True) Peterson_post Set_flag pet_idle pet_idle) 0 1
       [1, 1, 1, 1, 1, 1] c \<le> 1"
proof -
  have "case run_sched 2 (locked_step (Peterson_wait True) Peterson_post Set_flag pet_idle pet_idle)
      [0, 1, 1, 1, 0, 0] (\<lparr>lockst = Peterson_init pet_zero, data = (), exited = None\<rparr>, \<lambda>_. Out ())
    of None \<Rightarrow> False | Some c \<Rightarrow> role_of (snd c 0) = Trying (Test_flag False)"
    by code_simp
  from run_case [OF this] obtain c where
    c: "reach 2 (locked_step (Peterson_wait True) Peterson_post Set_flag pet_idle pet_idle)
       (\<lparr>lockst = Peterson_init pet_zero, data = (), exited = None\<rparr>, \<lambda>_. Out ()) c"
    and r: "role_of (snd c 0) = Trying (Test_flag False)"
    by blast
  have "turn pet_zero < 2" "waiting (role_of (snd c 0))"
    using r by (simp_all add: pet_zero_def waiting_Trying)
  then have "overtakes (locked_step (Peterson_wait True) Peterson_post Set_flag pet_idle pet_idle) 0 1
       [1, 1, 1, 1, 1, 1] c \<le> 1"
    using Peterson_bounded_waiting [OF _ c, of 0 1 "[1, 1, 1, 1, 1, 1]"] by simp
  then show ?thesis using c r by blast
qed

end
