(* ===== verification/Peterson_TSO.thy ===== *)
theory Peterson_TSO
  imports Peterson
begin

text \<open>
  Peterson's algorithm on an x86 multiprocessor. A store goes to the processor's
  buffer, a load takes the newest buffered store of its own processor or memory,
  a buffered store reaches memory at any later time, in order. The \<open>xchg\<close>
  instruction of \<open>Peterson_xchg.h\<close> waits until the buffer is empty and writes
  memory directly. Threads 0 and 1 run the code, "threads" 2 and 3 are the memory
  system draining the two buffers.
\<close>

datatype store = Flag nat bool | Turn nat

record mem =
  mflag :: "nat \<Rightarrow> bool"
  mturn :: nat
  buf :: "nat \<Rightarrow> store list"

text \<open>The newest buffered value, if there is one.\<close>
fun buffered_flag :: "store list \<Rightarrow> nat \<Rightarrow> bool option" where
  "buffered_flag [] i = None"
| "buffered_flag (w # ws) i =
     (case buffered_flag ws i of
        Some b \<Rightarrow> Some b
      | None \<Rightarrow> (case w of Flag j b \<Rightarrow> if i = j then Some b else None | Turn t \<Rightarrow> None))"

fun buffered_turn :: "store list \<Rightarrow> nat option" where
  "buffered_turn [] = None"
| "buffered_turn (w # ws) =
     (case buffered_turn ws of
        Some t \<Rightarrow> Some t
      | None \<Rightarrow> (case w of Flag j b \<Rightarrow> None | Turn t \<Rightarrow> Some t))"

definition load_flag :: "nat \<Rightarrow> mem \<Rightarrow> nat \<Rightarrow> bool" where
  "load_flag cpu m i = (case buffered_flag (buf m cpu) i of Some b \<Rightarrow> b | None \<Rightarrow> mflag m i)"

definition load_turn :: "nat \<Rightarrow> mem \<Rightarrow> nat" where
  "load_turn cpu m = (case buffered_turn (buf m cpu) of Some t \<Rightarrow> t | None \<Rightarrow> mturn m)"

definition store_buf :: "nat \<Rightarrow> store \<Rightarrow> mem \<Rightarrow> mem" where
  "store_buf cpu w m = m\<lparr>buf := (buf m)(cpu := buf m cpu @ [w])\<rparr>"

fun commit :: "store \<Rightarrow> mem \<Rightarrow> mem" where
  "commit (Flag i b) m = m\<lparr>mflag := (mflag m)(i := b)\<rparr>"
| "commit (Turn t) m = m\<lparr>mturn := t\<rparr>"

text \<open>A store with a plain instruction, or with \<open>xchg\<close>.\<close>
definition emit :: "bool \<Rightarrow> nat \<Rightarrow> store \<Rightarrow> mem \<Rightarrow> mem option" where
  "emit xchg cpu w m =
     (if xchg then (if buf m cpu = [] then Some (commit w m) else None)
      else Some (store_buf cpu w m))"

text \<open>The thread: outside, before each access of the entry section, inside.\<close>
datatype tpc = T_out | T_turn | T_flag | T_test | T_cs

text \<open>One thread of a program that calls \<open>Peterson_wait\<close> and \<open>Peterson_post\<close> over and
  over; \<open>xchg\<close> selects \<open>Peterson_xchg.h\<close> (the two stores of the entry are
  \<open>xchg\<close> instructions, the store of the exit is plain) or \<open>Peterson.h\<close>.\<close>
definition tso_thread :: "bool \<Rightarrow> nat \<Rightarrow> mem \<Rightarrow> tpc \<Rightarrow> (mem \<times> tpc) option" where
  "tso_thread xchg self m pc =
     (case pc of
        T_out \<Rightarrow> map_option (\<lambda>m'. (m', T_turn)) (emit xchg self (Flag self True) m)
      | T_turn \<Rightarrow> map_option (\<lambda>m'. (m', T_flag)) (emit xchg self (Turn (lnot self)) m)
      | T_flag \<Rightarrow> Some (m, if load_flag self m (lnot self) then T_test else T_cs)
      | T_test \<Rightarrow> Some (m, if load_turn self m \<noteq> self then T_flag else T_cs)
      | T_cs \<Rightarrow> Some (store_buf self (Flag self False) m, T_out))"

definition drain :: "nat \<Rightarrow> mem \<Rightarrow> mem option" where
  "drain cpu m =
     (case buf m cpu of
        [] \<Rightarrow> None
      | w # ws \<Rightarrow> Some (commit w (m\<lparr>buf := (buf m)(cpu := ws)\<rparr>)))"

definition tso_step :: "bool \<Rightarrow> (mem, tpc) tstep" where
  "tso_step xchg k m pc =
     (if k < 2 then tso_thread xchg k m pc
      else map_option (\<lambda>m'. (m', pc)) (drain (k - 2) m))"

definition tso_start :: "mem \<times> (nat \<Rightarrow> tpc)" where
  "tso_start = (\<lparr>mflag = \<lambda>_. False, mturn = 0, buf = \<lambda>_. []\<rparr>, \<lambda>_. T_out)"

section \<open>The plain stores\<close>

text \<open>\<open>Peterson.h\<close> fails on a multiprocessor: with the stores still in the buffers both
  threads read the other's flag as false and both enter.\<close>
theorem Peterson_plain_fails:
  "\<exists>c. reach 4 (tso_step False) tso_start c \<and> snd c 0 = T_cs \<and> snd c 1 = T_cs"
proof -
  have "case run_sched 4 (tso_step False) [0, 0, 1, 1, 0, 1] tso_start of
      None \<Rightarrow> False | Some c \<Rightarrow> snd c 0 = T_cs \<and> snd c 1 = T_cs"
    by code_simp
  from run_case [OF this] show ?thesis .
qed

section \<open>The exchange\<close>

text \<open>Only the exit's store is ever buffered, and a thread past its first \<open>xchg\<close> has its flag
  in memory and an empty buffer.\<close>
definition tso_inv :: "mem \<times> (nat \<Rightarrow> tpc) \<Rightarrow> bool" where
  "tso_inv c \<longleftrightarrow> (let m = fst c; pc = snd c in
     (mturn m = 0 \<or> mturn m = 1) \<and>
     set (buf m 0) \<subseteq> {Flag 0 False} \<and> set (buf m 1) \<subseteq> {Flag 1 False} \<and>
     (pc 0 \<noteq> T_out \<longrightarrow> mflag m 0 \<and> buf m 0 = []) \<and>
     (pc 1 \<noteq> T_out \<longrightarrow> mflag m 1 \<and> buf m 1 = []) \<and>
     (pc 0 = T_cs \<and> pc 1 \<notin> {T_out, T_turn} \<longrightarrow> mturn m = 0) \<and>
     (pc 1 = T_cs \<and> pc 0 \<notin> {T_out, T_turn} \<longrightarrow> mturn m = 1))"

lemmas tso_defs = tso_inv_def tso_step_def tso_thread_def emit_def load_flag_def load_turn_def
  store_buf_def drain_def lnot_def

lemma tso_inv_step:
  assumes "tso_inv (m, pc)" "k < 4" "tso_step True k m (pc k) = Some (m', p')"
  shows "tso_inv (m', pc(k := p'))"
proof -
  have "k = 0 \<or> k = 1 \<or> k = 2 \<or> k = 3" using assms(2) by auto
  then show ?thesis
    by (elim disjE; cases "pc k"; insert assms(1,3))
      (auto simp: tso_defs split: if_splits list.splits)
qed

text \<open>C11. \<open>Peterson_xchg.h\<close> is correct on a multiprocessor: with the two stores of the entry
  as \<open>xchg\<close> and the store of the exit left plain ("simple assignment is sufficient"), the
  two threads are never in the critical section together.\<close>
theorem Peterson_xchg_excludes:
  assumes "reach 4 (tso_step True) tso_start c"
  shows "\<not> (snd c 0 = T_cs \<and> snd c 1 = T_cs)"
proof -
  have start: "tso_inv tso_start" by (simp add: tso_inv_def tso_start_def)
  have "tso_inv c"
    by (rule reach_invariant [where P = tso_inv, OF assms start]) (rule tso_inv_step)
  then show ?thesis by (auto simp: tso_inv_def Let_def)
qed

theorem Peterson_xchg_excludes_witness:
  "\<exists>c. reach 4 (tso_step True) tso_start c \<and> snd c 0 = T_cs \<and> snd c 1 = T_test \<and>
     \<not> (snd c 0 = T_cs \<and> snd c 1 = T_cs)"
proof -
  have "case run_sched 4 (tso_step True) [0, 0, 0, 0, 2, 0, 1, 0, 1, 1, 0, 0] tso_start of
      None \<Rightarrow> False | Some c \<Rightarrow> snd c 0 = T_cs \<and> snd c 1 = T_test"
    by code_simp
  from run_case [OF this] obtain c where
    c: "reach 4 (tso_step True) tso_start c" "snd c 0 = T_cs \<and> snd c 1 = T_test"
    by blast
  from Peterson_xchg_excludes [OF c(1)] show ?thesis using c by blast
qed

end
