(* ===== verification/Bank_Transactions.thy ===== *)
theory Bank_Transactions
  imports Peterson
begin

text \<open>
  \<open>bank_transactions.c\<close> and \<open>bank_transactions_Peterson.c\<close>: two threads move random
  amounts from the rich to the poor account until the first is empty, without control
  and between \<open>Peterson_prologue\<close> and \<open>Peterson_epilogue\<close>. Every access of a
  \<open>volatile\<close> account is a step of its own. The results of \<open>rand\<close> are any
  sequence \<open>rnd\<close>; balances are integers, and the invariant keeps them between 0 and
  \<open>AMOUNT\<close>, so an \<open>int\<close> that holds \<open>AMOUNT\<close> does not overflow.
  \<open>sync_start\<close>, which waits for the clock, is one step.
\<close>

record accounts =
  rich_guy :: int
  poor_guy :: int
  trans_per_thread :: "nat \<Rightarrow> nat"
  amount_per_thread :: "nat \<Rightarrow> int"
  draws :: nat

text \<open>Before each access of \<open>bank_transaction\<close>, with the values it holds.\<close>
datatype tpc =
    T_sync | T_draw | T_test int | T_clip int | T_debit int | T_debit2 int int | T_work int
  | T_credit int | T_credit2 int int | T_done int | T_done2 int | T_count int bool | T_end

text \<open>The exit status of a process that a division by zero has killed (128 + \<open>SIGFPE\<close>).\<close>
abbreviation SIGFPE_STATUS :: int where "SIGFPE_STATUS \<equiv> 136"

text \<open>The critical section: from the comparison with the rich account to \<open>done\<close>.
  \<open>sim_work\<close> divides by \<open>AMOUNT\<close>. \<open>Sync\<close> is its end.\<close>
definition transfer :: "int \<Rightarrow> accounts \<Rightarrow> tpc \<Rightarrow> (accounts, tpc) act option" where
  "transfer AMOUNT d pc =
     (case pc of
        T_test m \<Rightarrow> Some (Go d (if m > rich_guy d then T_clip m else T_debit m))
      | T_clip m \<Rightarrow> Some (Go d (T_debit (rich_guy d)))
      | T_debit m \<Rightarrow> Some (Go d (T_debit2 (rich_guy d - m) m))
      | T_debit2 r m \<Rightarrow> Some (Go (d\<lparr>rich_guy := r\<rparr>) (T_work m))
      | T_work m \<Rightarrow> if AMOUNT = 0 then Some (Quit d SIGFPE_STATUS) else Some (Go d (T_credit m))
      | T_credit m \<Rightarrow> Some (Go d (T_credit2 (poor_guy d + m) m))
      | T_credit2 p m \<Rightarrow> Some (Go (d\<lparr>poor_guy := p\<rparr>) (T_done m))
      | T_done m \<Rightarrow> if rich_guy d \<le> 0 then Some (Sync d (T_count m True)) else Some (Go d (T_done2 m))
      | T_done2 m \<Rightarrow> Some (Sync d (T_count m (poor_guy d \<ge> AMOUNT)))
      | _ \<Rightarrow> None)"

text \<open>\<open>1 + rand () % 10\<close>.\<close>
definition draw :: "(nat \<Rightarrow> nat) \<Rightarrow> accounts \<Rightarrow> int" where
  "draw rnd d = 1 + int (rnd (draws d) mod 10)"

definition peterson_outs :: "(nat \<Rightarrow> nat) \<Rightarrow> nat \<Rightarrow> accounts \<Rightarrow> tpc \<Rightarrow> (accounts, tpc) act option" where
  "peterson_outs rnd i d pc =
     (case pc of
        T_sync \<Rightarrow> Some (Go d T_draw)
      | T_draw \<Rightarrow> Some (Sync (d\<lparr>draws := draws d + 1\<rparr>) (T_test (draw rnd d)))
      | T_count m dn \<Rightarrow>
          Some (Go (d\<lparr>trans_per_thread := (trans_per_thread d)(i := trans_per_thread d i + 1)\<rparr>)
            (if dn then T_end else T_draw))
      | _ \<Rightarrow> None)"

definition peterson_ins :: "int \<Rightarrow> nat \<Rightarrow> accounts \<Rightarrow> tpc \<Rightarrow> (accounts, tpc) act option" where
  "peterson_ins AMOUNT i d pc = transfer AMOUNT d pc"

text \<open>The program without control: the same body, and the amounts are counted per thread.\<close>
definition unsync_outs :: "int \<Rightarrow> (nat \<Rightarrow> nat) \<Rightarrow> nat \<Rightarrow> accounts \<Rightarrow> tpc \<Rightarrow> (accounts, tpc) act option" where
  "unsync_outs AMOUNT rnd i d pc =
     (case pc of
        T_sync \<Rightarrow> Some (Go d T_draw)
      | T_draw \<Rightarrow> Some (Go (d\<lparr>draws := draws d + 1\<rparr>) (T_test (draw rnd d)))
      | T_count m dn \<Rightarrow>
          Some (Go (d\<lparr>trans_per_thread := (trans_per_thread d)(i := trans_per_thread d i + 1),
              amount_per_thread := (amount_per_thread d)(i := amount_per_thread d i + m)\<rparr>)
            (if dn then T_end else T_draw))
      | _ \<Rightarrow> (case transfer AMOUNT d pc of Some (Sync d' l) \<Rightarrow> Some (Go d' l) | r \<Rightarrow> r))"

definition accounts_start :: "int \<Rightarrow> accounts" where
  "accounts_start AMOUNT =
     \<lparr>rich_guy = AMOUNT, poor_guy = 0, trans_per_thread = \<lambda>_. 0, amount_per_thread = \<lambda>_. 0, draws = 0\<rparr>"


definition unsync_exit :: "int \<Rightarrow> accounts \<Rightarrow> int" where
  "unsync_exit AMOUNT d =
     (if 0 \<noteq> rich_guy d \<or> AMOUNT \<noteq> poor_guy d \<or>
         AMOUNT \<noteq> amount_per_thread d 0 + amount_per_thread d 1 then EXIT_FAILURE else EXIT_SUCCESS)"

definition peterson_step ::
    "int \<Rightarrow> (nat \<Rightarrow> nat) \<Rightarrow> ((pet, accounts) world, (pet_pc, tpc) phase) tstep" where
  "peterson_step AMOUNT rnd =
     locked_step Peterson_prologue Peterson_epilogue Set_flag (peterson_outs rnd) (peterson_ins AMOUNT)"

text \<open>\<open>main\<close> clears the flags and \<open>turn\<close> before it creates the threads.\<close>
definition peterson_start :: "int \<Rightarrow> (pet, accounts) world \<times> (nat \<Rightarrow> (pet_pc, tpc) phase)" where
  "peterson_start AMOUNT =
     (\<lparr>lockst = \<lparr>flag = \<lambda>_. False, turn = 0, waits_per_thread = \<lambda>_. 0\<rparr>,
       data = accounts_start AMOUNT, exited = None\<rparr>, \<lambda>_. Out T_sync)"

definition unsync_step ::
    "int \<Rightarrow> (nat \<Rightarrow> nat) \<Rightarrow> ((unit, accounts) world, (unit, tpc) phase) tstep" where
  "unsync_step AMOUNT rnd =
     locked_step (\<lambda>i s p. Passed s) (\<lambda>i s. Passed s) () (unsync_outs AMOUNT rnd) (\<lambda>i d l. None)"

definition unsync_start :: "int \<Rightarrow> (unit, accounts) world \<times> (nat \<Rightarrow> (unit, tpc) phase)" where
  "unsync_start AMOUNT =
     (\<lparr>lockst = (), data = accounts_start AMOUNT, exited = None\<rparr>, \<lambda>_. Out T_sync)"

section \<open>The invariant\<close>

text \<open>Between 0 and \<open>AMOUNT\<close>, whichever sign it has.\<close>
definition within :: "int \<Rightarrow> int \<Rightarrow> bool" where
  "within A x \<longleftrightarrow> (0 \<le> x \<and> x \<le> A) \<or> (A \<le> x \<and> x \<le> 0)"

text \<open>An amount that may be taken, and what is known after it has been taken.\<close>
definition may_take :: "int \<Rightarrow> accounts \<Rightarrow> int \<Rightarrow> bool" where
  "may_take A d m \<longleftrightarrow> (if 0 < A then 0 \<le> m \<and> m \<le> rich_guy d else m = rich_guy d) \<and>
     (m = 0 \<longrightarrow> rich_guy d = 0)"

definition taken :: "int \<Rightarrow> accounts \<Rightarrow> int \<Rightarrow> bool" where
  "taken A d m \<longleftrightarrow> (A \<le> 0 \<or> m = 0 \<longrightarrow> rich_guy d = 0)"

text \<open>Money that has left one account and not reached the other.\<close>
fun flight :: "(unit, tpc) phase \<Rightarrow> int" where
  "flight (In (T_work m)) = m"
| "flight (In (T_credit m)) = m"
| "flight (In (T_credit2 p m)) = m"
| "flight _ = 0"

fun thread_ok :: "int \<Rightarrow> accounts \<Rightarrow> (unit, tpc) phase \<Rightarrow> bool" where
  "thread_ok A d (Out T_sync) = True"
| "thread_ok A d (Out T_draw) = True"
| "thread_ok A d (Out T_end) = (rich_guy d = 0)"
| "thread_ok A d (Out (T_count m dn)) = ((dn \<longrightarrow> rich_guy d = 0) \<and> (m = 0 \<longrightarrow> dn))"
| "thread_ok A d (Try u (T_test m)) = (1 \<le> m)"
| "thread_ok A d (In (T_test m)) = (1 \<le> m)"
| "thread_ok A d (In (T_clip m)) = (1 \<le> m \<and> rich_guy d < m)"
| "thread_ok A d (In (T_debit m)) = may_take A d m"
| "thread_ok A d (In (T_debit2 r m)) = (may_take A d m \<and> r = rich_guy d - m)"
| "thread_ok A d (In (T_work m)) = taken A d m"
| "thread_ok A d (In (T_credit m)) = taken A d m"
| "thread_ok A d (In (T_credit2 p m)) = (taken A d m \<and> p = poor_guy d + m)"
| "thread_ok A d (In (T_done m)) = taken A d m"
| "thread_ok A d (In (T_done2 m)) = (taken A d m \<and> 0 < rich_guy d)"
| "thread_ok A d (Leave (T_count m dn)) = ((dn \<longrightarrow> rich_guy d = 0) \<and> (m = 0 \<longrightarrow> dn))"
| "thread_ok A d _ = False"

definition transfer_Q :: "int \<Rightarrow> accounts \<Rightarrow> (nat \<Rightarrow> (unit, tpc) phase) \<Rightarrow> bool" where
  "transfer_Q A d c \<longleftrightarrow> within A (rich_guy d) \<and> within A (poor_guy d) \<and>
     rich_guy d + poor_guy d + flight (c 0) + flight (c 1) = A \<and>
     thread_ok A d (c 0) \<and> thread_ok A d (c 1)"

definition transfer_R :: "int \<Rightarrow> accounts \<Rightarrow> int \<Rightarrow> bool" where
  "transfer_R A d x \<longleftrightarrow> A = 0 \<and> x = SIGFPE_STATUS"

fun thread_mu :: "(unit, tpc) phase \<Rightarrow> nat" where
  "thread_mu (Out T_sync) = 30"
| "thread_mu (Out T_draw) = 29"
| "thread_mu (Try u (T_test m)) = 28"
| "thread_mu (In (T_test m)) = 27"
| "thread_mu (In (T_clip m)) = 26"
| "thread_mu (In (T_debit m)) = 25"
| "thread_mu (In (T_debit2 r m)) = 24"
| "thread_mu (In (T_work m)) = (if m = 0 then 10 else 40)"
| "thread_mu (In (T_credit m)) = (if m = 0 then 9 else 39)"
| "thread_mu (In (T_credit2 p m)) = (if m = 0 then 8 else 38)"
| "thread_mu (In (T_done m)) = (if m = 0 then 7 else 37)"
| "thread_mu (In (T_done2 m)) = (if m = 0 then 6 else 36)"
| "thread_mu (Leave (T_count m dn)) = (if m = 0 then 5 else 35)"
| "thread_mu (Out (T_count m dn)) = (if m = 0 then 4 else 34)"
| "thread_mu _ = 0"

definition transfer_mu :: "accounts \<Rightarrow> (nat \<Rightarrow> (unit, tpc) phase) \<Rightarrow> nat" where
  "transfer_mu d c = 20 * nat \<bar>rich_guy d\<bar> + thread_mu (c 0) + thread_mu (c 1)"

definition both_ended :: "accounts \<Rightarrow> (nat \<Rightarrow> (unit, tpc) phase) \<Rightarrow> bool" where
  "both_ended d c \<longleftrightarrow> c 0 = Out T_end \<and> c 1 = Out T_end"

text \<open>Another thread that is not inside notices a transfer only through an empty account.\<close>
lemma thread_ok_outside:
  assumes "thread_ok A d x" "role_of x \<noteq> Holding" "rich_guy d = 0 \<longrightarrow> rich_guy d' = 0"
  shows "thread_ok A d' x \<and> flight x = 0"
  using assms by (cases "(A, d, x)" rule: thread_ok.cases) auto

lemma thread_ok_cong:
  assumes "thread_ok A d x" "rich_guy d' = rich_guy d" "poor_guy d' = poor_guy d"
  shows "thread_ok A d' x"
  using assms by (cases "(A, d, x)" rule: thread_ok.cases) (auto simp: may_take_def taken_def)

text \<open>A step of the thread inside, the other one outside.\<close>
lemma transfer_Q_inside:
  assumes Q: "transfer_Q A d c" and i: "i < 2" and al: "alone 2 c i"
    and x: "thread_ok A d' x" "within A (rich_guy d')" "within A (poor_guy d')"
      "rich_guy d' + poor_guy d' + flight x = rich_guy d + poor_guy d + flight (c i)"
      "rich_guy d = 0 \<longrightarrow> rich_guy d' = 0"
  shows "transfer_Q A d' (c(i := x))"
proof -
  have o: "thread_ok A d' (c (1 - i)) \<and> flight (c (1 - i)) = 0"
    using Q i al x(5) by (intro thread_ok_outside [of A d]) (auto simp: transfer_Q_def alone_def less_2_cases_iff)
  from i have "i = 0 \<or> i = 1" by auto
  then show ?thesis using Q o x by (elim disjE) (auto simp: transfer_Q_def)
qed

text \<open>A step that moves no money.\<close>
lemma transfer_Q_outside:
  assumes "transfer_Q A d c" "i < 2" "thread_ok A d' x" "flight x = flight (c i)"
    "rich_guy d' = rich_guy d" "poor_guy d' = poor_guy d"
  shows "transfer_Q A d' (c(i := x))"
  using assms thread_ok_cong [of A d _ d'] unfolding less_2_cases_iff
  by (elim disjE) (auto simp: transfer_Q_def)

lemma transfer_Q_ok: "transfer_Q A d c \<Longrightarrow> i < 2 \<Longrightarrow> thread_ok A d (c i)"
  by (auto simp: transfer_Q_def less_2_cases_iff)

lemma transfer_Q_alone:
  assumes "transfer_Q A d c" "i < 2" "alone 2 c i"
  shows "rich_guy d + poor_guy d + flight (c i) = A" "within A (rich_guy d)" "within A (poor_guy d)"
proof -
  have "flight (c (1 - i)) = 0"
    using thread_ok_outside [of A d "c (1 - i)" d] assms transfer_Q_ok [of A d c "1 - i"]
    by (auto simp: alone_def less_2_cases_iff)
  then show "rich_guy d + poor_guy d + flight (c i) = A" "within A (rich_guy d)" "within A (poor_guy d)"
    using assms by (auto simp: transfer_Q_def less_2_cases_iff)
qed

lemmas transfer_defs = transfer_def within_def may_take_def taken_def

lemma transfer_go:
  assumes Q: "transfer_Q A d c" and i: "i < 2" and al: "alone 2 c i" and l: "c i = In l"
    and st: "transfer A d l = Some (Go d' l')"
  shows "transfer_Q A d' (c(i := In l'))"
  by (rule transfer_Q_inside [OF Q i al];
      insert st l transfer_Q_ok [OF Q i] transfer_Q_alone [OF Q i al]; cases l;
      auto simp: transfer_defs split: if_splits)

lemma transfer_sync:
  assumes Q: "transfer_Q A d c" and i: "i < 2" and al: "alone 2 c i" and l: "c i = In l"
    and st: "transfer A d l = Some (Sync d' l')"
  shows "transfer_Q A d' (c(i := Leave l'))"
  by (rule transfer_Q_inside [OF Q i al];
      insert st l transfer_Q_ok [OF Q i] transfer_Q_alone [OF Q i al]; cases l;
      auto simp: transfer_defs split: if_splits)

section \<open>The program as a client of Peterson's algorithm\<close>

lemma mu_upd:
  assumes "i < 2" "20 * nat \<bar>rich_guy d'\<bar> + thread_mu x < 20 * nat \<bar>rich_guy d\<bar> + thread_mu (c i)"
  shows "transfer_mu d' (c(i := x)) < transfer_mu d c"
  using assms by (auto simp: transfer_mu_def less_2_cases_iff)

lemma transfer_mu_go:
  assumes "thread_ok A d (In l)" "transfer A d l = Some (Go d' l')"
  shows "20 * nat \<bar>rich_guy d'\<bar> + thread_mu (In l') < 20 * nat \<bar>rich_guy d\<bar> + thread_mu (In l)"
  using assms by (cases l) (auto simp: transfer_defs split: if_splits)

lemma transfer_mu_sync:
  assumes "thread_ok A d (In l)" "transfer A d l = Some (Sync d' l')"
  shows "20 * nat \<bar>rich_guy d'\<bar> + thread_mu (Leave l') < 20 * nat \<bar>rich_guy d\<bar> + thread_mu (In l)"
  using assms by (cases l) (auto simp: transfer_def split: if_splits)

lemma transfer_total: "thread_ok A d (In l) \<Longrightarrow> transfer A d l \<noteq> None"
  by (cases l) (auto simp: transfer_def)

lemma draw_pos: "1 \<le> draw rnd d"
  by (simp add: draw_def)

interpretation transfers: live_client 2 "peterson_outs rnd" "peterson_ins A" "transfer_Q A" "transfer_R A"
    transfer_mu both_ended for A rnd
proof unfold_locales
  fix d c l d' l' x and i :: nat
  assume Q: "transfer_Q A d c"
  show "\<not> both_ended d c \<Longrightarrow> \<forall>i<2. \<exists>l. c i = Out l \<Longrightarrow>
      \<exists>i l. i < 2 \<and> c i = Out l \<and> peterson_outs rnd i d l \<noteq> None"
  proof -
    assume ne: "\<not> both_ended d c" and out: "\<forall>i<2. \<exists>l. c i = Out l"
    obtain l0 l1 where l: "c 0 = Out l0" "c 1 = Out l1"
      using out by (meson one_less_numeral_iff semiring_norm(76) zero_less_numeral)
    obtain k l where k: "k < 2" "c k = Out l" "l \<noteq> T_end"
    proof (cases "l0 = T_end")
      case True
      then show ?thesis using ne l that [of 1 l1] by (auto simp: both_ended_def)
    next
      case False
      then show ?thesis using l that [of 0 l0] by auto
    qed
    then have "peterson_outs rnd k d l \<noteq> None"
      using transfer_Q_ok [OF Q k(1)] by (cases l) (auto simp: peterson_outs_def)
    then show ?thesis using k by blast
  qed
  assume i: "i < 2"
  note ok = transfer_Q_ok [OF Q i]
  { assume l: "c i = Out l" and st: "peterson_outs rnd i d l = Some (Go d' l')"
    show "transfer_Q A d' (c(i := Out l'))"
      by (rule transfer_Q_outside [OF Q i]; insert ok l st; cases l; auto simp: peterson_outs_def)
    show "transfer_mu d' (c(i := Out l')) < transfer_mu d c"
      by (rule mu_upd [OF i]; insert ok l st; cases l; auto simp: peterson_outs_def) }
  { assume l: "c i = Out l" and st: "peterson_outs rnd i d l = Some (Sync d' l')"
    show "transfer_Q A d' (c(i := Try () l'))"
      by (rule transfer_Q_outside [OF Q i]; insert ok l st; cases l; auto simp: peterson_outs_def draw_pos)
    show "transfer_mu d' (c(i := Try () l')) < transfer_mu d c"
      by (rule mu_upd [OF i]; insert ok l st; cases l; auto simp: peterson_outs_def) }
  { assume "c i = Out l" "peterson_outs rnd i d l = Some (Quit d' x)"
    then show "transfer_R A d' x" by (cases l) (auto simp: peterson_outs_def) }
  { assume l: "c i = Try () l"
    show "transfer_Q A d (c(i := In l))"
      by (rule transfer_Q_outside [OF Q i]; insert ok l; cases l; auto)
    show "transfer_mu d (c(i := In l)) < transfer_mu d c"
      by (rule mu_upd [OF i]; insert ok l; cases l; auto) }
  { assume l: "c i = In l"
    show "peterson_ins A i d l \<noteq> None"
      using transfer_total ok l by (simp add: peterson_ins_def)
    show "peterson_ins A i d l = Some (Go d' l') \<Longrightarrow> transfer_mu d' (c(i := In l')) < transfer_mu d c"
      using mu_upd [OF i, of d' "In l'"] transfer_mu_go ok l by (simp add: peterson_ins_def)
    show "peterson_ins A i d l = Some (Sync d' l') \<Longrightarrow> transfer_mu d' (c(i := Leave l')) < transfer_mu d c"
      using mu_upd [OF i, of d' "Leave l'"] transfer_mu_sync ok l by (simp add: peterson_ins_def)
    assume al: "alone 2 c i"
    show "peterson_ins A i d l = Some (Go d' l') \<Longrightarrow> transfer_Q A d' (c(i := In l'))"
      using transfer_go [OF Q i al l] by (simp add: peterson_ins_def)
    show "peterson_ins A i d l = Some (Sync d' l') \<Longrightarrow> transfer_Q A d' (c(i := Leave l'))"
      using transfer_sync [OF Q i al l] by (simp add: peterson_ins_def)
    show "peterson_ins A i d l = Some (Quit d' x) \<Longrightarrow> transfer_R A d' x"
      by (cases l) (auto simp: peterson_ins_def transfer_def transfer_R_def split: if_splits) }
  { assume l: "c i = Leave l"
    show "transfer_Q A d (c(i := Out l))"
      by (rule transfer_Q_outside [OF Q i]; insert ok l; cases l; auto)
    show "transfer_mu d (c(i := Out l)) < transfer_mu d c"
      by (rule mu_upd [OF i]; insert ok l; cases l; auto) }
qed

interpretation peterson_bank: live_program 2 Peterson_prologue Peterson_epilogue Set_flag pet_J pet_rank
    "peterson_outs rnd" "peterson_ins A" "transfer_Q A" "transfer_R A" transfer_mu both_ended for A rnd
  by unfold_locales

lemma peterson_bank_start: "peterson_bank.inv A (peterson_start A)"
  unfolding peterson_start_def
  by (rule peterson_bank.inv_start)
    (auto simp: pet_defs transfer_Q_def within_def accounts_start_def)
section \<open>Properties\<close>

lemma peterson_bank_running:
  assumes "reach 2 (peterson_step A rnd) (peterson_start A) c" "exited (fst c) = None"
  shows "transfer_Q A (data (fst c)) (phases (snd c))"
  using peterson_bank.running [OF assms(1) [unfolded peterson_step_def] peterson_bank_start assms(2)] .

text \<open>The transfers end: for \<open>AMOUNT\<close> other than 0, from every reachable state an
  interleaving leads to the state in which both threads have returned with everything moved.\<close>
theorem peterson_bank_can_finish:
  assumes "reach 2 (peterson_step A rnd) (peterson_start A) c" "A \<noteq> 0"
  shows "\<exists>c'. reach 2 (peterson_step A rnd) c c' \<and> snd c' 0 = Out T_end \<and> snd c' 1 = Out T_end \<and>
    rich_guy (data (fst c')) = 0 \<and> poor_guy (data (fst c')) = A"
proof -
  obtain c' where c': "reach 2 (peterson_step A rnd) c c'"
    "exited (fst c') \<noteq> None \<or> both_ended (data (fst c')) (phases (snd c'))"
    using peterson_bank.can_be_over [OF assms(1) [unfolded peterson_step_def] peterson_bank_start]
    unfolding peterson_step_def by metis
  note r = reach_trans [OF c'(1) assms(1)]
  have ex: "exited (fst c') = None"
    using peterson_bank.result [OF r [unfolded peterson_step_def] peterson_bank_start] assms(2)
    by (cases "exited (fst c')") (auto simp: transfer_R_def)
  have end': "snd c' 0 = Out T_end" "snd c' 1 = Out T_end"
    using c'(2) ex by (auto simp: both_ended_def erase_simps)
  then have "rich_guy (data (fst c')) = 0 \<and> poor_guy (data (fst c')) = A"
    using peterson_bank_running [OF r ex] by (simp add: transfer_Q_def)
  then show ?thesis using c'(1) end' by blast
qed



theorem peterson_bank_can_finish_witness:
  "\<exists>c'. reach 2 (peterson_step (-5) (\<lambda>k. 7)) (peterson_start (-5)) c' \<and>
     rich_guy (data (fst c')) = 0 \<and> poor_guy (data (fst c')) = -5"
  using peterson_bank_can_finish [OF reach_init, of "-5" "\<lambda>k. 7"] by auto

text \<open>Without control (\<open>bank_transactions.c\<close>) money appears: both threads take the same
  coin, the poor account ends with 2 of 1, and \<open>main\<close> reports it.\<close>
theorem unsync_bank_race:
  "\<exists>c. reach 2 (unsync_step 1 (\<lambda>_. 0)) (unsync_start 1) c \<and>
     snd c 0 = Out T_end \<and> snd c 1 = Out T_end \<and>
     rich_guy (data (fst c)) = 0 \<and> poor_guy (data (fst c)) = 2 \<and>
     unsync_exit 1 (data (fst c)) = EXIT_FAILURE"
proof -
  have "case run_sched 2 (unsync_step 1 (\<lambda>_. 0))
      [0, 0, 0, 0, 1, 1, 1, 1, 0, 0, 0, 0, 0, 0, 1, 1, 1, 1, 1, 1] (unsync_start 1) of
    None \<Rightarrow> False
  | Some c \<Rightarrow> snd c 0 = Out T_end \<and> snd c 1 = Out T_end \<and>
     rich_guy (data (fst c)) = 0 \<and> poor_guy (data (fst c)) = 2 \<and>
     unsync_exit 1 (data (fst c)) = EXIT_FAILURE"
    by code_simp
  from run_case [OF this] show ?thesis .
qed

text \<open>\<open>AMOUNT\<close> 0 (given as argument, or an argument that is no number): the first
  transaction divides by zero in \<open>sim_work\<close>, in both programs.\<close>
theorem amount_zero_traps:
  "(\<exists>c. reach 2 (peterson_step 0 (\<lambda>_. 0)) (peterson_start 0) c \<and> exited (fst c) = Some SIGFPE_STATUS) \<and>
   (\<exists>c. reach 2 (unsync_step 0 (\<lambda>_. 0)) (unsync_start 0) c \<and> exited (fst c) = Some SIGFPE_STATUS)"
proof -
  have p: "case run_sched 2 (peterson_step 0 (\<lambda>_. 0)) [0, 0, 0, 0, 0, 0, 0, 0, 0, 0] (peterson_start 0) of
      None \<Rightarrow> False | Some c \<Rightarrow> exited (fst c) = Some SIGFPE_STATUS"
    by code_simp
  have u: "case run_sched 2 (unsync_step 0 (\<lambda>_. 0)) [0, 0, 0, 0, 0, 0, 0] (unsync_start 0) of
      None \<Rightarrow> False | Some c \<Rightarrow> exited (fst c) = Some SIGFPE_STATUS"
    by code_simp
  from run_case [OF p] run_case [OF u] show ?thesis by blast
qed

end
