(* ===== verification/Ring_Buffer.thy ===== *)
theory Ring_Buffer
  imports Interleaving Libc
begin

text \<open>
  The shared ring buffers of \<open>05-synchronization/producer_consumer.c\<close>
  (\<open>storage\<close>, a capacity chosen by an option) and
  \<open>04-critical_section/bounded_buffer.c\<close> (\<open>buffer\<close>, \<open>BSIZE\<close> places). As
  sequential objects both interpret \<open>bounded_queue\<close>: they are first in, first out as
  long as nobody puts into a full or gets from an empty one. The programs, written to be
  repaired, do not wait; their threads are modelled statement by statement.
\<close>

section \<open>The interface of a bounded queue\<close>

datatype 'a qop = Put 'a | Get

fun run_ops :: "('q \<Rightarrow> 'a \<Rightarrow> 'q) \<Rightarrow> ('q \<Rightarrow> 'a \<times> 'q) \<Rightarrow> 'a qop list \<Rightarrow> 'q \<Rightarrow> 'a list \<times> 'q" where
  "run_ops put get [] q = ([], q)"
| "run_ops put get (Put x # ops) q = run_ops put get ops (put q x)"
| "run_ops put get (Get # ops) q =
     (let (x, q') = get q; (xs, q'') = run_ops put get ops q' in (x # xs, q''))"

fun puts :: "'a qop list \<Rightarrow> 'a list" where
  "puts [] = []"
| "puts (Put x # ops) = x # puts ops"
| "puts (Get # ops) = puts ops"

text \<open>No put at \<open>c\<close> items and no get at none, starting from \<open>n\<close> items.\<close>
fun timely :: "nat \<Rightarrow> nat \<Rightarrow> 'a qop list \<Rightarrow> bool" where
  "timely c n [] = True"
| "timely c n (Put x # ops) = (n < c \<and> timely c (n + 1) ops)"
| "timely c n (Get # ops) = (0 < n \<and> timely c (n - 1) ops)"

locale bounded_queue =
  fixes put :: "'q \<Rightarrow> 'a \<Rightarrow> 'q"
    and get :: "'q \<Rightarrow> 'a \<times> 'q"
    and inv :: "'q \<Rightarrow> bool"
    and items :: "'q \<Rightarrow> 'a list"
    and cap :: "'q \<Rightarrow> nat"
  assumes put_items: "inv q \<Longrightarrow> length (items q) < cap q \<Longrightarrow>
      inv (put q x) \<and> items (put q x) = items q @ [x] \<and> cap (put q x) = cap q"
    and get_items: "inv q \<Longrightarrow> items q \<noteq> [] \<Longrightarrow>
      inv (snd (get q)) \<and> fst (get q) = hd (items q) \<and> items (snd (get q)) = tl (items q) \<and>
      cap (snd (get q)) = cap q"
begin

lemma fifo:
  assumes "inv q" "timely (cap q) (length (items q)) ops" "run_ops put get ops q = (outs, q')"
  shows "outs @ items q' = items q @ puts ops \<and> inv q'"
  using assms
proof (induction ops arbitrary: q outs q' rule: puts.induct)
  case (2 x ops)
  from 2 show ?case using put_items [of q x] by auto
next
  case (3 ops)
  have ne: "items q \<noteq> []" using 3(3) by auto
  obtain x q1 where g: "get q = (x, q1)" by (cases "get q")
  obtain xs q2 where r: "run_ops put get ops q1 = (xs, q2)" by (cases "run_ops put get ops q1")
  have k: "inv q1" "x = hd (items q)" "items q1 = tl (items q)" "cap q1 = cap q"
    using get_items [OF 3(2) ne] g by auto
  have "timely (cap q1) (length (items q1)) ops" using 3(3) k by simp
  from 3(1) [OF k(1) this r] have "xs @ items q2 = items q1 @ puts ops \<and> inv q2" .
  then show ?case using 3(4) g r k ne by auto
qed simp

end

section \<open>The storage of producer_consumer.c\<close>

definition MAX_STORAGE_CAPACITY :: nat where "MAX_STORAGE_CAPACITY = 20"
definition MIN_STORAGE_CAPACITY :: nat where "MIN_STORAGE_CAPACITY = 1"
definition MAX_PRODUCERS :: nat where "MAX_PRODUCERS = 4"
definition MAX_CONSUMERS :: nat where "MAX_CONSUMERS = 50"
definition QUIT_ITEM :: char where "QUIT_ITEM = CHR ''-''"
definition EMPTY_SPACE_ITEM :: char where "EMPTY_SPACE_ITEM = CHR ''_''"

text \<open>\<open>shared_storage_t\<close>; \<open>st_count\<close> may become negative when the threads race.\<close>
record storage =
  st_buf :: string
  st_capacity :: nat
  st_in :: nat
  st_out :: nat
  st_count :: int

definition storage_start :: "nat \<Rightarrow> storage" where
  "storage_start c =
     \<lparr>st_buf = replicate MAX_STORAGE_CAPACITY EMPTY_SPACE_ITEM, st_capacity = c,
      st_in = 0, st_out = 0, st_count = 0\<rparr>"

text \<open>The three statements of a producer, and of a consumer.\<close>
definition storage_put :: "storage \<Rightarrow> char \<Rightarrow> storage" where
  "storage_put s item =
     (let s1 = s\<lparr>st_buf := (st_buf s)[st_in s := item]\<rparr>;
          s2 = s1\<lparr>st_in := (st_in s1 + 1) mod st_capacity s1\<rparr>
      in s2\<lparr>st_count := st_count s2 + 1\<rparr>)"

definition storage_get :: "storage \<Rightarrow> char \<times> storage" where
  "storage_get s =
     (let item = st_buf s ! st_out s;
          s1 = s\<lparr>st_out := (st_out s + 1) mod st_capacity s\<rparr>
      in (item, s1\<lparr>st_count := st_count s1 - 1\<rparr>))"

definition storage_inv :: "storage \<Rightarrow> bool" where
  "storage_inv s \<longleftrightarrow> 0 < st_capacity s \<and> st_capacity s \<le> length (st_buf s) \<and>
     st_out s < st_capacity s \<and> 0 \<le> st_count s \<and> nat (st_count s) \<le> st_capacity s \<and>
     st_in s = (st_out s + nat (st_count s)) mod st_capacity s"

definition storage_items :: "storage \<Rightarrow> string" where
  "storage_items s =
     map (\<lambda>i. st_buf s ! ((st_out s + i) mod st_capacity s)) [0..<nat (st_count s)]"

text \<open>Two places of a ring less than its size apart are different.\<close>
lemma ring_places:
  fixes a :: nat
  assumes "i < k" "k < c + i"
  shows "(a + i) mod c \<noteq> (a + k) mod c"
proof
  assume "(a + i) mod c = (a + k) mod c"
  then have "c dvd (a + k) - (a + i)"
    using assms(1) mod_eq_dvd_iff_nat [of "a + i" "a + k" c] by auto
  then have "c dvd k - i" by simp
  then show False using assms by (auto dest: dvd_imp_le)
qed

lemma ring_next: "((a + i) mod c + 1) mod c = (a + (i + 1)) mod (c::nat)"
  by (simp add: mod_Suc_eq)

lemma nat_Suc: "0 \<le> k \<Longrightarrow> nat (k + 1) = Suc (nat k)"
  by simp

lemma storage_put_items:
  assumes "storage_inv s" "length (storage_items s) < st_capacity s"
  shows "storage_inv (storage_put s x) \<and> storage_items (storage_put s x) = storage_items s @ [x] \<and>
    st_capacity (storage_put s x) = st_capacity s"
proof -
  let ?c = "st_capacity s" and ?n = "nat (st_count s)"
  have n: "?n < ?c" using assms(2) by (simp add: storage_items_def)
  have i: "st_in s < length (st_buf s)"
    using assms(1) by (auto simp: storage_inv_def intro: less_le_trans [OF mod_less_divisor])
  have "(st_buf s)[st_in s := x] ! ((st_out s + k) mod ?c) = st_buf s ! ((st_out s + k) mod ?c)"
    if "k < ?n" for k
    using ring_places [of k ?n ?c "st_out s"] that n assms(1) by (simp add: storage_inv_def)
  then show ?thesis
    using assms(1) n i
    by (auto simp: storage_items_def storage_put_def storage_inv_def nat_Suc mod_Suc_eq)
qed

lemma storage_get_items:
  assumes "storage_inv s" "storage_items s \<noteq> []"
  shows "storage_inv (snd (storage_get s)) \<and> fst (storage_get s) = hd (storage_items s) \<and>
    storage_items (snd (storage_get s)) = tl (storage_items s) \<and>
    st_capacity (snd (storage_get s)) = st_capacity s"
proof -
  have n: "0 < st_count s" using assms(2) by (auto simp: storage_items_def)
  obtain m where "m = nat (st_count s - 1)" by blast
  then have m: "nat (st_count s) = Suc m" "nat (st_count s - 1) = m" using n by simp_all
  have o: "st_out s < st_capacity s" using assms(1) by (simp add: storage_inv_def)
  have mp: "map f [0..<Suc m] = f 0 # map (\<lambda>i. f (Suc i)) [0..<m]" for f :: "nat \<Rightarrow> char"
    by (simp add: map_upt_Suc del: upt_Suc)
  show ?thesis
    using assms(1) n o m
    by (auto simp: storage_items_def storage_get_def storage_inv_def mp mod_Suc_eq mod_add_left_eq
        simp del: upt_Suc)
qed

interpretation storage_queue: bounded_queue storage_put storage_get storage_inv storage_items st_capacity
  by unfold_locales (use storage_put_items storage_get_items in blast)+

section \<open>The buffer of bounded_buffer.c\<close>

definition BSIZE :: nat where "BSIZE = 4"
definition NUMITEMS :: nat where "NUMITEMS = 30"

record buffer =
  bb_buf :: string
  occupied :: int
  nextin :: nat
  nextout :: nat

definition buffer_start :: buffer where
  "buffer_start = \<lparr>bb_buf = replicate BSIZE CHR ''_'', occupied = 0, nextin = 0, nextout = 0\<rparr>"

text \<open>One round of the producer and of the consumer; \<open>nextin++\<close> and \<open>nextin %= BSIZE\<close> are
  separate statements.\<close>
definition buffer_put :: "buffer \<Rightarrow> char \<Rightarrow> buffer" where
  "buffer_put b item =
     (let b1 = b\<lparr>bb_buf := (bb_buf b)[nextin b := item], nextin := nextin b + 1\<rparr>;
          b2 = b1\<lparr>nextin := nextin b1 mod BSIZE\<rparr>
      in b2\<lparr>occupied := occupied b2 + 1\<rparr>)"

definition buffer_get :: "buffer \<Rightarrow> char \<times> buffer" where
  "buffer_get b =
     (let item = bb_buf b ! nextout b;
          b1 = b\<lparr>nextout := nextout b + 1\<rparr>;
          b2 = b1\<lparr>nextout := nextout b1 mod BSIZE\<rparr>
      in (item, b2\<lparr>occupied := occupied b2 - 1\<rparr>))"

text \<open>The same object as a storage of capacity \<open>BSIZE\<close>.\<close>
definition as_storage :: "buffer \<Rightarrow> storage" where
  "as_storage b = \<lparr>st_buf = bb_buf b, st_capacity = BSIZE, st_in = nextin b, st_out = nextout b,
     st_count = occupied b\<rparr>"

lemma as_storage_put: "as_storage (buffer_put b x) = storage_put (as_storage b) x"
  by (simp add: as_storage_def buffer_put_def storage_put_def)

lemma as_storage_get:
  "fst (buffer_get b) = fst (storage_get (as_storage b))"
  "as_storage (snd (buffer_get b)) = snd (storage_get (as_storage b))"
  by (simp_all add: as_storage_def buffer_get_def storage_get_def Let_def)

lemma as_storage_capacity: "st_capacity (as_storage b) = BSIZE"
  by (simp add: as_storage_def)

interpretation buffer_queue: bounded_queue buffer_put buffer_get "\<lambda>b. storage_inv (as_storage b)"
    "\<lambda>b. storage_items (as_storage b)" "\<lambda>b. BSIZE"
  by unfold_locales
    (use storage_queue.put_items [of "as_storage _"] storage_queue.get_items [of "as_storage _"]
      in \<open>simp_all add: as_storage_put as_storage_get as_storage_capacity\<close>)

section \<open>Properties of the buffers\<close>

text \<open>C22. First in, first out: any sequence of puts and gets that never puts into a full and never
  gets from an empty storage delivers, from the initial storage of any capacity the options
  allow, exactly the items put, in order; the undelivered ones are still in the storage. The
  buffer of \<open>bounded_buffer.c\<close> does the same with its 4 places.\<close>
theorem ring_buffer_fifo:
  assumes "MIN_STORAGE_CAPACITY \<le> c" "c \<le> MAX_STORAGE_CAPACITY" "timely c 0 ops" "timely BSIZE 0 bops"
    and "run_ops storage_put storage_get ops (storage_start c) = (outs, s)"
    and "run_ops buffer_put buffer_get bops buffer_start = (bouts, b)"
  shows "outs @ storage_items s = puts ops \<and> bouts @ storage_items (as_storage b) = puts bops"
proof
  have "storage_inv (storage_start c)" "storage_items (storage_start c) = []"
    using assms(1,2) by (simp_all add: storage_inv_def storage_start_def storage_items_def
        MIN_STORAGE_CAPACITY_def MAX_STORAGE_CAPACITY_def)
  then show "outs @ storage_items s = puts ops"
    using storage_queue.fifo [of "storage_start c" ops outs s] assms(3,5)
    by (simp add: storage_start_def)
  have "storage_inv (as_storage buffer_start)" "storage_items (as_storage buffer_start) = []"
    by (simp_all add: storage_inv_def as_storage_def buffer_start_def storage_items_def BSIZE_def)
  then show "bouts @ storage_items (as_storage b) = puts bops"
    using buffer_queue.fifo [of buffer_start bops bouts b] assms(4,6) by simp
qed

theorem ring_buffer_fifo_witness:
  "fst (run_ops storage_put storage_get
      [Put CHR ''a'', Put CHR ''b'', Get, Put CHR ''c'', Get, Get] (storage_start 2)) = ''abc'' \<and>
   fst (run_ops buffer_put buffer_get [Put CHR ''x'', Get] buffer_start) = ''x''"
proof -
  let ?ops = "[Put CHR ''a'', Put CHR ''b'', Get, Put CHR ''c'', Get, Get]"
  let ?bops = "[Put CHR ''x'', Get]"
  obtain outs s where r: "run_ops storage_put storage_get ?ops (storage_start 2) = (outs, s)"
    by (cases "run_ops storage_put storage_get ?ops (storage_start 2)")
  obtain bouts b where rb: "run_ops buffer_put buffer_get ?bops buffer_start = (bouts, b)"
    by (cases "run_ops buffer_put buffer_get ?bops buffer_start")
  have l: "length outs = 3" "length bouts = 1"
    using r rb by (auto simp: Let_def split: prod.splits)
  have "outs @ storage_items s = puts ?ops \<and> bouts @ storage_items (as_storage b) = puts ?bops"
    by (rule ring_buffer_fifo [OF _ _ _ _ r rb])
      (simp_all add: MIN_STORAGE_CAPACITY_def MAX_STORAGE_CAPACITY_def BSIZE_def)
  then show ?thesis using r rb l by (auto simp: append_eq_Cons_conv)
qed


section \<open>The threads of bounded_buffer.c\<close>

definition small_world :: string where
  "small_world = ''IT'' @ [CHR 0x27] @ ''S A SMALL WORLD, AFTER ALL.''"

text \<open>The shared state: the buffer, what the threads print, and two ghosts: how many items have been
  stored, and whether the consumer has read a place too early or after it was stored over.\<close>
record bb_shared = buffer +
  consumed :: string
  warnings :: "string list"
  stored :: nat
  untimely :: bool

text \<open>Before each statement of the loops, with \<open>i\<close> and the value of \<open>occupied\<close> that has
  been read.\<close>
datatype bb_pc =
    P_loop nat | P_check nat | P_store nat | P_wrap nat | P_read nat | P_add nat int | P_end
  | C_loop nat | C_check nat | C_read nat | C_wrap nat | C_occ nat | C_sub nat int | C_end

definition bb_producer :: "bb_shared \<Rightarrow> bb_pc \<Rightarrow> (bb_shared \<times> bb_pc) option" where
  "bb_producer b pc =
     (case pc of
        P_loop i \<Rightarrow> Some (b, if i < NUMITEMS \<and> i < length small_world then P_check i else P_end)
      | P_check i \<Rightarrow>
          Some (if int BSIZE \<le> occupied b
                then b\<lparr>warnings := warnings b @ [''Producer should wait.'']\<rparr> else b, P_store i)
      | P_store i \<Rightarrow>
          Some (b\<lparr>bb_buf := (bb_buf b)[nextin b := small_world ! i], nextin := nextin b + 1,
                  stored := stored b + 1\<rparr>, P_wrap i)
      | P_wrap i \<Rightarrow> Some (b\<lparr>nextin := nextin b mod BSIZE\<rparr>, P_read i)
      | P_read i \<Rightarrow> Some (b, P_add i (occupied b))
      | P_add i v \<Rightarrow> Some (b\<lparr>occupied := v + 1\<rparr>, P_loop (i + 1))
      | _ \<Rightarrow> None)"

definition bb_consumer :: "bb_shared \<Rightarrow> bb_pc \<Rightarrow> (bb_shared \<times> bb_pc) option" where
  "bb_consumer b pc =
     (case pc of
        C_loop i \<Rightarrow> Some (b, if i < NUMITEMS then C_check i else C_end)
      | C_check i \<Rightarrow>
          Some (if occupied b \<le> 0
                then b\<lparr>warnings := warnings b @ [''Consumer should wait.'']\<rparr> else b, C_read i)
      | C_read i \<Rightarrow>
          Some (b\<lparr>consumed := consumed b @ [bb_buf b ! nextout b], nextout := nextout b + 1,
                  untimely := (untimely b \<or> stored b \<le> i \<or> i + BSIZE < stored b)\<rparr>, C_wrap i)
      | C_wrap i \<Rightarrow> Some (b\<lparr>nextout := nextout b mod BSIZE\<rparr>, C_occ i)
      | C_occ i \<Rightarrow> Some (b, C_sub i (occupied b))
      | C_sub i v \<Rightarrow> Some (b\<lparr>occupied := v - 1\<rparr>, C_loop (i + 1))
      | _ \<Rightarrow> None)"

text \<open>Thread 0 is the producer, thread 1 the consumer.\<close>
definition bb_step :: "(bb_shared, bb_pc) tstep" where
  "bb_step k b pc = (if k = 0 then bb_producer b pc else bb_consumer b pc)"

definition bb_start :: "bb_shared \<times> (nat \<Rightarrow> bb_pc)" where
  "bb_start =
     (\<lparr>bb_buf = replicate BSIZE CHR ''_'', occupied = 0, nextin = 0, nextout = 0,
       consumed = [], warnings = [], stored = 0, untimely = False\<rparr>,
      \<lambda>k. if k = 0 then P_loop 0 else C_loop 0)"

fun producer_at :: "bb_shared \<Rightarrow> bb_pc \<Rightarrow> bool" where
  "producer_at b (P_loop i) = (stored b = i \<and> nextin b = i mod BSIZE \<and> i \<le> length small_world)"
| "producer_at b (P_check i) = (stored b = i \<and> nextin b = i mod BSIZE \<and> i < length small_world)"
| "producer_at b (P_store i) = (stored b = i \<and> nextin b = i mod BSIZE \<and> i < length small_world)"
| "producer_at b (P_wrap i) = (stored b = i + 1 \<and> nextin b = i mod BSIZE + 1 \<and> i < length small_world)"
| "producer_at b (P_read i) = (stored b = i + 1 \<and> nextin b = (i + 1) mod BSIZE \<and> i < length small_world)"
| "producer_at b (P_add i v) = (stored b = i + 1 \<and> nextin b = (i + 1) mod BSIZE \<and> i < length small_world)"
| "producer_at b P_end = (stored b = length small_world)"
| "producer_at b _ = False"

fun consumer_at :: "bb_shared \<Rightarrow> bb_pc \<Rightarrow> bool" where
  "consumer_at b (C_loop i) = (length (consumed b) = i \<and> nextout b = i mod BSIZE \<and> i \<le> NUMITEMS)"
| "consumer_at b (C_check i) = (length (consumed b) = i \<and> nextout b = i mod BSIZE \<and> i < NUMITEMS)"
| "consumer_at b (C_read i) = (length (consumed b) = i \<and> nextout b = i mod BSIZE \<and> i < NUMITEMS)"
| "consumer_at b (C_wrap i) = (length (consumed b) = i + 1 \<and> nextout b = i mod BSIZE + 1 \<and> i < NUMITEMS)"
| "consumer_at b (C_occ i) = (length (consumed b) = i + 1 \<and> nextout b = (i + 1) mod BSIZE \<and> i < NUMITEMS)"
| "consumer_at b (C_sub i v) = (length (consumed b) = i + 1 \<and> nextout b = (i + 1) mod BSIZE \<and> i < NUMITEMS)"
| "consumer_at b C_end = (length (consumed b) = NUMITEMS)"
| "consumer_at b _ = False"

text \<open>The last \<open>BSIZE\<close> items stored are in the buffer.\<close>
definition bb_inv :: "bb_shared \<times> (nat \<Rightarrow> bb_pc) \<Rightarrow> bool" where
  "bb_inv c \<longleftrightarrow> (let b = fst c in
     producer_at b (snd c 0) \<and> consumer_at b (snd c 1) \<and> length (bb_buf b) = BSIZE \<and>
     (\<forall>k < stored b. stored b \<le> k + BSIZE \<longrightarrow> bb_buf b ! (k mod BSIZE) = small_world ! k) \<and>
     (\<not> untimely b \<longrightarrow> consumed b = take (length (consumed b)) small_world))"

lemma small_world_length: "length small_world = NUMITEMS"
  by (simp add: small_world_def NUMITEMS_def)

lemma producer_frame:
  "producer_at b pc \<Longrightarrow> stored b' = stored b \<Longrightarrow> nextin b' = nextin b \<Longrightarrow> producer_at b' pc"
  by (cases pc) auto

lemma consumer_frame:
  "consumer_at b pc \<Longrightarrow> consumed b' = consumed b \<Longrightarrow> nextout b' = nextout b \<Longrightarrow> consumer_at b' pc"
  by (cases pc) auto

lemma BSIZE_pos: "0 < BSIZE" by (simp add: BSIZE_def)

lemma bb_places:
  "k < w \<Longrightarrow> w < k + BSIZE \<Longrightarrow> k mod BSIZE \<noteq> w mod BSIZE"
  using ring_places [of k w BSIZE 0] by simp

text \<open>Storing item \<open>i\<close> and reading item \<open>i\<close>, as steps on the window of the buffer.\<close>
lemma window_store:
  assumes w: "\<forall>k < i. i \<le> k + BSIZE \<longrightarrow> buf ! (k mod BSIZE) = w ! k" "length buf = BSIZE"
  shows "\<forall>k < i + 1. i + 1 \<le> k + BSIZE \<longrightarrow> buf[i mod BSIZE := w ! i] ! (k mod BSIZE) = w ! k"
proof (intro allI impI)
  fix k assume k: "k < i + 1" "i + 1 \<le> k + BSIZE"
  have m: "i mod BSIZE < length buf" using w(2) BSIZE_pos by simp
  show "buf[i mod BSIZE := w ! i] ! (k mod BSIZE) = w ! k"
  proof (cases "k = i")
    case True
    then show ?thesis using m by simp
  next
    case False
    then have "k mod BSIZE \<noteq> i mod BSIZE" using k by (intro bb_places) auto
    then show ?thesis using w(1) k False by simp
  qed
qed

lemma window_read:
  assumes "\<forall>k < n. n \<le> k + BSIZE \<longrightarrow> buf ! (k mod BSIZE) = w ! k"
    and "out = take i w" "i < length w" "i < n" "n \<le> i + BSIZE"
  shows "out @ [buf ! (i mod BSIZE)] = take (i + 1) w"
  using assms by (simp add: take_Suc_conv_app_nth)

lemma place_next: "Suc (i mod BSIZE) mod BSIZE = Suc i mod BSIZE"
  by (simp add: mod_Suc_eq)

lemma bb_invD:
  assumes "bb_inv c"
  shows "producer_at (fst c) (snd c 0)" "consumer_at (fst c) (snd c 1)" "length (bb_buf (fst c)) = BSIZE"
    "\<forall>k < stored (fst c). stored (fst c) \<le> k + BSIZE \<longrightarrow>
       bb_buf (fst c) ! (k mod BSIZE) = small_world ! k"
    "\<not> untimely (fst c) \<longrightarrow> consumed (fst c) = take (length (consumed (fst c))) small_world"
  using assms unfolding bb_inv_def Let_def by blast+

lemma bb_invI:
  assumes "producer_at b (pc 0)" "consumer_at b (pc 1)" "length (bb_buf b) = BSIZE"
    "\<forall>k < stored b. stored b \<le> k + BSIZE \<longrightarrow> bb_buf b ! (k mod BSIZE) = small_world ! k"
    "\<not> untimely b \<longrightarrow> consumed b = take (length (consumed b)) small_world"
  shows "bb_inv (b, pc)"
  using assms unfolding bb_inv_def Let_def by simp

lemma producer_kept:
  assumes "producer_at b p" "bb_producer b p = Some (b', p')"
  shows "producer_at b' p'"
  using assms by (cases p) (auto simp: bb_producer_def small_world_length place_next split: if_splits)

lemma consumer_kept:
  assumes "consumer_at b p" "bb_consumer b p = Some (b', p')"
  shows "consumer_at b' p'"
  using assms by (cases p) (auto simp: bb_consumer_def place_next split: if_splits)

lemma producer_leaves:
  assumes "bb_producer b p = Some (b', p')"
  shows "consumed b' = consumed b \<and> nextout b' = nextout b \<and> untimely b' = untimely b \<and>
    length (bb_buf b') = length (bb_buf b) \<and>
    ((\<forall>i. p \<noteq> P_store i) \<longrightarrow> bb_buf b' = bb_buf b \<and> stored b' = stored b)"
  using assms by (cases p) (auto simp: bb_producer_def split: if_splits)

lemma consumer_leaves:
  assumes "bb_consumer b p = Some (b', p')"
  shows "bb_buf b' = bb_buf b \<and> stored b' = stored b \<and> nextin b' = nextin b \<and>
    ((\<forall>i. p \<noteq> C_read i) \<longrightarrow> consumed b' = consumed b \<and> untimely b' = untimely b)"
  using assms by (cases p) (auto simp: bb_consumer_def split: if_splits)

lemma bb_inv_producer:
  assumes I: "bb_inv (b, pc)" and st: "bb_producer b (pc 0) = Some (b', p')"
  shows "bb_inv (b', pc(0 := p'))"
proof (rule bb_invI)
  note D = bb_invD [OF I, simplified] and L = producer_leaves [OF st]
  show "producer_at b' ((pc(0 := p')) 0)" using producer_kept [OF D(1) st] by simp
  show "consumer_at b' ((pc(0 := p')) 1)" using consumer_frame [OF D(2)] L by simp
  show "length (bb_buf b') = BSIZE" using D(3) L by simp
  show "\<not> untimely b' \<longrightarrow> consumed b' = take (length (consumed b')) small_world" using D(5) L by simp
  show "\<forall>k < stored b'. stored b' \<le> k + BSIZE \<longrightarrow> bb_buf b' ! (k mod BSIZE) = small_world ! k"
  proof (cases "\<exists>i. pc 0 = P_store i")
    case True
    then have "stored b' = stored b + 1"
      "bb_buf b' = (bb_buf b)[stored b mod BSIZE := small_world ! stored b]"
      using st D(1) by (auto simp: bb_producer_def)
    then show ?thesis using window_store [OF D(4,3)] by simp
  next
    case False
    then show ?thesis using L D(4) by simp
  qed
qed

lemma bb_inv_consumer:
  assumes I: "bb_inv (b, pc)" and st: "bb_consumer b (pc 1) = Some (b', p')"
  shows "bb_inv (b', pc(1 := p'))"
proof (rule bb_invI)
  note D = bb_invD [OF I, simplified] and L = consumer_leaves [OF st]
  have D2: "consumer_at b (pc 1)" using bb_invD(2) [OF I] by simp
  show "producer_at b' ((pc(1 := p')) 0)" using producer_frame [OF D(1)] L by simp
  show "consumer_at b' ((pc(1 := p')) 1)" using consumer_kept [OF D2 st] by simp
  show "length (bb_buf b') = BSIZE" using D(3) L by simp
  show "\<forall>k < stored b'. stored b' \<le> k + BSIZE \<longrightarrow> bb_buf b' ! (k mod BSIZE) = small_world ! k"
    using D(4) L by simp
  show "\<not> untimely b' \<longrightarrow> consumed b' = take (length (consumed b')) small_world"
  proof (cases "\<exists>i. pc 1 = C_read i")
    case True
    then obtain i where i: "pc 1 = C_read i" by blast
    have c: "length (consumed b) = i" "nextout b = i mod BSIZE" "i < length small_world"
      using D2 i by (simp_all add: small_world_length)
    show ?thesis
    proof
      assume u: "\<not> untimely b'"
      then have t: "\<not> untimely b" "i < stored b" "stored b \<le> i + BSIZE"
        using st i by (auto simp: bb_consumer_def)
      have b': "consumed b' = consumed b @ [bb_buf b ! (i mod BSIZE)]"
        using st i c by (auto simp: bb_consumer_def)
      have "consumed b @ [bb_buf b ! (i mod BSIZE)] = take (i + 1) small_world"
        using window_read [OF D(4)] D(5) c t by simp
      then show "consumed b' = take (length (consumed b')) small_world" using b' c by simp
    qed
  next
    case False
    then show ?thesis using L D(5) by simp
  qed
qed

lemma bb_inv_reach:
  assumes "reach 2 bb_step bb_start c"
  shows "bb_inv c"
proof (rule reach_invariant [where P = bb_inv, OF assms])
  show "bb_inv bb_start" by (simp add: bb_inv_def bb_start_def Let_def)
next
  fix b pc k b' p'
  assume "bb_inv (b, pc)" "k < 2" "bb_step k b (pc k) = Some (b', p')"
  then show "bb_inv (b', pc(k := p'))"
    using bb_inv_producer [of b pc b' p'] bb_inv_consumer [of b pc b' p']
    by (auto simp: bb_step_def less_2_cases_iff split: if_splits)
qed

text \<open>The producer and consumer of \<open>bounded_buffer.c\<close>, statement by statement in every
  interleaving: the places they store to and read from are inside the buffer, and as long as no
  item was read before it was stored or after it was stored over, the consumer has printed a
  prefix of the text, although nobody waits and \<open>occupied\<close> is updated in a race.\<close>
theorem bounded_buffer_timely:
  assumes "reach 2 bb_step bb_start c"
  shows "length (bb_buf (fst c)) = BSIZE \<and>
    ((\<exists>i. snd c 0 = P_store i) \<longrightarrow> nextin (fst c) < BSIZE) \<and>
    ((\<exists>i. snd c 1 = C_read i) \<longrightarrow> nextout (fst c) < BSIZE) \<and>
    (\<not> untimely (fst c) \<longrightarrow> consumed (fst c) = take (length (consumed (fst c))) small_world)"
  using bb_invD [OF bb_inv_reach [OF assms]] BSIZE_pos by auto

theorem bounded_buffer_timely_witness:
  "\<exists>c. reach 2 bb_step bb_start c \<and> consumed (fst c) = ''I'' \<and> occupied (fst c) = 0"
proof -
  have "case run_sched 2 bb_step ([0, 0, 0, 0, 0, 0] @ [1, 1, 1, 1, 1, 1]) bb_start of
      None \<Rightarrow> False
    | Some c \<Rightarrow> length (consumed (fst c)) = 1 \<and> \<not> untimely (fst c) \<and> occupied (fst c) = 0"
    by code_simp
  from run_case [OF this] obtain c where
    c: "reach 2 bb_step bb_start c" "length (consumed (fst c)) = 1" "\<not> untimely (fst c)"
      "occupied (fst c) = 0" by blast
  have "consumed (fst c) = take 1 small_world" using bounded_buffer_timely [OF c(1)] c by simp
  then have "consumed (fst c) = ''I''" by (simp add: small_world_def)
  then show ?thesis using c by blast
qed

text \<open>Both races of \<open>bounded_buffer.c\<close> happen: the consumer can print a place that was never
  stored to, and after both threads have ended \<open>occupied\<close> can differ from 0 although as many
  items were stored as read.\<close>
theorem bounded_buffer_races:
  "(\<exists>c. reach 2 bb_step bb_start c \<and> consumed (fst c) = ''_'' \<and>
     warnings (fst c) = [''Consumer should wait.'']) \<and>
   (\<exists>c. reach 2 bb_step bb_start c \<and> snd c 0 = P_end \<and> snd c 1 = C_end \<and>
     stored (fst c) = length (consumed (fst c)) \<and> occupied (fst c) = 1)"
proof -
  have a: "case run_sched 2 bb_step [1, 1, 1] bb_start of None \<Rightarrow> False
    | Some c \<Rightarrow> consumed (fst c) = ''_'' \<and> warnings (fst c) = [''Consumer should wait.'']"
    by code_simp
  have b: "case run_sched 2 bb_step
      ([1, 1, 1, 1, 1, 0, 0, 0, 0, 0, 1, 0] @
       concat (replicate 29 [0, 0, 0, 0, 0, 0, 1, 1, 1, 1, 1, 1]) @ [0, 1]) bb_start of None \<Rightarrow> False
    | Some c \<Rightarrow> snd c 0 = P_end \<and> snd c 1 = C_end \<and>
        stored (fst c) = length (consumed (fst c)) \<and> occupied (fst c) = 1"
    by code_simp
  from run_case [OF a] run_case [OF b] show ?thesis by blast
qed

end
