(* ===== verification/Producer_Consumer.thy ===== *)
theory Producer_Consumer
  imports Ring_Buffer Threads
begin

text \<open>
  \<open>05-synchronization/producer_consumer.c\<close>: its options, \<open>main\<close> and the threads
  of \<open>producer\<close> and \<open>consumer\<close>, each access of the shared storage a step of its own.
  The program has no synchronization yet. What its threads guarantee without any: the indices
  stay inside the storage and only produced items, or empty places, are printed.

  Thread 0 is \<open>main\<close>, threads \<open>1 ..\<close> are the consumers, then come the producers
  and last the producer that \<open>main\<close> starts to terminate the consumers.
\<close>

section \<open>Options\<close>

text \<open>The option variables; the capacity is a field of \<open>storage\<close>.\<close>
record pcfg =
  total_producers :: cint
  total_consumers :: cint
  storage_capacity :: cint
  pverbose :: int
  parallel_start :: bool
  wait_factor_p :: cint
  wait_factor_c :: cint

definition pc_defaults :: pcfg where
  "pc_defaults =
     \<lparr>total_producers = 2, total_consumers = 1, storage_capacity = 5, pverbose = 0,
      parallel_start = False, wait_factor_p = 1, wait_factor_c = 1\<rparr>"

text \<open>\<open>v < lo || v > hi\<close> on \<open>int\<close>.\<close>
definition out_of_range :: "int \<Rightarrow> int \<Rightarrow> cint \<Rightarrow> bool" where
  "out_of_range lo hi v \<longleftrightarrow> sint v < lo \<or> sint v > hi"

definition pc_eval_opt :: "pcfg \<Rightarrow> opt_event \<Rightarrow> pcfg outcome" where
  "pc_eval_opt cfg e =
     (case e of
        Opt ch arg \<Rightarrow>
         (if ch = CHR ''c'' then
            (let cfg' = cfg\<lparr>total_consumers := atoi arg\<rparr> in
             if out_of_range 1 (int MAX_CONSUMERS) (total_consumers cfg') then Exits 2 cfg' else Returns cfg')
          else if ch = CHR ''p'' then
            (let cfg' = cfg\<lparr>total_producers := atoi arg\<rparr> in
             if out_of_range 1 (int MAX_PRODUCERS) (total_producers cfg') then Exits 2 cfg' else Returns cfg')
          else if ch = CHR ''s'' then
            (let cfg' = cfg\<lparr>storage_capacity := atoi arg\<rparr> in
             if out_of_range (int MIN_STORAGE_CAPACITY) (int MAX_STORAGE_CAPACITY) (storage_capacity cfg')
             then Exits 2 cfg' else Returns cfg')
          else if ch = CHR ''w'' then Returns (cfg\<lparr>parallel_start := True\<rparr>)
          else if ch = CHR ''v'' then
            Returns (if pverbose cfg < 100 then cfg\<lparr>pverbose := pverbose cfg + 1\<rparr> else cfg)
          else if ch = CHR ''q'' then
            Returns (if pverbose cfg > 0 then cfg\<lparr>pverbose := pverbose cfg - 1\<rparr> else cfg)
          else if ch = CHR ''C'' then
            (let cfg' = cfg\<lparr>wait_factor_c := atoi arg\<rparr> in
             if out_of_range 0 1000 (wait_factor_c cfg') then Exits 2 cfg' else Returns cfg')
          else if ch = CHR ''P'' then
            (let cfg' = cfg\<lparr>wait_factor_p := atoi arg\<rparr> in
             if out_of_range 0 1000 (wait_factor_p cfg') then Exits 2 cfg' else Returns cfg')
          else if ch = CHR ''h'' then Exits EXIT_SUCCESS cfg
          else Exits 2 cfg)
      | Bad c \<Rightarrow> Exits 2 cfg)"

definition pc_eval_params :: "string list \<Rightarrow> pcfg outcome" where
  "pc_eval_params args = opt_loop pc_eval_opt pc_defaults (getopt ''hqvc:p:s:wP:C:'' args)"

section \<open>The threads\<close>

definition toBeProducedData :: "string list" where
  "toBeProducedData =
     [''abcdefghijklmnopqrstuvwxyz'', ''ABCDEFGHIJKLMNOPQRSTUVWXYZ'', ''0123456789'',
      ''!@#$%^~&*()=+[]{};:,<.>/?'']"

text \<open>Which of the calls fail.\<close>
record penv =
  pbarrier_init_fails :: bool
  pbarrier_wait_fails :: "nat \<Rightarrow> bool"
  pcreate_fails :: "nat \<Rightarrow> bool"

record pshared =
  store :: storage
  printed :: string
  at_barrier :: nat
  launched :: "nat \<Rightarrow> bool"
  joinable :: "nat \<Rightarrow> bool"

datatype ppc =
    Begin | At_barrier
  | Pr_test nat | Pr_item nat | Pr_put nat nat | Pr_in nat | Pr_in2 nat nat | Pr_cnt nat | Pr_cnt2 nat int
  | Co_item | Co_get nat | Co_out char | Co_out2 char nat | Co_cnt char | Co_cnt2 char int
  | Co_quit char | Co_print char
  | Ended
  | Mn_barrier | Mn_consumers nat | Mn_producers nat | Mn_join_producers nat
  | Mn_terminator | Mn_join_terminator | Mn_join_consumers nat | Mn_return

abbreviation consumers_n :: "pcfg \<Rightarrow> nat" where "consumers_n cfg \<equiv> nat (sint (total_consumers cfg))"
abbreviation producers_n :: "pcfg \<Rightarrow> nat" where "producers_n cfg \<equiv> nat (sint (total_producers cfg))"

definition consumer_thread :: "nat \<Rightarrow> nat" where "consumer_thread i = 1 + i"
definition producer_thread :: "pcfg \<Rightarrow> nat \<Rightarrow> nat" where "producer_thread cfg i = 1 + consumers_n cfg + i"
definition terminator :: "pcfg \<Rightarrow> nat" where "terminator cfg = 1 + consumers_n cfg + producers_n cfg"

text \<open>\<open>*(int * ) arg\<close> of a producer thread.\<close>
definition producer_id :: "pcfg \<Rightarrow> nat \<Rightarrow> int" where
  "producer_id cfg k =
     (if k = terminator cfg then - sint (total_consumers cfg) else int k - 1 - int (consumers_n cfg))"

text \<open>The condition of the loop and the item of round \<open>i\<close>.\<close>
definition producing :: "int \<Rightarrow> nat \<Rightarrow> bool" where
  "producing pid i =
     (let consumers = (if pid < 0 then - pid else 0) in
      if consumers \<noteq> 0 then int i < consumers else i < length (toBeProducedData ! nat pid))"

definition produced :: "int \<Rightarrow> nat \<Rightarrow> char" where
  "produced pid i =
     (let consumers = (if pid < 0 then - pid else 0) in
      if consumers \<noteq> 0 then QUIT_ITEM else toBeProducedData ! nat pid ! i)"

text \<open>A thread runs once it has been created; the barrier comes first, the terminating producer
  does not wait at it.\<close>
definition begin_step :: "pcfg \<Rightarrow> penv \<Rightarrow> nat \<Rightarrow> bool \<Rightarrow> pshared \<Rightarrow> ppc \<Rightarrow> (pshared, ppc) act option" where
  "begin_step cfg env k waits d l =
     (if \<not> launched d k then None
      else if waits then
        (if pbarrier_wait_fails env k then Some (Quit d EXIT_FAILURE)
         else Some (Go (d\<lparr>at_barrier := at_barrier d + 1\<rparr>) At_barrier))
      else Some (Go d l))"

definition barrier_step :: "pcfg \<Rightarrow> pshared \<Rightarrow> ppc \<Rightarrow> (pshared, ppc) act option" where
  "barrier_step cfg d l =
     (if consumers_n cfg + producers_n cfg \<le> at_barrier d then Some (Go d l) else None)"

definition producer :: "pcfg \<Rightarrow> penv \<Rightarrow> nat \<Rightarrow> pshared \<Rightarrow> ppc \<Rightarrow> (pshared, ppc) act option" where
  "producer cfg env k d pc =
     (let pid = producer_id cfg k; s = store d in
      case pc of
        Begin \<Rightarrow> begin_step cfg env k (parallel_start cfg \<and> \<not> pid < 0) d (Pr_test 0)
      | At_barrier \<Rightarrow> barrier_step cfg d (Pr_test 0)
      | Pr_test i \<Rightarrow>
          if producing pid i then Some (Go d (Pr_item i))
          else Some (Go (d\<lparr>joinable := (joinable d)(k := True)\<rparr>) Ended)
      | Pr_item i \<Rightarrow> Some (Go d (Pr_put i (st_in s)))
      | Pr_put i p \<Rightarrow>
          Some (Go (d\<lparr>store := s\<lparr>st_buf := (st_buf s)[p := produced pid i]\<rparr>\<rparr>) (Pr_in i))
      | Pr_in i \<Rightarrow> Some (Go d (Pr_in2 i ((st_in s + 1) mod st_capacity s)))
      | Pr_in2 i v \<Rightarrow> Some (Go (d\<lparr>store := s\<lparr>st_in := v\<rparr>\<rparr>) (Pr_cnt i))
      | Pr_cnt i \<Rightarrow> Some (Go d (Pr_cnt2 i (st_count s + 1)))
      | Pr_cnt2 i v \<Rightarrow> Some (Go (d\<lparr>store := s\<lparr>st_count := v\<rparr>\<rparr>) (Pr_test (i + 1)))
      | _ \<Rightarrow> None)"

definition consumer :: "pcfg \<Rightarrow> penv \<Rightarrow> nat \<Rightarrow> pshared \<Rightarrow> ppc \<Rightarrow> (pshared, ppc) act option" where
  "consumer cfg env k d pc =
     (let s = store d in
      case pc of
        Begin \<Rightarrow> begin_step cfg env k (parallel_start cfg) d Co_item
      | At_barrier \<Rightarrow> barrier_step cfg d Co_item
      | Co_item \<Rightarrow> Some (Go d (Co_get (st_out s)))
      | Co_get p \<Rightarrow> Some (Go d (Co_out (st_buf s ! p)))
      | Co_out c \<Rightarrow> Some (Go d (Co_out2 c ((st_out s + 1) mod st_capacity s)))
      | Co_out2 c v \<Rightarrow> Some (Go (d\<lparr>store := s\<lparr>st_out := v\<rparr>\<rparr>) (Co_cnt c))
      | Co_cnt c \<Rightarrow> Some (Go d (Co_cnt2 c (st_count s - 1)))
      | Co_cnt2 c v \<Rightarrow> Some (Go (d\<lparr>store := s\<lparr>st_count := v\<rparr>\<rparr>) (Co_quit c))
      | Co_quit c \<Rightarrow>
          if c = QUIT_ITEM then Some (Go (d\<lparr>joinable := (joinable d)(k := True)\<rparr>) Ended)
          else Some (Go d (Co_print c))
      | Co_print c \<Rightarrow> Some (Go (d\<lparr>printed := printed d @ [c]\<rparr>) Co_item)
      | _ \<Rightarrow> None)"

text \<open>One \<open>pthread_create\<close> or \<open>pthread_join\<close> of \<open>main\<close>.\<close>
definition create_step :: "penv \<Rightarrow> nat \<Rightarrow> pshared \<Rightarrow> ppc \<Rightarrow> (pshared, ppc) act option" where
  "create_step env k d l =
     (if pcreate_fails env k then Some (Quit d EXIT_FAILURE)
      else Some (Go (d\<lparr>launched := (launched d)(k := True)\<rparr>) l))"

definition join_step :: "nat \<Rightarrow> pshared \<Rightarrow> ppc \<Rightarrow> (pshared, ppc) act option" where
  "join_step k d l = (if joinable d k then Some (Go d l) else None)"

definition pc_main :: "pcfg \<Rightarrow> penv \<Rightarrow> pshared \<Rightarrow> ppc \<Rightarrow> (pshared, ppc) act option" where
  "pc_main cfg env d pc =
     (case pc of
        Mn_barrier \<Rightarrow>
          if parallel_start cfg \<and> pbarrier_init_fails env then Some (Quit d EXIT_FAILURE)
          else Some (Go d (Mn_consumers 0))
      | Mn_consumers i \<Rightarrow>
          if i < consumers_n cfg then create_step env (consumer_thread i) d (Mn_consumers (i + 1))
          else Some (Go d (Mn_producers 0))
      | Mn_producers i \<Rightarrow>
          if i < producers_n cfg then create_step env (producer_thread cfg i) d (Mn_producers (i + 1))
          else Some (Go d (Mn_join_producers 0))
      | Mn_join_producers i \<Rightarrow>
          if i < producers_n cfg then join_step (producer_thread cfg i) d (Mn_join_producers (i + 1))
          else Some (Go d Mn_terminator)
      | Mn_terminator \<Rightarrow> create_step env (terminator cfg) d Mn_join_terminator
      | Mn_join_terminator \<Rightarrow> join_step (terminator cfg) d (Mn_join_consumers 0)
      | Mn_join_consumers i \<Rightarrow>
          if i < consumers_n cfg then join_step (consumer_thread i) d (Mn_join_consumers (i + 1))
          else Some (Go d Mn_return)
      | Mn_return \<Rightarrow> Some (Quit d EXIT_SUCCESS)
      | _ \<Rightarrow> None)"

definition pc_outs :: "pcfg \<Rightarrow> penv \<Rightarrow> nat \<Rightarrow> pshared \<Rightarrow> ppc \<Rightarrow> (pshared, ppc) act option" where
  "pc_outs cfg env k d pc =
     (if k = 0 then pc_main cfg env d pc
      else if k \<le> consumers_n cfg then consumer cfg env k d pc
      else producer cfg env k d pc)"

definition pc_threads :: "pcfg \<Rightarrow> nat" where
  "pc_threads cfg = terminator cfg + 1"

definition pc_step :: "pcfg \<Rightarrow> penv \<Rightarrow> (pshared process, ppc) tstep" where
  "pc_step cfg env = free_step (pc_outs cfg env)"

definition pc_start :: "pcfg \<Rightarrow> pshared process \<times> (nat \<Rightarrow> ppc)" where
  "pc_start cfg =
     ((\<lparr>store = storage_start (nat (sint (storage_capacity cfg))), printed = [], at_barrier = 0,
        launched = \<lambda>_. False, joinable = \<lambda>_. False\<rparr>, None),
      \<lambda>k. if k = 0 then Mn_barrier else Begin)"

section \<open>The invariant\<close>


abbreviation places :: "pcfg \<Rightarrow> nat" where "places cfg \<equiv> nat (sint (storage_capacity cfg))"




text \<open>The options that \<open>eval_params\<close> lets pass.\<close>
definition pcfg_ok :: "pcfg \<Rightarrow> bool" where
  "pcfg_ok cfg \<longleftrightarrow>
     1 \<le> sint (total_consumers cfg) \<and> sint (total_consumers cfg) \<le> int MAX_CONSUMERS \<and>
     1 \<le> sint (total_producers cfg) \<and> sint (total_producers cfg) \<le> int MAX_PRODUCERS \<and>
     int MIN_STORAGE_CAPACITY \<le> sint (storage_capacity cfg) \<and>
     sint (storage_capacity cfg) \<le> int MAX_STORAGE_CAPACITY \<and>
     0 \<le> sint (wait_factor_c cfg) \<and> sint (wait_factor_c cfg) \<le> 1000 \<and>
     0 \<le> sint (wait_factor_p cfg) \<and> sint (wait_factor_p cfg) \<le> 1000 \<and>
     0 \<le> pverbose cfg \<and> pverbose cfg \<le> 100"

lemma pc_defaults_ok: "pcfg_ok pc_defaults"
  by (simp add: pcfg_ok_def pc_defaults_def MAX_CONSUMERS_def MAX_PRODUCERS_def
      MIN_STORAGE_CAPACITY_def MAX_STORAGE_CAPACITY_def)

lemma pc_eval_opt_ok:
  assumes "pcfg_ok cfg" "pc_eval_opt cfg e = Returns cfg'"
  shows "pcfg_ok cfg'"
  using assms
  by (cases e) (auto simp: pc_eval_opt_def pcfg_ok_def out_of_range_def Let_def not_less split: if_splits)

lemma pc_eval_opt_exit: "pc_eval_opt cfg e = Exits x cfg' \<Longrightarrow> x = 0 \<or> x = 2"
  by (cases e) (auto simp: pc_eval_opt_def Let_def split: if_splits)

lemma pc_eval_params_ok: "pc_eval_params args = Returns cfg \<Longrightarrow> pcfg_ok cfg"
  unfolding pc_eval_params_def
  by (rule opt_loop_invariant [where P = pcfg_ok]) (auto intro: pc_eval_opt_ok pc_defaults_ok)













section \<open>Properties\<close>

text \<open>C40. What \<open>eval_params\<close> lets pass fits the arrays: at most 50 consumers, 4 producers and 20
  places, at least one of each; every other command line ends the program with 0 or 2.\<close>
theorem pc_eval_params_type:
  "case pc_eval_params args of
     Returns cfg \<Rightarrow> pcfg_ok cfg \<and> places cfg \<le> length (st_buf (storage_start (places cfg))) \<and>
       producers_n cfg \<le> length toBeProducedData
   | Exits x cfg \<Rightarrow> x = 0 \<or> x = 2"
proof (cases "pc_eval_params args")
  case (Returns cfg)
  have "pcfg_ok cfg" by (rule pc_eval_params_ok [OF Returns])
  then show ?thesis
    using Returns by (auto simp: pcfg_ok_def storage_start_def MAX_STORAGE_CAPACITY_def MAX_PRODUCERS_def
        toBeProducedData_def)
next
  case (Exits x cfg)
  have "x = 0 \<or> x = 2"
    by (rule opt_loop_exit [of pc_eval_opt _ pc_defaults "getopt ''hqvc:p:s:wP:C:'' args" x cfg])
      (use pc_eval_opt_exit Exits in \<open>auto simp: pc_eval_params_def\<close>)
  then show ?thesis using Exits by simp
qed


definition penv0 :: penv where
  "penv0 = \<lparr>pbarrier_init_fails = False, pbarrier_wait_fails = \<lambda>_. False, pcreate_fails = \<lambda>_. False\<rparr>"

text \<open>One producer, one consumer, one place: the producer runs to its end first.\<close>
definition lossy_schedule :: "nat list" where
  "lossy_schedule =
     replicate 5 0 @ replicate 184 2 @ replicate 3 0 @ replicate 9 3 @ [0] @ replicate 8 1 @ replicate 3 0"

definition early_schedule :: "nat list" where
  "early_schedule = replicate 5 0 @ replicate 9 1"

lemma pc_small:
  "pc_eval_params [''-c1'', ''-p'', ''1'', ''-s1''] =
     Returns (pc_defaults\<lparr>total_producers := 1, total_consumers := 1, storage_capacity := 1\<rparr>)"
  by code_simp


text \<open>What the missing synchronization costs, both with \<open>EXIT_SUCCESS\<close> or before it: every
  item of the producer can be lost, nothing being printed, and the consumer can print an empty
  place before anything has been produced.\<close>
theorem producer_consumer_races:
  "\<exists>cfg. pc_eval_params [''-c1'', ''-p'', ''1'', ''-s1''] = Returns cfg \<and>
     (\<exists>c. reach (pc_threads cfg) (pc_step cfg penv0) (pc_start cfg) c \<and>
        snd (fst c) = Some EXIT_SUCCESS \<and> printed (fst (fst c)) = []) \<and>
     (\<exists>c. reach (pc_threads cfg) (pc_step cfg penv0) (pc_start cfg) c \<and>
        printed (fst (fst c)) = ''_'' \<and> st_count (store (fst (fst c))) = -1)"
proof -
  let ?cfg = "pc_defaults\<lparr>total_producers := 1, total_consumers := 1, storage_capacity := 1\<rparr>"
  have a: "case run_sched (pc_threads ?cfg) (pc_step ?cfg penv0) lossy_schedule (pc_start ?cfg) of
      None \<Rightarrow> False | Some c \<Rightarrow> snd (fst c) = Some EXIT_SUCCESS \<and> printed (fst (fst c)) = []"
    by code_simp
  have b: "case run_sched (pc_threads ?cfg) (pc_step ?cfg penv0) early_schedule (pc_start ?cfg) of
      None \<Rightarrow> False | Some c \<Rightarrow> printed (fst (fst c)) = ''_'' \<and> st_count (store (fst (fst c))) = -1"
    by code_simp
  from pc_small run_case [OF a] run_case [OF b] show ?thesis by blast
qed

end
