(* ===== verification/Simulation.thy ===== *)
theory Simulation
  imports Critical_Section
begin

text \<open>
  Functional refinement between programs: when the steps of a program are the images of those
  of another under a map of the shared data and one of the locals, and its exit codes the images
  under a third, then what was proved of the other as a client of a critical section holds of
  the images. Programs of the same shape need their invariant only once.
\<close>

fun map_act :: "('d \<Rightarrow> 'e) \<Rightarrow> ('l \<Rightarrow> 'm) \<Rightarrow> (int \<Rightarrow> int) \<Rightarrow> ('d, 'l) act \<Rightarrow> ('e, 'm) act" where
  "map_act f g h (Go d l) = Go (f d) (g l)"
| "map_act f g h (Sync d l) = Sync (f d) (g l)"
| "map_act f g h (Quit d x) = Quit (f d) (h x)"

abbreviation images :: "('l \<Rightarrow> 'm) \<Rightarrow> (nat \<Rightarrow> (unit, 'l) phase) \<Rightarrow> nat \<Rightarrow> (unit, 'm) phase" where
  "images g c \<equiv> map_phase (\<lambda>u. ()) g \<circ> c"

text \<open>What the images satisfy.\<close>
definition image_Q ::
    "('d \<Rightarrow> 'e) \<Rightarrow> ('l \<Rightarrow> 'm) \<Rightarrow> ('d \<Rightarrow> (nat \<Rightarrow> (unit, 'l) phase) \<Rightarrow> bool) \<Rightarrow>
     'e \<Rightarrow> (nat \<Rightarrow> (unit, 'm) phase) \<Rightarrow> bool" where
  "image_Q f g Q e b \<longleftrightarrow> (\<exists>d c. e = f d \<and> b = images g c \<and> Q d c)"

definition image_R :: "('d \<Rightarrow> 'e) \<Rightarrow> (int \<Rightarrow> int) \<Rightarrow> ('d \<Rightarrow> int \<Rightarrow> bool) \<Rightarrow> 'e \<Rightarrow> int \<Rightarrow> bool" where
  "image_R f h R e y \<longleftrightarrow> (\<exists>d x. e = f d \<and> y = h x \<and> R d x)"

lemma map_phase_eq:
  "map_phase (\<lambda>u. ()) g ph = Out m \<longleftrightarrow> (\<exists>l. ph = Out l \<and> m = g l)"
  "map_phase (\<lambda>u. ()) g ph = Try () m \<longleftrightarrow> (\<exists>l. ph = Try () l \<and> m = g l)"
  "map_phase (\<lambda>u. ()) g ph = In m \<longleftrightarrow> (\<exists>l. ph = In l \<and> m = g l)"
  "map_phase (\<lambda>u. ()) g ph = Leave m \<longleftrightarrow> (\<exists>l. ph = Leave l \<and> m = g l)"
  by (cases ph; auto)+

lemma map_act_eq:
  "map_act f g h a = Go e m \<longleftrightarrow> (\<exists>d l. a = Go d l \<and> e = f d \<and> m = g l)"
  "map_act f g h a = Sync e m \<longleftrightarrow> (\<exists>d l. a = Sync d l \<and> e = f d \<and> m = g l)"
  "map_act f g h a = Quit e y \<longleftrightarrow> (\<exists>d x. a = Quit d x \<and> e = f d \<and> y = h x)"
  by (cases a; auto)+

lemma role_of_image: "role_of (map_phase (\<lambda>u. ()) g ph) = Holding \<longleftrightarrow> role_of ph = Holding"
  by (cases ph) auto

lemma alone_image: "alone n (images g c) i \<longleftrightarrow> alone n c i"
  by (simp add: alone_def role_of_image)

lemma images_upd: "(images g c)(i := map_phase (\<lambda>u. ()) g ph) = images g (c(i := ph))"
  by (simp add: fun_upd_comp)

lemma client_image:
  assumes C: "live_client n outs ins Q R mu fin"
    and outs: "\<And>d c i l. Q d c \<Longrightarrow> i < n \<Longrightarrow> c i = Out l \<Longrightarrow>
      outs' i (f d) (g l) = map_option (map_act f g h) (outs i d l)"
    and ins: "\<And>d c i l. Q d c \<Longrightarrow> i < n \<Longrightarrow> c i = In l \<Longrightarrow>
      ins' i (f d) (g l) = map_option (map_act f g h) (ins i d l)"
    and mu: "\<And>d c. mu' (f d) (images g c) = mu d c"
    and fin: "\<And>d c. fin' (f d) (images g c) = fin d c"
  shows "live_client n outs' ins' (image_Q f g Q) (image_R f h R) mu' fin'"
proof -
  note cl = live_client.axioms(1) [OF C]
  note Q = cs_client.Q_out_go [OF cl] cs_client.Q_out_sync [OF cl] cs_client.Q_in_go [OF cl]
    cs_client.Q_in_sync [OF cl] cs_client.Q_enter [OF cl] cs_client.Q_leave [OF cl]
  note R = cs_client.Q_out_quit [OF cl] cs_client.Q_in_quit [OF cl]
  note M = live_client.mu_out_go [OF C] live_client.mu_out_sync [OF C] live_client.mu_enter [OF C]
    live_client.mu_in_go [OF C] live_client.mu_in_sync [OF C] live_client.mu_leave [OF C]
  have up: "image_Q f g Q (f d) ((images g c)(i := map_phase (\<lambda>u. ()) g ph))"
    if "Q d (c(i := ph))" for d c i ph
    using that by (auto simp: image_Q_def images_upd)
  have upl: "mu' (f d') ((images g c)(i := map_phase (\<lambda>u. ()) g ph)) < mu' (f d) (images g c)"
    if "mu d' (c(i := ph)) < mu d c" for d d' c i ph
    using that by (simp only: images_upd mu)
  show ?thesis
  proof unfold_locales
    fix e b i m e' m' y
    assume "image_Q f g Q e b"
    then obtain d c where e: "e = f d" "b = images g c" and q: "Q d c" by (auto simp: image_Q_def)
    { assume nf: "\<not> fin' e b" and out: "\<forall>i<n. \<exists>l. b i = Out l"
      have "\<not> fin d c" "\<forall>i<n. \<exists>l. c i = Out l"
        using nf fin out by (auto simp: e map_phase_eq)
      from live_client.outs_go [OF C q this] obtain i l a where
        i: "i < n" "c i = Out l" "outs i d l = Some a" by blast
      have "b i = Out (g l)" "outs' i e (g l) \<noteq> None"
        using outs [OF q i(1,2)] i by (simp_all add: e)
      then show "\<exists>i l. i < n \<and> b i = Out l \<and> outs' i e l \<noteq> None" using i(1) by blast }
    assume i: "i < n"
    { assume "b i = Out m"
      then obtain l where l: "c i = Out l" "m = g l" by (auto simp: e map_phase_eq)
      note oq = outs [OF q i l(1)]
      show "outs' i e m = Some (Go e' m') \<Longrightarrow> image_Q f g Q e' (b(i := Out m'))"
        using Q(1) [OF q i l(1)] up [of _ c i "Out _"] oq by (auto simp: e l map_act_eq)
      show "outs' i e m = Some (Sync e' m') \<Longrightarrow> image_Q f g Q e' (b(i := Try () m'))"
        using Q(2) [OF q i l(1)] up [of _ c i "Try () _"] oq by (auto simp: e l map_act_eq)
      show "outs' i e m = Some (Quit e' y) \<Longrightarrow> image_R f h R e' y"
        using R(1) [OF q i l(1)] oq by (auto simp: e l map_act_eq image_R_def)
      show "outs' i e m = Some (Go e' m') \<Longrightarrow> mu' e' (b(i := Out m')) < mu' e b"
        using M(1) [OF q i l(1)] upl [of _ c i "Out _"] oq by (auto simp: e l map_act_eq)
      show "outs' i e m = Some (Sync e' m') \<Longrightarrow> mu' e' (b(i := Try () m')) < mu' e b"
        using M(2) [OF q i l(1)] upl [of _ c i "Try () _"] oq by (auto simp: e l map_act_eq) }
    { assume "b i = Try () m"
      then obtain l where l: "c i = Try () l" "m = g l" by (auto simp: e map_phase_eq)
      show "alone n b i \<Longrightarrow> image_Q f g Q e (b(i := In m))"
        using Q(5) [OF q i l(1)] up [of _ c i "In _"] by (auto simp: e l alone_image)
      show "mu' e (b(i := In m)) < mu' e b"
        using M(3) [OF q i l(1)] upl [of _ c i "In _"] by (auto simp: e l) }
    { assume "b i = In m"
      then obtain l where l: "c i = In l" "m = g l" by (auto simp: e map_phase_eq)
      note iq = ins [OF q i l(1)]
      show "ins' i e m \<noteq> None" using live_client.ins_go [OF C q i l(1)] iq by (auto simp: e l)
      show "ins' i e m = Some (Go e' m') \<Longrightarrow> mu' e' (b(i := In m')) < mu' e b"
        using M(4) [OF q i l(1)] upl [of _ c i "In _"] iq by (auto simp: e l map_act_eq)
      show "ins' i e m = Some (Sync e' m') \<Longrightarrow> mu' e' (b(i := Leave m')) < mu' e b"
        using M(5) [OF q i l(1)] upl [of _ c i "Leave _"] iq by (auto simp: e l map_act_eq)
      assume "alone n b i"
      then have al: "alone n c i" by (simp add: e alone_image)
      show "ins' i e m = Some (Go e' m') \<Longrightarrow> image_Q f g Q e' (b(i := In m'))"
        using Q(3) [OF q i l(1) al] up [of _ c i "In _"] iq by (auto simp: e l map_act_eq)
      show "ins' i e m = Some (Sync e' m') \<Longrightarrow> image_Q f g Q e' (b(i := Leave m'))"
        using Q(4) [OF q i l(1) al] up [of _ c i "Leave _"] iq by (auto simp: e l map_act_eq)
      show "ins' i e m = Some (Quit e' y) \<Longrightarrow> image_R f h R e' y"
        using R(2) [OF q i l(1) al] iq by (auto simp: e l map_act_eq image_R_def) }
    { assume "b i = Leave m"
      then obtain l where l: "c i = Leave l" "m = g l" by (auto simp: e map_phase_eq)
      show "alone n b i \<Longrightarrow> image_Q f g Q e (b(i := Out m))"
        using Q(6) [OF q i l(1)] up [of _ c i "Out _"] by (auto simp: e l alone_image)
      show "mu' e (b(i := Out m)) < mu' e b"
        using M(6) [OF q i l(1)] upl [of _ c i "Out _"] by (auto simp: e l) }
  qed
qed

end
