(* ===== verification/Thread_Add.thy ===== *)
theory Thread_Add
  imports CS_Methods Deposit Simulation Threads
begin

text \<open>
  \<open>thread_add.c\<close> and its four repaired versions: two threads increment \<open>count\<close> a
  million times each. \<open>thread_add_mutex.c\<close>, \<open>thread_add_sem.c\<close> and
  \<open>thread_add_named_sem.c\<close> protect the increment, \<open>thread_add_barrier_mutex.c\<close> also
  lets both threads start together. An increment is one read and one write, as the comments of
  the programs say. Threads 0 and 1 are the workers, thread 2 is \<open>main\<close>.
\<close>

definition THREADS :: nat where "THREADS = 2"
definition ITERATIONS :: cint where "ITERATIONS = 1000000"

datatype add_program = ADD_MUTEX | ADD_SEM | ADD_NAMED_SEM | ADD_BARRIER_MUTEX

definition has_barrier :: "add_program \<Rightarrow> bool" where
  "has_barrier p \<longleftrightarrow> p = ADD_BARRIER_MUTEX"

section \<open>The lock of each program\<close>

definition ADD_SEM_NAME :: string where "ADD_SEM_NAME = ''/thread_add-st60094''"

text \<open>The variables of the four programs; a program uses only its own.\<close>
record add_vars = kernel +
  mutex_count :: mutex
  mutex_count_initialized :: bool
  sem_cs_count :: "nat option"
  sem_cs_count_initialized :: bool
  psem_cs_count :: "nat option"

text \<open>\<open>main\<close> up to the barrier.\<close>
definition add_init :: "faults \<Rightarrow> add_program \<Rightarrow> add_vars \<Rightarrow> add_vars outcome" where
  "add_init flt p v =
     (case p of
        ADD_SEM \<Rightarrow>
          (case sem_init flt 1 of
             OK s \<Rightarrow> Returns (v\<lparr>sem_cs_count := s, sem_cs_count_initialized := True\<rparr>)
           | _ \<Rightarrow> Exits EXIT_FAILURE v)
      | ADD_NAMED_SEM \<Rightarrow>
          (case sem_open flt False ADD_SEM_NAME 1 v of
             OK (s, v') \<Rightarrow> Returns (v'\<lparr>psem_cs_count := Some s\<rparr>)
           | _ \<Rightarrow> Exits EXIT_FAILURE v)
      | _ \<Rightarrow>
          (case mutex_init flt (mutex_count v) of
             OK m \<Rightarrow> Returns (v\<lparr>mutex_count := m, mutex_count_initialized := True\<rparr>)
           | _ \<Rightarrow> Exits EXIT_FAILURE v))"

text \<open>A call whose result is not checked: it waits, or the thread goes on.\<close>
definition ignore_result :: "'a callres \<Rightarrow> ('a \<Rightarrow> 's) \<Rightarrow> 's \<Rightarrow> ('s, 'p) lock_res" where
  "ignore_result r upd v = (case r of OK x \<Rightarrow> Passed (upd x) | EFAIL \<Rightarrow> Passed v | WAIT \<Rightarrow> Blocked)"

definition add_enter :: "faults \<Rightarrow> add_program \<Rightarrow> nat \<Rightarrow> add_vars \<Rightarrow> unit \<Rightarrow> (add_vars, unit) lock_res" where
  "add_enter flt p i v u =
     (case p of
        ADD_SEM \<Rightarrow> ignore_result (sem_wait flt (sem_cs_count v)) (\<lambda>s. v\<lparr>sem_cs_count := s\<rparr>) v
      | ADD_NAMED_SEM \<Rightarrow>
          (case psem_cs_count v of
             None \<Rightarrow> Passed v
           | Some s \<Rightarrow> ignore_result (named_wait flt s v) (\<lambda>v'. v') v)
      | _ \<Rightarrow> ignore_result (mutex_lock flt i (mutex_count v)) (\<lambda>m. v\<lparr>mutex_count := m\<rparr>) v)"

definition add_leave :: "faults \<Rightarrow> add_program \<Rightarrow> nat \<Rightarrow> add_vars \<Rightarrow> (add_vars, unit) lock_res" where
  "add_leave flt p i v =
     (case p of
        ADD_SEM \<Rightarrow> ignore_result (sem_post flt (sem_cs_count v)) (\<lambda>s. v\<lparr>sem_cs_count := s\<rparr>) v
      | ADD_NAMED_SEM \<Rightarrow>
          (case psem_cs_count v of
             None \<Rightarrow> Passed v
           | Some s \<Rightarrow> ignore_result (named_post flt s v) (\<lambda>v'. v') v)
      | _ \<Rightarrow> ignore_result (mutex_unlock flt (mutex_count v)) (\<lambda>m. v\<lparr>mutex_count := m\<rparr>) v)"

text \<open>\<open>release_resources\<close>, run at exit; the barrier is part of the threads' data.\<close>
definition add_release :: "faults \<Rightarrow> add_program \<Rightarrow> add_vars \<Rightarrow> add_vars" where
  "add_release flt p v =
     (case p of
        ADD_SEM \<Rightarrow>
          if sem_cs_count_initialized v then
            (case sem_destroy flt (sem_cs_count v) of
               OK s \<Rightarrow> v\<lparr>sem_cs_count := s, sem_cs_count_initialized := False\<rparr> | _ \<Rightarrow> v)
          else v
      | ADD_NAMED_SEM \<Rightarrow>
          (case psem_cs_count v of
             None \<Rightarrow> v
           | Some s \<Rightarrow>
               (let v1 = (case sem_close flt s v of OK v' \<Rightarrow> v'\<lparr>psem_cs_count := None\<rparr> | _ \<Rightarrow> v) in
                case sem_unlink flt ADD_SEM_NAME v1 of OK v2 \<Rightarrow> v2 | _ \<Rightarrow> v1))
      | _ \<Rightarrow>
          if mutex_count_initialized v then
            (case mutex_destroy flt (mutex_count v) of
               OK m \<Rightarrow> v\<lparr>mutex_count := m, mutex_count_initialized := False\<rparr> | _ \<Rightarrow> v)
          else v)"

section \<open>The threads\<close>

record add_data =
  count :: cint
  add_arrived :: nat
  add_created :: nat
  add_returned :: "nat \<Rightarrow> bool"

datatype apc =
    A_start | A_wait | A_loop cint | A_count cint | A_store cint cint | A_end
  | AM_barrier | AM_create nat | AM_join nat | AM_check

definition add_main :: "add_program \<Rightarrow> denv \<Rightarrow> add_data \<Rightarrow> apc \<Rightarrow> (add_data, apc) act option" where
  "add_main p env d pc =
     (case pc of
        AM_barrier \<Rightarrow>
          if has_barrier p \<and> barrier_init_fails env then Some (Quit d EXIT_FAILURE)
          else Some (Go d (AM_create 0))
      | AM_create t \<Rightarrow>
          if t < THREADS then
            (if create_fails env t then Some (Quit d EXIT_FAILURE)
             else Some (Go (d\<lparr>add_created := t + 1\<rparr>) (AM_create (t + 1))))
          else Some (Go d (AM_join 0))
      | AM_join t \<Rightarrow>
          if t < THREADS then
            (if join_fails env t then Some (Quit d EXIT_FAILURE)
             else if add_returned d t then Some (Go d (AM_join (t + 1))) else None)
          else Some (Go d AM_check)
      | AM_check \<Rightarrow>
          if count d <s of_nat THREADS * ITERATIONS then Some (Quit d EXIT_FAILURE)
          else Some (Quit d EXIT_SUCCESS)
      | _ \<Rightarrow> None)"

text \<open>\<open>ThreadAdd\<close> outside its critical section.\<close>
definition add_outs :: "add_program \<Rightarrow> denv \<Rightarrow> nat \<Rightarrow> add_data \<Rightarrow> apc \<Rightarrow> (add_data, apc) act option" where
  "add_outs p env i d pc =
     (if i = THREADS then add_main p env d pc
      else case pc of
        A_start \<Rightarrow>
          if i < add_created d then
            (if has_barrier p then
               (if barrier_wait_fails env i then Some (Quit d EXIT_FAILURE)
                else Some (Go (d\<lparr>add_arrived := add_arrived d + 1\<rparr>) A_wait))
             else Some (Go d (A_loop 0)))
          else None
      | A_wait \<Rightarrow> if THREADS \<le> add_arrived d then Some (Go d (A_loop 0)) else None
      | A_loop k \<Rightarrow>
          if k <s ITERATIONS then Some (Sync d (A_count k))
          else Some (Go (d\<lparr>add_returned := (add_returned d)(i := True)\<rparr>) A_end)
      | _ \<Rightarrow> None)"

definition add_ins :: "nat \<Rightarrow> add_data \<Rightarrow> apc \<Rightarrow> (add_data, apc) act option" where
  "add_ins i d pc =
     (case pc of
        A_count k \<Rightarrow> Some (Go d (A_store k (count d + 1)))
      | A_store k v \<Rightarrow> Some (Sync (d\<lparr>count := v\<rparr>) (A_loop (k + 1)))
      | _ \<Rightarrow> None)"

text \<open>\<open>thread_add.c\<close>: the same without a lock and without a barrier.\<close>
definition plain_add_outs :: "denv \<Rightarrow> nat \<Rightarrow> add_data \<Rightarrow> apc \<Rightarrow> (add_data, apc) act option" where
  "plain_add_outs env i d pc =
     (if i = THREADS then add_main ADD_MUTEX env d pc
      else case pc of
        A_start \<Rightarrow> if i < add_created d then Some (Go d (A_loop 0)) else None
      | A_loop k \<Rightarrow>
          if k <s ITERATIONS then Some (Go d (A_count k))
          else Some (Go (d\<lparr>add_returned := (add_returned d)(i := True)\<rparr>) A_end)
      | A_count k \<Rightarrow> Some (Go d (A_store k (count d + 1)))
      | A_store k v \<Rightarrow> Some (Go (d\<lparr>count := v\<rparr>) (A_loop (k + 1)))
      | _ \<Rightarrow> None)"

definition add_data0 :: add_data where
  "add_data0 = \<lparr>count = 0, add_arrived = 0, add_created = 0, add_returned = \<lambda>_. False\<rparr>"

definition add_locals :: "nat \<Rightarrow> apc" where
  "add_locals i = (if i = THREADS then AM_barrier else A_start)"

definition add_step ::
    "faults \<Rightarrow> add_program \<Rightarrow> denv \<Rightarrow> ((add_vars, add_data) world, (unit, apc) phase) tstep" where
  "add_step flt p env = locked_step (add_enter flt p) (add_leave flt p) () (add_outs p env) add_ins"

definition add_start :: "add_vars \<Rightarrow> (add_vars, add_data) world \<times> (nat \<Rightarrow> (unit, apc) phase)" where
  "add_start v = (\<lparr>lockst = v, data = add_data0, exited = None\<rparr>, \<lambda>i. Out (add_locals i))"

definition plain_add_step :: "denv \<Rightarrow> (add_data process, apc) tstep" where
  "plain_add_step env = free_step (plain_add_outs env)"

definition plain_add_start :: "add_data process \<times> (nat \<Rightarrow> apc)" where
  "plain_add_start = ((add_data0, None), add_locals)"

section \<open>The threads refine those of the deposit programs\<close>

definition add_cfg :: "add_program \<Rightarrow> dcfg" where
  "add_cfg p =
     \<lparr>sync_start = has_barrier p, verbose = 1, thread_count = 2, bank_transactions_per_thread = 1000000,
      bank_transaction_amount = 1, bank_transaction_fee = 0, account_start = 0, cs_method = -1,
      yields = False, join_checked = True\<rparr>"

definition add_of :: "dstate \<Rightarrow> add_data" where
  "add_of d = \<lparr>count = ucast (account_balance d), add_arrived = arrived d, add_created = created d,
     add_returned = returned d\<rparr>"

fun apc_of :: "dpc \<Rightarrow> apc" where
  "apc_of W_start = A_start"
| "apc_of W_wait = A_wait"
| "apc_of (W_loop k) = A_loop k"
| "apc_of (W_deposit k) = A_count k"
| "apc_of (W_store k v) = A_store k (ucast v)"
| "apc_of W_end = A_end"
| "apc_of M_barrier = AM_barrier"
| "apc_of (M_create t) = AM_create t"
| "apc_of (M_join t) = AM_join t"
| "apc_of M_check = AM_check"

fun dpc_of :: "apc \<Rightarrow> dpc" where
  "dpc_of A_start = W_start"
| "dpc_of A_wait = W_wait"
| "dpc_of (A_loop k) = W_loop k"
| "dpc_of (A_count k) = W_deposit k"
| "dpc_of (A_store k v) = W_store k (ucast v)"
| "dpc_of A_end = W_end"
| "dpc_of AM_barrier = M_barrier"
| "dpc_of (AM_create t) = M_create t"
| "dpc_of (AM_join t) = M_join t"
| "dpc_of AM_check = M_check"

definition add_exit :: "int \<Rightarrow> int" where
  "add_exit x = (if x = 3 then EXIT_FAILURE else x)"

definition add_mu :: "add_program \<Rightarrow> add_data \<Rightarrow> (nat \<Rightarrow> (unit, apc) phase) \<Rightarrow> nat" where
  "add_mu p e b = deposit_mu (add_cfg p) (deposit_data (add_cfg p)) (images dpc_of b)"

lemma add_cfg_simps [simp]:
  "workers (add_cfg p) = 2" "rounds (add_cfg p) = 1000000" "sync_start (add_cfg p) = has_barrier p"
  "bank_transactions_per_thread (add_cfg p) = 1000000" "bank_transaction_amount (add_cfg p) = 1"
  "bank_transaction_fee (add_cfg p) = 0" "account_start (add_cfg p) = 0" "thread_count (add_cfg p) = 2" "join_checked (add_cfg p)"
  by (simp_all add: add_cfg_def)

lemma expected_add: "expected (add_cfg p) = 2000000"
  by (simp add: expected_def)

lemma final_balance:
  assumes "deposit_Q cfg d c" "c (workers cfg) = Out M_check"
  shows "account_balance d = account_start cfg + of_nat (workers cfg * rounds cfg) *
    (bank_transaction_amount cfg - bank_transaction_fee cfg)"
proof -
  obtain env x where st: "deposit_outs cfg env (workers cfg) d M_check = Some (Quit d x)" "x \<noteq> 3"
    by (cases "account_balance d = expected cfg") (auto simp: deposit_step_defs)
  then have "deposit_R cfg env d x"
    using deposit.Q_out_quit [OF assms(1) _ assms(2)] by simp
  then show ?thesis using st(2) by (simp add: deposit_R_def)
qed

lemma loop_bound:
  assumes "k \<le> (1000000 :: cint)"
  shows "k <s ITERATIONS \<longleftrightarrow> k < 1000000"
proof -
  have u: "uint k \<le> 1000000" using assms by (simp add: word_le_def)
  have "- 2147483648 \<le> uint k" using uint_ge_0 [of k] by linarith
  then have "sint k = uint k"
    using u by (simp add: sint_uint signed_take_bit_int_eq_self_iff)
  then show ?thesis by (simp add: word_sless_alt word_less_def ITERATIONS_def)
qed

lemma uint_incr: "uint (a + 1 :: cllong) = take_bit 64 (uint a + 1)"
  using uint_word_ariths(1) [of a 1] by (simp add: take_bit_eq_mod)

lemma ucast_incr: "(ucast (a + 1 :: cllong) :: cint) = ucast a + 1"
proof -
  have "(ucast (a + 1) :: cint) = word_of_int (take_bit 64 (uint a + 1))"
    by (simp only: ucast_eq uint_incr)
  also have "\<dots> = word_of_int (uint a + 1)" by (rule wi_bintr) simp
  also have "\<dots> = word_of_int (uint a) + 1" by (simp only: wi_hom_syms word_1_wi)
  finally show ?thesis by (simp only: ucast_eq)
qed

lemma add_mu_image: "add_mu p (add_of d) (images apc_of c) = deposit_mu (add_cfg p) d c"
proof -
  have "worker_mu T (map_phase (\<lambda>u. ()) dpc_of (map_phase (\<lambda>u. ()) apc_of ph)) = worker_mu T ph" for T ph
    by (cases "(T, ph)" rule: worker_mu.cases) auto
  moreover have "main_mu T (map_phase (\<lambda>u. ()) dpc_of (map_phase (\<lambda>u. ()) apc_of ph)) = main_mu T ph" for T ph
    by (cases "(T, ph)" rule: main_mu.cases) auto
  ultimately show ?thesis by (simp add: add_mu_def deposit_mu_def)
qed

lemma add_main_image:
  assumes "deposit_Q (add_cfg p) d c" "c 2 = Out l"
  shows "add_main p env (add_of d) (apc_of l) =
    map_option (map_act add_of apc_of add_exit) (main_step (add_cfg p) env d l)"
proof (cases "l = M_check")
  case True
  then have "account_balance d = 2000000" using final_balance [OF assms(1)] assms(2) by simp
  then show ?thesis
    using True by (simp add: add_main_def main_step_def add_of_def expected_add add_exit_def THREADS_def
        ITERATIONS_def)
next
  case False
  then show ?thesis
    by (cases l) (auto simp: add_main_def main_step_def add_of_def add_exit_def THREADS_def)
qed

lemma add_outs_image:
  assumes "deposit_Q (add_cfg p) d c" "i < 3" "c i = Out l"
  shows "add_outs p env i (add_of d) (apc_of l) =
    map_option (map_act add_of apc_of add_exit) (deposit_outs (add_cfg p) env i d l)"
proof (cases "i = 2")
  case True
  then show ?thesis using add_main_image [OF assms(1), of l env] assms(3)
    by (simp add: add_outs_def deposit_outs_def THREADS_def)
next
  case False
  then have "worker_ok (add_cfg p) d i (Out l)" using deposit_Q_ok [OF assms(1), of i] assms(2,3) by simp
  then show ?thesis
    using False by (cases l)
      (auto simp: add_outs_def deposit_outs_def start_step_def wait_step_def THREADS_def add_of_def
        add_exit_def loop_bound)
qed

lemma add_ins_image:
  assumes "deposit_Q (add_cfg p) d c" "i < 3" "c i = In l"
  shows "add_ins i (add_of d) (apc_of l) =
    map_option (map_act add_of apc_of add_exit) (deposit_ins (add_cfg p) i d l)"
  by (cases l) (auto simp: add_ins_def deposit_ins_def add_of_def deposit_money_def ucast_incr)

interpretation thread_add: live_client 3 "add_outs p env" add_ins
    "image_Q add_of apc_of (deposit_Q (add_cfg p))" "image_R add_of add_exit (deposit_R (add_cfg p) env)"
    "add_mu p" "\<lambda>_ _. False"
  for p env
proof (rule client_image)
  show "live_client 3 (deposit_outs (add_cfg p) env) (deposit_ins (add_cfg p)) (deposit_Q (add_cfg p))
      (deposit_R (add_cfg p) env) (deposit_mu (add_cfg p)) (\<lambda>_ _. False)"
    using deposit.live_client_axioms [of "add_cfg p" env] by simp
qed (use add_outs_image add_ins_image add_mu_image in auto)

section \<open>The locks\<close>

definition add_lk :: "faults \<Rightarrow> add_program \<Rightarrow> add_vars \<Rightarrow> nat option \<Rightarrow> bool" where
  "add_lk flt p v h \<longleftrightarrow> quiet flt \<and>
     (case p of
        ADD_SEM \<Rightarrow> sem_cs_count v = Some (tokens h)
      | ADD_NAMED_SEM \<Rightarrow>
          (case psem_cs_count v of
             None \<Rightarrow> False
           | Some s \<Rightarrow> (case named_sems v s of None \<Rightarrow> False | Some ns \<Rightarrow> ns_value ns = tokens h))
      | _ \<Rightarrow> mx_live (mutex_count v) \<and> mx_owner (mutex_count v) = h)"

lemmas add_lock_defs = add_lk_def add_enter_def add_leave_def ignore_result_def quiet_def tokens_def
  mutex_lock_def mutex_unlock_def sem_wait_def sem_post_def named_wait_def named_post_def

interpretation add_lock: live_lock "add_enter flt p" "add_leave flt p" "()" "add_lk flt p" "\<lambda>_. 0" for flt p
  by unfold_locales
    (cases p; auto simp: add_lock_defs split: option.splits if_splits callres.splits)+

interpretation add_program: live_program 3 "add_enter flt p" "add_leave flt p" "()"
    "lock_J 3 (add_lk flt p)" "lock_rank 3 (\<lambda>_. 0)" "add_outs p env" add_ins
    "image_Q add_of apc_of (deposit_Q (add_cfg p))" "image_R add_of add_exit (deposit_R (add_cfg p) env)"
    "add_mu p" "\<lambda>_ _. False"
  for flt p env
  by unfold_locales

lemma add_init_lk:
  assumes "add_init flt p v0 = Returns v" "quiet flt"
    and "p = ADD_NAMED_SEM \<Longrightarrow> sem_names v0 ADD_SEM_NAME = None"
  shows "add_lk flt p v None"
  using assms by (cases p)
    (auto simp: add_init_def add_lk_def tokens_def mutex_init_def sem_init_def sem_open_def
      split: if_splits option.splits callres.splits)

lemma add_start_Q:
  "image_Q add_of apc_of (deposit_Q (add_cfg p)) add_data0 (phases (\<lambda>i. Out (add_locals i)))"
proof -
  have d: "add_data0 = add_of (deposit_data (add_cfg p))"
    by (simp add: add_data0_def add_of_def deposit_data_def)
  have c: "phases (\<lambda>i. Out (add_locals i)) =
      images apc_of (phases (\<lambda>i. Out (deposit_locals (add_cfg p) i)))"
    by (rule ext) (simp add: add_locals_def deposit_locals_def THREADS_def)
  show ?thesis unfolding image_Q_def using d c deposit_Q_start by blast
qed

lemma add_start_inv:
  assumes "add_lk flt p v None"
  shows "add_program.inv flt p env (add_start v)"
  unfolding add_start_def
  by (rule add_program.inv_start [OF lock_J_free [where lk = "add_lk flt p", OF assms] add_start_Q])

lemma add_result:
  assumes "image_R add_of add_exit (deposit_R (add_cfg p) env) e x"
  shows "x = EXIT_SUCCESS \<and> count e = 2000000 \<or> x = EXIT_FAILURE \<and> \<not> env_ok env"
  using assms
  by (auto simp: image_R_def deposit_R_def add_exit_def expected_add add_of_def env_ok_def)

section \<open>Without a lock\<close>

text \<open>A running process and where its three threads are.\<close>
definition add_state :: "add_data \<Rightarrow> apc \<Rightarrow> apc \<Rightarrow> apc \<Rightarrow> add_data process \<times> (nat \<Rightarrow> apc)" where
  "add_state d a b m = ((d, None), \<lambda>i. if i = 0 then a else if i = 1 then b else if i = 2 then m else A_start)"

abbreviation padd :: "add_data process \<times> (nat \<Rightarrow> apc) \<Rightarrow> add_data process \<times> (nat \<Rightarrow> apc) \<Rightarrow> bool" where
  "padd \<equiv> reach 3 (plain_add_step env0)"

lemma add_state_start: "plain_add_start = add_state add_data0 A_start A_start AM_barrier"
  by (auto simp: plain_add_start_def add_state_def add_locals_def THREADS_def)

lemma reach_chain [trans]: "reach n ts a b \<Longrightarrow> reach n ts b c \<Longrightarrow> reach n ts a c"
  by (rule reach_trans)

lemma padd_step:
  assumes "i < 3" "plain_add_outs env0 i d (ls i) = Some (Go d' l')"
  shows "padd ((d, None), ls) ((d', None), ls(i := l'))"
  using assms by (intro reach_one [of _ _ i]) (simp add: sched_step_def plain_add_step_def free_step_Go)

lemma add_state_upd:
  "(snd (add_state d a b m))(0 := l) = snd (add_state d' l b m)"
  "(snd (add_state d a b m))(1 := l) = snd (add_state d' a l m)"
  "(snd (add_state d a b m))(2 := l) = snd (add_state d' a b l)"
  by (auto simp: add_state_def)

lemma add_state_pair: "add_state d a b m = ((d, None), snd (add_state d a b m))"
  by (simp add: add_state_def)

lemma padd_move:
  "plain_add_outs env0 0 d a = Some (Go d' a') \<Longrightarrow> padd (add_state d a b m) (add_state d' a' b m)"
  "plain_add_outs env0 1 d b = Some (Go d' b') \<Longrightarrow> padd (add_state d a b m) (add_state d' a b' m)"
  "plain_add_outs env0 2 d m = Some (Go d' m') \<Longrightarrow> padd (add_state d a b m) (add_state d' a b m')"
  using padd_step [of 0 d "snd (add_state d a b m)" d' a'] padd_step [of 1 d "snd (add_state d a b m)" d' b']
    padd_step [of 2 d "snd (add_state d a b m)" d' m']
  by (simp_all only: add_state_upd [where d' = d'] add_state_pair [symmetric];
      simp add: add_state_def)+

lemma of_nat_loop:
  assumes "k < 1000000"
  shows "(of_nat k :: cint) <s ITERATIONS"
proof -
  have u: "uint (of_nat k :: cint) = int k"
    using assms by (simp add: uint_nat unat_of_nat)
  then have "(of_nat k :: cint) \<le> 1000000" "(of_nat k :: cint) < 1000000"
    using assms by (simp_all add: word_le_def word_less_def)
  then show ?thesis by (simp add: loop_bound)
qed

lemmas plain_add_defs = plain_add_outs_def add_main_def THREADS_def has_barrier_def env0_def

text \<open>A thread alone adds one per round.\<close>
lemma padd_rounds0:
  "k + n \<le> 1000000 \<Longrightarrow> padd (add_state d (A_loop (of_nat k)) b m)
     (add_state (d\<lparr>count := count d + of_nat n\<rparr>) (A_loop (of_nat (k + n))) b m)"
proof (induction n)
  case (Suc n)
  let ?d = "d\<lparr>count := count d + of_nat n\<rparr>" and ?k = "of_nat (k + n) :: cint"
  have "padd (add_state d (A_loop (of_nat k)) b m) (add_state ?d (A_loop ?k) b m)"
    using Suc by simp
  also have "padd \<dots> (add_state ?d (A_count ?k) b m)"
    using of_nat_loop [of "k + n"] Suc.prems by (intro padd_move) (simp add: plain_add_defs)
  also have "padd \<dots> (add_state ?d (A_store ?k (count ?d + 1)) b m)"
    by (intro padd_move) (simp add: plain_add_defs)
  also have "padd \<dots> (add_state (?d\<lparr>count := count ?d + 1\<rparr>) (A_loop (?k + 1)) b m)"
    by (intro padd_move) (simp add: plain_add_defs)
  finally show ?case by (simp add: ac_simps)
qed (simp add: reach_init)

lemma padd_rounds1:
  "k + n \<le> 1000000 \<Longrightarrow> padd (add_state d a (A_loop (of_nat k)) m)
     (add_state (d\<lparr>count := count d + of_nat n\<rparr>) a (A_loop (of_nat (k + n))) m)"
proof (induction n)
  case (Suc n)
  let ?d = "d\<lparr>count := count d + of_nat n\<rparr>" and ?k = "of_nat (k + n) :: cint"
  have "padd (add_state d a (A_loop (of_nat k)) m) (add_state ?d a (A_loop ?k) m)"
    using Suc by simp
  also have "padd \<dots> (add_state ?d a (A_count ?k) m)"
    using of_nat_loop [of "k + n"] Suc.prems by (intro padd_move) (simp add: plain_add_defs)
  also have "padd \<dots> (add_state ?d a (A_store ?k (count ?d + 1)) m)"
    by (intro padd_move) (simp add: plain_add_defs)
  also have "padd \<dots> (add_state (?d\<lparr>count := count ?d + 1\<rparr>) a (A_loop (?k + 1)) m)"
    by (intro padd_move) (simp add: plain_add_defs)
  finally show ?case by (simp add: ac_simps)
qed (simp add: reach_init)

lemma padd_begin:
  "padd plain_add_start (add_state (add_data0\<lparr>add_created := 2\<rparr>) (A_loop 0) (A_loop 0) (AM_join 0))"
proof -
  obtain d where d: "d = add_data0\<lparr>add_created := 2\<rparr>" by blast
  have "padd plain_add_start (add_state add_data0 A_start A_start (AM_create 0))"
    unfolding add_state_start by (intro padd_move) (simp add: plain_add_defs)
  also have "padd \<dots> (add_state (add_data0\<lparr>add_created := 1\<rparr>) A_start A_start (AM_create 1))"
    by (intro padd_move) (simp add: plain_add_defs)
  also have "padd \<dots> (add_state d A_start A_start (AM_create 2))"
    unfolding d by (intro padd_move) (simp add: plain_add_defs)
  also have "padd \<dots> (add_state d A_start A_start (AM_join 0))"
    by (intro padd_move) (simp add: plain_add_defs)
  also have "padd \<dots> (add_state d (A_loop 0) A_start (AM_join 0))"
    unfolding d by (intro padd_move) (simp add: plain_add_defs)
  also have "padd \<dots> (add_state d (A_loop 0) (A_loop 0) (AM_join 0))"
    unfolding d by (intro padd_move) (simp add: plain_add_defs)
  finally show ?thesis unfolding d .
qed

text \<open>Thread 0 reads 0, thread 1 runs but for its last round, thread 0 stores 1, thread 1 reads it,
  thread 0 runs to its end, thread 1 stores 2.\<close>
lemma padd_overwrite:
  assumes "d = add_data0\<lparr>add_created := 2\<rparr>" "k = (999999 :: cint)"
  shows "padd (add_state d (A_loop 0) (A_loop 0) (AM_join 0))
    (add_state (d\<lparr>count := 1000000\<rparr>) (A_loop ITERATIONS) (A_store k 2) (AM_join 0))"
proof -
  note d = assms(1) and k = assms(2)
  have "padd (add_state d (A_loop 0) (A_loop 0) (AM_join 0)) (add_state d (A_count 0) (A_loop 0) (AM_join 0))"
    using of_nat_loop [of 0] by (intro padd_move) (simp add: plain_add_defs)
  also have "padd \<dots> (add_state d (A_store 0 1) (A_loop 0) (AM_join 0))"
    unfolding d by (intro padd_move) (simp add: plain_add_defs add_data0_def)
  also have "padd \<dots> (add_state (d\<lparr>count := k\<rparr>) (A_store 0 1) (A_loop k) (AM_join 0))"
    using padd_rounds1 [of 0 999999 d "A_store 0 1" "AM_join 0"] by (simp add: d k add_data0_def)
  also have "padd \<dots> (add_state (d\<lparr>count := 1\<rparr>) (A_loop 1) (A_loop k) (AM_join 0))"
    using padd_move(1) [of "d\<lparr>count := k\<rparr>" "A_store 0 1" "d\<lparr>count := 1\<rparr>" "A_loop 1"]
    by (simp add: plain_add_defs)
  also have "padd \<dots> (add_state (d\<lparr>count := 1\<rparr>) (A_loop 1) (A_count k) (AM_join 0))"
    using of_nat_loop [of 999999] by (intro padd_move) (simp add: plain_add_defs k)
  also have "padd \<dots> (add_state (d\<lparr>count := 1\<rparr>) (A_loop 1) (A_store k 2) (AM_join 0))"
    by (intro padd_move) (simp add: plain_add_defs)
  also have "padd \<dots> (add_state (d\<lparr>count := 1000000\<rparr>) (A_loop ITERATIONS) (A_store k 2) (AM_join 0))"
    using padd_rounds0 [of 1 999999 "d\<lparr>count := 1\<rparr>" "A_store k 2" "AM_join 0"]
    by (simp add: ITERATIONS_def)
  finally show ?thesis .
qed

section \<open>Properties\<close>

text \<open>C16. The four repaired programs count exactly: for each of them, whatever the interleaving, when its lock was
  created, its lock calls do not fail (\<open>quiet\<close>) and no semaphore with its name was left over, the process ends with
  \<open>EXIT_SUCCESS\<close> and \<open>count\<close> = 2000000, or with \<open>EXIT_FAILURE\<close> after a failed barrier call,
  \<open>pthread_create\<close> or \<open>pthread_join\<close>; and when none fails, the successful end can be reached from every
  reachable state.\<close>
theorem thread_add_exact:
  assumes "add_init flt p v0 = Returns v" "quiet flt"
    and "p = ADD_NAMED_SEM \<Longrightarrow> sem_names v0 ADD_SEM_NAME = None"
    and "reach 3 (add_step flt p env) (add_start v) c"
  shows "(\<forall>x. exited (fst c) = Some x \<longrightarrow>
            x = EXIT_SUCCESS \<and> count (data (fst c)) = 2000000 \<or> x = EXIT_FAILURE \<and> \<not> env_ok env) \<and>
         (env_ok env \<longrightarrow> (\<exists>c'. reach 3 (add_step flt p env) c c' \<and>
            exited (fst c') = Some EXIT_SUCCESS \<and> count (data (fst c')) = 2000000))"
proof -
  have "add_lk flt p v None" by (rule add_init_lk) (use assms in auto)
  note inv = add_start_inv [OF this, of env]
  have res: "x = EXIT_SUCCESS \<and> count (data (fst c)) = 2000000 \<or> x = EXIT_FAILURE \<and> \<not> env_ok env"
    if "reach 3 (add_step flt p env) (add_start v) c" "exited (fst c) = Some x" for c x
    using add_program.result [OF that(1) [unfolded add_step_def] inv that(2)] add_result by blast
  obtain c' where c': "reach 3 (add_step flt p env) c c'" "exited (fst c') \<noteq> None"
    using add_program.can_be_over [OF assms(4) [unfolded add_step_def] inv] unfolding add_step_def by metis
  then show ?thesis using res [OF assms(4)] res [OF reach_trans [OF c'(1) assms(4)]] by blast
qed

definition add_vars0 :: add_vars where
  "add_vars0 =
     \<lparr>sem_names = (\<lambda>_. None), named_sems = (\<lambda>_. None), sysv_keys = (\<lambda>_. None),
      sysv_vals = (\<lambda>_. None), sysv_adj = (\<lambda>_. 0), mq_names = (\<lambda>_. None), mqs = (\<lambda>_. None),
      msqs = (\<lambda>_. None), next_id = 0,
      mutex_count = \<lparr>mx_live = False, mx_owner = None\<rparr>, mutex_count_initialized = False,
      sem_cs_count = None, sem_cs_count_initialized = False, psem_cs_count = None\<rparr>"

theorem thread_add_exact_witness:
  "\<exists>v c. add_init no_faults ADD_NAMED_SEM add_vars0 = Returns v \<and>
     reach 3 (add_step no_faults ADD_NAMED_SEM env0) (add_start v) c \<and>
     exited (fst c) = Some EXIT_SUCCESS \<and> count (data (fst c)) = 2000000"
proof -
  have q: "quiet no_faults" "sem_names add_vars0 ADD_SEM_NAME = None"
    by (simp_all add: quiet_def no_faults_def add_vars0_def)
  obtain v where v: "add_init no_faults ADD_NAMED_SEM add_vars0 = Returns v"
    by (auto simp: add_init_def no_faults_def sem_open_def add_vars0_def)
  from thread_add_exact [OF v q(1) q(2) reach_init, of env0] env0_ok v show ?thesis by blast
qed

text \<open>Without a lock almost everything can be lost: two threads of a million increments each can
  leave \<open>count\<close> = 2, and \<open>thread_add.c\<close> then ends with \<open>EXIT_FAILURE\<close>.\<close>
theorem thread_add_loses:
  "\<exists>c. reach 3 (plain_add_step env0) plain_add_start c \<and> snd (fst c) = Some EXIT_FAILURE \<and>
     count (fst (fst c)) = 2"
proof -
  obtain d where d: "d = add_data0\<lparr>add_created := 2\<rparr>" by blast
  obtain k where k: "k = (999999 :: cint)" by blast
  have "padd plain_add_start (add_state d (A_loop 0) (A_loop 0) (AM_join 0))"
    unfolding d by (rule padd_begin)
  also have "padd \<dots> (add_state (d\<lparr>count := 1000000\<rparr>) (A_loop ITERATIONS) (A_store k 2) (AM_join 0))"
    by (rule padd_overwrite [OF d k])
  also have "padd \<dots> (add_state (d\<lparr>count := 1000000, add_returned := (\<lambda>_. False)(0 := True)\<rparr>)
      A_end (A_store k 2) (AM_join 0))"
    by (intro padd_move) (simp add: plain_add_defs d add_data0_def)
  also have "padd \<dots> (add_state (d\<lparr>count := 2, add_returned := (\<lambda>_. False)(0 := True)\<rparr>)
      A_end (A_loop ITERATIONS) (AM_join 0))"
    by (intro padd_move) (simp add: plain_add_defs d add_data0_def k ITERATIONS_def)
  also have "padd \<dots> (add_state (d\<lparr>count := 2, add_returned := (\<lambda>_. False)(0 := True, 1 := True)\<rparr>)
      A_end A_end (AM_join 0))" (is "padd _ (add_state ?d _ _ _)")
    by (intro padd_move) (simp add: plain_add_defs d add_data0_def)
  also have "padd \<dots> (add_state ?d A_end A_end (AM_join 1))"
    by (intro padd_move) (simp add: plain_add_defs)
  also have "padd \<dots> (add_state ?d A_end A_end (AM_join 2))"
    by (intro padd_move) (simp add: plain_add_defs)
  also have "padd \<dots> (add_state ?d A_end A_end AM_check)"
    by (intro padd_move) (simp add: plain_add_defs)
  finally have r: "padd plain_add_start (add_state ?d A_end A_end AM_check)" .
  obtain c where c: "sched_step 3 (plain_add_step env0) 2 (add_state ?d A_end A_end AM_check) = Some c"
    "snd (fst c) = Some EXIT_FAILURE" "count (fst (fst c)) = 2"
    by (simp add: sched_step_def plain_add_step_def add_state_def free_step_def plain_add_defs
        ITERATIONS_def d word_sless_alt)
  from reach_step [OF r c(1)] c show ?thesis by blast
qed

end
