(* ===== verification/Traceroute_Options.thy ===== *)
theory Traceroute_Options
  imports Libc
begin

text \<open>
  The options of the traceroute programs: \<open>successive_traceroute/options.c\<close> with the
  argument handling of its \<open>main\<close>, and the corresponding part of
  \<open>basic_traceroute/traceroute.c\<close>. Times, \<open>double\<close> seconds in the programs, are
  whole microseconds here, the resolution of \<open>gettimeofday\<close>; \<open>atof\<close> is read up to that
  resolution, without exponents.
\<close>

definition MAX_TTL :: nat where "MAX_TTL = 255"
definition MAX_PROBES :: nat where "MAX_PROBES = 10"
definition MAX_TIMEOUT :: int where "MAX_TIMEOUT = 300000000"
definition MAX_DEST_PORT :: "16 word" where "MAX_DEST_PORT = 65000"
definition MAX_PACKET_LEN :: "64 word" where "MAX_PACKET_LEN = 65000"
definition DEF_DEST_PORT :: "16 word" where "DEF_DEST_PORT = 53"
definition DEF_DEST_PORT_BASE :: "16 word" where "DEF_DEST_PORT_BASE = 33434"

section \<open>The options\<close>

text \<open>\<open>struct options\<close>; \<open>in_port_t\<close> has 16 bits, \<open>size_t\<close> 64.\<close>
record topts =
  probes :: cint
  first_ttl :: cint
  max_ttl :: cint
  noresolve :: bool
  dest_port_seq :: bool
  dest_port :: "16 word"
  timeout :: int
  packet_len :: "64 word"
  debug :: bool
  tverbose :: int

definition tr_defaults :: topts where
  "tr_defaults =
     \<lparr>probes = 3, first_ttl = 1, max_ttl = 30, noresolve = False, dest_port_seq = True, dest_port = 0,
      timeout = 5000000, packet_len = 40, debug = False, tverbose = 1\<rparr>"

text \<open>The cases that both programs have.\<close>
definition tr_common_opt :: "topts \<Rightarrow> char \<Rightarrow> string \<Rightarrow> topts outcome" where
  "tr_common_opt op ch arg =
     (if ch = CHR ''h'' then Exits EXIT_SUCCESS op
      else if ch = CHR ''V'' then Exits EXIT_SUCCESS op
      else if ch = CHR ''f'' then Returns (op\<lparr>first_ttl := atoi arg\<rparr>)
      else if ch = CHR ''m'' then
        (let o1 = op\<lparr>max_ttl := atoi arg\<rparr> in
         Returns (if word_of_nat MAX_TTL <s max_ttl o1 then o1\<lparr>max_ttl := word_of_nat MAX_TTL\<rparr> else o1))
      else if ch = CHR ''n'' then Returns (op\<lparr>noresolve := True\<rparr>)
      else if ch = CHR ''w'' then
        (let o1 = op\<lparr>timeout := atof_us arg\<rparr>;
             o2 = (if timeout o1 > MAX_TIMEOUT then o1\<lparr>timeout := MAX_TIMEOUT\<rparr> else o1)
         in Returns (if timeout o2 < 0 then o2\<lparr>timeout := 0\<rparr> else o2))
      else if ch = CHR ''q'' then
        (let o1 = op\<lparr>probes := atoi arg\<rparr>;
             o2 = (if word_of_nat MAX_PROBES <s probes o1 then o1\<lparr>probes := word_of_nat MAX_PROBES\<rparr> else o1)
         in Returns (if probes o2 <s 1 then o2\<lparr>probes := 1\<rparr> else o2))
      else if ch = CHR ''U'' then
        (let o1 = op\<lparr>dest_port_seq := False\<rparr> in
         Returns (if dest_port o1 = 0 then o1\<lparr>dest_port := DEF_DEST_PORT\<rparr> else o1))
      else if ch = CHR ''p'' then
        (let o1 = op\<lparr>dest_port := ucast (atoi arg)\<rparr> in
         Returns (if dest_port o1 > MAX_DEST_PORT then o1\<lparr>dest_port := 0\<rparr> else o1))
      else Exits EXIT_FAILURE op)"


text \<open>\<open>parse_options\<close> of \<open>options.c\<close>, and the loop in \<open>main\<close> of the basic program,
  which has no \<open>-v\<close>, \<open>-Q\<close> and \<open>-d\<close>.\<close>
definition tr_parse_opt :: "topts \<Rightarrow> opt_event \<Rightarrow> topts outcome" where
  "tr_parse_opt op e =
     (case e of
        Bad c \<Rightarrow> Exits EXIT_FAILURE op
      | Opt ch arg \<Rightarrow>
          if ch = CHR ''v'' then Returns (if tverbose op < 100 then op\<lparr>tverbose := tverbose op + 1\<rparr> else op)
          else if ch = CHR ''Q'' then Returns (if tverbose op > 0 then op\<lparr>tverbose := tverbose op - 1\<rparr> else op)
          else if ch = CHR ''d'' then Returns (op\<lparr>debug := True\<rparr>)
          else tr_common_opt op ch arg)"

definition basic_parse_opt :: "topts \<Rightarrow> opt_event \<Rightarrow> topts outcome" where
  "basic_parse_opt op e =
     (case e of Bad c \<Rightarrow> Exits EXIT_FAILURE op | Opt ch arg \<Rightarrow> tr_common_opt op ch arg)"

text \<open>"Set correct destination port".\<close>
definition default_port :: "topts \<Rightarrow> topts" where
  "default_port op =
     (if dest_port op = 0 then
        (if dest_port_seq op then op\<lparr>dest_port := DEF_DEST_PORT_BASE\<rparr> else op\<lparr>dest_port := DEF_DEST_PORT\<rparr>)
      else op)"

definition TR_OPTSTRING :: string where "TR_OPTSTRING = ''hVvQdf:m:nw:q:Up:''"
definition BASIC_OPTSTRING :: string where "BASIC_OPTSTRING = ''hVf:m:nw:q:Up:''"

text \<open>\<open>argv[optind]\<close> is the host, the next argument the packet length.\<close>
definition host_and_length :: "topts \<Rightarrow> string list \<Rightarrow> (topts \<times> string) outcome" where
  "host_and_length op rest =
     (case rest of
        [] \<Rightarrow> Exits EXIT_FAILURE (op, [])
      | [host] \<Rightarrow> Returns (op, host)
      | host # len # _ \<Rightarrow>
          (let op1 = op\<lparr>packet_len := scast (atoi len)\<rparr> in
           Returns (if packet_len op1 > MAX_PACKET_LEN then op1\<lparr>packet_len := MAX_PACKET_LEN\<rparr> else op1, host)))"

definition tr_args :: "string list \<Rightarrow> (topts \<times> string) outcome" where
  "tr_args args =
     (case opt_loop tr_parse_opt tr_defaults (getopt TR_OPTSTRING args) of
        Exits x op \<Rightarrow> Exits x (op, [])
      | Returns op \<Rightarrow> host_and_length (default_port op) (operands TR_OPTSTRING args))"

definition basic_args :: "string list \<Rightarrow> (topts \<times> string) outcome" where
  "basic_args args =
     (case opt_loop basic_parse_opt tr_defaults (getopt BASIC_OPTSTRING args) of
        Exits x op \<Rightarrow> Exits x (op, [])
      | Returns op \<Rightarrow> host_and_length (default_port op) (operands BASIC_OPTSTRING args))"

section \<open>What passes\<close>

definition topts_ok :: "topts \<Rightarrow> bool" where
  "topts_ok op \<longleftrightarrow> 1 \<le> sint (probes op) \<and> sint (probes op) \<le> int MAX_PROBES \<and>
     sint (max_ttl op) \<le> int MAX_TTL \<and> 0 \<le> timeout op \<and> timeout op \<le> MAX_TIMEOUT \<and>
     dest_port op \<le> MAX_DEST_PORT \<and> packet_len op \<le> MAX_PACKET_LEN"

lemmas tr_limits = MAX_TTL_def MAX_PROBES_def MAX_TIMEOUT_def MAX_DEST_PORT_def MAX_PACKET_LEN_def
  DEF_DEST_PORT_def DEF_DEST_PORT_BASE_def

lemma tr_defaults_ok: "topts_ok tr_defaults"
  by (simp add: topts_ok_def tr_defaults_def tr_limits)

lemma tr_common_ok:
  assumes "topts_ok op" "tr_common_opt op ch arg = Returns op'"
  shows "topts_ok op'"
  using assms
  by (auto simp: tr_common_opt_def topts_ok_def tr_limits Let_def word_sless_alt not_less split: if_splits)

lemma tr_parse_ok: "topts_ok op \<Longrightarrow> tr_parse_opt op e = Returns op' \<Longrightarrow> topts_ok op'"
  by (auto simp: tr_parse_opt_def split: opt_event.splits if_splits dest: tr_common_ok)
    (auto simp: topts_ok_def)

lemma basic_parse_ok: "topts_ok op \<Longrightarrow> basic_parse_opt op e = Returns op' \<Longrightarrow> topts_ok op'"
  by (auto simp: basic_parse_opt_def split: opt_event.splits dest: tr_common_ok)

lemma default_port_ok: "topts_ok op \<Longrightarrow> topts_ok (default_port op) \<and> dest_port (default_port op) \<noteq> 0"
  by (auto simp: default_port_def topts_ok_def tr_limits)

lemma host_and_length_ok:
  assumes "topts_ok op" "dest_port op \<noteq> 0" "host_and_length op rest = Returns (op', host)"
  shows "topts_ok op' \<and> dest_port op' \<noteq> 0"
  using assms by (auto simp: host_and_length_def topts_ok_def tr_limits Let_def not_less
      split: list.splits if_splits)

lemma tr_args_ok:
  assumes "tr_args args = Returns (op, host)"
  shows "topts_ok op \<and> dest_port op \<noteq> 0"
proof -
  obtain op1 where op1: "opt_loop tr_parse_opt tr_defaults (getopt TR_OPTSTRING args) = Returns op1"
    "host_and_length (default_port op1) (operands TR_OPTSTRING args) = Returns (op, host)"
    using assms by (auto simp: tr_args_def split: outcome.splits)
  have "topts_ok op1"
    by (rule opt_loop_invariant [where P = topts_ok, OF tr_parse_ok op1(1) tr_defaults_ok])
  then show ?thesis using host_and_length_ok [OF _ _ op1(2)] default_port_ok by blast
qed

lemma basic_args_ok:
  assumes "basic_args args = Returns (op, host)"
  shows "topts_ok op \<and> dest_port op \<noteq> 0"
proof -
  obtain op1 where op1: "opt_loop basic_parse_opt tr_defaults (getopt BASIC_OPTSTRING args) = Returns op1"
    "host_and_length (default_port op1) (operands BASIC_OPTSTRING args) = Returns (op, host)"
    using assms by (auto simp: basic_args_def split: outcome.splits)
  have "topts_ok op1"
    by (rule opt_loop_invariant [where P = topts_ok, OF basic_parse_ok op1(1) tr_defaults_ok])
  then show ?thesis using host_and_length_ok [OF _ _ op1(2)] default_port_ok by blast
qed

end
