(* ===== verification/Icmp.thy ===== *)
theory Icmp
  imports Libc
begin

text \<open>
  How the traceroute programs report ICMP errors: decimal printing as \<open>printf\<close> does it for
  \<open>%d\<close> and \<open>%u\<close>, and \<open>parse_icmp_response\<close>, which turns the type, code and
  information of an ICMP message into the 16-byte string \<open>err_str\<close>. The printed numbers can
  be read back with \<open>atoi\<close>.
\<close>

section \<open>Printing numbers\<close>

definition digit_char :: "nat \<Rightarrow> char" where
  "digit_char d = char_of (48 + d)"

fun print_nat :: "nat \<Rightarrow> string" where
  "print_nat n = (if n < 10 then [digit_char n] else print_nat (n div 10) @ [digit_char (n mod 10)])"

declare print_nat.simps [simp del]

text \<open>\<open>%d\<close> and \<open>%u\<close>.\<close>
definition print_d :: "cint \<Rightarrow> string" where
  "print_d w = (if sint w < 0 then CHR ''-'' # print_nat (nat (- sint w)) else print_nat (nat (sint w)))"

definition print_u :: "cuint \<Rightarrow> string" where
  "print_u w = print_nat (unat w)"

lemma digit_of_digit_char: "d < 10 \<Longrightarrow> digit_of (digit_char d) = Some (int d)"
  by (simp add: digit_of_def digit_char_def of_char_of)

lemma digits_print_nat:
  "digits acc (print_nat n @ r) = digits (acc * 10 ^ length (print_nat n) + int n) r"
proof (induction n arbitrary: acc r rule: print_nat.induct)
  case (1 n)
  show ?case
  proof (cases "n < 10")
    case True
    then show ?thesis by (simp add: print_nat.simps [of n] digit_of_digit_char mult.commute)
  next
    case False
    have "int n = 10 * int (n div 10) + int (n mod 10)" by (simp add: zdiv_int zmod_int)
    then show ?thesis
      using False 1 [OF False] by (simp add: print_nat.simps [of n] digit_of_digit_char algebra_simps)
  qed
qed

lemma print_nat_digits: "list_all (\<lambda>c. digit_of c \<noteq> None) (print_nat n)"
  by (induction n rule: print_nat.induct) (subst print_nat.simps, simp add: digit_of_digit_char)

lemma print_nat_not_Nil: "print_nat n \<noteq> []"
  by (subst print_nat.simps) simp

lemma length_print_nat: "n < 10 ^ Suc k \<Longrightarrow> length (print_nat n) \<le> Suc k"
proof (induction k arbitrary: n)
  case (Suc k)
  show ?case
  proof (cases "n < 10")
    case False
    have "n div 10 < 10 ^ Suc k" using Suc.prems by (simp add: less_mult_imp_div_less)
    from Suc.IH [OF this] False show ?thesis by (simp add: print_nat.simps [of n])
  qed (simp add: print_nat.simps [of n])
qed (subst print_nat.simps, simp)

text \<open>A text that starts with a printed number and goes on with no digit is read as the number.\<close>
definition no_digit :: "string \<Rightarrow> bool" where
  "no_digit r \<longleftrightarrow> r = [] \<or> digit_of (hd r) = None"

lemma digits_stop: "no_digit r \<Longrightarrow> digits acc r = acc"
  by (cases r) (auto simp: no_digit_def)

lemma digit_not_special:
  assumes "digit_of c = Some d"
  shows "\<not> is_space c \<and> c \<noteq> CHR ''-'' \<and> c \<noteq> CHR ''+''"
  using assms by (auto simp: digit_of_def is_space_def Let_def split: if_splits)

lemma signed_digits_nat:
  assumes "no_digit r"
  shows "signed_digits (dropWhile is_space (print_nat n @ r)) = int n"
proof -
  obtain c cs d where c: "print_nat n = c # cs" "digit_of c = Some d"
    using print_nat_digits [of n] print_nat_not_Nil [of n] by (cases "print_nat n") auto
  have "dropWhile is_space (print_nat n @ r) = print_nat n @ r"
    using c digit_not_special by simp
  moreover have "signed_digits (print_nat n @ r) = digits 0 (print_nat n @ r)"
    using c digit_not_special [OF c(2)] by (simp add: signed_digits_def)
  ultimately show ?thesis by (simp add: digits_print_nat digits_stop [OF assms])
qed

lemma atoi_print_u: "no_digit r \<Longrightarrow> atoi (print_u w @ r) = w"
proof -
  assume r: "no_digit r"
  have "uint w < 2 ^ 32" "- 9223372036854775808 \<le> uint w"
    using unsigned_less [of w, where ?'a = int] uint_ge_0 [of w] by (simp, linarith)
  then have "strtol (print_u w @ r) = int (unat w)"
    unfolding strtol_def print_u_def signed_digits_nat [OF r] by simp
  then show ?thesis by (simp add: atoi_def)
qed

lemma atoi_print_d: "no_digit r \<Longrightarrow> atoi (print_d w @ r) = w"
proof -
  assume r: "no_digit r"
  have b: "- (2 ^ 31) \<le> sint w" "sint w < 2 ^ 31"
    using sint_ge [of w] sint_lt [of w] by simp_all
  have "strtol (print_d w @ r) = sint w"
  proof (cases "sint w < 0")
    case True
    have "digits 0 (print_nat (nat (- sint w)) @ r) = - sint w"
      using True by (simp add: digits_print_nat digits_stop [OF r])
    then have "signed_digits (dropWhile is_space (print_d w @ r)) = sint w"
      using True by (simp add: print_d_def is_space_def signed_digits_def)
    then show ?thesis using b unfolding strtol_def by simp
  next
    case False
    then show ?thesis
      unfolding strtol_def using b signed_digits_nat [OF r, of "nat (sint w)"] by (simp add: print_d_def)
  qed
  then show ?thesis by (simp add: atoi_def)
qed

section \<open>ICMP errors\<close>

definition ICMP_DEST_UNREACH :: cint where "ICMP_DEST_UNREACH = 3"
definition ICMP_TIME_EXCEEDED :: cint where "ICMP_TIME_EXCEEDED = 11"
definition ICMP_EXC_TTL :: cint where "ICMP_EXC_TTL = 0"

text \<open>The size of \<open>err_str\<close>; the last byte is the terminating 0.\<close>
definition ERR_STR_SIZE :: nat where "ERR_STR_SIZE = 16"

text \<open>\<open>snprintf (buf, sizeof buf, ...)\<close>, and \<open>strncpy\<close> with the last byte set to 0.\<close>
definition bounded :: "string \<Rightarrow> string" where
  "bounded s = take (ERR_STR_SIZE - 1) s"

text \<open>The switch on the code of a destination-unreachable message; \<open>None\<close> is \<open>NULL\<close>.\<close>
definition unreach_str :: "cint \<Rightarrow> cint \<Rightarrow> string option" where
  "unreach_str code info =
     (if code = 0 \<or> code = 6 \<or> code = 8 \<or> code = 11 then Some ''!N''
      else if code = 1 \<or> code = 7 \<or> code = 12 then Some ''!H''
      else if code = 9 \<or> code = 10 \<or> code = 13 then Some ''!X''
      else if code = 3 then None
      else if code = 2 then Some ''!P''
      else if code = 4 then Some (bounded (''!F-'' @ print_d info))
      else if code = 5 then Some ''!S''
      else if code = 14 then Some ''!V''
      else if code = 15 then Some ''!C''
      else Some (bounded (''!<'' @ print_u code @ ''>'')))"

text \<open>What \<open>parse_icmp_response\<close> does with a message: it ignores it (the TTL ran out on the
  way), or the probe is final, with an error string unless the target was reached.\<close>
datatype icmp_result = Ttl_exceeded | Final "string option"

definition parse_icmp :: "cint \<Rightarrow> cint \<Rightarrow> cint \<Rightarrow> icmp_result" where
  "parse_icmp ty code info =
     (if ty = ICMP_TIME_EXCEEDED \<and> code = ICMP_EXC_TTL then Ttl_exceeded
      else
        let str = (if ty = ICMP_DEST_UNREACH then unreach_str code info else Some []);
            str' = (if str = Some [] then Some (bounded (''!<'' @ print_u ty @ ''-'' @ print_u code @ ''>''))
                    else str)
        in Final (map_option bounded str'))"

section \<open>The error string tells the message apart\<close>

lemma length_print_u: "unat w < 10 ^ Suc k \<Longrightarrow> length (print_u w) \<le> Suc k"
  unfolding print_u_def by (rule length_print_nat)

lemma length_print_d: "length (print_d w) \<le> 11"
proof -
  have "nat (- sint w) < 10 ^ Suc 9" "nat (sint w) < 10 ^ Suc 9"
    using sint_ge [of w] sint_lt [of w] by simp_all
  then show ?thesis using length_print_nat [of "nat (- sint w)" 9] length_print_nat [of "nat (sint w)" 9]
    by (auto simp: print_d_def)
qed

lemma bounded_short: "length s \<le> 15 \<Longrightarrow> bounded s = s"
  by (simp add: bounded_def ERR_STR_SIZE_def)

lemma print_nat_no_minus: "CHR ''-'' \<notin> set (print_nat n)"
  using print_nat_digits [of n] by (auto simp: list_all_iff digit_of_def)

lemma unreach_not_Nil: "unreach_str code info \<noteq> Some []"
  by (simp add: unreach_str_def bounded_def ERR_STR_SIZE_def)

lemma bounded_2: "bounded (bounded s) = bounded s"
  by (simp add: bounded_def)

lemma parse_icmp_unreach:
  "parse_icmp 3 code info = Final (map_option bounded (unreach_str code info))"
  using unreach_not_Nil [of code info]
  by (simp add: parse_icmp_def ICMP_DEST_UNREACH_def ICMP_TIME_EXCEEDED_def)

lemma parse_icmp_other:
  "ty \<noteq> 3 \<Longrightarrow> \<not> (ty = 11 \<and> code = 0) \<Longrightarrow>
     parse_icmp ty code info = Final (Some (bounded (''!<'' @ print_u ty @ ''-'' @ print_u code @ ''>'')))"
  by (auto simp: parse_icmp_def ICMP_DEST_UNREACH_def ICMP_TIME_EXCEEDED_def ICMP_EXC_TTL_def bounded_2 Let_def)

lemma atoi_bracket: "atoi (print_u w @ ''>'') = w" "atoi (print_u w @ ''-'' @ r) = w" "atoi (print_d w) = w"
  using atoi_print_u [of "''>''" w] atoi_print_u [of "''-'' @ r" w] atoi_print_d [of "[]" w]
  by (simp_all add: no_digit_def digit_of_def)

lemma other_string:
  assumes "unat ty < 256" "unat code < 256"
  shows "bounded (''!<'' @ print_u ty @ ''-'' @ print_u code @ ''>'') =
    ''!<'' @ print_u ty @ ''-'' @ print_u code @ ''>''"
  using length_print_u [of ty 2] length_print_u [of code 2] assms by (intro bounded_short) simp

lemma other_code:
  "tl (dropWhile (\<lambda>c. c \<noteq> CHR ''-'') (''!<'' @ print_u ty @ ''-'' @ r)) = r"
proof -
  have "dropWhile (\<lambda>c. c \<noteq> CHR ''-'') (print_u ty @ CHR ''-'' # r) = CHR ''-'' # r"
    unfolding print_u_def using print_nat_no_minus [of "unat ty"]
    by (subst dropWhile_append2) auto
  then show ?thesis by simp
qed

lemma unreach_string:
  assumes "unat code < 256" "unreach_str code info = Some s"
  shows "s \<noteq> [] \<and> length s < ERR_STR_SIZE \<and> (code = 4 \<longrightarrow> s = ''!F-'' @ print_d info) \<and>
    (16 \<le> unat code \<longrightarrow> s = ''!<'' @ print_u code @ ''>'')"
  using assms length_print_u [of code 2] length_print_d [of info]
  by (auto simp: unreach_str_def ERR_STR_SIZE_def bounded_short split: if_splits)

text \<open>The texts of the unreachable codes that print no number, by the code: net, host, protocol, port, (code 4 prints
  the MTU), source route, net and host unknown, source host isolated, the three prohibitions, the two types of service and the
  two precedences.\<close>
definition unreach_table :: "string option list" where
  "unreach_table = [Some ''!N'', Some ''!H'', Some ''!P'', None, Some [], Some ''!S'', Some ''!N'', Some ''!H'', Some ''!N'',
     Some ''!X'', Some ''!X'', Some ''!N'', Some ''!H'', Some ''!X'', Some ''!V'', Some ''!C'']"

lemma unreach_by_table:
  "list_all (\<lambda>c. parse_icmp 3 (word_of_nat c) info = Final (unreach_table ! c)) [0, 1, 2, 3, 5, 6, 7, 8, 9, 10, 11, 12, 13, 14, 15]"
  by (simp add: parse_icmp_unreach unreach_str_def unreach_table_def bounded_def ERR_STR_SIZE_def)

lemma unreach_plain:
  assumes "unat code < 16" "code \<noteq> 4"
  shows "parse_icmp 3 code info = Final (unreach_table ! unat code)"
proof -
  have "unat code \<noteq> 4" using assms(2) by (simp add: word_unat_eq_iff)
  then have "unat code \<in> set [0, 1, 2, 3, 5, 6, 7, 8, 9, 10, 11, 12, 13, 14, 15]"
    using assms(1) by (simp add: less_Suc_eq numeral_eq_Suc)
  then have "parse_icmp 3 (word_of_nat (unat code)) info = Final (unreach_table ! unat code)"
    using unreach_by_table [of info] unfolding list_all_iff by blast
  then show ?thesis by simp
qed

lemma unreach_numeric:
  "parse_icmp 3 4 info = Final (Some (''!F-'' @ print_d info))"
  "unat code < 256 \<Longrightarrow> 16 \<le> unat code \<Longrightarrow> parse_icmp 3 code info = Final (Some (''!<'' @ print_u code @ ''>''))"
proof -
  show "parse_icmp 3 4 info = Final (Some (''!F-'' @ print_d info))"
    using length_print_d [of info] by (simp add: parse_icmp_unreach unreach_str_def bounded_short)
  assume c: "unat code < 256" "16 \<le> unat code"
  have "code \<noteq> n" if "unat n < 16" for n using c that by auto
  then show "parse_icmp 3 code info = Final (Some (''!<'' @ print_u code @ ''>''))"
    using length_print_u [of code 2] c by (simp add: parse_icmp_unreach unreach_str_def bounded_short)
qed

text \<open>C34. What \<open>parse_icmp_response\<close> stores for an ICMP message (types and codes are bytes): nothing and no final probe
  exactly for a TTL exceeded on the way; for the unreachable codes 0 to 15 but 4 the text of the table, so nothing for an
  unreachable port; \<open>!F-mtu\<close>, \<open>!<code>\<close> and \<open>!<type-code>\<close> for a needed fragmentation, another unreachable
  code and another message, from which \<open>atoi\<close> reads the MTU, the code, and the type and the code. Every text fits
  \<open>err_str\<close> without being cut.\<close>
theorem icmp_roundtrip:
  assumes "unat ty < 256" "unat code < 256"
  shows "(parse_icmp ty code info = Ttl_exceeded \<longleftrightarrow> ty = 11 \<and> code = 0) \<and>
    (parse_icmp ty code info = Final None \<longleftrightarrow> ty = 3 \<and> code = 3) \<and>
    (ty = 3 \<and> unat code < 16 \<and> code \<noteq> 4 \<longrightarrow> parse_icmp ty code info = Final (unreach_table ! unat code)) \<and>
    (\<forall>s. parse_icmp ty code info = Final (Some s) \<longrightarrow>
       s \<noteq> [] \<and> length s < ERR_STR_SIZE \<and>
       (ty = 3 \<and> code = 4 \<longrightarrow> s = ''!F-'' @ print_d info \<and> atoi (drop 3 s) = info) \<and>
       (ty = 3 \<and> 16 \<le> unat code \<longrightarrow> s = ''!<'' @ print_u code @ ''>'' \<and> atoi (drop 2 s) = code) \<and>
       (ty \<noteq> 3 \<longrightarrow> s = ''!<'' @ print_u ty @ ''-'' @ print_u code @ ''>'' \<and> atoi (drop 2 s) = ty \<and>
          atoi (tl (dropWhile (\<lambda>c. c \<noteq> CHR ''-'') s)) = code))"
proof (cases "ty = 3")
  case True
  then have p: "parse_icmp ty code info = Final (map_option bounded (unreach_str code info))"
    using parse_icmp_unreach by simp
  have "unreach_str code info = None \<longleftrightarrow> code = 3" by (auto simp: unreach_str_def)
  moreover have "bounded s = s" if "unreach_str code info = Some s" for s
    using unreach_string [OF assms(2) that] by (intro bounded_short) (simp add: ERR_STR_SIZE_def)
  moreover have "parse_icmp ty code info = Final (unreach_table ! unat code)" if "unat code < 16" "code \<noteq> 4"
    using unreach_plain [OF that] True by simp
  ultimately show ?thesis
    using True p unreach_string [OF assms(2), of info] unreach_numeric(1) [of info] unreach_numeric(2) [OF assms(2)]
    by (auto simp: atoi_bracket)
next
  case False
  show ?thesis
  proof (cases "ty = 11 \<and> code = 0")
    case True
    then show ?thesis by (simp add: parse_icmp_def ICMP_TIME_EXCEEDED_def ICMP_EXC_TTL_def)
  next
    case n: False
    let ?s = "''!<'' @ print_u ty @ ''-'' @ print_u code @ ''>''"
    have "parse_icmp ty code info = Final (Some ?s)"
      using parse_icmp_other [OF False n] other_string [OF assms] by simp
    moreover have "length ?s < ERR_STR_SIZE"
      using length_print_u [of ty 2] length_print_u [of code 2] assms by (simp add: ERR_STR_SIZE_def)
    moreover have "atoi (drop 2 ?s) = ty" using atoi_bracket(2) [of ty "print_u code @ ''>''"] by simp
    moreover have "atoi (tl (dropWhile (\<lambda>c. c \<noteq> CHR ''-'') ?s)) = code"
      unfolding other_code by (rule atoi_bracket(1))
    ultimately show ?thesis using False n by auto
  qed
qed

theorem icmp_roundtrip_witness:
  "parse_icmp 3 4 1492 = Final (Some ''!F-1492'') \<and> atoi (drop 3 ''!F-1492'') = 1492 \<and> parse_icmp 3 12 0 = Final (Some ''!H'')"
proof -
  have p: "parse_icmp 3 4 1492 = Final (Some ''!F-1492'')" by code_simp
  have b: "unat (3 :: cint) < 256" "unat (4 :: cint) < 256" "unat (12 :: cint) < 256" by simp_all
  from icmp_roundtrip [OF b(1,2), of 1492] p have "atoi (drop 3 ''!F-1492'') = 1492" by blast
  with icmp_roundtrip [OF b(1,3), of 0] p show ?thesis by (simp add: unreach_table_def)
qed

end
