(* ===== verification/Traceroute.thy ===== *)
theory Traceroute
  imports Traceroute_Options Icmp "HOL-Library.Signed_Division"
begin

text \<open>
  \<open>successive_traceroute/ip_stuff.c\<close>: one UDP probe per number \<open>pn\<close>, its TTL, the
  parsing of the answer, and the host name strings, which are shared between probes of the same
  TTL and freed at the end. The socket calls, the clock and the name service are the environment:
  what they answer is a parameter, any answer is allowed.

  Times are microseconds. A host name pointer is the address of an allocated string or one of
  the two static strings.
\<close>

section \<open>Data\<close>

text \<open>An address: its family (0 when it was never set) and the address itself.\<close>
record saddr =
  family :: nat
  ipaddr :: nat

definition AF_INET :: nat where "AF_INET = 2"
definition AF_INET6 :: nat where "AF_INET6 = 10"
definition no_addr :: saddr where "no_addr = \<lparr>family = 0, ipaddr = 0\<rparr>"

datatype hostname = Host_unknown | Host_unknown_bad_AF | Allocated nat

abbreviation PROBE_UNKNOWN :: int where "PROBE_UNKNOWN \<equiv> 0"
abbreviation PROBE_OK :: int where "PROBE_OK \<equiv> 1"
abbreviation PROBE_ERR_INIT :: int where "PROBE_ERR_INIT \<equiv> 2"
abbreviation PROBE_ERR_SEND :: int where "PROBE_ERR_SEND \<equiv> 3"
abbreviation PROBE_ERR_RECV :: int where "PROBE_ERR_RECV \<equiv> 4"
abbreviation PROBE_ERR_TIMEOUT :: int where "PROBE_ERR_TIMEOUT \<equiv> 5"

text \<open>\<open>struct probe_info\<close>; \<open>None\<close> is \<open>NULL\<close>.\<close>
record probe_info =
  probe_result :: int
  pdest_port :: "16 word"
  recv_addr :: saddr
  recv_hostname :: "hostname option"
  recv_ttl :: int
  sock :: int
  send_time :: int
  recv_time :: int
  pdata :: "nat option"
  data_len :: nat
  err_str :: string

definition probe0 :: probe_info where
  "probe0 = \<lparr>probe_result = PROBE_UNKNOWN, pdest_port = 0, recv_addr = no_addr, recv_hostname = None,
     recv_ttl = 0, sock = 0, send_time = 0, recv_time = 0, pdata = None, data_len = 0, err_str = []\<rparr>"

text \<open>\<open>struct traceroute_info\<close> with the heap of strings and what has been printed.\<close>
record tr_info =
  tr_dest :: saddr
  final_probe :: int
  tr_probes :: "probe_info list"
  heap :: "nat \<Rightarrow> string option"
  next_addr :: nat
  tr_out :: "string list"

definition upd_probe :: "nat \<Rightarrow> (probe_info \<Rightarrow> probe_info) \<Rightarrow> tr_info \<Rightarrow> tr_info" where
  "upd_probe pn f tr = tr\<lparr>tr_probes := (tr_probes tr)[pn := f (tr_probes tr ! pn)]\<rparr>"

section \<open>The environment\<close>

text \<open>A control message of \<open>recvmsg\<close>: a time stamp, the TTL, an extended error (is its origin
  ICMP, the offender, type, code and info) or something else.\<close>
datatype cmsg = C_timestamp int | C_ttl int | C_recverr bool saddr cint cint cint | C_other

text \<open>How \<open>poll\<close> ends, at what time; a message comes with \<open>POLLERR\<close> or not.\<close>
datatype poll_result = P_eintr | P_error | P_none | P_odd | P_recv_fails | P_message bool "cmsg list" saddr
datatype poll_event = Poll int poll_result

record probe_env =
  e_socket :: int
  e_bind_fails :: bool
  e_ttl_fails :: bool
  e_connect_fails :: bool
  e_recverr_fails :: bool
  e_send_fails :: bool
  e_sent_at :: int
  e_polls :: "poll_event list"
  e_now :: int

text \<open>What \<open>getnameinfo\<close> writes, numerically and by name.\<close>
record resolver =
  numeric_host :: "saddr \<Rightarrow> string"
  named_host :: "saddr \<Rightarrow> string"

section \<open>Sending\<close>

definition traceroute_probe2ttl :: "topts \<Rightarrow> nat \<Rightarrow> nat" where
  "traceroute_probe2ttl op pn = 1 + pn div nat (sint (probes op))"

definition payload :: "nat \<Rightarrow> string" where
  "payload n = map (\<lambda>i. char_of (64 + i mod 64 :: nat)) [0..<n]"

text \<open>\<open>calloc\<close> and \<open>strdup\<close> do not fail.\<close>
definition alloc :: "string \<Rightarrow> tr_info \<Rightarrow> nat \<times> tr_info" where
  "alloc s tr = (next_addr tr, tr\<lparr>heap := (heap tr)(next_addr tr := Some s), next_addr := next_addr tr + 1\<rparr>)"

text \<open>The result is the return code and the state.\<close>
definition traceroute_send :: "topts \<Rightarrow> probe_env \<Rightarrow> nat \<Rightarrow> tr_info \<Rightarrow> int \<times> tr_info" where
  "traceroute_send op e pn tr =
     (let tr1 = upd_probe pn (\<lambda>p. p\<lparr>sock := e_socket e\<rparr>) tr in
      if e_socket e < 0 then (3, tr1)
      else if e_bind_fails e then (4, tr1)
      else if e_ttl_fails e then (5, tr1)
      else
        let tr2 = (if dest_port_seq op
                   then upd_probe pn (\<lambda>p. p\<lparr>pdest_port := dest_port op + word_of_nat pn\<rparr>) tr1 else tr1) in
        if e_connect_fails e then (6, tr2)
        else if e_recverr_fails e then (5, tr2)
        else
          let n = unat (packet_len op);
              (a, tr3) = alloc (payload n) tr2;
              tr4 = upd_probe pn (\<lambda>p. p\<lparr>data_len := n, pdata := Some a, send_time := e_sent_at e\<rparr>) tr3
          in if e_send_fails e then (6, tr4) else (0, tr4))"

section \<open>Receiving\<close>

definition set_final_probe :: "nat \<Rightarrow> tr_info \<Rightarrow> tr_info" where
  "set_final_probe pn tr =
     (if final_probe tr < 0 \<or> int pn < final_probe tr then tr\<lparr>final_probe := int pn\<rparr> else tr)"

definition parse_icmp_response :: "nat \<Rightarrow> cint \<Rightarrow> cint \<Rightarrow> cint \<Rightarrow> tr_info \<Rightarrow> tr_info" where
  "parse_icmp_response pn ty code info tr =
     (case parse_icmp ty code info of
        Ttl_exceeded \<Rightarrow> tr
      | Final None \<Rightarrow> set_final_probe pn tr
      | Final (Some s) \<Rightarrow> set_final_probe pn (upd_probe pn (\<lambda>p. p\<lparr>err_str := s\<rparr>) tr))"

definition parse_one_cmsg :: "nat \<Rightarrow> cmsg \<Rightarrow> tr_info \<Rightarrow> tr_info" where
  "parse_one_cmsg pn cm tr =
     (case cm of
        C_timestamp t \<Rightarrow> upd_probe pn (\<lambda>p. p\<lparr>recv_time := t\<rparr>) tr
      | C_ttl n \<Rightarrow> upd_probe pn (\<lambda>p. p\<lparr>recv_ttl := n\<rparr>) tr
      | C_recverr icmp a ty code info \<Rightarrow>
          if icmp then parse_icmp_response pn ty code info (upd_probe pn (\<lambda>p. p\<lparr>recv_addr := a\<rparr>) tr) else tr
      | C_other \<Rightarrow> tr)"

definition parse_cmsg :: "int \<Rightarrow> nat \<Rightarrow> cmsg list \<Rightarrow> tr_info \<Rightarrow> tr_info" where
  "parse_cmsg now pn msg tr =
     (let tr1 = fold (parse_one_cmsg pn) msg tr in
      if recv_time (tr_probes tr1 ! pn) = 0 then upd_probe pn (\<lambda>p. p\<lparr>recv_time := now\<rparr>) tr1 else tr1)"

text \<open>The \<open>do ... while (1)\<close> of \<open>traceroute_receive\<close> up to its \<open>break\<close>:
  \<open>Inl\<close> a return code, \<open>Inr\<close> a message; \<open>None\<close> when the events run out and the loop
  still polls. The conversion of the rest of the timeout to milliseconds truncates.\<close>
definition poll_timeout :: "int \<Rightarrow> int \<Rightarrow> int" where
  "poll_timeout deadline now = (deadline - now) sdiv 1000"

fun poll_loop :: "int \<Rightarrow> poll_event list \<Rightarrow> (int + bool \<times> cmsg list \<times> saddr) option" where
  "poll_loop deadline [] = None"
| "poll_loop deadline (Poll now r # es) =
     (if poll_timeout deadline now < 0 then Some (Inl 1)
      else case r of
        P_eintr \<Rightarrow> poll_loop deadline es
      | P_error \<Rightarrow> Some (Inl 3)
      | P_none \<Rightarrow> Some (Inl 2)
      | P_odd \<Rightarrow> Some (Inl 4)
      | P_recv_fails \<Rightarrow> poll_loop deadline es
      | P_message err msg a \<Rightarrow> Some (Inr (err, msg, a)))"

definition traceroute_receive :: "topts \<Rightarrow> probe_env \<Rightarrow> nat \<Rightarrow> tr_info \<Rightarrow> (int \<times> tr_info) option" where
  "traceroute_receive op e pn tr =
     (case poll_loop (send_time (tr_probes tr ! pn) + timeout op) (e_polls e) of
        None \<Rightarrow> None
      | Some (Inl rc) \<Rightarrow> Some (rc, tr)
      | Some (Inr (err, msg, a)) \<Rightarrow>
          (let tr1 = parse_cmsg (e_now e) pn msg tr;
               tr2 = (if err then tr1
                      else set_final_probe pn (upd_probe pn (\<lambda>p. p\<lparr>recv_addr := a\<rparr>) tr1))
           in Some (0, upd_probe pn (\<lambda>p. p\<lparr>sock := -1\<rparr>) tr2)))"

section \<open>Host names\<close>

definition A2S_NORESOLVE :: int where "A2S_NORESOLVE = 0"
definition A2S_RESOLVE_H :: int where "A2S_RESOLVE_H = 2"

definition addr2str :: "resolver \<Rightarrow> saddr \<Rightarrow> int \<Rightarrow> tr_info \<Rightarrow> hostname \<times> tr_info" where
  "addr2str rs sa how tr =
     (if family sa = 0 then (Host_unknown_bad_AF, tr)
      else
        let ipstr = numeric_host rs sa; nameip = named_host rs sa;
            s = (if how = A2S_NORESOLVE then ipstr
                 else if how = A2S_RESOLVE_H then nameip
                 else if ipstr \<noteq> nameip then nameip @ '' ('' @ ipstr @ '')'' else nameip);
            (a, tr') = alloc s tr
        in (Allocated a, tr'))"

definition same_ipaddr :: "saddr \<Rightarrow> saddr \<Rightarrow> bool" where
  "same_ipaddr sa1 sa2 \<longleftrightarrow> family sa1 = family sa2 \<and>
     (family sa1 = AF_INET \<or> family sa1 = AF_INET6) \<and> ipaddr sa1 = ipaddr sa2"

text \<open>\<open>strcmp\<close> of two host names reads the strings.\<close>
definition host_text :: "tr_info \<Rightarrow> hostname \<Rightarrow> string" where
  "host_text tr h =
     (case h of
        Host_unknown \<Rightarrow> ''*''
      | Host_unknown_bad_AF \<Rightarrow> ''*(bad AF)''
      | Allocated a \<Rightarrow> (case heap tr a of Some s \<Rightarrow> s | None \<Rightarrow> []))"

section \<open>One probe\<close>

text \<open>The name of the answering host: that of the previous probe when both probe the same TTL and
  were answered from the same address, else a new string.\<close>
definition probe_hostname :: "topts \<Rightarrow> resolver \<Rightarrow> nat \<Rightarrow> tr_info \<Rightarrow> hostname option \<times> tr_info" where
  "probe_hostname op rs pn tr =
     (let prev = tr_probes tr ! (pn - 1); addr = recv_addr (tr_probes tr ! pn) in
      if pn mod nat (sint (probes op)) = 0 \<or> \<not> same_ipaddr (recv_addr prev) addr \<or> recv_hostname prev = None
      then (case addr2str rs addr (if noresolve op then 0 else 1) tr of (h, tr') \<Rightarrow> (Some h, tr'))
      else (recv_hostname prev, tr))"

definition do_one_probe :: "topts \<Rightarrow> resolver \<Rightarrow> probe_env \<Rightarrow> nat \<Rightarrow> tr_info \<Rightarrow> tr_info option" where
  "do_one_probe op rs e pn tr =
     (case traceroute_send op e pn tr of
        (rc, tr1) \<Rightarrow>
          if rc \<noteq> 0 then Some (upd_probe pn (\<lambda>p. p\<lparr>sock := -1, probe_result := PROBE_ERR_SEND\<rparr>) tr1)
          else
            (case traceroute_receive op e pn tr1 of
               None \<Rightarrow> None
             | Some (rc, tr2) \<Rightarrow>
                 if rc \<noteq> 0 then
                   Some (upd_probe pn (\<lambda>p. p\<lparr>sock := -1, probe_result := PROBE_ERR_TIMEOUT,
                     recv_hostname := Some Host_unknown\<rparr>) tr2)
                 else
                   (case probe_hostname op rs pn (upd_probe pn (\<lambda>p. p\<lparr>probe_result := PROBE_OK\<rparr>) tr2) of
                      (h, tr3) \<Rightarrow>
                        let tr4 = upd_probe pn (\<lambda>p. p\<lparr>recv_hostname := h\<rparr>) tr3
                        in Some (if err_str (tr_probes tr4 ! pn) \<noteq> []
                                 then upd_probe pn (\<lambda>p. p\<lparr>probe_result := PROBE_ERR_RECV\<rparr>) tr4 else tr4))))"

section \<open>Printing\<close>

text \<open>\<open>%2u.\<close>, and microseconds as milliseconds with three decimals.\<close>
definition print_ttl :: "nat \<Rightarrow> string" where
  "print_ttl n = (let s = print_nat n in if length s < 2 then '' '' @ s @ ''.'' else s @ ''.'')"

definition print_ms :: "int \<Rightarrow> string" where
  "print_ms d =
     (let n = nat \<bar>d\<bar>; s = print_nat (n mod 1000) in
      ''  '' @ (if d < 0 then ''-'' else []) @ print_nat (n div 1000) @ ''.'' @
      replicate (3 - length s) CHR ''0'' @ s @ '' ms'')"

definition tr_print :: "string \<Rightarrow> tr_info \<Rightarrow> tr_info" where
  "tr_print s tr = tr\<lparr>tr_out := tr_out tr @ [s]\<rparr>"

definition print_name :: "topts \<Rightarrow> nat \<Rightarrow> tr_info \<Rightarrow> string" where
  "print_name op pn tr =
     (case recv_hostname (tr_probes tr ! pn) of
        None \<Rightarrow> '' *?''
      | Some h \<Rightarrow>
          (let prev = recv_hostname (tr_probes tr ! (pn - 1)) in
           if pn mod nat (sint (probes op)) = 0 \<or> h = Host_unknown \<or> h = Host_unknown_bad_AF \<or>
              (prev \<noteq> Some h \<and> map_option (host_text tr) prev \<noteq> Some (host_text tr h))
           then '' '' @ host_text tr h else []))"

definition print_one_probe :: "topts \<Rightarrow> nat \<Rightarrow> tr_info \<Rightarrow> tr_info outcome" where
  "print_one_probe op pn tr =
     (let p = tr_probes tr ! pn; r = probe_result p; n = nat (sint (probes op)) in
      if r = PROBE_ERR_INIT \<or> r = PROBE_ERR_SEND then Exits EXIT_FAILURE tr
      else if r = PROBE_ERR_TIMEOUT \<or> r = PROBE_OK \<or> r = PROBE_ERR_RECV then
        Returns (tr_print
          ((if pn mod n = 0 then print_ttl (traceroute_probe2ttl op pn) else []) @
           print_name op pn tr @
           (if recv_time p \<noteq> 0 then print_ms (recv_time p - send_time p) else []) @
           (if err_str p \<noteq> [] then '' '' @ err_str p else []) @
           (if pn mod n = n - 1 then [CHR 0x0A] else [])) tr)
      else Returns (tr_print (''Unknown error?'' @ [CHR 0x0A]) tr))"

section \<open>The memory of a probe\<close>

text \<open>\<open>free\<close> of a pointer that is not allocated, a static string included, is an error.\<close>
definition free_addr :: "nat \<Rightarrow> tr_info \<Rightarrow> tr_info option" where
  "free_addr a tr = (if heap tr a = None then None else Some (tr\<lparr>heap := (heap tr)(a := None)\<rparr>))"

definition free_host :: "hostname \<Rightarrow> tr_info \<Rightarrow> tr_info option" where
  "free_host h tr = (case h of Allocated a \<Rightarrow> free_addr a tr | _ \<Rightarrow> None)"

text \<open>The other probes of the same TTL.\<close>
definition same_ttl :: "topts \<Rightarrow> nat \<Rightarrow> nat list" where
  "same_ttl op pn =
     (let n = nat (sint (probes op)) in filter (\<lambda>j. j \<noteq> pn) [pn div n * n ..< (pn div n + 1) * n])"

definition traceroute_free_mem_probe :: "topts \<Rightarrow> nat \<Rightarrow> tr_info \<Rightarrow> tr_info option" where
  "traceroute_free_mem_probe op pn tr =
     (case (case pdata (tr_probes tr ! pn) of None \<Rightarrow> Some tr | Some a \<Rightarrow> free_addr a tr) of
        None \<Rightarrow> None
      | Some tr1 \<Rightarrow>
          (case recv_hostname (tr_probes tr1 ! pn) of
             None \<Rightarrow> Some tr1
           | Some h \<Rightarrow>
               if h = Host_unknown then Some tr1
               else if list_ex (\<lambda>j. recv_hostname (tr_probes tr1 ! j) = Some h) (same_ttl op pn)
               then Some (upd_probe pn (\<lambda>p. p\<lparr>recv_hostname := None\<rparr>) tr1)
               else map_option (upd_probe pn (\<lambda>p. p\<lparr>recv_hostname := None\<rparr>)) (free_host h tr1)))"

fun free_probes :: "topts \<Rightarrow> nat list \<Rightarrow> tr_info \<Rightarrow> tr_info option" where
  "free_probes op [] tr = Some tr"
| "free_probes op (pn # pns) tr =
     (case traceroute_free_mem_probe op pn tr of None \<Rightarrow> None | Some tr1 \<Rightarrow> free_probes op pns tr1)"

section \<open>The whole run\<close>

text \<open>\<open>for (pn = 0; pn < opts.max_ttl * opts.probes; pn++)\<close> of \<open>do_traceroute\<close>;
  \<open>None\<close>: a probe never returns.\<close>
definition probe_count :: "topts \<Rightarrow> nat" where
  "probe_count op = nat (sint (max_ttl op) * sint (probes op))"

function probe_loop ::
    "topts \<Rightarrow> resolver \<Rightarrow> (nat \<Rightarrow> probe_env) \<Rightarrow> nat \<Rightarrow> tr_info \<Rightarrow> tr_info outcome option" where
  "probe_loop op rs env pn tr =
     (if pn < probe_count op then
        (case do_one_probe op rs (env pn) pn tr of
           None \<Rightarrow> None
         | Some tr1 \<Rightarrow>
             (case print_one_probe op pn tr1 of
                Exits x tr2 \<Rightarrow> Some (Exits x tr2)
              | Returns tr2 \<Rightarrow>
                  if 0 \<le> final_probe tr2 \<and> pn mod nat (sint (probes op)) = nat (sint (probes op)) - 1
                  then Some (Returns tr2)
                  else probe_loop op rs env (pn + 1) tr2))
      else Some (Returns tr))"
  by pat_completeness auto
termination by (relation "measure (\<lambda>(op, rs, env, pn, tr). probe_count op - pn)") auto

declare probe_loop.simps [simp del]

text \<open>The number of elements of \<open>tr.probes\<close>, the array of \<open>traceroute.h\<close>.\<close>
definition PROBES_SIZE :: nat where "PROBES_SIZE = MAX_TTL * MAX_PROBES"

text \<open>\<open>traceroute_init\<close>, from the answer of \<open>getaddrinfo\<close>: the last IPv4 address is taken; an
  address longer than \<open>dest_addr\<close> is an error.\<close>
definition SOCKADDR_SIZE :: nat where "SOCKADDR_SIZE = 28"

fun pick_addr :: "(saddr \<times> nat) list \<Rightarrow> saddr \<Rightarrow> saddr option" where
  "pick_addr [] dest = Some dest"
| "pick_addr ((a, len) # as) dest =
     (if family a = AF_INET then (if len > SOCKADDR_SIZE then None else pick_addr as a)
      else pick_addr as dest)"

definition traceroute_init :: "topts \<Rightarrow> (saddr \<times> nat) list option \<Rightarrow> tr_info option" where
  "traceroute_init op gai =
     (case gai of
        None \<Rightarrow> None
      | Some as \<Rightarrow>
          (case pick_addr as \<lparr>family = AF_INET, ipaddr = 0\<rparr> of
             None \<Rightarrow> None
           | Some d \<Rightarrow>
               Some \<lparr>tr_dest = d, final_probe = -1,
                 tr_probes = map (\<lambda>pn. if pn < probe_count op then probe0\<lparr>sock := -1\<rparr> else probe0) [0..<PROBES_SIZE],
                 heap = (\<lambda>_. None), next_addr = 0, tr_out = []\<rparr>))"

definition tr_header :: "topts \<Rightarrow> string \<Rightarrow> string \<Rightarrow> string" where
  "tr_header op host addr =
     ''traceroute to '' @ (if host \<noteq> addr then host @ '' ('' @ addr @ '')'' else host) @
     '' port '' @ print_nat (unat (dest_port op)) @ (if dest_port_seq op then ''+'' else []) @
     '' (max ttl '' @ print_d (max_ttl op) @ '', '' @ print_d (probes op) @
     '' probes per ttl, packet size '' @ print_d (ucast (packet_len op)) @ '' bytes):'' @ [CHR 0x0A]"

text \<open>How the process ends: with an exit status, by an invalid \<open>free\<close>, or not at all.\<close>
datatype tr_result = Ends int "tr_info option" | Crashes tr_info | Hangs

definition do_traceroute ::
    "topts \<Rightarrow> resolver \<Rightarrow> (saddr \<times> nat) list option \<Rightarrow> (nat \<Rightarrow> probe_env) \<Rightarrow> string \<Rightarrow> tr_result" where
  "do_traceroute op rs gai env host =
     (case traceroute_init op gai of
        None \<Rightarrow> Ends 1 None
      | Some tr0 \<Rightarrow>
          (case addr2str rs (tr_dest tr0) A2S_NORESOLVE tr0 of
             (h, tr1) \<Rightarrow>
               (case probe_loop op rs env 0 (tr_print (tr_header op host (host_text tr1 h)) tr1) of
                  None \<Rightarrow> Hangs
                | Some (Exits x tr2) \<Rightarrow> Ends x (Some tr2)
                | Some (Returns tr2) \<Rightarrow>
                    (case (if h \<noteq> Host_unknown \<and> h \<noteq> Host_unknown_bad_AF then free_host h tr2 else Some tr2) of
                       None \<Rightarrow> Crashes tr2
                     | Some tr3 \<Rightarrow>
                         (case free_probes op [0..<nat (final_probe tr3 + 1)] tr3 of
                            None \<Rightarrow> Crashes tr3
                          | Some tr4 \<Rightarrow> Ends 0 (Some tr4))))))"

end
