(* ===== verification/Traceroute_Memory.thy ===== *)
theory Traceroute_Memory
  imports Traceroute
begin

text \<open>
  The strings of \<open>successive_traceroute\<close>: who holds which one, what one probe does to them,
  and how \<open>traceroute_free_mem_probe\<close> frees them. A host name may be shared by probes of
  the same TTL; every string that a live holder points to is allocated.
\<close>

section \<open>Updates of one probe\<close>

lemma upd_probe_simps [simp]:
  "heap (upd_probe pn f tr) = heap tr" "next_addr (upd_probe pn f tr) = next_addr tr"
  "final_probe (upd_probe pn f tr) = final_probe tr" "tr_out (upd_probe pn f tr) = tr_out tr"
  "length (tr_probes (upd_probe pn f tr)) = length (tr_probes tr)"
  by (simp_all add: upd_probe_def)

lemma upd_probe_nth [simp]:
  "j < length (tr_probes tr) \<Longrightarrow>
     tr_probes (upd_probe pn f tr) ! j = (if j = pn then f (tr_probes tr ! pn) else tr_probes tr ! j)"
  by (simp add: upd_probe_def)

lemma set_final_probe_simps [simp]:
  "heap (set_final_probe pn tr) = heap tr" "next_addr (set_final_probe pn tr) = next_addr tr"
  "tr_probes (set_final_probe pn tr) = tr_probes tr" "tr_out (set_final_probe pn tr) = tr_out tr"
  by (simp_all add: set_final_probe_def)

section \<open>Who holds which string\<close>

text \<open>The resolved target of \<open>do_traceroute\<close>, the packet data and the host name of each probe.\<close>
datatype holder = Target | Data nat | Name nat

fun host_addr :: "hostname option \<Rightarrow> nat option" where
  "host_addr (Some (Allocated a)) = Some a"
| "host_addr _ = None"

fun held :: "hostname \<Rightarrow> tr_info \<Rightarrow> holder \<Rightarrow> nat option" where
  "held h tr Target = host_addr (Some h)"
| "held h tr (Data j) = (if j < length (tr_probes tr) then pdata (tr_probes tr ! j) else None)"
| "held h tr (Name j) = (if j < length (tr_probes tr) then host_addr (recv_hostname (tr_probes tr ! j)) else None)"

text \<open>Only host names of the same TTL may be the same string.\<close>
fun cell :: "nat \<Rightarrow> holder \<Rightarrow> nat \<times> nat" where
  "cell n Target = (0, 0)"
| "cell n (Data j) = (1, j)"
| "cell n (Name j) = (2, j div n)"

definition mem_ok :: "(holder \<Rightarrow> bool) \<Rightarrow> nat \<Rightarrow> hostname \<Rightarrow> tr_info \<Rightarrow> bool" where
  "mem_ok live n h tr \<longleftrightarrow>
     (\<forall>w a. live w \<longrightarrow> held h tr w = Some a \<longrightarrow> heap tr a \<noteq> None) \<and>
     (\<forall>w w' a. live w \<longrightarrow> live w' \<longrightarrow> held h tr w = Some a \<longrightarrow> held h tr w' = Some a \<longrightarrow> cell n w = cell n w') \<and>
     (\<forall>a\<ge>next_addr tr. heap tr a = None)"

lemma mem_okI:
  assumes "\<And>w a. live w \<Longrightarrow> held h tr w = Some a \<Longrightarrow> heap tr a \<noteq> None"
    and "\<And>w w' a. live w \<Longrightarrow> live w' \<Longrightarrow> held h tr w = Some a \<Longrightarrow> held h tr w' = Some a \<Longrightarrow>
      cell n w = cell n w'"
    and "\<And>a. next_addr tr \<le> a \<Longrightarrow> heap tr a = None"
  shows "mem_ok live n h tr"
  unfolding mem_ok_def using assms by blast

lemma mem_okD:
  assumes "mem_ok live n h tr"
  shows mem_alloc: "live w \<Longrightarrow> held h tr w = Some a \<Longrightarrow> heap tr a \<noteq> None"
    and mem_cell: "live w \<Longrightarrow> live w' \<Longrightarrow> held h tr w = Some a \<Longrightarrow> held h tr w' = Some a \<Longrightarrow>
      cell n w = cell n w'"
    and mem_fresh: "next_addr tr \<le> b \<Longrightarrow> heap tr b = None"
  using assms unfolding mem_ok_def by blast+

lemma mem_ok_same:
  assumes "mem_ok live n h tr" "heap tr' = heap tr" "next_addr tr' = next_addr tr"
    and "\<And>w. held h tr' w = held h tr w"
  shows "mem_ok live n h tr'"
  using assms(1) unfolding mem_ok_def assms(2-4) .

lemma held_upd:
  "(\<And>p. pdata (f p) = pdata p \<and> recv_hostname (f p) = recv_hostname p) \<Longrightarrow>
     held h (upd_probe pn f tr) w = held h tr w"
  by (cases w) auto

lemma mem_ok_upd:
  "mem_ok live n h tr \<Longrightarrow> (\<And>p. pdata (f p) = pdata p \<and> recv_hostname (f p) = recv_hostname p) \<Longrightarrow>
     mem_ok live n h (upd_probe pn f tr)"
  by (rule mem_ok_same) (auto simp: held_upd)

lemma mem_ok_set_final: "mem_ok live n h tr \<Longrightarrow> mem_ok live n h (set_final_probe pn tr)"
proof (rule mem_ok_same)
  show "held h (set_final_probe pn tr) w = held h tr w" for w by (cases w) simp_all
qed simp_all

lemma mem_ok_print: "mem_ok live n h tr \<Longrightarrow> mem_ok live n h (tr_print s tr)"
proof (rule mem_ok_same)
  show "held h (tr_print s tr) w = held h tr w" for w by (cases w) (simp_all add: tr_print_def)
qed (simp_all add: tr_print_def)

text \<open>A new string, held by one holder.\<close>
lemma mem_ok_new:
  assumes ok: "mem_ok live n h tr" and al: "alloc s tr = (a, tr1)"
    and "heap tr' = heap tr1" "next_addr tr' = next_addr tr1"
    and up: "\<And>w. held h tr' w = (if w = w0 then Some a else held h tr w)"
  shows "mem_ok live n h tr'"
proof -
  have a: "a = next_addr tr" "heap tr' = (heap tr)(a := Some s)" "next_addr tr' = a + 1"
    using assms(2-4) by (auto simp: alloc_def)
  have n: "held h tr w \<noteq> Some a" if "live w" for w
    using mem_alloc [OF ok that, of a] mem_fresh [OF ok, of a] a(1) by auto
  show ?thesis
  proof (rule mem_okI)
    show "heap tr' b \<noteq> None" if "live w" "held h tr' w = Some b" for w b
      using that mem_alloc [OF ok, of w b] by (cases "w = w0") (auto simp: up a(2))
    show "cell n w = cell n w'"
      if "live w" "live w'" "held h tr' w = Some b" "held h tr' w' = Some b" for w w' b
      using that n mem_cell [OF ok that(1,2), of b] by (cases "w = w0"; cases "w' = w0") (auto simp: up)
    show "heap tr' b = None" if "next_addr tr' \<le> b" for b
      using that mem_fresh [OF ok, of b] a by simp
  qed
qed

lemma mem_ok_share:
  assumes ok: "mem_ok live n h tr" and "heap tr' = heap tr" "next_addr tr' = next_addr tr"
    and up: "\<And>w. held h tr' w = (if w = w0 then held h tr w1 else held h tr w)"
    and c: "cell n w0 = cell n w1" "live w1"
  shows "mem_ok live n h tr'"
proof -
  have f: "held h tr (if w = w0 then w1 else w) = Some b" "live (if w = w0 then w1 else w)"
      "cell n (if w = w0 then w1 else w) = cell n w"
    if "live w" "held h tr' w = Some b" for w b
    using that up [of w] c by (cases "w = w0"; simp)+
  show ?thesis
  proof (rule mem_okI)
    show "heap tr' b \<noteq> None" if "live w" "held h tr' w = Some b" for w b
      unfolding assms(2) by (rule mem_alloc [OF ok f(2,1) [OF that]])
    show "cell n w = cell n w'"
      if "live w" "live w'" "held h tr' w = Some b" "held h tr' w' = Some b" for w w' b
      using mem_cell [OF ok f(2) [OF that(1,3)] f(2) [OF that(2,4)] f(1) [OF that(1,3)] f(1) [OF that(2,4)]]
      unfolding f(3) [OF that(1,3)] f(3) [OF that(2,4)] .
    show "heap tr' b = None" if "next_addr tr' \<le> b" for b
      using that mem_fresh [OF ok, of b] unfolding assms(2,3) by blast
  qed
qed

lemma mem_ok_less:
  assumes ok: "mem_ok live n h tr" and "next_addr tr' = next_addr tr"
    and "\<And>a. heap tr' a \<noteq> heap tr a \<Longrightarrow> heap tr' a = None \<and> (\<forall>w. live' w \<longrightarrow> held h tr' w \<noteq> Some a)"
    and "\<And>w a. held h tr' w = Some a \<Longrightarrow> held h tr w = Some a"
    and "\<And>w. live' w \<Longrightarrow> live w"
  shows "mem_ok live' n h tr'"
proof (rule mem_okI)
  show "heap tr' b \<noteq> None" if "live' w" "held h tr' w = Some b" for w b
  proof (cases "heap tr' b = heap tr b")
    case True
    then show ?thesis using mem_alloc [OF ok assms(5) [OF that(1)] assms(4) [OF that(2)]] by simp
  next
    case False
    then show ?thesis using assms(3) [OF False] that by blast
  qed
  show "cell n w = cell n w'"
    if "live' w" "live' w'" "held h tr' w = Some b" "held h tr' w' = Some b" for w w' b
    using that mem_cell [OF ok, of w w' b] assms(4,5) by blast
  show "heap tr' b = None" if "next_addr tr' \<le> b" for b
    using that mem_fresh [OF ok, of b] assms(2) assms(3) [of b] by metis
qed

text \<open>Freeing the string of a holder who shares it with nobody alive.\<close>
lemma mem_ok_free:
  assumes ok: "mem_ok live n h tr" and "live w0" "held h tr w0 = Some a"
    and "\<And>w. live' w \<Longrightarrow> live w \<and> held h tr w \<noteq> Some a"
  shows "\<exists>tr'. free_addr a tr = Some tr' \<and> mem_ok live' n h tr' \<and> tr_probes tr' = tr_probes tr \<and>
    final_probe tr' = final_probe tr"
proof -
  have al: "heap tr a \<noteq> None" using mem_alloc [OF ok assms(2,3)] .
  let ?tr = "tr\<lparr>heap := (heap tr)(a := None)\<rparr>"
  have h: "held h ?tr w = held h tr w" for w by (cases w) simp_all
  have "mem_ok live' n h ?tr"
    by (rule mem_ok_less [OF ok]) (use assms(4) in \<open>auto simp: h split: if_splits\<close>)
  then show ?thesis using al by (simp add: free_addr_def)
qed

section \<open>What one probe does\<close>

text \<open>The probe \<open>pn\<close> is final: an answer that is not an ICMP error, or an ICMP error other than
  an exceeded TTL.\<close>
definition icmp_final :: "cmsg \<Rightarrow> bool" where
  "icmp_final cm = (case cm of C_recverr icmp a ty code info \<Rightarrow> icmp \<and> parse_icmp ty code info \<noteq> Ttl_exceeded | _ \<Rightarrow> False)"

definition answer_final :: "topts \<Rightarrow> probe_env \<Rightarrow> bool" where
  "answer_final op e =
     (case poll_loop (e_sent_at e + timeout op) (e_polls e) of
        Some (Inr (err, msg, a)) \<Rightarrow> \<not> err \<or> list_ex icmp_final msg
      | _ \<Rightarrow> False)"

text \<open>What an operation on probe \<open>pn\<close> leaves alone.\<close>
definition keeps :: "nat \<Rightarrow> tr_info \<Rightarrow> tr_info \<Rightarrow> bool" where
  "keeps pn tr tr' \<longleftrightarrow> length (tr_probes tr') = length (tr_probes tr) \<and> tr_out tr' = tr_out tr \<and>
     (\<forall>j<length (tr_probes tr). j \<noteq> pn \<longrightarrow> tr_probes tr' ! j = tr_probes tr ! j)"

lemma keeps_upd: "keeps pn tr (upd_probe pn f tr)"
  by (simp add: keeps_def)

lemma keeps_trans: "keeps pn tr tr1 \<Longrightarrow> keeps pn tr1 tr2 \<Longrightarrow> keeps pn tr tr2"
  by (simp add: keeps_def)

lemma keeps_refl: "keeps pn tr tr"
  by (simp add: keeps_def)

lemma keeps_final: "keeps pn tr (set_final_probe pn tr)"
  by (simp add: keeps_def)

definition final_after :: "bool \<Rightarrow> nat \<Rightarrow> int \<Rightarrow> int" where
  "final_after b pn f = (if b \<and> (f < 0 \<or> int pn < f) then int pn else f)"

lemma final_after_or: "final_after b pn (final_after b' pn f) = final_after (b' \<or> b) pn f"
  by (auto simp: final_after_def)

lemma set_final_after: "final_probe (set_final_probe pn tr) = final_after True pn (final_probe tr)"
  by (simp add: set_final_probe_def final_after_def)

text \<open>An operation on probe \<open>pn\<close> that neither allocates nor stores a string.\<close>
definition receives :: "nat \<Rightarrow> bool \<Rightarrow> tr_info \<Rightarrow> tr_info \<Rightarrow> bool" where
  "receives pn b tr tr' \<longleftrightarrow> keeps pn tr tr' \<and> (\<forall>h w. held h tr' w = held h tr w) \<and>
     heap tr' = heap tr \<and> next_addr tr' = next_addr tr \<and>
     final_probe tr' = final_after b pn (final_probe tr)"

lemma receives_trans: "receives pn b tr tr1 \<Longrightarrow> receives pn b' tr1 tr2 \<Longrightarrow> receives pn (b \<or> b') tr tr2"
  by (auto simp: receives_def final_after_or intro: keeps_trans)

lemma receives_upd:
  "(\<And>p. pdata (f p) = pdata p \<and> recv_hostname (f p) = recv_hostname p) \<Longrightarrow>
     receives pn False tr (upd_probe pn f tr)"
  by (simp add: receives_def keeps_upd held_upd final_after_def)

lemma receives_refl: "receives pn False tr tr"
  by (simp add: receives_def keeps_refl final_after_def)

lemma receives_final: "receives pn True tr (set_final_probe pn tr)"
proof -
  have "held h (set_final_probe pn tr) w = held h tr w" for h w by (cases w) simp_all
  then show ?thesis by (simp add: receives_def keeps_final set_final_after)
qed

lemma receives_or: "receives pn b tr tr1 \<Longrightarrow> receives pn b' tr1 tr2 \<Longrightarrow> (b \<or> b') = c \<Longrightarrow> receives pn c tr tr2"
  using receives_trans by blast

lemma receives_icmp:
  "receives pn (parse_icmp ty code info \<noteq> Ttl_exceeded) tr (parse_icmp_response pn ty code info tr)"
  by (auto simp: parse_icmp_response_def receives_refl receives_final split: icmp_result.splits option.splits
      intro: receives_or [OF receives_upd receives_final])

lemma receives_cmsg: "receives pn (icmp_final cm) tr (parse_one_cmsg pn cm tr)"
  by (cases cm) (auto simp: parse_one_cmsg_def icmp_final_def receives_refl
      intro: receives_upd receives_or [OF receives_upd receives_icmp])

lemma receives_fold: "receives pn (list_ex icmp_final msg) tr (fold (parse_one_cmsg pn) msg tr)"
proof (induction msg arbitrary: tr)
  case (Cons cm msg)
  show ?case using receives_or [OF receives_cmsg Cons.IH] by simp
qed (simp add: receives_refl)

lemma receives_parse: "receives pn (list_ex icmp_final msg) tr (parse_cmsg now pn msg tr)"
  unfolding parse_cmsg_def Let_def
  by (auto intro: receives_fold receives_or [OF receives_fold receives_upd])

lemma receives_receive:
  assumes "traceroute_receive op e pn tr = Some (rc, tr')" "send_time (tr_probes tr ! pn) = e_sent_at e"
  shows "receives pn (answer_final op e) tr tr'"
proof (cases "poll_loop (e_sent_at e + timeout op) (e_polls e)")
  case None
  then show ?thesis using assms by (simp add: traceroute_receive_def)
next
  case (Some r)
  show ?thesis
  proof (cases r)
    case (Inl rc)
    then show ?thesis using Some assms by (simp add: traceroute_receive_def answer_final_def receives_refl)
  next
    case (Inr m)
    obtain err msg a where m: "m = (err, msg, a)" by (cases m)
    let ?tr1 = "parse_cmsg (e_now e) pn msg tr"
    let ?tr2 = "if err then ?tr1 else set_final_probe pn (upd_probe pn (\<lambda>p. p\<lparr>recv_addr := a\<rparr>) ?tr1)"
    have e: "(list_ex icmp_final msg \<or> \<not> err) = answer_final op e"
      unfolding answer_final_def Some Inr m option.case sum.case prod.case by (rule disj_commute)
    have 2: "receives pn (\<not> err) ?tr1 ?tr2"
      by (auto intro: receives_refl receives_or [OF receives_upd receives_final])
    have "receives pn (answer_final op e) tr ?tr2"
      by (rule receives_or [OF receives_parse 2 e])
    then have r: "receives pn (answer_final op e) tr (upd_probe pn (\<lambda>p. p\<lparr>sock := -1\<rparr>) ?tr2)"
      by (rule receives_or [OF _ receives_upd]) simp_all
    have t: "traceroute_receive op e pn tr = Some (0, upd_probe pn (\<lambda>p. p\<lparr>sock := -1\<rparr>) ?tr2)"
      unfolding traceroute_receive_def assms(2) Some Inr m Let_def option.case sum.case prod.case ..
    show ?thesis
      using r assms(1) [unfolded t] by (metis option.inject prod.inject)
  qed
qed

lemma alloc_fields:
  "alloc s tr = (a, tr1) \<Longrightarrow> tr_probes tr1 = tr_probes tr \<and> tr_out tr1 = tr_out tr \<and>
     final_probe tr1 = final_probe tr"
  by (auto simp: alloc_def)

lemma held_alloc: "alloc s tr = (a, tr1) \<Longrightarrow> held h tr1 w = held h tr w"
  by (cases w) (auto simp: alloc_def)

definition sends :: "nat \<Rightarrow> tr_info \<Rightarrow> tr_info \<Rightarrow> bool" where
  "sends pn tr tr' \<longleftrightarrow> keeps pn tr tr' \<and> final_probe tr' = final_probe tr \<and>
     (\<forall>n h. mem_ok (\<lambda>_. True) n h tr \<longrightarrow> mem_ok (\<lambda>_. True) n h tr')"

lemma sends_trans: "sends pn tr tr1 \<Longrightarrow> sends pn tr1 tr2 \<Longrightarrow> sends pn tr tr2"
  unfolding sends_def by (auto intro: keeps_trans)

lemma sends_upd:
  "(\<And>p. pdata (f p) = pdata p \<and> recv_hostname (f p) = recv_hostname p) \<Longrightarrow> sends pn tr (upd_probe pn f tr)"
  unfolding sends_def by (auto intro: keeps_upd mem_ok_upd)

lemma sends_data:
  assumes "pn < length (tr_probes tr)" "alloc s tr = (a, tr1)"
  shows "sends pn tr (upd_probe pn (\<lambda>p. p\<lparr>data_len := n, pdata := Some a, send_time := t\<rparr>) tr1)"
    (is "sends pn tr ?tr")
proof -
  note al = alloc_fields [OF assms(2)]
  have h: "held h ?tr w = (if w = Data pn then Some a else held h tr w)" for h w
    using assms(1) al by (cases w) auto
  have "mem_ok (\<lambda>_. True) n h ?tr" if "mem_ok (\<lambda>_. True) n h tr" for n h
    by (rule mem_ok_new [OF that assms(2), where ?w0.0 = "Data pn"]) (simp_all add: h)
  moreover have "keeps pn tr ?tr" using al by (simp add: keeps_def)
  ultimately show ?thesis using al by (simp add: sends_def)
qed

lemma sends_steps:
  assumes "pn < length (tr_probes tr)"
  shows "sends pn tr (upd_probe pn (\<lambda>p. p\<lparr>sock := s\<rparr>) tr)"
    and "sends pn tr (upd_probe pn (\<lambda>p. p\<lparr>pdest_port := d\<rparr>) (upd_probe pn (\<lambda>p. p\<lparr>sock := s\<rparr>) tr))"
proof -
  show 1: "sends pn tr (upd_probe pn (\<lambda>p. p\<lparr>sock := s\<rparr>) tr)" for s by (rule sends_upd) simp
  show "sends pn tr (upd_probe pn (\<lambda>p. p\<lparr>pdest_port := d\<rparr>) (upd_probe pn (\<lambda>p. p\<lparr>sock := s\<rparr>) tr))"
    by (rule sends_trans [OF 1]) (rule sends_upd, simp)
qed

lemma send_ok:
  assumes "traceroute_send op e pn tr = (rc, tr')" "pn < length (tr_probes tr)"
  shows "sends pn tr tr' \<and> (rc = 0 \<longrightarrow> send_time (tr_probes tr' ! pn) = e_sent_at e)"
proof -
  let ?tr1 = "upd_probe pn (\<lambda>p. p\<lparr>sock := e_socket e\<rparr>) tr"
  let ?tr2 = "if dest_port_seq op then upd_probe pn (\<lambda>p. p\<lparr>pdest_port := dest_port op + word_of_nat pn\<rparr>) ?tr1
    else ?tr1"
  obtain a tr3 where a: "alloc (payload (unat (packet_len op))) ?tr2 = (a, tr3)" by (cases "alloc (payload (unat (packet_len op))) ?tr2")
  let ?tr4 = "upd_probe pn (\<lambda>p. p\<lparr>data_len := unat (packet_len op), pdata := Some a, send_time := e_sent_at e\<rparr>) tr3"
  have len: "pn < length (tr_probes ?tr2)" using assms(2) by simp
  have 1: "sends pn tr ?tr1" by (rule sends_upd) simp
  have 2: "sends pn tr ?tr2" using sends_steps [OF assms(2)] by simp
  have 4: "sends pn tr ?tr4" by (rule sends_trans [OF 2 sends_data [OF len a]])
  have t: "send_time (tr_probes ?tr4 ! pn) = e_sent_at e"
    using len alloc_fields [OF a] by simp
  have "(rc, tr') \<in> {(3, ?tr1), (4, ?tr1), (5, ?tr1), (6, ?tr2), (5, ?tr2), (6, ?tr4), (0, ?tr4)}"
    using assms(1) unfolding traceroute_send_def Let_def a
    by (simp only: prod.case insert_iff split: if_splits) simp_all
  then show ?thesis
    using 1 2 4 t by (elim insertE emptyE Pair_inject; hypsubst; simp only: simp_thms zero_neq_numeral numeral_eq_iff; simp)
qed

text \<open>Every socket call of \<open>traceroute_send\<close> succeeds.\<close>
definition sendable :: "probe_env \<Rightarrow> bool" where
  "sendable e \<longleftrightarrow> 0 \<le> e_socket e \<and> \<not> e_bind_fails e \<and> \<not> e_ttl_fails e \<and> \<not> e_connect_fails e \<and>
     \<not> e_recverr_fails e \<and> \<not> e_send_fails e"

lemma send_rc: "traceroute_send op e pn tr = (rc, tr') \<Longrightarrow> rc = 0 \<longleftrightarrow> sendable e"
  by (auto simp: traceroute_send_def sendable_def Let_def split: if_splits prod.splits)

lemma hostname_keeps:
  assumes "probe_hostname op rs pn tr = (h, tr')"
  shows "tr_probes tr' = tr_probes tr \<and> tr_out tr' = tr_out tr \<and> final_probe tr' = final_probe tr"
  using assms by (auto simp: probe_hostname_def addr2str_def alloc_def Let_def split: if_splits prod.splits)

lemma keeps_hostname:
  assumes "probe_hostname op rs pn tr = (h, tr')"
  shows "keeps pn tr (upd_probe pn f tr')" "final_probe (upd_probe pn f tr') = final_probe tr"
  using hostname_keeps [OF assms] by (simp_all add: keeps_def)

lemma do_one_probe_cases:
  assumes "do_one_probe op rs e pn tr = Some tr'" "pn < length (tr_probes tr)"
  obtains (unsent) tr1 f where "\<not> sendable e" "sends pn tr tr1" "tr' = upd_probe pn f tr1"
      "\<And>p. probe_result (f p) = PROBE_ERR_SEND \<and> pdata (f p) = pdata p \<and> recv_hostname (f p) = recv_hostname p"
    | (silent) tr1 tr2 rc f where "sendable e" "sends pn tr tr1" "receives pn (answer_final op e) tr1 tr2"
      "traceroute_receive op e pn tr1 = Some (rc, tr2)" "rc \<noteq> 0" "tr' = upd_probe pn f tr2"
      "\<And>p. probe_result (f p) = PROBE_ERR_TIMEOUT \<and> pdata (f p) = pdata p \<and> recv_hostname (f p) = Some Host_unknown"
    | (answered) tr1 tr2 h tr3 where "sendable e" "sends pn tr tr1" "receives pn (answer_final op e) tr1 tr2"
      "traceroute_receive op e pn tr1 = Some (0, tr2)"
      "probe_hostname op rs pn (upd_probe pn (\<lambda>p. p\<lparr>probe_result := PROBE_OK\<rparr>) tr2) = (h, tr3)"
      "tr' \<in> {upd_probe pn (\<lambda>p. p\<lparr>recv_hostname := h\<rparr>) tr3,
         upd_probe pn (\<lambda>p. p\<lparr>probe_result := PROBE_ERR_RECV\<rparr>) (upd_probe pn (\<lambda>p. p\<lparr>recv_hostname := h\<rparr>) tr3)}"
proof -
  obtain rc1 tr1 where s: "traceroute_send op e pn tr = (rc1, tr1)" by (cases "traceroute_send op e pn tr")
  note ok = send_ok [OF s assms(2)]
  show ?thesis
  proof (cases "rc1 = 0")
    case False
    then have "tr' = upd_probe pn (\<lambda>p. p\<lparr>sock := -1, probe_result := PROBE_ERR_SEND\<rparr>) tr1"
      using assms(1) unfolding do_one_probe_def s prod.case by (simp only: if_True not_False_eq_True option.inject)
    then show ?thesis using False ok send_rc [OF s] by (intro unsent) auto
  next
    case True
    note r1 = assms(1) [unfolded do_one_probe_def s prod.case True simp_thms if_False]
    obtain rc tr2 where r: "traceroute_receive op e pn tr1 = Some (rc, tr2)"
      using r1 by (cases "traceroute_receive op e pn tr1") auto
    have rec: "receives pn (answer_final op e) tr1 tr2"
      using receives_receive [OF r] ok True by blast
    show ?thesis
    proof (cases "rc = 0")
      case False
      then show ?thesis
        using r1 [unfolded r option.case prod.case] ok True send_rc [OF s] r rec
        by (intro silent [of tr1 tr2 rc "\<lambda>p. p\<lparr>sock := -1, probe_result := PROBE_ERR_TIMEOUT,
            recv_hostname := Some Host_unknown\<rparr>"]) simp_all
    next
      case rc: True
      obtain h tr3 where h:
        "probe_hostname op rs pn (upd_probe pn (\<lambda>p. p\<lparr>probe_result := PROBE_OK\<rparr>) tr2) = (h, tr3)"
        by (cases "probe_hostname op rs pn (upd_probe pn (\<lambda>p. p\<lparr>probe_result := PROBE_OK\<rparr>) tr2)")
      have "tr' \<in> {upd_probe pn (\<lambda>p. p\<lparr>recv_hostname := h\<rparr>) tr3,
         upd_probe pn (\<lambda>p. p\<lparr>probe_result := PROBE_ERR_RECV\<rparr>) (upd_probe pn (\<lambda>p. p\<lparr>recv_hostname := h\<rparr>) tr3)}"
        using r1 [unfolded r option.case prod.case rc simp_thms if_False h Let_def option.inject]
        by (simp only: insert_iff split: if_splits) simp_all
      then show ?thesis
        using answered [OF _ _ rec r [unfolded rc] h] ok True send_rc [OF s] by blast
    qed
  qed
qed

lemma one_probe_keeps:
  assumes "do_one_probe op rs e pn tr = Some tr'" "pn < length (tr_probes tr)"
  shows "keeps pn tr tr' \<and> final_probe tr' = final_after (sendable e \<and> answer_final op e) pn (final_probe tr)"
  using assms
proof (cases rule: do_one_probe_cases)
  case (unsent tr1 f)
  then show ?thesis by (auto simp: sends_def final_after_def intro: keeps_trans keeps_upd)
next
  case (silent tr1 tr2 rc f)
  then show ?thesis by (auto simp: sends_def receives_def intro: keeps_trans keeps_upd)
next
  case (answered tr1 tr2 h tr3)
  have 1: "keeps pn tr tr2" "final_probe tr2 = final_after (answer_final op e) pn (final_probe tr)"
    using answered(2,3) by (auto simp: sends_def receives_def intro: keeps_trans)
  note k = keeps_trans [OF 1(1) keeps_trans [OF keeps_upd keeps_hostname(1) [OF answered(5)]]]
  note f = keeps_hostname(2) [OF answered(5), unfolded upd_probe_simps(3)]
  show ?thesis
    using answered(6)
  proof (elim insertE emptyE)
    show ?thesis if "tr' = upd_probe pn (\<lambda>p. p\<lparr>recv_hostname := h\<rparr>) tr3"
      using k f answered(1) 1(2) unfolding that by simp
    show ?thesis if "tr' = upd_probe pn (\<lambda>p. p\<lparr>probe_result := PROBE_ERR_RECV\<rparr>) (upd_probe pn (\<lambda>p. p\<lparr>recv_hostname := h\<rparr>) tr3)"
      using keeps_trans [OF k keeps_upd] f answered(1) 1(2) unfolding that by simp
  qed
qed

lemma answered_result:
  assumes "probe_hostname op rs pn (upd_probe pn (\<lambda>p. p\<lparr>probe_result := PROBE_OK\<rparr>) tr2) = (h, tr3)"
    and "pn < length (tr_probes tr2)"
    and "tr' \<in> {upd_probe pn (\<lambda>p. p\<lparr>recv_hostname := h\<rparr>) tr3,
         upd_probe pn (\<lambda>p. p\<lparr>probe_result := PROBE_ERR_RECV\<rparr>) (upd_probe pn (\<lambda>p. p\<lparr>recv_hostname := h\<rparr>) tr3)}"
  shows "probe_result (tr_probes tr' ! pn) \<in> {PROBE_OK, PROBE_ERR_RECV}"
proof -
  have "tr_probes tr3 = tr_probes (upd_probe pn (\<lambda>p. p\<lparr>probe_result := PROBE_OK\<rparr>) tr2)"
    using hostname_keeps [OF assms(1)] by blast
  then have "probe_result (tr_probes tr3 ! pn) = PROBE_OK" "pn < length (tr_probes tr3)"
    using assms(2) by simp_all
  then show ?thesis using assms(3) by (elim insertE emptyE) simp_all
qed

section \<open>Memory while probing\<close>

text \<open>Every message that is received names the host it comes from: a message of the error queue
  carries an ICMP error with its offender, any other one has a source.\<close>
definition icmp_origin :: "cmsg \<Rightarrow> saddr option" where
  "icmp_origin cm = (case cm of C_recverr icmp a ty code info \<Rightarrow> if icmp then Some a else None | _ \<Rightarrow> None)"

definition has_addr :: "bool \<Rightarrow> cmsg list \<Rightarrow> saddr \<Rightarrow> bool" where
  "has_addr err msg a \<longleftrightarrow>
     (if err then (let os = List.map_filter icmp_origin msg in os \<noteq> [] \<and> list_all (\<lambda>o'. family o' \<noteq> 0) os)
      else family a \<noteq> 0)"

definition addressed :: "probe_env \<Rightarrow> bool" where
  "addressed e \<longleftrightarrow>
     list_all (\<lambda>ev. case ev of Poll t r \<Rightarrow> (case r of P_message err msg a \<Rightarrow> has_addr err msg a | _ \<Rightarrow> True)) (e_polls e)"

lemma poll_loop_addr:
  "poll_loop d es = Some (Inr (err, msg, a)) \<Longrightarrow> \<exists>t. Poll t (P_message err msg a) \<in> set es"
  by (induction d es rule: poll_loop.induct) (auto split: if_splits poll_result.splits)

lemma parse_icmp_response_addr [simp]:
  "pn < length (tr_probes tr) \<Longrightarrow>
     recv_addr (tr_probes (parse_icmp_response pn ty code info tr) ! pn) = recv_addr (tr_probes tr ! pn) \<and>
     length (tr_probes (parse_icmp_response pn ty code info tr)) = length (tr_probes tr)"
  by (simp add: parse_icmp_response_def split: icmp_result.split option.split)

lemma parse_one_cmsg_addr:
  "pn < length (tr_probes tr) \<Longrightarrow>
     recv_addr (tr_probes (parse_one_cmsg pn cm tr) ! pn) =
       (case icmp_origin cm of Some a \<Rightarrow> a | None \<Rightarrow> recv_addr (tr_probes tr ! pn)) \<and>
     length (tr_probes (parse_one_cmsg pn cm tr)) = length (tr_probes tr)"
  by (cases cm) (simp_all add: parse_one_cmsg_def icmp_origin_def)

lemma parse_fold_addr:
  "pn < length (tr_probes tr) \<Longrightarrow>
     family (recv_addr (tr_probes tr ! pn)) \<noteq> 0 \<or> List.map_filter icmp_origin msg \<noteq> [] \<Longrightarrow>
     list_all (\<lambda>o'. family o' \<noteq> 0) (List.map_filter icmp_origin msg) \<Longrightarrow>
     family (recv_addr (tr_probes (fold (parse_one_cmsg pn) msg tr) ! pn)) \<noteq> 0"
proof (induction msg arbitrary: tr)
  case (Cons cm msg)
  show ?case
    unfolding fold_simps(2) comp_apply
    by (rule Cons.IH) (use Cons.prems parse_one_cmsg_addr [OF Cons.prems(1), of cm] in
        \<open>auto simp: map_filter_simps split: option.splits\<close>)
qed (simp add: map_filter_simps)

lemma parse_cmsg_addr:
  assumes "pn < length (tr_probes tr)" "has_addr True msg a"
  shows "family (recv_addr (tr_probes (parse_cmsg now pn msg tr) ! pn)) \<noteq> 0"
proof -
  let ?tr = "fold (parse_one_cmsg pn) msg tr"
  have "length (tr_probes ?tr) = length (tr_probes tr)"
    using receives_fold [of pn msg tr] by (simp add: receives_def keeps_def)
  moreover have "family (recv_addr (tr_probes ?tr ! pn)) \<noteq> 0"
    by (rule parse_fold_addr) (use assms in \<open>simp_all add: has_addr_def Let_def\<close>)
  ultimately show ?thesis using assms(1) by (simp add: parse_cmsg_def Let_def)
qed

lemma receive_addr:
  assumes "traceroute_receive op e pn tr = Some (0, tr')" "addressed e" "pn < length (tr_probes tr)"
  shows "family (recv_addr (tr_probes tr' ! pn)) \<noteq> 0"
proof -
  obtain r where r: "poll_loop (send_time (tr_probes tr ! pn) + timeout op) (e_polls e) = Some r"
    using assms(1) by (auto simp: traceroute_receive_def split: option.splits)
  have "r \<noteq> Inl 0"
  proof -
    have "poll_loop d es \<noteq> Some (Inl 0)" for d es
      by (induction d es rule: poll_loop.induct) (auto split: poll_result.splits)
    then show ?thesis using r by blast
  qed
  then obtain err msg a where m: "r = Inr (err, msg, a)"
    using assms(1) r by (cases r) (auto simp: traceroute_receive_def)
  let ?tr1 = "parse_cmsg (e_now e) pn msg tr"
  let ?tr2 = "if err then ?tr1 else set_final_probe pn (upd_probe pn (\<lambda>p. p\<lparr>recv_addr := a\<rparr>) ?tr1)"
  have "has_addr err msg a"
    using poll_loop_addr [OF r [unfolded m]] assms(2) by (auto simp: addressed_def list_all_iff split: poll_event.splits)
  then have 2: "family (recv_addr (tr_probes ?tr2 ! pn)) \<noteq> 0" "pn < length (tr_probes ?tr2)"
    using assms(3) parse_cmsg_addr [OF assms(3), of msg a "e_now e"] receives_parse [of pn msg tr "e_now e"]
    by (auto simp: receives_def keeps_def has_addr_def)
  have t: "tr' = upd_probe pn (\<lambda>p. p\<lparr>sock := -1\<rparr>) ?tr2"
    using assms(1) unfolding traceroute_receive_def r m Let_def option.case sum.case prod.case
    by (metis option.inject prod.inject)
  show ?thesis unfolding t upd_probe_nth [OF 2(2)] using 2(1) by simp
qed

definition no_static :: "nat \<Rightarrow> tr_info \<Rightarrow> bool" where
  "no_static k tr \<longleftrightarrow> (\<forall>j<k. recv_hostname (tr_probes tr ! j) \<noteq> Some Host_unknown_bad_AF)"

lemma no_static_Suc:
  "no_static pn tr \<Longrightarrow> keeps pn tr tr' \<Longrightarrow> pn < length (tr_probes tr) \<Longrightarrow>
     recv_hostname (tr_probes tr' ! pn) \<noteq> Some Host_unknown_bad_AF \<Longrightarrow> no_static (Suc pn) tr'"
  by (auto simp: no_static_def keeps_def less_Suc_eq)

lemma no_static_keeps:
  "no_static pn tr \<Longrightarrow> keeps pn tr tr' \<Longrightarrow> pn < length (tr_probes tr) \<Longrightarrow> no_static pn tr'"
  by (auto simp: no_static_def keeps_def)

lemma held_name:
  assumes "\<And>p. pdata (f p) = pdata p \<and> recv_hostname (f p) = hn" "pn < length (tr_probes tr)"
  shows "held h (upd_probe pn f tr) w = (if w = Name pn then host_addr hn else held h tr w)"
  using assms by (cases w) auto

text \<open>A new host name, or that of the previous probe.\<close>
lemma mem_ok_hostname:
  assumes "probe_hostname op rs pn tr = (h', tr')" "n = nat (sint (probes op))" "0 < n"
    and "pn < length (tr_probes tr)" "mem_ok (\<lambda>_. True) n h tr" "no_static pn tr"
    and "family (recv_addr (tr_probes tr ! pn)) \<noteq> 0"
  shows "mem_ok (\<lambda>_. True) n h (upd_probe pn (\<lambda>p. p\<lparr>recv_hostname := h'\<rparr>) tr') \<and>
    h' \<noteq> Some Host_unknown_bad_AF"
proof -
  let ?prev = "tr_probes tr ! (pn - 1)"
  let ?fresh = "pn mod n = 0 \<or> \<not> same_ipaddr (recv_addr ?prev) (recv_addr (tr_probes tr ! pn)) \<or> recv_hostname ?prev = None"
  show ?thesis
  proof (cases ?fresh)
    case True
    then obtain s a where al: "alloc s tr = (a, tr')" and h': "h' = Some (Allocated a)"
      using assms(1,2,7) by (auto simp: probe_hostname_def addr2str_def Let_def split: prod.splits if_splits)
    note al' = alloc_fields [OF al]
    have len: "pn < length (tr_probes tr')" using al' assms(4) by simp
    have "held h (upd_probe pn (\<lambda>p. p\<lparr>recv_hostname := h'\<rparr>) tr') w =
        (if w = Name pn then Some a else held h tr w)" for w
      using held_name [of "\<lambda>p. p\<lparr>recv_hostname := h'\<rparr>" h' pn tr' h w] len held_alloc [OF al] h' by simp
    then have "mem_ok (\<lambda>_. True) n h (upd_probe pn (\<lambda>p. p\<lparr>recv_hostname := h'\<rparr>) tr')"
      by (rule mem_ok_new [OF assms(5) al upd_probe_simps(1,2)])
    then show ?thesis using h' by simp
  next
    case False
    then have h': "h' = recv_hostname ?prev" "tr' = tr"
      using assms(1,2) by (auto simp: probe_hostname_def Let_def)
    have pn: "0 < pn" "(pn - 1) div n = pn div n" using False assms(3)
      by (cases pn; simp add: div_Suc mod_Suc split: if_splits)+
    have "held h (upd_probe pn (\<lambda>p. p\<lparr>recv_hostname := h'\<rparr>) tr) w =
        (if w = Name pn then held h tr (Name (pn - 1)) else held h tr w)" for w
      using held_name [of "\<lambda>p. p\<lparr>recv_hostname := h'\<rparr>" h' pn tr h w] less_imp_diff_less [OF assms(4), of 1] assms(4) h'
      by simp
    then have "mem_ok (\<lambda>_. True) n h (upd_probe pn (\<lambda>p. p\<lparr>recv_hostname := h'\<rparr>) tr)"
      by (rule mem_ok_share [OF assms(5) upd_probe_simps(1,2)]) (simp_all only: cell.simps pn(2))
    then show ?thesis using h' assms(6) pn by (simp add: no_static_def)
  qed
qed

lemma mem_ok_silent:
  assumes "mem_ok live n h tr" "pn < length (tr_probes tr)"
    and "\<And>p. pdata (f p) = pdata p \<and> recv_hostname (f p) = hn" "host_addr hn = None"
  shows "mem_ok live n h (upd_probe pn f tr)"
  by (rule mem_ok_less [OF assms(1)])
    (use held_name [OF assms(3,2), of h] assms(4) in \<open>auto split: if_splits\<close>)

lemma receives_mem: "receives pn b tr tr' \<Longrightarrow> mem_ok live n h tr \<Longrightarrow> mem_ok live n h tr'"
  unfolding receives_def by (elim conjE) (rule mem_ok_same, simp_all)

lemma sends_receives:
  assumes "sends pn tr tr1" "receives pn b tr1 tr2"
  shows "keeps pn tr tr2" "mem_ok (\<lambda>_. True) n h tr \<Longrightarrow> mem_ok (\<lambda>_. True) n h tr2"
  using keeps_trans [of pn tr tr1 tr2] receives_mem [OF assms(2)] assms
  unfolding sends_def receives_def by blast+

lemma keeps_len: "keeps pn tr tr' \<Longrightarrow> length (tr_probes tr') = length (tr_probes tr)"
  by (simp add: keeps_def)

lemma one_probe_printed:
  assumes "do_one_probe op rs e pn tr = Some tr'" "pn < length (tr_probes tr)" "sendable e"
  shows "\<exists>tr''. print_one_probe op pn tr' = Returns tr''"
proof -
  have "probe_result (tr_probes tr' ! pn) \<in> {PROBE_OK, PROBE_ERR_RECV, PROBE_ERR_TIMEOUT}"
    using assms(1,2)
  proof (cases rule: do_one_probe_cases)
    case (unsent tr1 f)
    then show ?thesis using assms(3) by blast
  next
    case (silent tr1 tr2 rc f)
    then show ?thesis
      using keeps_len [OF sends_receives(1) [OF silent(2,3)]] assms(2) silent(7) by simp
  next
    case (answered tr1 tr2 h tr3)
    have "pn < length (tr_probes tr2)"
      using keeps_len [OF sends_receives(1) [OF answered(2,3)]] assms(2) by simp
    from answered_result [OF answered(5) this answered(6)] show ?thesis by blast
  qed
  then show ?thesis by (auto simp: print_one_probe_def Let_def)
qed

lemma one_probe_mem:
  assumes "do_one_probe op rs e pn tr = Some tr'" "print_one_probe op pn tr' = Returns tr''"
    and "pn < length (tr_probes tr)" "n = nat (sint (probes op))" "0 < n"
    and "mem_ok (\<lambda>_. True) n h tr" "no_static pn tr" "addressed e"
  shows "mem_ok (\<lambda>_. True) n h tr' \<and> no_static (Suc pn) tr'"
proof -
  note k = conjunct1 [OF one_probe_keeps [OF assms(1,3)]]
  from assms(1,3) show ?thesis
  proof (cases rule: do_one_probe_cases)
    case (unsent tr1 f)
    have "pn < length (tr_probes tr1)" using unsent(2) assms(3) by (simp add: sends_def keeps_def)
    then show ?thesis
      using assms(2) unsent(3) unsent(4) [of "tr_probes tr1 ! pn"] by (simp add: print_one_probe_def Let_def)
  next
    case (silent tr1 tr2 rc f)
    have len: "pn < length (tr_probes tr2)"
      using keeps_len [OF sends_receives(1) [OF silent(2,3)]] assms(3) by simp
    have "mem_ok (\<lambda>_. True) n h tr2"
      by (rule sends_receives(2) [OF silent(2,3) assms(6)])
    then have m: "mem_ok (\<lambda>_. True) n h tr'"
      unfolding silent(6) by (rule mem_ok_silent [OF _ len conjunct2 [OF silent(7)]]) simp
    have "recv_hostname (tr_probes tr' ! pn) \<noteq> Some Host_unknown_bad_AF"
      using silent(7) [of "tr_probes tr2 ! pn"] len by (simp add: silent(6))
    then show ?thesis using m no_static_Suc [OF assms(7) k assms(3)] by blast
  next
    case (answered tr1 tr2 h' tr3)
    let ?ok = "upd_probe pn (\<lambda>p. p\<lparr>probe_result := PROBE_OK\<rparr>)"
    have len: "pn < length (tr_probes tr1)" "pn < length (tr_probes (?ok tr2))" "pn < length (tr_probes tr2)"
      using keeps_len [OF sends_receives(1) [OF answered(2,3)]] answered(2) assms(3)
      by (simp_all add: sends_def keeps_def)
    have m2: "mem_ok (\<lambda>_. True) n h (?ok tr2)"
      by (rule mem_ok_upd [OF sends_receives(2) [OF answered(2,3) assms(6)]]) simp
    have k2: "keeps pn tr (?ok tr2)"
      by (rule keeps_trans [OF sends_receives(1) [OF answered(2,3)] keeps_upd])
    have s2: "no_static pn (?ok tr2)"
      by (rule no_static_keeps [OF assms(7) k2 assms(3)])
    have a: "family (recv_addr (tr_probes (?ok tr2) ! pn)) \<noteq> 0"
      using receive_addr [OF answered(4) assms(8) len(1)] len(3) by simp
    note m = mem_ok_hostname [OF answered(5) assms(4,5) len(2) m2 s2 a]
    have l3: "pn < length (tr_probes tr3)" using hostname_keeps [OF answered(5)] len(2) by simp
    have "mem_ok (\<lambda>_. True) n h tr' \<and> recv_hostname (tr_probes tr' ! pn) = h'"
      using answered(6) m l3 by (elim insertE emptyE) (simp_all add: mem_ok_upd)
    then show ?thesis using m no_static_Suc [OF assms(7) k assms(3)] by blast
  qed
qed

section \<open>Freeing\<close>

text \<open>While probe \<open>i\<close> is about to be freed, its strings and those of later probes are live; once
  its packet data are gone, its host name still is.\<close>
fun to_free :: "nat \<Rightarrow> holder \<Rightarrow> bool" where
  "to_free i Target = False"
| "to_free i (Data j) = (i \<le> j)"
| "to_free i (Name j) = (i \<le> j)"

fun name_left :: "nat \<Rightarrow> holder \<Rightarrow> bool" where
  "name_left i Target = False"
| "name_left i (Data j) = (i < j)"
| "name_left i (Name j) = (i \<le> j)"

lemma name_left_to_free: "name_left i w \<Longrightarrow> to_free i w" "to_free (Suc i) w \<Longrightarrow> name_left i w"
  by (cases w; simp)+

lemma mem_ok_live: "mem_ok live n h tr \<Longrightarrow> (\<And>w. live' w \<Longrightarrow> live w) \<Longrightarrow> mem_ok live' n h tr"
  by (rule mem_ok_less [of live n h tr tr live']) auto

lemma free_data:
  assumes "mem_ok (to_free pn) n h tr" "pn < length (tr_probes tr)"
  shows "\<exists>tr1. (case pdata (tr_probes tr ! pn) of None \<Rightarrow> Some tr | Some a \<Rightarrow> free_addr a tr) = Some tr1 \<and>
    mem_ok (name_left pn) n h tr1 \<and> tr_probes tr1 = tr_probes tr"
proof (cases "pdata (tr_probes tr ! pn)")
  case None
  then show ?thesis using mem_ok_live [OF assms(1) name_left_to_free(1)] by simp
next
  case (Some a)
  have "held h tr w \<noteq> Some a" if "name_left pn w" for w
  proof
    assume "held h tr w = Some a"
    then have "cell n (Data pn) = cell n w"
      using mem_cell [OF assms(1), of "Data pn" w a] Some assms(2) name_left_to_free(1) [OF that] by simp
    then show False using that by (cases w) simp_all
  qed
  then have "\<exists>tr'. free_addr a tr = Some tr' \<and> mem_ok (name_left pn) n h tr' \<and> tr_probes tr' = tr_probes tr \<and>
      final_probe tr' = final_probe tr"
    using Some assms(2) name_left_to_free(1) by (intro mem_ok_free [OF assms(1), of "Data pn"]) auto
  then show ?thesis using Some by auto
qed

lemma row_iff:
  fixes n j q :: nat
  assumes "0 < n"
  shows "q * n \<le> j \<and> j < (q + 1) * n \<longleftrightarrow> j div n = q"
proof
  assume "q * n \<le> j \<and> j < (q + 1) * n"
  then show "j div n = q" by (intro div_nat_eqI) (simp_all add: mult.commute)
next
  assume "j div n = q"
  then show "q * n \<le> j \<and> j < (q + 1) * n"
    using div_mult_mod_eq [of j n] mod_less_divisor [OF assms, of j] by (simp add: algebra_simps)
qed

lemma same_ttl_iff:
  assumes "n = nat (sint (probes op))" "0 < n"
  shows "j \<in> set (same_ttl op pn) \<longleftrightarrow> j \<noteq> pn \<and> j div n = pn div n"
  using row_iff [OF assms(2), of "pn div n" j] by (auto simp: same_ttl_def Let_def assms(1))

lemma free_name:
  assumes m: "mem_ok (name_left pn) n h tr" and "n = nat (sint (probes op))" "0 < n" "pn < length (tr_probes tr)"
    and "recv_hostname (tr_probes tr ! pn) = Some (Allocated a)"
    and "\<not> list_ex (\<lambda>j. recv_hostname (tr_probes tr ! j) = Some (Allocated a)) (same_ttl op pn)"
  shows "\<exists>tr1. free_addr a tr = Some tr1 \<and> mem_ok (to_free (Suc pn)) n h tr1 \<and> tr_probes tr1 = tr_probes tr"
proof -
  have "held h tr w \<noteq> Some a" if w: "to_free (Suc pn) w" for w
  proof
    assume a: "held h tr w = Some a"
    have c: "cell n (Name pn) = cell n w"
      using mem_cell [OF m, of "Name pn" w a] assms(4,5) a name_left_to_free(2) [OF w] by simp
    then obtain j where j: "w = Name j" "j div n = pn div n" "pn < j" using w by (cases w) auto
    then have "recv_hostname (tr_probes tr ! j) = Some (Allocated a)"
      using a by (auto split: if_splits elim: host_addr.elims)
    then show False using assms(6) same_ttl_iff [OF assms(2,3), of j pn] j by (auto simp: list_ex_iff)
  qed
  then have "\<exists>tr'. free_addr a tr = Some tr' \<and> mem_ok (to_free (Suc pn)) n h tr' \<and> tr_probes tr' = tr_probes tr \<and>
      final_probe tr' = final_probe tr"
    using assms(4,5) name_left_to_free(2) by (intro mem_ok_free [OF m, of "Name pn"]) auto
  then show ?thesis by blast
qed

lemma free_mem_probe_ok:
  assumes m: "mem_ok (to_free pn) n h tr" and n: "n = nat (sint (probes op))" "0 < n"
    and pn: "pn < length (tr_probes tr)" "recv_hostname (tr_probes tr ! pn) \<noteq> Some Host_unknown_bad_AF"
  shows "\<exists>tr'. traceroute_free_mem_probe op pn tr = Some tr' \<and> mem_ok (to_free (Suc pn)) n h tr' \<and>
    length (tr_probes tr') = length (tr_probes tr) \<and>
    (\<forall>j<length (tr_probes tr). j \<noteq> pn \<longrightarrow> tr_probes tr' ! j = tr_probes tr ! j)"
proof -
  obtain tr1 where tr1: "(case pdata (tr_probes tr ! pn) of None \<Rightarrow> Some tr | Some a \<Rightarrow> free_addr a tr) = Some tr1"
    and m1: "mem_ok (name_left pn) n h tr1" and p1: "tr_probes tr1 = tr_probes tr"
    using free_data [OF m pn(1)] by blast
  note f = traceroute_free_mem_probe_def [of op pn tr, unfolded tr1 option.case]
  have m2: "mem_ok (to_free (Suc pn)) n h tr1"
    by (rule mem_ok_live [OF m1 name_left_to_free(2)])
  have m3: "mem_ok (to_free (Suc pn)) n h (upd_probe pn (\<lambda>p. p\<lparr>recv_hostname := None\<rparr>) tr2)"
    if "mem_ok (to_free (Suc pn)) n h tr2" "tr_probes tr2 = tr_probes tr" for tr2
    by (rule mem_ok_silent [OF that(1), of _ _ None]) (simp_all add: that pn)
  show ?thesis
  proof (cases "recv_hostname (tr_probes tr ! pn)")
    case None
    then show ?thesis using m2 p1 by (simp add: f)
  next
    case (Some h')
    show ?thesis
    proof (cases "h' = Host_unknown \<or> list_ex (\<lambda>j. recv_hostname (tr_probes tr ! j) = Some h') (same_ttl op pn)")
      case True
      then show ?thesis using Some m2 m3 [OF m2 p1] p1 by (auto simp: f)
    next
      case False
      then obtain a where a: "h' = Allocated a" using pn(2) Some by (cases h') auto
      obtain tr2 where "free_addr a tr1 = Some tr2" "mem_ok (to_free (Suc pn)) n h tr2" "tr_probes tr2 = tr_probes tr"
        using free_name [OF m1 n, of a] pn(1) Some a False p1 by auto
      then show ?thesis using Some a False m3 [of tr2] p1 by (simp add: f free_host_def)
    qed
  qed
qed

lemma free_probes_ok:
  assumes "mem_ok (to_free i) n h tr" "n = nat (sint (probes op))" "0 < n" "m \<le> length (tr_probes tr)"
    and "\<And>j. i \<le> j \<Longrightarrow> j < m \<Longrightarrow> recv_hostname (tr_probes tr ! j) \<noteq> Some Host_unknown_bad_AF"
  shows "free_probes op [i..<m] tr \<noteq> None"
  using assms
proof (induction "m - i" arbitrary: i tr)
  case (Suc k)
  then have i: "i < m" by simp
  obtain tr1 where tr1: "traceroute_free_mem_probe op i tr = Some tr1" "mem_ok (to_free (Suc i)) n h tr1"
    "length (tr_probes tr1) = length (tr_probes tr)"
    "\<forall>j<length (tr_probes tr). j \<noteq> i \<longrightarrow> tr_probes tr1 ! j = tr_probes tr ! j"
    using free_mem_probe_ok [OF Suc.prems(1-3)] Suc.prems(4) Suc.prems(5) [of i] i by force
  have "free_probes op [Suc i..<m] tr1 \<noteq> None"
    by (rule Suc.hyps) (use Suc.hyps(2) Suc.prems tr1 in auto)
  then show ?case using tr1(1) i by (simp add: upt_conv_Cons)
qed simp

end
