(* ===== verification/Traceroute_Run.thy ===== *)
theory Traceroute_Run
  imports Traceroute_Memory
begin

text \<open>
  What is proved of \<open>successive_traceroute\<close> as a whole: that it ends, which probe is taken as
  the final one and how many are sent, and that every string is freed at most once when each
  answer names the host it comes from.
\<close>

section \<open>The loop over the probes\<close>

lemma print_one_probe_keeps:
  assumes "print_one_probe op pn tr = Returns tr'"
  obtains s where "tr' = tr_print s tr"
  using assms by (auto simp: print_one_probe_def Let_def split: if_splits)














section \<open>The whole run\<close>

text \<open>The environment of a probe lets \<open>traceroute_receive\<close> return: some \<open>poll\<close> comes back
  after the deadline, if nothing happened before.\<close>
definition polls_end :: "topts \<Rightarrow> probe_env \<Rightarrow> bool" where
  "polls_end op e \<longleftrightarrow>
     list_ex (\<lambda>ev. case ev of Poll t r \<Rightarrow> poll_timeout (e_sent_at e + timeout op) t < 0) (e_polls e)"

lemma poll_loop_ends:
  "list_ex (\<lambda>ev. case ev of Poll t r \<Rightarrow> poll_timeout d t < 0) es \<Longrightarrow> poll_loop d es \<noteq> None"
  by (induction d es rule: poll_loop.induct) (auto split: poll_result.splits)

lemma do_one_probe_ends:
  assumes "polls_end op e" "pn < length (tr_probes tr)"
  shows "do_one_probe op rs e pn tr \<noteq> None"
proof -
  obtain rc tr1 where s: "traceroute_send op e pn tr = (rc, tr1)" by (cases "traceroute_send op e pn tr")
  have "traceroute_receive op e pn tr1 \<noteq> None" if "rc = 0"
  proof -
    have "poll_loop (send_time (tr_probes tr1 ! pn) + timeout op) (e_polls e) \<noteq> None"
      using poll_loop_ends [OF assms(1) [unfolded polls_end_def]] send_ok [OF s assms(2)] that by simp
    then show ?thesis by (auto simp: traceroute_receive_def Let_def split: sum.splits)
  qed
  then show ?thesis by (auto simp: do_one_probe_def s Let_def split: prod.splits)
qed

lemma probe_loop_ends:
  assumes "\<And>pn. pn < probe_count op \<Longrightarrow> polls_end op (env pn)" "probe_count op \<le> length (tr_probes tr)"
  shows "probe_loop op rs env pn tr \<noteq> None"
  using assms
proof (induction op rs env pn tr rule: probe_loop.induct)
  case (1 op rs env pn tr)
  show ?case
  proof (cases "pn < probe_count op")
    case True
    obtain tr1 where o: "do_one_probe op rs (env pn) pn tr = Some tr1"
      using do_one_probe_ends [of op "env pn" pn tr rs] "1.prems" True by fastforce
    have len: "length (tr_probes tr1) = length (tr_probes tr)"
      using one_probe_keeps [OF o] "1.prems"(2) True by (simp add: keeps_def)
    show ?thesis
    proof (cases "print_one_probe op pn tr1")
      case (Exits x tr2)
      then show ?thesis using True o by (simp add: probe_loop.simps [of op rs env pn tr])
    next
      case (Returns tr2)
      then obtain s where "tr2 = tr_print s tr1" by (rule print_one_probe_keeps)
      then have "probe_count op \<le> length (tr_probes tr2)" using len "1.prems"(2) by (simp add: tr_print_def)
      then show ?thesis
        using "1.IH" [OF True o Returns] "1.prems"(1) True o Returns
        by (auto simp: probe_loop.simps [of op rs env pn tr])
    qed
  qed (simp add: probe_loop.simps [of op rs env pn tr])
qed

lemma no_static_print: "no_static k (tr_print s tr) = no_static k tr"
  by (simp add: no_static_def tr_print_def)

lemma probe_loop_mem:
  assumes "probe_loop op rs env pn tr = Some (Returns tr')"
    and "probe_count op \<le> length (tr_probes tr)" "n = nat (sint (probes op))" "0 < n" "pn \<le> probe_count op"
    and "mem_ok (\<lambda>_. True) n h tr" "no_static pn tr" "final_probe tr < int pn"
    and "\<And>i. i < probe_count op \<Longrightarrow> addressed (env i)"
  shows "mem_ok (\<lambda>_. True) n h tr' \<and> length (tr_probes tr') = length (tr_probes tr) \<and>
    (\<exists>k\<le>probe_count op. no_static k tr' \<and> final_probe tr' < int k)"
  using assms
proof (induction op rs env pn tr arbitrary: tr' rule: probe_loop.induct)
  case (1 op rs env pn tr)
  note l = "1.prems"(1) [unfolded probe_loop.simps [of op rs env pn tr]]
  show ?case
  proof (cases "pn < probe_count op")
    case False
    then show ?thesis using l "1.prems"(5-8) by auto
  next
    case True
    obtain tr1 where o: "do_one_probe op rs (env pn) pn tr = Some tr1"
      using l True by (auto split: option.splits)
    obtain tr2 where p: "print_one_probe op pn tr1 = Returns tr2"
      using l True o by (auto split: outcome.splits)
    then obtain s where s: "tr2 = tr_print s tr1" by (rule print_one_probe_keeps)
    have pn: "pn < length (tr_probes tr)" using True "1.prems"(2) by simp
    note k = one_probe_keeps [OF o pn]
    note m = one_probe_mem [OF o p pn "1.prems"(3,4,6,7) "1.prems"(9) [OF True]]
    have len: "length (tr_probes tr2) = length (tr_probes tr)" using k by (simp add: s tr_print_def keeps_def)
    have f: "final_probe tr2 < int (Suc pn)"
      using k "1.prems"(8) by (simp add: s tr_print_def final_after_def)
    have m2: "mem_ok (\<lambda>_. True) n h tr2" "no_static (Suc pn) tr2"
      using m by (simp_all add: s mem_ok_print no_static_print)
    show ?thesis
    proof (cases "0 \<le> final_probe tr2 \<and> pn mod n = n - 1")
      case stop: True
      then have "tr' = tr2" using l True o p "1.prems"(3) by simp
      then show ?thesis using m2 len f True by (intro conjI exI [of _ "Suc pn"]) auto
    next
      case go: False
      then have l2: "probe_loop op rs env (pn + 1) tr2 = Some (Returns tr')"
        using l True o p "1.prems"(3) by (simp split: if_splits)
      have g: "\<not> (0 \<le> final_probe tr2 \<and> pn mod nat (sint (probes op)) = nat (sint (probes op)) - 1)"
        using go "1.prems"(3) by simp
      show ?thesis
        using "1.IH" [OF True o p g l2 _ "1.prems"(3,4) _ m2(1) _ _ "1.prems"(9)] len m2(2) f True "1.prems"(2)
        by simp
    qed
  qed
qed




lemma probe_count_le: "topts_ok op \<Longrightarrow> probe_count op \<le> PROBES_SIZE"
proof -
  assume op: "topts_ok op"
  then have "sint (max_ttl op) * sint (probes op) \<le> int MAX_TTL * sint (probes op)"
    by (intro mult_right_mono) (simp_all add: topts_ok_def)
  also have "\<dots> \<le> int MAX_TTL * int MAX_PROBES" using op by (intro mult_left_mono) (simp_all add: topts_ok_def)
  finally show ?thesis by (simp add: probe_count_def PROBES_SIZE_def nat_le_iff)
qed

text \<open>The state in which the probing starts.\<close>
lemma start_ok:
  assumes "traceroute_init op gai = Some tr0" "addr2str rs (tr_dest tr0) how tr0 = (h, tr1)"
  shows "length (tr_probes (tr_print s tr1)) = PROBES_SIZE \<and> final_probe (tr_print s tr1) = -1 \<and>
    length (tr_out (tr_print s tr1)) = 1 \<and> mem_ok (\<lambda>_. True) n h (tr_print s tr1)"
proof -
  have tr0: "tr_out tr0 = []" "final_probe tr0 = -1" "heap tr0 = (\<lambda>_. None)" "next_addr tr0 = 0"
      "length (tr_probes tr0) = PROBES_SIZE"
      "j < PROBES_SIZE \<Longrightarrow> pdata (tr_probes tr0 ! j) = None \<and> recv_hostname (tr_probes tr0 ! j) = None" for j
    using assms(1) by (auto simp: traceroute_init_def probe0_def split: option.splits)
  have none: "held h tr0 w = None" if "host_addr (Some h) = None" for h w
    using tr0(5,6) that by (cases w) simp_all
  have "mem_ok (\<lambda>_. True) n h tr1 \<and> tr_probes tr1 = tr_probes tr0 \<and> tr_out tr1 = tr_out tr0 \<and>
      final_probe tr1 = final_probe tr0"
  proof (cases "family (tr_dest tr0) = 0")
    case True
    then have h: "h = Host_unknown_bad_AF" "tr1 = tr0" using assms(2) by (simp_all add: addr2str_def)
    have "mem_ok (\<lambda>_. True) n h tr0"
      by (rule mem_okI) (simp_all only: none h host_addr.simps tr0 option.distinct)
    then show ?thesis using h by simp
  next
    case False
    then obtain s a where al: "alloc s tr0 = (a, tr1)" "h = Allocated a"
      using assms(2) by (auto simp: addr2str_def Let_def split: prod.splits if_splits)
    have up: "held h tr1 w = (if w = Target then Some a else None)" for w
      using held_alloc [OF al(1), of h w] none [of Host_unknown w] by (cases w) (simp_all add: al(2))
    have hp: "heap tr1 = (\<lambda>_. None)(a := Some s)" "next_addr tr1 = a + 1"
      using al(1) tr0(3) by (auto simp: alloc_def)
    have "mem_ok (\<lambda>_. True) n h tr1"
      by (intro mem_okI) (simp_all add: up hp split: if_splits)
    then show ?thesis using alloc_fields [OF al(1)] by simp
  qed
  then show ?thesis using tr0 by (simp add: mem_ok_print) (simp add: tr_print_def)
qed





text \<open>The stages of \<open>do_traceroute\<close>.\<close>
lemma do_traceroute_start:
  assumes "topts_ok op" "traceroute_init op gai = Some tr0"
  obtains h tr1 where "addr2str rs (tr_dest tr0) A2S_NORESOLVE tr0 = (h, tr1)"
    "probe_count op \<le> length (tr_probes (tr_print (tr_header op host (host_text tr1 h)) tr1))"
    "final_probe (tr_print (tr_header op host (host_text tr1 h)) tr1) = -1"
    "length (tr_out (tr_print (tr_header op host (host_text tr1 h)) tr1)) = 1"
    "mem_ok (\<lambda>_. True) (nat (sint (probes op))) h (tr_print (tr_header op host (host_text tr1 h)) tr1)"
proof -
  obtain h tr1 where a: "addr2str rs (tr_dest tr0) A2S_NORESOLVE tr0 = (h, tr1)"
    by (cases "addr2str rs (tr_dest tr0) A2S_NORESOLVE tr0")
  show ?thesis
    using start_ok [OF assms(2) a, of "tr_header op host (host_text tr1 h)"] probe_count_le [OF assms(1)]
    by (intro that [OF a]) auto
qed


lemma free_target:
  assumes m: "mem_ok (\<lambda>_. True) n h tr"
  shows "\<exists>tr'. (if h \<noteq> Host_unknown \<and> h \<noteq> Host_unknown_bad_AF then free_host h tr else Some tr) = Some tr' \<and>
    mem_ok (to_free 0) n h tr' \<and> tr_probes tr' = tr_probes tr \<and> final_probe tr' = final_probe tr"
proof (cases h)
  case (Allocated a)
  have "held h tr w \<noteq> Some a" if "to_free 0 w" for w
  proof
    assume "held h tr w = Some a"
    then have "cell n Target = cell n w"
      using mem_cell [OF m, where w = Target and w' = w and a = a] Allocated by simp
    then show False using that by (cases w) simp_all
  qed
  then have "\<exists>tr'. free_addr a tr = Some tr' \<and> mem_ok (to_free 0) n h tr' \<and> tr_probes tr' = tr_probes tr \<and>
      final_probe tr' = final_probe tr"
    using Allocated by (intro mem_ok_free [OF m, of Target]) auto
  then show ?thesis by (simp add: Allocated free_host_def)
qed (use mem_ok_live [OF m] in simp_all)

lemma traceroute_no_crash:
  assumes op: "topts_ok op" and env: "\<And>pn. pn < probe_count op \<Longrightarrow> addressed (env pn)"
  shows "do_traceroute op rs gai env host \<noteq> Crashes tr"
proof
  assume run: "do_traceroute op rs gai env host = Crashes tr"
  let ?n = "nat (sint (probes op))"
  have n: "0 < ?n" using op by (simp add: topts_ok_def)
  obtain tr0 where i: "traceroute_init op gai = Some tr0"
    using run by (auto simp: do_traceroute_def split: option.splits)
  obtain h tr1 where s: "addr2str rs (tr_dest tr0) A2S_NORESOLVE tr0 = (h, tr1)"
    "probe_count op \<le> length (tr_probes (tr_print (tr_header op host (host_text tr1 h)) tr1))"
    "final_probe (tr_print (tr_header op host (host_text tr1 h)) tr1) = -1"
    "mem_ok (\<lambda>_. True) ?n h (tr_print (tr_header op host (host_text tr1 h)) tr1)"
    using op i by (rule do_traceroute_start)
  note d = run [unfolded do_traceroute_def i option.case s(1) prod.case]
  obtain tr2 where l: "probe_loop op rs env 0 (tr_print (tr_header op host (host_text tr1 h)) tr1) = Some (Returns tr2)"
    using d by (auto split: option.splits outcome.splits)
  obtain k where m: "mem_ok (\<lambda>_. True) ?n h tr2" "probe_count op \<le> length (tr_probes tr2)"
      "k \<le> probe_count op" "no_static k tr2" "final_probe tr2 < int k"
    using probe_loop_mem [OF l s(2) refl n _ s(4) _ _ env] s(2,3) by (auto simp: no_static_def)
  obtain tr3 where f: "(if h \<noteq> Host_unknown \<and> h \<noteq> Host_unknown_bad_AF then free_host h tr2 else Some tr2) = Some tr3"
      "mem_ok (to_free 0) ?n h tr3" "tr_probes tr3 = tr_probes tr2" "final_probe tr3 = final_probe tr2"
    using free_target [OF m(1)] by blast
  have "free_probes op [0..<nat (final_probe tr3 + 1)] tr3 \<noteq> None"
    by (rule free_probes_ok [OF f(2) refl n]) (use m f in \<open>auto simp: no_static_def\<close>)
  then show False using d [unfolded l option.case outcome.case f(1)] by (auto split: option.splits)
qed

lemma traceroute_no_hang:
  assumes op: "topts_ok op" and env: "\<And>pn. pn < probe_count op \<Longrightarrow> polls_end op (env pn)"
  shows "do_traceroute op rs gai env host \<noteq> Hangs"
proof (cases "traceroute_init op gai")
  case (Some tr0)
  obtain h tr1 where s: "addr2str rs (tr_dest tr0) A2S_NORESOLVE tr0 = (h, tr1)"
    "probe_count op \<le> length (tr_probes (tr_print (tr_header op host (host_text tr1 h)) tr1))"
    using op Some by (rule do_traceroute_start)
  show ?thesis
    using probe_loop_ends [OF env s(2), where rs = rs and pn = 0] unfolding do_traceroute_def Some option.case s(1) prod.case
    by (auto split: option.splits outcome.splits)
qed (simp add: do_traceroute_def)


section \<open>Properties\<close>


text \<open>A host that answers at the second of at most three hops.\<close>
definition demo_resolver :: resolver where
  "demo_resolver = \<lparr>numeric_host = (\<lambda>a. print_nat (ipaddr a)), named_host = (\<lambda>a. ''host'')\<rparr>"

definition demo_probe :: "poll_event list \<Rightarrow> probe_env" where
  "demo_probe ps = \<lparr>e_socket = 3, e_bind_fails = False, e_ttl_fails = False, e_connect_fails = False,
     e_recverr_fails = False, e_send_fails = False, e_sent_at = 1000, e_polls = ps, e_now = 2000\<rparr>"

definition demo_env :: "nat \<Rightarrow> probe_env" where
  "demo_env pn = demo_probe
     [Poll 1500 (if pn = 0 then P_message True [C_recverr True \<lparr>family = 2, ipaddr = 7\<rparr> 11 0 0] no_addr
                 else P_message False [] \<lparr>family = 2, ipaddr = 9\<rparr>),
      Poll 10000000 P_none]"

definition demo_args :: "string list" where "demo_args = [''-m'', ''3'', ''-q'', ''1'', ''h'']"
definition demo_opts :: topts where "demo_opts = tr_defaults\<lparr>max_ttl := 3, probes := 1, dest_port := DEF_DEST_PORT_BASE\<rparr>"
definition demo_gai :: "(saddr \<times> nat) list option" where "demo_gai = Some [(\<lparr>family = AF_INET, ipaddr = 9\<rparr>, 16)]"

lemma demo_args_ok: "tr_args demo_args = Returns (demo_opts, ''h'')"
  by code_simp


lemma demo_env_ok: "sendable (demo_env pn) \<and> polls_end demo_opts (demo_env pn) \<and> addressed (demo_env pn)"
  by (simp add: demo_env_def demo_probe_def sendable_def polls_end_def poll_timeout_def demo_opts_def tr_defaults_def
      addressed_def has_addr_def icmp_origin_def map_filter_simps)



text \<open>C35. \<open>successive_traceroute\<close> does not wait for ever if for each probe some \<open>poll\<close>
  comes back after its deadline, whatever else the calls answer.\<close>
theorem traceroute_ends:
  assumes "tr_args args = Returns (op, host)" "\<And>pn. pn < probe_count op \<Longrightarrow> polls_end op (env pn)"
  shows "do_traceroute op rs gai env host \<noteq> Hangs"
  using traceroute_no_hang assms tr_args_ok by blast

theorem traceroute_ends_witness: "do_traceroute demo_opts demo_resolver demo_gai demo_env ''h'' \<noteq> Hangs"
  by (rule traceroute_ends [OF demo_args_ok]) (simp add: demo_env_ok)

text \<open>C4. Every \<open>free\<close> of \<open>successive_traceroute\<close> frees an allocated string, each once, although
  probes of one TTL share host names, provided each answer names the host it comes from.\<close>
theorem traceroute_frees_once:
  assumes "tr_args args = Returns (op, host)" "\<And>pn. pn < probe_count op \<Longrightarrow> addressed (env pn)"
  shows "do_traceroute op rs gai env host \<noteq> Crashes tr"
  using traceroute_no_crash assms tr_args_ok by blast

theorem traceroute_frees_once_witness:
  "\<nexists>tr. do_traceroute demo_opts demo_resolver demo_gai demo_env ''h'' = Crashes tr"
  using traceroute_frees_once [OF demo_args_ok, where env = demo_env] demo_env_ok by blast

text \<open>A local error, one that ICMP did not send, answers the first probe.\<close>
definition local_env :: "nat \<Rightarrow> probe_env" where
  "local_env pn = demo_probe
     [Poll 1500 (if pn = 0 then P_message True [C_recverr False no_addr 0 0 0] no_addr
                 else P_message False [] \<lparr>family = 2, ipaddr = 9\<rparr>)]"

definition local_args :: "string list" where "local_args = [''-m'', ''2'', ''-q'', ''1'', ''h'', ''0'']"
definition local_opts :: topts where
  "local_opts = tr_defaults\<lparr>max_ttl := 2, probes := 1, dest_port := DEF_DEST_PORT_BASE, packet_len := 0\<rparr>"

lemma local_init:
  "\<exists>ps. traceroute_init local_opts demo_gai = Some \<lparr>tr_dest = \<lparr>family = 2, ipaddr = 9\<rparr>, final_probe = -1,
     tr_probes = probe0\<lparr>sock := -1\<rparr> # probe0\<lparr>sock := -1\<rparr> # ps, heap = (\<lambda>_. None), next_addr = 0, tr_out = []\<rparr>"
proof -
  have "probe_count local_opts = 2" by code_simp
  moreover have "[0..<n] = 0 # 1 # [2..<n]" if "2 \<le> n" for n
    using that by (simp add: upt_rec [of 0] upt_rec [of "Suc 0"] numeral_2_eq_2)
  then have "[0..<PROBES_SIZE] = 0 # 1 # [2..<PROBES_SIZE]"
    by (simp add: PROBES_SIZE_def MAX_TTL_def MAX_PROBES_def)
  ultimately show ?thesis
    by (simp add: traceroute_init_def demo_gai_def SOCKADDR_SIZE_def AF_INET_def)
qed

lemma local_crash:
  "case probe_loop local_opts demo_resolver local_env 0
     \<lparr>tr_dest = \<lparr>family = 2, ipaddr = 9\<rparr>, final_probe = -1,
     tr_probes = probe0\<lparr>sock := -1\<rparr> # probe0\<lparr>sock := -1\<rparr> # ps, heap = (\<lambda>_. None)(0 \<mapsto> ''9''), next_addr = 1, tr_out = [s]\<rparr> of
     Some (Returns tr) \<Rightarrow> (case free_host (Allocated 0) tr of None \<Rightarrow> False | Some tr1 \<Rightarrow> 
       free_probes local_opts [0..<nat (final_probe tr1 + 1)] tr1 = None)
   | _ \<Rightarrow> False"
  by code_simp

lemma local_args_ok: "tr_args local_args = Returns (local_opts, ''h'')"
  by code_simp

text \<open>A message of the error queue that carries no ICMP error, such as a local error, leaves the
  host name at \<open>host_unknown_bad_AF\<close>, which \<open>traceroute_free_mem_probe\<close> frees although it is
  static: the arguments \<open>-m 2 -q 1 h 0\<close>, a local error for the first probe and an answer of the
  target for the second end the program by an invalid \<open>free\<close>.\<close>
theorem traceroute_frees_static:
  "tr_args local_args = Returns (local_opts, ''h'') \<and>
   (\<exists>tr. do_traceroute local_opts demo_resolver demo_gai local_env ''h'' = Crashes tr)"
proof -
  obtain ps where i: "traceroute_init local_opts demo_gai = Some \<lparr>tr_dest = \<lparr>family = 2, ipaddr = 9\<rparr>, final_probe = -1,
     tr_probes = probe0\<lparr>sock := -1\<rparr> # probe0\<lparr>sock := -1\<rparr> # ps, heap = (\<lambda>_. None), next_addr = 0, tr_out = []\<rparr>"
    (is "_ = Some ?tr0")
    using local_init by blast
  let ?tr1 = "?tr0\<lparr>heap := (\<lambda>_. None)(0 \<mapsto> ''9''), next_addr := 1\<rparr>"
  have a: "addr2str demo_resolver (tr_dest ?tr0) A2S_NORESOLVE ?tr0 = (Allocated 0, ?tr1)"
  proof -
    have "print_nat 9 = ''9''" by code_simp
    then show ?thesis by (simp add: addr2str_def A2S_NORESOLVE_def demo_resolver_def alloc_def)
  qed
  note l = local_crash [of ps "tr_header local_opts ''h'' (host_text ?tr1 (Allocated 0))"]
  show ?thesis
    using l local_args_ok unfolding do_traceroute_def i option.case a prod.case
    by (auto simp: tr_print_def split: option.splits outcome.splits)
qed

end
