(* ===== verification/Basic_Traceroute.thy ===== *)
theory Basic_Traceroute
  imports Traceroute_Run
begin

text \<open>
  \<open>basic_traceroute/traceroute.c\<close>, the first version: it sends and prints probe by probe, in
  two nested loops from \<open>first_ttl\<close> on, keeps no host names, and frees nothing. An answer of the target
  overwrites \<open>final_probe\<close>. Its structures have no result and no host name; the options are in
  \<open>Traceroute_Options\<close>, the polling and the error strings are the same code as in the
  successive version. The environment is that of \<open>Traceroute\<close>.
\<close>

section \<open>Data\<close>

record bprobe =
  b_dest_port :: "16 word"
  b_recv_addr :: saddr
  b_recv_ttl :: int
  b_socket :: int
  b_send_time :: int
  b_recv_time :: int
  b_data :: "string option"
  b_data_len :: nat
  b_err_str :: string

definition bprobe0 :: bprobe where
  "bprobe0 = \<lparr>b_dest_port = 0, b_recv_addr = no_addr, b_recv_ttl = 0, b_socket = 0, b_send_time = 0,
     b_recv_time = 0, b_data = None, b_data_len = 0, b_err_str = []\<rparr>"

record btr_info =
  b_dest :: saddr
  b_final :: int
  b_probes :: "bprobe list"
  b_out :: "string list"

definition b_upd :: "nat \<Rightarrow> (bprobe \<Rightarrow> bprobe) \<Rightarrow> btr_info \<Rightarrow> btr_info" where
  "b_upd pn f tr = tr\<lparr>b_probes := (b_probes tr)[pn := f (b_probes tr ! pn)]\<rparr>"

definition b_print :: "string list \<Rightarrow> btr_info \<Rightarrow> btr_info" where
  "b_print ss tr = tr\<lparr>b_out := b_out tr @ ss\<rparr>"

section \<open>One probe\<close>


definition b_init_probe :: "nat \<Rightarrow> btr_info \<Rightarrow> btr_info" where
  "b_init_probe pn = b_upd pn (\<lambda>_. bprobe0)"

text \<open>The TTL goes to \<open>setsockopt\<close>, which may refuse it.\<close>
definition b_send :: "topts \<Rightarrow> probe_env \<Rightarrow> nat \<Rightarrow> btr_info \<Rightarrow> int \<times> btr_info" where
  "b_send op e pn tr =
     (let tr1 = b_upd pn (\<lambda>p. p\<lparr>b_socket := e_socket e\<rparr>) tr in
      if e_socket e < 0 then (3, tr1)
      else if e_bind_fails e then (4, tr1)
      else if e_ttl_fails e then (5, tr1)
      else
        let tr2 = (if dest_port_seq op
                   then b_upd pn (\<lambda>p. p\<lparr>b_dest_port := dest_port op + word_of_nat pn\<rparr>) tr1 else tr1) in
        if e_connect_fails e then (6, tr2)
        else if e_recverr_fails e then (5, tr2)
        else
          let n = unat (packet_len op);
              tr3 = b_upd pn (\<lambda>p. p\<lparr>b_data_len := n, b_data := Some (payload n), b_send_time := e_sent_at e\<rparr>) tr2
          in if e_send_fails e then (6, tr3) else (0, tr3))"

definition b_parse_icmp_response :: "nat \<Rightarrow> cint \<Rightarrow> cint \<Rightarrow> cint \<Rightarrow> btr_info \<Rightarrow> btr_info" where
  "b_parse_icmp_response pn ty code info tr =
     (case parse_icmp ty code info of
        Ttl_exceeded \<Rightarrow> tr
      | Final None \<Rightarrow> tr\<lparr>b_final := int pn\<rparr>
      | Final (Some s) \<Rightarrow> (b_upd pn (\<lambda>p. p\<lparr>b_err_str := s\<rparr>) tr)\<lparr>b_final := int pn\<rparr>)"

definition b_parse_one_cmsg :: "nat \<Rightarrow> cmsg \<Rightarrow> btr_info \<Rightarrow> btr_info" where
  "b_parse_one_cmsg pn cm tr =
     (case cm of
        C_timestamp t \<Rightarrow> b_upd pn (\<lambda>p. p\<lparr>b_recv_time := t\<rparr>) tr
      | C_ttl n \<Rightarrow> b_upd pn (\<lambda>p. p\<lparr>b_recv_ttl := n\<rparr>) tr
      | C_recverr icmp a ty code info \<Rightarrow>
          if icmp then b_parse_icmp_response pn ty code info (b_upd pn (\<lambda>p. p\<lparr>b_recv_addr := a\<rparr>) tr) else tr
      | C_other \<Rightarrow> tr)"

definition b_parse_cmsg :: "int \<Rightarrow> nat \<Rightarrow> cmsg list \<Rightarrow> btr_info \<Rightarrow> btr_info" where
  "b_parse_cmsg now pn msg tr =
     (let tr1 = fold (b_parse_one_cmsg pn) msg tr in
      if b_recv_time (b_probes tr1 ! pn) = 0 then b_upd pn (\<lambda>p. p\<lparr>b_recv_time := now\<rparr>) tr1 else tr1)"

definition b_receive :: "topts \<Rightarrow> probe_env \<Rightarrow> nat \<Rightarrow> btr_info \<Rightarrow> (int \<times> btr_info) option" where
  "b_receive op e pn tr =
     (case poll_loop (b_send_time (b_probes tr ! pn) + timeout op) (e_polls e) of
        None \<Rightarrow> None
      | Some (Inl rc) \<Rightarrow> Some (rc, tr)
      | Some (Inr (err, msg, a)) \<Rightarrow>
          (let tr1 = b_parse_cmsg (e_now e) pn msg tr;
               tr2 = (if err then tr1 else (b_upd pn (\<lambda>p. p\<lparr>b_recv_addr := a\<rparr>) tr1)\<lparr>b_final := int pn\<rparr>)
           in Some (0, b_upd pn (\<lambda>p. p\<lparr>b_socket := -1\<rparr>) tr2)))"

text \<open>The star that an unset address gets is overwritten at once.\<close>
definition b_get_host :: "topts \<Rightarrow> resolver \<Rightarrow> saddr \<Rightarrow> string" where
  "b_get_host op rs a =
     (let str = numeric_host rs a in
      if \<not> noresolve op then named_host rs a @ '' ('' @ str @ '')'' else str)"

section \<open>The loops\<close>

text \<open>What a part of \<open>do_traceroute\<close> does: it goes on, returns from \<open>do_traceroute\<close>, waits for
  ever, or uses an index outside \<open>tr.probes\<close>.\<close>
datatype 'a bres = B_go 'a | B_return int btr_info | B_hangs | B_bad_index int

definition b_probe_no :: "topts \<Rightarrow> int \<Rightarrow> nat \<Rightarrow> int" where
  "b_probe_no op ttl probe = (ttl - 1) * sint (probes op) + int probe"

definition b_print_probe :: "topts \<Rightarrow> resolver \<Rightarrow> bool \<Rightarrow> bprobe \<Rightarrow> string list" where
  "b_print_probe op rs printed p =
     (if printed then [] else ['' '' @ b_get_host op rs (b_recv_addr p)]) @
     (if b_recv_time p \<noteq> 0 then [print_ms (b_recv_time p - b_send_time p)] else []) @
     (if b_err_str p \<noteq> [] then ['' '' @ b_err_str p] else [])"

definition b_one_probe ::
    "topts \<Rightarrow> resolver \<Rightarrow> (nat \<Rightarrow> probe_env) \<Rightarrow> int \<Rightarrow> bool \<times> btr_info \<Rightarrow> (bool \<times> btr_info) bres" where
  "b_one_probe op rs env pn st =
     (if pn < 0 \<or> int PROBES_SIZE \<le> pn then B_bad_index pn
      else
        let k = nat pn; printed = fst st in
        case b_send op (env k) k (b_init_probe k (snd st)) of
          (rc, tr1) \<Rightarrow>
            if rc \<noteq> 0 then B_return 3 (b_upd k (\<lambda>p. p\<lparr>b_socket := -1\<rparr>) tr1)
            else
              (case b_receive op (env k) k tr1 of
                 None \<Rightarrow> B_hangs
               | Some (rc, tr2) \<Rightarrow>
                   if rc = 0 then B_go (True, b_print (b_print_probe op rs printed (b_probes tr2 ! k)) tr2)
                   else B_go (printed, b_print ['' *''] (b_upd k (\<lambda>p. p\<lparr>b_socket := -1\<rparr>) tr2))))"

function b_probe_loop ::
    "topts \<Rightarrow> resolver \<Rightarrow> (nat \<Rightarrow> probe_env) \<Rightarrow> int \<Rightarrow> nat \<Rightarrow> bool \<times> btr_info \<Rightarrow> btr_info bres" where
  "b_probe_loop op rs env ttl probe st =
     (if int probe < sint (probes op) then
        (case b_one_probe op rs env (b_probe_no op ttl probe) st of
           B_go st' \<Rightarrow> b_probe_loop op rs env ttl (probe + 1) st'
         | B_return x tr \<Rightarrow> B_return x tr
         | B_hangs \<Rightarrow> B_hangs
         | B_bad_index i \<Rightarrow> B_bad_index i)
      else B_go (snd st))"
  by pat_completeness auto
termination by (relation "measure (\<lambda>(op, rs, env, ttl, probe, st). nat (sint (probes op)) - probe)") auto

function b_ttl_loop ::
    "topts \<Rightarrow> resolver \<Rightarrow> (nat \<Rightarrow> probe_env) \<Rightarrow> int \<Rightarrow> btr_info \<Rightarrow> btr_info bres" where
  "b_ttl_loop op rs env ttl tr =
     (if ttl \<le> sint (max_ttl op) then
        (case b_probe_loop op rs env ttl 0
                (False, b_print [print_ttl (unat (word_of_int ttl :: cuint))] tr) of
           B_go tr1 \<Rightarrow>
             (let tr2 = b_print [[CHR 0x0A]] tr1 in
              if 0 \<le> b_final tr2 then B_go tr2 else b_ttl_loop op rs env (ttl + 1) tr2)
         | B_return x tr1 \<Rightarrow> B_return x tr1
         | B_hangs \<Rightarrow> B_hangs
         | B_bad_index i \<Rightarrow> B_bad_index i)
      else B_go tr)"
  by pat_completeness auto
termination by (relation "measure (\<lambda>(op, rs, env, ttl, tr). nat (sint (max_ttl op) + 1 - ttl))") auto

declare b_probe_loop.simps [simp del] b_ttl_loop.simps [simp del]




section \<open>What one probe does\<close>

lemma b_upd_simps [simp]:
  "b_final (b_upd pn f tr) = b_final tr" "b_out (b_upd pn f tr) = b_out tr"
  "length (b_probes (b_upd pn f tr)) = length (b_probes tr)"
  "j < length (b_probes tr) \<Longrightarrow>
     b_probes (b_upd pn f tr) ! j = (if j = pn then f (b_probes tr ! pn) else b_probes tr ! j)"
  by (simp_all add: b_upd_def)












section \<open>The rows\<close>


definition newlines :: "btr_info \<Rightarrow> nat" where
  "newlines tr = length (filter (\<lambda>s. s = [CHR 0x0A]) (b_out tr))"


lemma newlines_print [simp]:
  "newlines (b_print ss tr) = newlines tr + length (filter (\<lambda>s. s = [CHR 0x0A]) ss)"
  "b_final (b_print ss tr) = b_final tr" "b_probes (b_print ss tr) = b_probes tr"
  by (simp_all add: newlines_def b_print_def)
















section \<open>The property\<close>








end
