(* ===== verification/Working_Threads.thy ===== *)
theory Working_Threads
  imports Threads Libc
begin

text \<open>
  \<open>05-synchronization/sync_working_threads_partial_mq_sem.c\<close>: the main thread sends the numbers of
  the works through a message queue to a fixed number of working threads, a third kind of thread
  collects the results. The semaphores that would tell the collector that a work is done are left to
  the students: in the file as it stands it does not wait. Threads are interleaved access by access;
  the states printed under a mutex are output. \<open>mq_receive\<close>, \<open>mq_send\<close> and the other calls may
  fail as \<open>wenv\<close> says; a queue descriptor that has been closed is not used, since the process
  ends at once.
\<close>

section \<open>Options\<close>

definition MAX_WORK :: int where "MAX_WORK = 1000"
definition MAX_WAIT :: int where "MAX_WAIT = 10000000"
definition MAX_THREADS :: int where "MAX_THREADS = 100"
definition MQ_LEN :: nat where "MQ_LEN = 10"

record wcfg =
  num_work :: cint
  num_threads :: cint
  wait_us :: int
  wverbose :: int

definition work_defaults :: wcfg where
  "work_defaults = \<lparr>num_work = 33, num_threads = 10, wait_us = 5000000, wverbose = 0\<rparr>"

text \<open>The two assignments after \<open>atoi\<close>.\<close>
definition clamp :: "int \<Rightarrow> cint \<Rightarrow> cint" where
  "clamp hi v = (let v1 = (if sint v > hi then word_of_int hi else v) in if sint v1 < 1 then 1 else v1)"

definition work_parse_opt :: "wcfg \<Rightarrow> opt_event \<Rightarrow> wcfg outcome" where
  "work_parse_opt cfg e =
     (case e of
        Bad c \<Rightarrow> Exits EXIT_FAILURE cfg
      | Opt ch arg \<Rightarrow>
          if ch = CHR ''h'' then Exits EXIT_SUCCESS cfg
          else if ch = CHR ''V'' then Exits EXIT_SUCCESS cfg
          else if ch = CHR ''v'' then Returns (if wverbose cfg < 100 then cfg\<lparr>wverbose := wverbose cfg + 1\<rparr> else cfg)
          else if ch = CHR ''q'' then Returns (if wverbose cfg > 0 then cfg\<lparr>wverbose := wverbose cfg - 1\<rparr> else cfg)
          else if ch = CHR ''n'' then Returns (cfg\<lparr>num_work := clamp MAX_WORK (atoi arg)\<rparr>)
          else if ch = CHR ''t'' then Returns (cfg\<lparr>num_threads := clamp MAX_THREADS (atoi arg)\<rparr>)
          else if ch = CHR ''w'' then
            (let c1 = cfg\<lparr>wait_us := atof_us arg\<rparr>;
                 c2 = (if wait_us c1 > MAX_WAIT then c1\<lparr>wait_us := MAX_WAIT\<rparr> else c1)
             in Returns (if wait_us c2 < 0 then c2\<lparr>wait_us := 0\<rparr> else c2))
          else Exits EXIT_FAILURE cfg)"

definition work_parse_options :: "string list \<Rightarrow> wcfg outcome" where
  "work_parse_options args = opt_loop work_parse_opt work_defaults (getopt ''hVvqt:n:w:'' args)"

section \<open>The threads\<close>

abbreviation works :: "wcfg \<Rightarrow> nat" where "works cfg \<equiv> nat (sint (num_work cfg))"

text \<open>The number of working threads that are created.\<close>
definition worker_count :: "wcfg \<Rightarrow> nat" where
  "worker_count cfg = (if sint (num_work cfg) < sint (num_threads cfg) then works cfg else nat (sint (num_threads cfg)))"

text \<open>Which calls fail, and how long a work takes.\<close>
record wenv =
  calloc_fails :: bool
  sem_init_fails :: bool
  mq_open_fails :: bool
  receive_fails :: "nat \<Rightarrow> bool"
  send_fails :: "nat \<Rightarrow> bool"
  wcreate_fails :: "nat \<Rightarrow> bool"
  cancel_fails :: "nat \<Rightarrow> bool"
  duration :: "nat \<Rightarrow> int"

definition WORK_STATE_IDLE :: char where "WORK_STATE_IDLE = CHR ''_''"
definition WORK_STATE_BUSY :: char where "WORK_STATE_BUSY = CHR ''w''"
definition WORK_STATE_DONE :: char where "WORK_STATE_DONE = CHR ''F''"

text \<open>The shared variables, how far \<open>main\<close> has come with creating and cancelling the
  threads, and whether \<open>work\<close> has been freed and was used afterwards.\<close>
record wshared =
  work_queue :: "nat list"
  work_state :: "nat \<Rightarrow> char"
  work_result :: "nat \<Rightarrow> int"
  threads_used :: nat
  max_threads_used :: nat
  time_threads_sum :: int
  collecting :: bool
  collected :: bool
  wcreated :: nat
  cancelled :: nat
  work_freed :: bool
  used_after_free :: bool

datatype wpc =
    Wk_receive | Wk_post nat | Wk_getvalue nat | Wk_compare nat nat | Wk_setmax nat nat
  | Wk_busy nat | Wk_compute nat | Wk_done nat | Wk_wait
  | Rs_start | Rs_take nat | Rs_end
  | Mw_collector | Mw_create nat | Mw_send nat | Mw_join | Mw_cancel nat | Mw_free | Mw_return

text \<open>An access of \<open>work\<close>.\<close>
definition use_work :: "wshared \<Rightarrow> wshared" where
  "use_work d = (if work_freed d then d\<lparr>used_after_free := True\<rparr> else d)"

text \<open>A working thread runs once it has been created. The request to cancel it takes effect in
  \<open>mq_receive\<close>; until it gets there the thread may go on.\<close>
definition working_thread :: "wenv \<Rightarrow> nat \<Rightarrow> wshared \<Rightarrow> wpc \<Rightarrow> (wshared, wpc) act option" where
  "working_thread env i d pc =
     (case pc of
        Wk_receive \<Rightarrow>
          if wcreated d \<le> i \<or> i < cancelled d then None
          else if receive_fails env i then Some (Quit d EXIT_FAILURE)
          else (case work_queue d of
                  [] \<Rightarrow> None
                | w # ws \<Rightarrow> Some (Go (d\<lparr>work_queue := ws\<rparr>) (Wk_post w)))
      | Wk_post w \<Rightarrow> Some (Go (d\<lparr>threads_used := threads_used d + 1\<rparr>) (Wk_getvalue w))
      | Wk_getvalue w \<Rightarrow> Some (Go d (Wk_compare w (threads_used d)))
      | Wk_compare w u \<Rightarrow> Some (Go d (if u > max_threads_used d then Wk_setmax w u else Wk_busy w))
      | Wk_setmax w u \<Rightarrow> Some (Go (d\<lparr>max_threads_used := u\<rparr>) (Wk_busy w))
      | Wk_busy w \<Rightarrow>
          Some (Go ((use_work d)\<lparr>work_state := (work_state d)(w := WORK_STATE_BUSY)\<rparr>) (Wk_compute w))
      | Wk_compute w \<Rightarrow>
          Some (Go ((use_work d)\<lparr>work_result := (work_result d)(w := duration env w)\<rparr>) (Wk_done w))
      | Wk_done w \<Rightarrow>
          Some (Go ((use_work d)\<lparr>work_state := (work_state d)(w := WORK_STATE_DONE)\<rparr>) Wk_wait)
      | Wk_wait \<Rightarrow>
          if threads_used d = 0 then None
          else Some (Go (d\<lparr>threads_used := threads_used d - 1\<rparr>) Wk_receive)
      | _ \<Rightarrow> None)"

definition results_thread :: "wcfg \<Rightarrow> wshared \<Rightarrow> wpc \<Rightarrow> (wshared, wpc) act option" where
  "results_thread cfg d pc =
     (case pc of
        Rs_start \<Rightarrow> if collecting d then Some (Go (d\<lparr>time_threads_sum := 0\<rparr>) (Rs_take 0)) else None
      | Rs_take w \<Rightarrow>
          if w < works cfg then
            Some (Go (d\<lparr>time_threads_sum := time_threads_sum d + work_result d w\<rparr>) (Rs_take (w + 1)))
          else Some (Go (d\<lparr>collected := True\<rparr>) Rs_end)
      | _ \<Rightarrow> None)"

text \<open>\<open>do_all\<close> after \<open>init_work\<close>. The result of \<open>mq_send\<close> is not checked; it waits while the
  queue is full.\<close>
definition do_all :: "wcfg \<Rightarrow> wenv \<Rightarrow> wshared \<Rightarrow> wpc \<Rightarrow> (wshared, wpc) act option" where
  "do_all cfg env d pc =
     (case pc of
        Mw_collector \<Rightarrow> Some (Go (d\<lparr>collecting := True\<rparr>) (Mw_create 0))
      | Mw_create t \<Rightarrow>
          if t < worker_count cfg then
            (if wcreate_fails env t then Some (Quit d EXIT_FAILURE)
             else Some (Go (d\<lparr>wcreated := t + 1\<rparr>) (Mw_create (t + 1))))
          else Some (Go d (Mw_send 0))
      | Mw_send w \<Rightarrow>
          if w < works cfg then
            (if send_fails env w then Some (Go d (Mw_send (w + 1)))
             else if length (work_queue d) < MQ_LEN then
               Some (Go (d\<lparr>work_queue := work_queue d @ [w]\<rparr>) (Mw_send (w + 1)))
             else None)
          else Some (Go d Mw_join)
      | Mw_join \<Rightarrow> if collected d then Some (Go d (Mw_cancel 0)) else None
      | Mw_cancel t \<Rightarrow>
          if t < worker_count cfg then
            (if cancel_fails env t then Some (Quit d EXIT_FAILURE)
             else Some (Go (d\<lparr>cancelled := t + 1\<rparr>) (Mw_cancel (t + 1))))
          else Some (Go d Mw_free)
      | Mw_free \<Rightarrow> Some (Go (d\<lparr>work_freed := True\<rparr>) Mw_return)
      | Mw_return \<Rightarrow> Some (Quit d EXIT_SUCCESS)
      | _ \<Rightarrow> None)"

text \<open>The working threads come first, then the collector, then \<open>main\<close>.\<close>
definition work_outs :: "wcfg \<Rightarrow> wenv \<Rightarrow> nat \<Rightarrow> wshared \<Rightarrow> wpc \<Rightarrow> (wshared, wpc) act option" where
  "work_outs cfg env i d pc =
     (if i < worker_count cfg then working_thread env i d pc
      else if i = worker_count cfg then results_thread cfg d pc
      else do_all cfg env d pc)"

text \<open>\<open>init_work\<close>: the arrays are zeroed, the states set.\<close>
definition work_data :: wshared where
  "work_data =
     \<lparr>work_queue = [], work_state = (\<lambda>_. WORK_STATE_IDLE), work_result = (\<lambda>_. 0), threads_used = 0,
      max_threads_used = 0, time_threads_sum = 0, collecting = False, collected = False, wcreated = 0,
      cancelled = 0, work_freed = False, used_after_free = False\<rparr>"

definition init_work :: "wenv \<Rightarrow> wshared outcome" where
  "init_work env =
     (if calloc_fails env \<or> sem_init_fails env \<or> mq_open_fails env then Exits EXIT_FAILURE work_data
      else Returns work_data)"

definition work_start :: "wcfg \<Rightarrow> wenv \<Rightarrow> (wshared process, wpc) conf" where
  "work_start cfg env =
     ((case init_work env of Exits x d \<Rightarrow> (d, Some x) | Returns d \<Rightarrow> (d, None)),
      (\<lambda>i. if i < worker_count cfg then Wk_receive else if i = worker_count cfg then Rs_start else Mw_collector))"

abbreviation work_threads :: "wcfg \<Rightarrow> nat" where "work_threads cfg \<equiv> worker_count cfg + 2"

section \<open>Every run ends\<close>

text \<open>How much is left to do, for a thread and for a number waiting in the queue.\<close>
fun work_weight :: "nat \<Rightarrow> nat \<Rightarrow> wpc \<Rightarrow> nat" where
  "work_weight k n (Wk_post w) = 8"
| "work_weight k n (Wk_getvalue w) = 7"
| "work_weight k n (Wk_compare w u) = 6"
| "work_weight k n (Wk_setmax w u) = 5"
| "work_weight k n (Wk_busy w) = 4"
| "work_weight k n (Wk_compute w) = 3"
| "work_weight k n (Wk_done w) = 2"
| "work_weight k n Wk_wait = 1"
| "work_weight k n Rs_start = n + 2"
| "work_weight k n (Rs_take w) = n - w + 1"
| "work_weight k n Mw_return = 1"
| "work_weight k n Mw_free = 2"
| "work_weight k n (Mw_cancel t) = 3 + (k - t)"
| "work_weight k n Mw_join = k + 4"
| "work_weight k n (Mw_send w) = k + 5 + 13 * (n - w)"
| "work_weight k n (Mw_create t) = k + 6 + 13 * n + (k - t)"
| "work_weight k n Mw_collector = 2 * k + 7 + 13 * n"
| "work_weight k n _ = 0"

definition work_mu :: "wcfg \<Rightarrow> (wshared process, wpc) conf \<Rightarrow> nat" where
  "work_mu cfg c =
     (if snd (fst c) \<noteq> None then 0
      else 1 + 9 * length (work_queue (fst (fst c))) +
        (\<Sum>i<work_threads cfg. work_weight (worker_count cfg) (works cfg) (snd c i)))"

lemma use_work_simps [simp]:
  "work_queue (use_work d) = work_queue d" "threads_used (use_work d) = threads_used d"
  "max_threads_used (use_work d) = max_threads_used d" "work_state (use_work d) = work_state d"
  "work_result (use_work d) = work_result d" "work_freed (use_work d) = work_freed d"
  "wcreated (use_work d) = wcreated d" "cancelled (use_work d) = cancelled d"
  "collecting (use_work d) = collecting d" "collected (use_work d) = collected d"
  by (simp_all add: use_work_def)

text \<open>A step of a thread costs weight.\<close>
lemma work_outs_less:
  assumes "work_outs cfg env i d l = Some (Go d' l')"
  shows "9 * length (work_queue d') + work_weight (worker_count cfg) (works cfg) l' <
    9 * length (work_queue d) + work_weight (worker_count cfg) (works cfg) l"
  using assms
  by (cases l) (auto simp: work_outs_def working_thread_def results_thread_def do_all_def
      split: if_splits list.splits)

lemma work_outs_sync: "work_outs cfg env i d l \<noteq> Some (Sync d' l')"
  by (cases l) (auto simp: work_outs_def working_thread_def results_thread_def do_all_def split: list.splits)

lemma work_mu_less:
  assumes "i < work_threads cfg" "free_step (work_outs cfg env) i g (ls i) = Some (g', l')"
  shows "work_mu cfg (g', ls(i := l')) < work_mu cfg (g, ls)"
  using assms(2) work_outs_sync
proof (cases rule: free_step_cases)
  case Go
  let ?f = "work_weight (worker_count cfg) (works cfg)"
  show ?thesis
    using work_outs_less [OF Go(1)] sum_upd_add [OF assms(1), of ?f ls l'] Go(2,3)
    by (simp add: work_mu_def)
next
  case (Quit x)
  then show ?thesis by (simp add: work_mu_def)
qed

lemma work_mu_start:
  "work_mu cfg (work_start cfg env) \<le> 2 * worker_count cfg + 14 * works cfg + 10"
proof -
  let ?f = "\<lambda>i. work_weight (worker_count cfg) (works cfg) (snd (work_start cfg env) i)"
  have "(\<Sum>i<work_threads cfg. ?f i) = (\<Sum>i<worker_count cfg. ?f i) + ?f (worker_count cfg) + ?f (Suc (worker_count cfg))"
    by simp
  also have "(\<Sum>i<worker_count cfg. ?f i) = 0" by (simp add: work_start_def)
  finally show ?thesis
    by (simp add: work_mu_def work_start_def init_work_def work_data_def)
qed

section \<open>The invariant\<close>

text \<open>The work a thread has taken, and whether it is counted in \<open>threads_used\<close>.\<close>
fun holds :: "wpc \<Rightarrow> nat option" where
  "holds (Wk_post w) = Some w"
| "holds (Wk_getvalue w) = Some w"
| "holds (Wk_compare w u) = Some w"
| "holds (Wk_setmax w u) = Some w"
| "holds (Wk_busy w) = Some w"
| "holds (Wk_compute w) = Some w"
| "holds (Wk_done w) = Some w"
| "holds _ = None"

fun counted :: "wpc \<Rightarrow> bool" where
  "counted (Wk_getvalue w) = True"
| "counted (Wk_compare w u) = True"
| "counted (Wk_setmax w u) = True"
| "counted (Wk_busy w) = True"
| "counted (Wk_compute w) = True"
| "counted (Wk_done w) = True"
| "counted Wk_wait = True"
| "counted _ = False"

text \<open>The works that \<open>main\<close> has sent.\<close>
fun sent :: "nat \<Rightarrow> wpc \<Rightarrow> nat" where
  "sent n Mw_collector = 0"
| "sent n (Mw_create t) = 0"
| "sent n (Mw_send w) = w"
| "sent n _ = n"

text \<open>What a worker says of the work it holds.\<close>
fun worker_ok :: "nat \<Rightarrow> wenv \<Rightarrow> wshared \<Rightarrow> wpc \<Rightarrow> bool" where
  "worker_ok k env d Wk_receive = True"
| "worker_ok k env d (Wk_post w) = (work_state d w = WORK_STATE_IDLE)"
| "worker_ok k env d (Wk_getvalue w) = (work_state d w = WORK_STATE_IDLE)"
| "worker_ok k env d (Wk_compare w u) = (work_state d w = WORK_STATE_IDLE \<and> u \<le> k)"
| "worker_ok k env d (Wk_setmax w u) = (work_state d w = WORK_STATE_IDLE \<and> u \<le> k)"
| "worker_ok k env d (Wk_busy w) = (work_state d w = WORK_STATE_IDLE)"
| "worker_ok k env d (Wk_compute w) = (work_state d w = WORK_STATE_BUSY)"
| "worker_ok k env d (Wk_done w) = (work_state d w = WORK_STATE_BUSY \<and> work_result d w = duration env w)"
| "worker_ok k env d Wk_wait = True"
| "worker_ok k env d _ = False"

fun collector_ok :: "wshared \<Rightarrow> wpc \<Rightarrow> bool" where
  "collector_ok d Rs_start = True"
| "collector_ok d (Rs_take w) = True"
| "collector_ok d Rs_end = collected d"
| "collector_ok d _ = False"

fun main_ok :: "nat \<Rightarrow> nat \<Rightarrow> wshared \<Rightarrow> wpc \<Rightarrow> bool" where
  "main_ok k n d Mw_collector = (wcreated d = 0 \<and> cancelled d = 0 \<and> \<not> work_freed d)"
| "main_ok k n d (Mw_create t) = (t \<le> k \<and> wcreated d = t \<and> collecting d \<and> cancelled d = 0 \<and> \<not> work_freed d)"
| "main_ok k n d (Mw_send w) = (w \<le> n \<and> wcreated d = k \<and> collecting d \<and> cancelled d = 0 \<and> \<not> work_freed d)"
| "main_ok k n d Mw_join = (wcreated d = k \<and> collecting d \<and> \<not> work_freed d)"
| "main_ok k n d (Mw_cancel t) = (\<not> work_freed d)"
| "main_ok k n d Mw_free = (\<not> work_freed d)"
| "main_ok k n d Mw_return = True"
| "main_ok k n d _ = False"

text \<open>How many threads are counted.\<close>
definition busy_workers :: "nat \<Rightarrow> (nat \<Rightarrow> wpc) \<Rightarrow> nat" where
  "busy_workers k ls = (\<Sum>i<k. of_bool (counted (ls i)))"

definition state_ok :: "wenv \<Rightarrow> nat \<Rightarrow> wshared \<Rightarrow> bool" where
  "state_ok env m d \<longleftrightarrow>
     (\<forall>w. work_state d w = WORK_STATE_DONE \<longrightarrow> work_result d w = duration env w) \<and>
     (\<forall>w. w \<in> set (work_queue d) \<or> m \<le> w \<longrightarrow> work_state d w = WORK_STATE_IDLE)"

definition queue_ok :: "nat \<Rightarrow> wshared \<Rightarrow> bool" where
  "queue_ok m d \<longleftrightarrow> distinct (work_queue d) \<and> (\<forall>w\<in>set (work_queue d). w < m) \<and> length (work_queue d) \<le> MQ_LEN"

definition shares_ok :: "nat \<Rightarrow> nat \<Rightarrow> wshared \<Rightarrow> (nat \<Rightarrow> wpc) \<Rightarrow> bool" where
  "shares_ok k m d ls \<longleftrightarrow>
     (\<forall>i<k. \<forall>w. holds (ls i) = Some w \<longrightarrow> w < m \<and> w \<notin> set (work_queue d)) \<and>
     (\<forall>i<k. \<forall>j<k. \<forall>w. holds (ls i) = Some w \<longrightarrow> holds (ls j) = Some w \<longrightarrow> i = j)"

definition work_inv :: "wcfg \<Rightarrow> wenv \<Rightarrow> wshared \<Rightarrow> (nat \<Rightarrow> wpc) \<Rightarrow> bool" where
  "work_inv cfg env d ls \<longleftrightarrow>
     (let k = worker_count cfg; m = sent (works cfg) (ls (Suc k)) in
      (\<forall>i<k. worker_ok k env d (ls i)) \<and> collector_ok d (ls k) \<and> main_ok k (works cfg) d (ls (Suc k)) \<and>
      state_ok env m d \<and> queue_ok m d \<and> shares_ok k m d ls \<and>
      threads_used d = busy_workers k ls \<and> max_threads_used d \<le> k)"

lemma work_states_differ [simp]:
  "WORK_STATE_IDLE \<noteq> WORK_STATE_BUSY" "WORK_STATE_BUSY \<noteq> WORK_STATE_IDLE" "WORK_STATE_IDLE \<noteq> WORK_STATE_DONE"
  "WORK_STATE_DONE \<noteq> WORK_STATE_IDLE" "WORK_STATE_BUSY \<noteq> WORK_STATE_DONE" "WORK_STATE_DONE \<noteq> WORK_STATE_BUSY"
  by (simp_all add: WORK_STATE_IDLE_def WORK_STATE_BUSY_def WORK_STATE_DONE_def)

text \<open>The other workers do not notice what one does to its own work.\<close>
lemma worker_ok_frame:
  assumes "worker_ok k env d l"
    and "\<And>w. holds l = Some w \<Longrightarrow> work_state d' w = work_state d w \<and> work_result d' w = work_result d w"
  shows "worker_ok k env d' l"
  using assms by (cases l) auto

lemma busy_workers_le: "busy_workers k ls \<le> k"
proof -
  have "busy_workers k ls \<le> (\<Sum>i<k. 1)" unfolding busy_workers_def by (rule sum_mono) simp
  then show ?thesis by simp
qed

lemma busy_workers_upd:
  "i < k \<Longrightarrow> busy_workers k (ls(i := l)) + of_bool (counted (ls i)) = busy_workers k ls + of_bool (counted l)"
  unfolding busy_workers_def by (rule sum_upd_add)

lemma busy_workers_other: "k \<le> i \<Longrightarrow> busy_workers k (ls(i := l)) = busy_workers k ls"
  unfolding busy_workers_def by (rule sum.cong) auto

text \<open>What one step of a worker does to the shared variables.\<close>
lemma worker_frame:
  assumes "working_thread env i d l = Some (Go d' l')"
  shows "wcreated d' = wcreated d \<and> cancelled d' = cancelled d \<and> collecting d' = collecting d \<and>
    collected d' = collected d \<and> work_freed d' = work_freed d"
  using assms by (cases l) (auto simp: working_thread_def use_work_def split: if_splits list.splits)

lemma worker_queue:
  assumes "working_thread env i d l = Some (Go d' l')"
  shows "(\<exists>w. l = Wk_receive \<and> work_queue d = w # work_queue d' \<and> l' = Wk_post w) \<or>
    (work_queue d' = work_queue d \<and> (\<forall>w. holds l' = Some w \<longrightarrow> holds l = Some w))"
  using assms by (cases l) (auto simp: working_thread_def split: if_splits list.splits)

lemma worker_works:
  assumes "working_thread env i d l = Some (Go d' l')" "holds l \<noteq> Some w"
  shows "work_state d' w = work_state d w \<and> work_result d' w = work_result d w"
  using assms by (cases l) (auto simp: working_thread_def split: if_splits list.splits)

lemma worker_counts:
  assumes "working_thread env i d l = Some (Go d' l')"
  shows "threads_used d' + of_bool (counted l) = threads_used d + of_bool (counted l')"
  using assms by (cases l) (auto simp: working_thread_def split: if_splits list.splits)

lemma worker_own:
  assumes "working_thread env i d l = Some (Go d' l')" "worker_ok k env d l"
    and "\<forall>w\<in>set (work_queue d). work_state d w = WORK_STATE_IDLE" "threads_used d \<le> k" "max_threads_used d \<le> k"
  shows "worker_ok k env d' l' \<and> max_threads_used d' \<le> k"
  using assms by (cases l) (auto simp: working_thread_def split: if_splits list.splits)

lemma worker_state:
  assumes "working_thread env i d l = Some (Go d' l')" "worker_ok k env d l" "state_ok env m d"
    and "\<And>w. holds l = Some w \<Longrightarrow> w < m \<and> w \<notin> set (work_queue d)"
  shows "state_ok env m d'"
  unfolding state_ok_def
proof (intro conjI allI impI)
  show "work_result d' w = duration env w" if "work_state d' w = WORK_STATE_DONE" for w
  proof (cases "holds l = Some w")
    case True
    then show ?thesis
      using assms(1,2) that
      by (cases l) (auto simp: working_thread_def split: if_splits list.splits)
  next
    case False
    then show ?thesis using worker_works [OF assms(1) False] assms(3) that by (simp add: state_ok_def)
  qed
  show "work_state d' w = WORK_STATE_IDLE" if "w \<in> set (work_queue d') \<or> m \<le> w" for w
  proof -
    have q: "w \<in> set (work_queue d) \<or> m \<le> w" using worker_queue [OF assms(1)] that by auto
    then have "holds l \<noteq> Some w" using assms(4) [of w] by auto
    then show ?thesis using worker_works [OF assms(1)] assms(3) q by (auto simp: state_ok_def)
  qed
qed

lemma collector_frame: "collector_ok d l \<Longrightarrow> collected d' = collected d \<Longrightarrow> collector_ok d' l"
  by (cases l) auto

lemma main_ok_frame:
  assumes "main_ok k n d l" "wcreated d' = wcreated d" "cancelled d' = cancelled d" "collecting d' = collecting d"
    "work_freed d' = work_freed d"
  shows "main_ok k n d' l"
  using assms by (cases l) auto

lemma shares_receive:
  assumes "shares_ok k m d ls" "queue_ok m d" "work_queue d = w # work_queue d'" "i < k"
  shows "shares_ok k m d' (ls(i := Wk_post w)) \<and> queue_ok m d'"
  using assms by (auto simp: shares_ok_def queue_ok_def split: if_splits)

lemma shares_keep:
  assumes "shares_ok k m d ls" "queue_ok m d" "work_queue d' = work_queue d" "i < k"
    and "\<forall>w. holds l' = Some w \<longrightarrow> holds (ls i) = Some w"
  shows "shares_ok k m d' (ls(i := l')) \<and> queue_ok m d'"
  using assms by (auto simp: shares_ok_def queue_ok_def split: if_splits)

lemma work_inv_worker:
  assumes inv: "work_inv cfg env d ls" and i: "i < worker_count cfg"
    and step: "working_thread env i d (ls i) = Some (Go d' l')"
  shows "work_inv cfg env d' (ls(i := l'))"
proof -
  let ?k = "worker_count cfg" and ?m = "sent (works cfg) (ls (Suc (worker_count cfg)))"
  have v: "\<forall>j<?k. worker_ok ?k env d (ls j)" "collector_ok d (ls ?k)" "main_ok ?k (works cfg) d (ls (Suc ?k))"
      "state_ok env ?m d" "queue_ok ?m d" "shares_ok ?k ?m d ls"
      "threads_used d = busy_workers ?k ls" "max_threads_used d \<le> ?k"
    using inv by (simp_all add: work_inv_def Let_def)
  note fr = worker_frame [OF step]
  have held: "w < ?m \<and> w \<notin> set (work_queue d)" if "holds (ls i) = Some w" for w
    using v(6) i that by (simp add: shares_ok_def)
  have own: "worker_ok ?k env d' l' \<and> max_threads_used d' \<le> ?k"
    by (rule worker_own [OF step]) (use v(1,4,7,8) i busy_workers_le in \<open>auto simp: state_ok_def\<close>)
  have others: "worker_ok ?k env d' ((ls(i := l')) j)" if j: "j < ?k" for j
  proof (cases "j = i")
    case False
    have "holds (ls i) \<noteq> Some w" if "holds (ls j) = Some w" for w
      using v(6) i j False that by (auto simp: shares_ok_def)
    then have "worker_ok ?k env d' (ls j)"
      using worker_ok_frame [of ?k env d "ls j" d'] v(1) j worker_works [OF step] by blast
    then show ?thesis using False by simp
  qed (simp add: own)
  have st: "state_ok env ?m d'" by (rule worker_state [OF step _ v(4) held]) (use v(1) i in blast)
  have sh: "shares_ok ?k ?m d' (ls(i := l')) \<and> queue_ok ?m d'"
    using worker_queue [OF step] shares_receive [OF v(6,5) _ i] shares_keep [OF v(6,5) _ i] by auto
  have "threads_used d' = busy_workers ?k (ls(i := l'))"
    using worker_counts [OF step] busy_workers_upd [OF i, of ls l'] v(7) by linarith
  then show ?thesis
    using others st sh own v(2) fr i main_ok_frame [OF v(3), of d'] collector_frame [OF v(2), of d']
    by (simp add: work_inv_def Let_def)
qed

lemma collector_step:
  assumes "results_thread cfg d l = Some (Go d' l')"
  shows "\<exists>t c. d' = d\<lparr>time_threads_sum := t, collected := c\<rparr> \<and> collector_ok d' l'"
proof (cases l)
  case (Rs_take w)
  show ?thesis
  proof (cases "w < works cfg")
    case True
    then show ?thesis using assms Rs_take
      by (intro exI [of _ "time_threads_sum d + work_result d w"] exI [of _ "collected d"])
        (auto simp: results_thread_def)
  next
    case False
    then show ?thesis using assms Rs_take
      by (intro exI [of _ "time_threads_sum d"] exI [of _ True]) (auto simp: results_thread_def)
  qed
next
  case Rs_start
  then show ?thesis using assms
    by (intro exI [of _ 0] exI [of _ "collected d"]) (auto simp: results_thread_def split: if_splits)
qed (use assms in \<open>simp_all add: results_thread_def\<close>)

lemma work_inv_collector:
  assumes inv: "work_inv cfg env d ls" and k: "k = worker_count cfg"
    and step: "results_thread cfg d (ls k) = Some (Go d' l')"
  shows "work_inv cfg env d' (ls(k := l'))"
proof -
  obtain t c where d': "d' = d\<lparr>time_threads_sum := t, collected := c\<rparr>" and l': "collector_ok d' l'"
    using collector_step [OF step] by blast
  have "worker_ok k env d' (ls j)" if "j < k" for j
    by (rule worker_ok_frame [where d = d]) (use inv that k in \<open>auto simp: work_inv_def Let_def d'\<close>)
  moreover have "main_ok k (works cfg) d' (ls (Suc k))"
    by (rule main_ok_frame [where d = d]) (use inv k in \<open>auto simp: work_inv_def Let_def d'\<close>)
  ultimately show ?thesis
    using inv l' by (simp add: busy_workers_other work_inv_def Let_def k [symmetric] state_ok_def queue_ok_def shares_ok_def d')
qed

lemma main_frame:
  assumes "do_all cfg env d l = Some (Go d' l')" "main_ok k n d l" "k = worker_count cfg" "n = works cfg"
  shows "work_state d' = work_state d \<and> work_result d' = work_result d \<and> threads_used d' = threads_used d \<and>
    max_threads_used d' = max_threads_used d \<and> collected d' = collected d \<and> main_ok k n d' l' \<and>
    sent n l \<le> sent n l' \<and>
    (work_queue d' = work_queue d \<or>
     (work_queue d' = work_queue d @ [sent n l] \<and> sent n l < sent n l' \<and> length (work_queue d) < MQ_LEN))"
  using assms by (cases l) (auto simp: do_all_def split: if_splits)

lemma shares_sent:
  assumes "shares_ok k m d ls" "m \<le> m'" "work_queue d' = work_queue d \<or> work_queue d' = work_queue d @ [m]"
    and "\<And>j. j < k \<Longrightarrow> ls' j = ls j"
  shows "shares_ok k m' d' ls'"
  unfolding shares_ok_def
proof (intro conjI allI impI)
  show "w < m'" "w \<notin> set (work_queue d')" if "j < k" "holds (ls' j) = Some w" for j w
  proof -
    have "w < m" "w \<notin> set (work_queue d)" using assms(1,4) that by (auto simp: shares_ok_def)
    then show "w < m'" "w \<notin> set (work_queue d')" using assms(2,3) by auto
  qed
  show "i = j" if "i < k" "j < k" "holds (ls' i) = Some w" "holds (ls' j) = Some w" for i j w
    using assms(1,4) that by (simp add: shares_ok_def)
qed

lemma queue_sent:
  assumes "state_ok env m d" "queue_ok m d" "m \<le> m'" "work_state d' = work_state d" "work_result d' = work_result d"
    and "work_queue d' = work_queue d \<or>
      (work_queue d' = work_queue d @ [m] \<and> m < m' \<and> length (work_queue d) < MQ_LEN)"
  shows "state_ok env m' d'" "queue_ok m' d'"
proof -
  show "state_ok env m' d'" using assms(1,3-6) by (auto simp: state_ok_def)
  show "queue_ok m' d'" using assms(2,3,6) by (fastforce simp: queue_ok_def)
qed

lemma work_inv_main:
  assumes inv: "work_inv cfg env d ls" and k: "k = worker_count cfg"
    and step: "do_all cfg env d (ls (Suc k)) = Some (Go d' l')"
  shows "work_inv cfg env d' (ls(Suc k := l'))"
proof -
  let ?n = "works cfg"
  let ?m = "sent ?n (ls (Suc k))" and ?m' = "sent ?n l'"
  have v: "\<forall>j<k. worker_ok k env d (ls j)" "collector_ok d (ls k)" "main_ok k ?n d (ls (Suc k))"
      "state_ok env ?m d" "queue_ok ?m d" "shares_ok k ?m d ls"
      "threads_used d = busy_workers k ls" "max_threads_used d \<le> k"
    using inv by (simp_all add: work_inv_def Let_def k)
  have f: "work_state d' = work_state d" "work_result d' = work_result d" "threads_used d' = threads_used d"
      "max_threads_used d' = max_threads_used d" "collected d' = collected d" "main_ok k ?n d' l'" "?m \<le> ?m'"
    and q: "work_queue d' = work_queue d \<or>
      (work_queue d' = work_queue d @ [?m] \<and> ?m < ?m' \<and> length (work_queue d) < MQ_LEN)"
    using main_frame [OF step v(3) k refl] by blast+
  have "worker_ok k env d' (ls j)" if "j < k" for j
    by (rule worker_ok_frame [where d = d]) (use v(1) that f(1,2) in simp_all)
  moreover note collector_frame [OF v(2) f(5)] queue_sent [OF v(4,5) f(7,1,2) q]
  moreover have "shares_ok k ?m' d' (ls(Suc k := l'))"
    by (rule shares_sent [OF v(6) f(7)]) (use q in auto)
  ultimately show ?thesis
    using f(3-6) v(7,8) by (simp add: busy_workers_other work_inv_def Let_def k [symmetric])
qed

lemma busy_workers_0: "(\<And>i. i < k \<Longrightarrow> \<not> counted (ls i)) \<Longrightarrow> busy_workers k ls = 0"
  by (simp add: busy_workers_def)

lemma work_data_inv: "work_inv cfg env work_data (snd (work_start cfg env))"
  by (auto simp: work_inv_def work_start_def work_data_def Let_def state_ok_def queue_ok_def
      shares_ok_def busy_workers_0)

lemma work_inv_start: "init_work env = Returns d \<Longrightarrow> work_inv cfg env d (snd (work_start cfg env))"
  using work_data_inv by (auto simp: init_work_def split: if_splits)

lemma work_outs_inv:
  assumes inv: "work_inv cfg env d ls" and i: "i < work_threads cfg"
    and step: "work_outs cfg env i d (ls i) = Some (Go d' l')"
  shows "work_inv cfg env d' (ls(i := l'))"
proof -
  consider "i < worker_count cfg" | "i = worker_count cfg" | "i = Suc (worker_count cfg)" using i by linarith
  then show ?thesis
  proof cases
    case 1
    then show ?thesis using work_inv_worker [OF inv 1] step by (simp add: work_outs_def)
  next
    case 2
    then show ?thesis using work_inv_collector [OF inv 2] step by (simp add: work_outs_def)
  next
    case 3
    then show ?thesis using work_inv_main [OF inv refl] step by (simp add: work_outs_def)
  qed
qed

lemma work_outs_quit:
  assumes "work_outs cfg env i d l = Some (Quit d' x)"
  shows "d' = d \<and> (x = EXIT_SUCCESS \<or> x = EXIT_FAILURE)"
  using assms by (cases l) (auto simp: work_outs_def working_thread_def results_thread_def do_all_def
      split: if_splits list.splits)

lemma work_reach_inv:
  assumes "reach (work_threads cfg) (free_step (work_outs cfg env)) (work_start cfg env) c"
    and "init_work env = Returns d0"
  shows "work_inv cfg env (fst (fst c)) (snd c) \<and>
    (\<forall>x. snd (fst c) = Some x \<longrightarrow> x = EXIT_SUCCESS \<or> x = EXIT_FAILURE)"
proof (rule free_invariant [where R = "\<lambda>d x. x = EXIT_SUCCESS \<or> x = EXIT_FAILURE", OF assms(1)])
  show "work_inv cfg env (fst (fst (work_start cfg env))) (snd (work_start cfg env))"
    using work_inv_start [OF assms(2), of cfg] assms(2) by (simp add: work_start_def)
  show "snd (fst (work_start cfg env)) = None" using assms(2) by (simp add: work_start_def)
  show "work_outs cfg env i d l \<noteq> Some (Sync d' l')" for i d l d' l' by (rule work_outs_sync)
  show "work_inv cfg env d' (ls(i := l'))"
    if "work_inv cfg env d ls" "i < work_threads cfg" "work_outs cfg env i d (ls i) = Some (Go d' l')"
    for d ls i d' l'
    by (rule work_outs_inv [OF that])
  show "work_inv cfg env d' ls \<and> (x = EXIT_SUCCESS \<or> x = EXIT_FAILURE)"
    if "work_inv cfg env d ls" "i < work_threads cfg" "work_outs cfg env i d (ls i) = Some (Quit d' x)"
    for d ls i d' x
    using work_outs_quit [OF that(3)] that(1) by simp
qed

section \<open>Nobody waits for ever\<close>

text \<open>A worker with something to do can do it.\<close>
lemma worker_moves:
  assumes "worker_ok k env d l" "i < wcreated d" "cancelled d = 0" "work_queue d \<noteq> []"
    and "counted l \<Longrightarrow> 0 < threads_used d"
  shows "working_thread env i d l \<noteq> None"
  using assms by (cases l) (auto simp: working_thread_def split: list.splits)

lemma collector_moves:
  "collector_ok d l \<Longrightarrow> collecting d \<Longrightarrow> \<not> collected d \<Longrightarrow> results_thread cfg d l \<noteq> None"
  by (cases l) (auto simp: results_thread_def)

lemma main_moves:
  assumes "main_ok k n d l" "do_all cfg env d l = None"
  shows "(\<exists>w. l = Mw_send w \<and> \<not> length (work_queue d) < MQ_LEN) \<or> (l = Mw_join \<and> \<not> collected d)"
  using assms by (cases l) (auto simp: do_all_def split: if_splits)

lemma busy_worker_counted: "i < k \<Longrightarrow> counted (ls i) \<Longrightarrow> 0 < busy_workers k ls"
  using member_le_sum_nat [of i k "\<lambda>j. of_bool (counted (ls j))"] by (simp add: busy_workers_def)

lemma work_not_stuck:
  assumes inv: "work_inv cfg env d ls" and k: "k = worker_count cfg" "0 < k"
  shows "\<exists>i<work_threads cfg. work_outs cfg env i d (ls i) \<noteq> None"
proof (rule ccontr)
  assume none: "\<not> (\<exists>i<work_threads cfg. work_outs cfg env i d (ls i) \<noteq> None)"
  have n: "work_outs cfg env i d (ls i) = None" if "i < k + 2" for i
    using none that unfolding k(1) [symmetric] by blast
  have v: "worker_ok k env d (ls 0)" "collector_ok d (ls k)" "main_ok k (works cfg) d (ls (Suc k))"
      "threads_used d = busy_workers k ls"
    using inv k by (simp_all add: work_inv_def Let_def)
  have w: "working_thread env 0 d (ls 0) = None" "results_thread cfg d (ls k) = None" "do_all cfg env d (ls (Suc k)) = None"
    using n [of 0] n [of k] n [of "Suc k"] k(2) by (simp_all add: work_outs_def k(1) [symmetric])
  from main_moves [OF v(3) w(3)] show False
  proof
    assume "\<exists>m. ls (Suc k) = Mw_send m \<and> \<not> length (work_queue d) < MQ_LEN"
    then have "wcreated d = k" "cancelled d = 0" "work_queue d \<noteq> []" using v(3) by (auto simp: MQ_LEN_def)
    then show False
      using worker_moves [OF v(1), of 0] w(1) k(2) busy_worker_counted [of 0 k ls] v(4) by simp
  next
    assume "ls (Suc k) = Mw_join \<and> \<not> collected d"
    then show False using collector_moves [OF v(2), of cfg] w(2) v(3) by simp
  qed
qed

section \<open>Options that pass\<close>

definition wcfg_ok :: "wcfg \<Rightarrow> bool" where
  "wcfg_ok cfg \<longleftrightarrow> 1 \<le> sint (num_work cfg) \<and> sint (num_work cfg) \<le> MAX_WORK \<and>
     1 \<le> sint (num_threads cfg) \<and> sint (num_threads cfg) \<le> MAX_THREADS"

lemma clamp_ok: "hi \<in> {MAX_WORK, MAX_THREADS} \<Longrightarrow> 1 \<le> sint (clamp hi v) \<and> sint (clamp hi v) \<le> hi"
  by (auto simp: clamp_def MAX_WORK_def MAX_THREADS_def Let_def)

lemma work_parse_opt_ok: "wcfg_ok cfg \<Longrightarrow> work_parse_opt cfg e = Returns cfg' \<Longrightarrow> wcfg_ok cfg'"
  using clamp_ok [of MAX_WORK] clamp_ok [of MAX_THREADS]
  by (auto simp: work_parse_opt_def wcfg_ok_def Let_def split: opt_event.splits if_splits)

lemma work_options_ok:
  assumes "work_parse_options args = Returns cfg"
  shows "wcfg_ok cfg"
proof (rule opt_loop_invariant [where P = wcfg_ok])
  show "opt_loop work_parse_opt work_defaults (getopt ''hVvqt:n:w:'' args) = Returns cfg"
    using assms by (simp add: work_parse_options_def)
  show "wcfg_ok work_defaults"
    by (simp add: wcfg_ok_def work_defaults_def MAX_WORK_def MAX_THREADS_def)
  show "wcfg_ok a'" if "wcfg_ok a" "work_parse_opt a e = Returns a'" for a e a'
    using work_parse_opt_ok that by blast
qed

lemma worker_count_bounds:
  "wcfg_ok cfg \<Longrightarrow> 0 < worker_count cfg \<and> worker_count cfg \<le> works cfg \<and> worker_count cfg \<le> nat MAX_THREADS"
  by (auto simp: worker_count_def wcfg_ok_def)

section \<open>Properties\<close>

text \<open>C5. Every run of the working-threads program is finite, at most
  \<open>2 * worker_count + 14 * works + 10\<close> steps, and when no thread can go on the process has
  ended, with \<open>EXIT_SUCCESS\<close> or, after a failing call, \<open>EXIT_FAILURE\<close>: nobody waits for ever, neither
  at the full or the empty queue nor at the semaphore.\<close>
theorem working_threads_end:
  assumes "work_parse_options args = Returns cfg"
    and "run_sched (work_threads cfg) (free_step (work_outs cfg env)) sched (work_start cfg env) = Some c"
  shows "length sched \<le> 2 * worker_count cfg + 14 * works cfg + 10 \<and>
    (stuck (work_threads cfg) (free_step (work_outs cfg env)) c \<longrightarrow>
       snd (fst c) = Some EXIT_SUCCESS \<or> snd (fst c) = Some EXIT_FAILURE)"
proof (intro conjI impI)
  have "length sched + work_mu cfg c \<le> work_mu cfg (work_start cfg env)"
    by (rule run_bound [OF assms(2)]) (rule work_mu_less)
  then show "length sched \<le> 2 * worker_count cfg + 14 * works cfg + 10"
    using work_mu_start [of cfg env] by linarith
next
  assume st: "stuck (work_threads cfg) (free_step (work_outs cfg env)) c"
  have r: "reach (work_threads cfg) (free_step (work_outs cfg env)) (work_start cfg env) c"
    by (rule run_sched_reach [OF assms(2)])
  show "snd (fst c) = Some EXIT_SUCCESS \<or> snd (fst c) = Some EXIT_FAILURE"
  proof (cases "init_work env")
    case (Exits x d)
    then show ?thesis
      using ended_stays [OF r, of x] by (auto simp: work_start_def init_work_def split: if_splits)
  next
    case (Returns d0)
    note inv = work_reach_inv [OF r Returns]
    have k: "0 < worker_count cfg" using worker_count_bounds work_options_ok [OF assms(1)] by blast
    have "snd (fst c) \<noteq> None"
    proof
      assume n: "snd (fst c) = None"
      obtain i where "i < work_threads cfg" "work_outs cfg env i (fst (fst c)) (snd c i) \<noteq> None"
        using work_not_stuck [OF conjunct1 [OF inv] refl k] by blast
      then show False using st n by (auto simp: stuck_def free_step_def split: act.splits)
    qed
    then show ?thesis using inv by auto
  qed
qed

definition calm :: wenv where
  "calm = \<lparr>calloc_fails = False, sem_init_fails = False, mq_open_fails = False, receive_fails = (\<lambda>_. False),
     send_fails = (\<lambda>_. False), wcreate_fails = (\<lambda>_. False), cancel_fails = (\<lambda>_. False),
     duration = (\<lambda>w. 1000 * int (w + 1))\<rparr>"

definition one_work :: wcfg where "one_work = work_defaults\<lparr>num_work := 1, num_threads := 1\<rparr>"
definition two_works :: wcfg where "two_works = work_defaults\<lparr>num_work := 2, num_threads := 2\<rparr>"

lemma one_work_options: "work_parse_options [''-n'', ''1'', ''-t'', ''0''] = Returns one_work"
  by code_simp

lemma two_works_options: "work_parse_options [''-n'', ''2'', ''-t'', ''2''] = Returns two_works"
  by code_simp

text \<open>\<open>main\<close> is thread 2, the collector thread 1, the worker thread 0.\<close>
definition hasty :: "nat list" where
  "hasty = [2, 2, 2, 2, 2, 1, 1, 1, 2, 2, 2, 2, 2]"

lemma hasty_run:
  "case run_sched (work_threads one_work) (free_step (work_outs one_work calm)) hasty (work_start one_work calm) of
     None \<Rightarrow> False
   | Some c \<Rightarrow> snd (fst c) = Some 0 \<and> work_state (fst (fst c)) 0 = WORK_STATE_IDLE \<and>
       time_threads_sum (fst (fst c)) = 0"
  by code_simp

theorem working_threads_end_witness:
  "\<exists>c. run_sched (work_threads one_work) (free_step (work_outs one_work calm)) hasty (work_start one_work calm) = Some c \<and>
     length hasty \<le> 26 \<and> (snd (fst c) = Some EXIT_SUCCESS \<or> snd (fst c) = Some EXIT_FAILURE)"
proof -
  obtain c where c: "run_sched (work_threads one_work) (free_step (work_outs one_work calm)) hasty
      (work_start one_work calm) = Some c" "snd (fst c) = Some 0"
    using hasty_run by (auto split: option.splits)
  have "worker_count one_work = 1" "works one_work = 1" by code_simp+
  moreover have "stuck (work_threads one_work) (free_step (work_outs one_work calm)) c"
    using c(2) by (simp add: stuck_def free_step_def)
  ultimately show ?thesis using working_threads_end [OF one_work_options c(1)] c(1) by auto
qed

lemma sent_le: "main_ok k n d l \<Longrightarrow> sent n l \<le> n"
  by (cases l) auto

text \<open>C6. In every interleaving of the working-threads program the queue never holds more than \<open>MQ_LEN\<close>
  numbers, each of them once and each that of a work nobody has begun; no two workers have the same work and none has one
  that is still in the queue; a work that a worker has taken is idle until the worker marks it as busy and busy until it
  marks it as done, and a work that is marked as done has its result; \<open>threads_used\<close> is the number of workers between
  \<open>sem_post\<close> and \<open>sem_wait\<close>, so that the latter never waits; \<open>max_threads_used\<close> is at most the number of
  workers. (That a worker can use \<open>work\<close> after \<open>main\<close> has freed it is shown in \<open>working_threads_faults\<close>.)\<close>
theorem working_threads_safe:
  assumes "work_parse_options args = Returns cfg"
    and "reach (work_threads cfg) (free_step (work_outs cfg env)) (work_start cfg env) ((d, x), ls)"
  shows "length (work_queue d) \<le> MQ_LEN \<and> distinct (work_queue d) \<and>
    (\<forall>w\<in>set (work_queue d). w < works cfg \<and> work_state d w = WORK_STATE_IDLE) \<and>
    (\<forall>i<worker_count cfg. \<forall>w. holds (ls i) = Some w \<longrightarrow> w < works cfg \<and> w \<notin> set (work_queue d) \<and>
      work_state d w = (if ls i = Wk_compute w \<or> ls i = Wk_done w then WORK_STATE_BUSY else WORK_STATE_IDLE) \<and>
      (\<forall>j<worker_count cfg. holds (ls j) = Some w \<longrightarrow> j = i)) \<and>
    threads_used d = busy_workers (worker_count cfg) ls \<and> max_threads_used d \<le> worker_count cfg \<and>
    (\<forall>w. work_state d w = WORK_STATE_DONE \<longrightarrow> work_result d w = duration env w)"
proof -
  have "work_inv cfg env d ls"
  proof (cases "init_work env")
    case (Exits x' d')
    have "((d, x), ls) = work_start cfg env"
      by (rule ended_stays [OF assms(2)]) (use Exits in \<open>auto simp: work_start_def\<close>)
    moreover have "d' = work_data" using Exits by (auto simp: init_work_def split: if_splits)
    ultimately have "d = work_data" "ls = snd (work_start cfg env)" using Exits by (auto simp: work_start_def)
    then show ?thesis using work_data_inv [of cfg env] by simp
  next
    case (Returns d0)
    then show ?thesis using work_reach_inv [OF assms(2)] by simp
  qed
  note inv = this [unfolded work_inv_def Let_def]
  have "sent (works cfg) (ls (Suc (worker_count cfg))) \<le> works cfg" using inv sent_le by blast
  moreover have "work_state d w = (if ls i = Wk_compute w \<or> ls i = Wk_done w then WORK_STATE_BUSY else WORK_STATE_IDLE)"
    if "i < worker_count cfg" "holds (ls i) = Some w" for i w
    using inv that by (cases "ls i") auto
  ultimately show ?thesis using inv unfolding queue_ok_def shares_ok_def state_ok_def by (auto dest: order.strict_trans2)
qed

theorem working_threads_safe_witness:
  "\<exists>d x ls. reach 3 (free_step (work_outs one_work calm)) (work_start one_work calm) ((d, x), ls) \<and>
     work_state d 0 = WORK_STATE_DONE \<and> work_result d 0 = 1000 \<and> threads_used d = 1 \<and> max_threads_used d \<le> 1"
proof -
  have "case run_sched 3 (free_step (work_outs one_work calm)) [2, 2, 2, 2, 0, 0, 0, 0, 0, 0, 0, 0] (work_start one_work calm) of
      None \<Rightarrow> False
    | Some c \<Rightarrow> work_state (fst (fst c)) 0 = WORK_STATE_DONE \<and> busy_workers 1 (snd c) = 1"
    by code_simp
  from run_case [OF this] obtain d x ls where c: "reach 3 (free_step (work_outs one_work calm)) (work_start one_work calm) ((d, x), ls)"
    "work_state d 0 = WORK_STATE_DONE" "busy_workers 1 ls = 1" by auto
  have n: "worker_count one_work = 1" by code_simp
  then have 3: "work_threads one_work = 3" by simp
  have "work_result d 0 = duration calm 0 \<and> threads_used d = 1 \<and> max_threads_used d \<le> 1"
    using working_threads_safe [OF one_work_options, unfolded 3, OF c(1)] c(2,3) n by simp
  then show ?thesis using c by (auto simp: calm_def)
qed

text \<open>What the missing waiting and the unprotected variables allow, with every call successful: the
  program can end with \<open>EXIT_SUCCESS\<close> although no work was begun and the sum of times is 0; a
  worker that was asked to end may still write to \<open>work\<close> after \<open>main\<close> has freed it; and with two
  workers at work \<open>max_threads_used\<close> can be 1.\<close>
theorem working_threads_faults:
  "(\<exists>d ls. reach 3 (free_step (work_outs one_work calm)) (work_start one_work calm) ((d, Some EXIT_SUCCESS), ls) \<and>
      work_state d 0 = WORK_STATE_IDLE \<and> time_threads_sum d = 0) \<and>
   (\<exists>d ls. reach 3 (free_step (work_outs one_work calm)) (work_start one_work calm) ((d, Some EXIT_SUCCESS), ls) \<and>
      used_after_free d) \<and>
   (\<exists>d ls. reach 4 (free_step (work_outs two_works calm)) (work_start two_works calm) ((d, None), ls) \<and>
      ls 0 = Wk_busy 0 \<and> ls 1 = Wk_busy 1 \<and> threads_used d = 2 \<and> max_threads_used d = 1)"
proof (intro conjI)
  have "case run_sched 3 (free_step (work_outs one_work calm)) hasty (work_start one_work calm) of
      None \<Rightarrow> False
    | Some c \<Rightarrow> snd (fst c) = Some 0 \<and> work_state (fst (fst c)) 0 = WORK_STATE_IDLE \<and> time_threads_sum (fst (fst c)) = 0"
    by code_simp
  from run_case [OF this]
  show "\<exists>d ls. reach 3 (free_step (work_outs one_work calm)) (work_start one_work calm) ((d, Some EXIT_SUCCESS), ls) \<and>
      work_state d 0 = WORK_STATE_IDLE \<and> time_threads_sum d = 0" by auto
  have "case run_sched 3 (free_step (work_outs one_work calm))
      ([2, 2, 2, 2, 2, 0, 0, 0, 0, 0, 1, 1, 1] @ [2, 2, 2, 2, 0, 2]) (work_start one_work calm) of
      None \<Rightarrow> False | Some c \<Rightarrow> snd (fst c) = Some 0 \<and> used_after_free (fst (fst c))"
    by code_simp
  from run_case [OF this]
  show "\<exists>d ls. reach 3 (free_step (work_outs one_work calm)) (work_start one_work calm) ((d, Some EXIT_SUCCESS), ls) \<and>
      used_after_free d" by auto
  have "case run_sched 4 (free_step (work_outs two_works calm))
      [3, 3, 3, 3, 3, 3, 0, 0, 0, 0, 1, 1, 1, 1, 1, 0] (work_start two_works calm) of
      None \<Rightarrow> False
    | Some c \<Rightarrow> snd (fst c) = None \<and> snd c 0 = Wk_busy 0 \<and> snd c 1 = Wk_busy 1 \<and> threads_used (fst (fst c)) = 2 \<and>
        max_threads_used (fst (fst c)) = 1"
    by code_simp
  from run_case [OF this]
  show "\<exists>d ls. reach 4 (free_step (work_outs two_works calm)) (work_start two_works calm) ((d, None), ls) \<and>
      ls 0 = Wk_busy 0 \<and> ls 1 = Wk_busy 1 \<and> threads_used d = 2 \<and> max_threads_used d = 1" by auto
qed

end
