(* ===== verification/Echo_Server.thy ===== *)
theory Echo_Server
  imports Libc
begin

text \<open>
  \<open>07-sockets/multi-client-echo-server.c\<close>: one thread that waits with \<open>select\<close> for the listening
  socket and its clients, accepts, reads and echoes. The kernel's side is modelled as POSIX documents it: a
  new descriptor is the lowest one that is free, \<open>select\<close> reports only descriptors it was asked about,
  \<open>recv\<close> returns at most as many bytes as the buffer holds, \<open>send\<close> may take fewer than it was given, and
  writing to a connection closed by the other side raises \<open>SIGPIPE\<close>. What the network does is the
  list of events. Printing addresses is left out.
\<close>

section \<open>Data\<close>

definition BUFLEN :: nat where "BUFLEN = 1024"
definition FD_SETSIZE :: nat where "FD_SETSIZE = 1024"

text \<open>The exit status of a process killed by \<open>SIGPIPE\<close> (128 + 13).\<close>
abbreviation SIGPIPE_STATUS :: int where "SIGPIPE_STATUS \<equiv> 141"

text \<open>What \<open>recv\<close> and \<open>send\<close> on a descriptor do in one round; no data means that the client has
  closed the connection.\<close>
datatype recv_res = Received string | Recv_error
datatype send_res = Sent nat | Send_error | Sigpipe

record round =
  accept_ok :: bool
  recvs :: "nat \<Rightarrow> recv_res"
  sends :: "nat \<Rightarrow> send_res"

datatype select_event = Select_fails | Ready "nat \<Rightarrow> bool" round

text \<open>\<open>rfd\<close> and \<open>dsize\<close> are the program's; the descriptors that are open, what came and went on
  each, and whether a descriptor was used that is not open, the kernel's.\<close>
record echo_state =
  rfd :: "nat \<Rightarrow> bool"
  dsize :: nat
  opened :: "nat \<Rightarrow> bool"
  came :: "nat \<Rightarrow> string"
  went :: "nat \<Rightarrow> string"
  misused :: bool

definition lowest_free :: "nat \<Rightarrow> (nat \<Rightarrow> bool) \<Rightarrow> nat option" where
  "lowest_free limit op = find (\<lambda>c. \<not> op c) [0..<limit]"

section \<open>Starting\<close>

text \<open>An address to try: do \<open>socket\<close>, \<open>setsockopt\<close> and \<open>bind\<close> succeed?\<close>
record address =
  socket_ok :: bool
  reuse_ok :: bool
  bind_ok :: bool

text \<open>The loop over \<open>servinfo\<close>: the descriptor and the open descriptors; what fails is closed.\<close>
fun bind_first :: "nat \<Rightarrow> (nat \<Rightarrow> bool) \<Rightarrow> address list \<Rightarrow> (nat \<times> (nat \<Rightarrow> bool)) option" where
  "bind_first limit op [] = None"
| "bind_first limit op (a # as) =
     (case (if socket_ok a then lowest_free limit op else None) of
        None \<Rightarrow> bind_first limit op as
      | Some s \<Rightarrow>
          if \<not> reuse_ok a \<or> \<not> bind_ok a then bind_first limit ((op(s := True))(s := False)) as
          else Some (s, op(s := True)))"

definition descriptors :: "nat \<Rightarrow> nat" where
  "descriptors limit = (if limit > FD_SETSIZE then FD_SETSIZE else limit)"

text \<open>\<open>main\<close> up to the endless loop, with the answer of \<open>getaddrinfo\<close>, the inherited descriptors
  and the result of \<open>listen\<close>: the listening descriptor and the state.\<close>
definition echo_start ::
    "nat \<Rightarrow> (nat \<Rightarrow> bool) \<Rightarrow> address list option \<Rightarrow> bool \<Rightarrow> (nat \<times> echo_state) option" where
  "echo_start limit inherited addresses listen_ok =
     (case addresses of
        None \<Rightarrow> None
      | Some as \<Rightarrow>
          (case bind_first limit inherited as of
             None \<Rightarrow> None
           | Some (s, op) \<Rightarrow>
               if \<not> listen_ok then None
               else Some (s, \<lparr>rfd = (\<lambda>_. False)(s := True), dsize = s + 1, opened = op, came = (\<lambda>_. []),
                 went = (\<lambda>_. []), misused = False\<rparr>)))"

section \<open>The loop\<close>

definition accept_client :: "nat \<Rightarrow> bool \<Rightarrow> echo_state \<Rightarrow> echo_state" where
  "accept_client limit ok st =
     (case (if ok then lowest_free limit (opened st) else None) of
        None \<Rightarrow> st
      | Some cs \<Rightarrow>
          if cs \<ge> descriptors limit then st\<lparr>opened := ((opened st)(cs := True))(cs := False)\<rparr>
          else st\<lparr>opened := (opened st)(cs := True), came := (came st)(cs := []), went := (went st)(cs := []),
            rfd := (rfd st)(cs := True), dsize := (if cs \<ge> dsize st then cs + 1 else dsize st)\<rparr>)"

definition close_client :: "nat \<Rightarrow> echo_state \<Rightarrow> echo_state" where
  "close_client d st = st\<lparr>opened := (opened st)(d := False), rfd := (rfd st)(d := False)\<rparr>"

definition serve_client :: "round \<Rightarrow> nat \<Rightarrow> echo_state \<Rightarrow> echo_state outcome" where
  "serve_client rd d st =
     (let st0 = st\<lparr>misused := misused st \<or> \<not> opened st d\<rparr> in
      case recvs rd d of
        Recv_error \<Rightarrow> Returns (close_client d st0)
      | Received data \<Rightarrow>
          (let buf = take BUFLEN data; st1 = st0\<lparr>came := (came st)(d := came st d @ buf)\<rparr> in
           if buf = [] then Returns (close_client d st0)
           else case sends rd d of
                  Sent n \<Rightarrow> Returns (st1\<lparr>went := (went st)(d := went st d @ take n buf)\<rparr>)
                | Send_error \<Rightarrow> Returns st1
                | Sigpipe \<Rightarrow> Exits SIGPIPE_STATUS st1))"

lemma accept_client_dsize: "dsize (accept_client limit ok st) \<le> max (dsize st) limit"
proof (cases "if ok then lowest_free limit (opened st) else None")
  case (Some cs)
  then have "cs < limit" by (auto simp: lowest_free_def find_Some_iff split: if_splits)
  then show ?thesis using Some by (simp add: accept_client_def max_def)
qed (simp add: accept_client_def)

lemma serve_client_dsize: "serve_client rd d st = Returns st' \<Longrightarrow> dsize st' = dsize st"
  by (auto simp: serve_client_def close_client_def Let_def split: recv_res.splits send_res.splits if_splits)

text \<open>\<open>for (d = 3; d < dsize; ++d)\<close>; \<open>dsize\<close> may grow on the way.\<close>
function serve_from ::
    "nat \<Rightarrow> nat \<Rightarrow> (nat \<Rightarrow> bool) \<Rightarrow> round \<Rightarrow> nat \<Rightarrow> echo_state \<Rightarrow> echo_state outcome" where
  "serve_from limit s ready rd d st =
     (if d < dsize st then
        (if \<not> ready d then serve_from limit s ready rd (d + 1) st
         else if d = s then serve_from limit s ready rd (d + 1) (accept_client limit (accept_ok rd) st)
         else (case serve_client rd d st of
                 Exits x st' \<Rightarrow> Exits x st'
               | Returns st' \<Rightarrow> serve_from limit s ready rd (d + 1) st'))
      else Returns st)"
  by pat_completeness auto
termination
proof (relation "measure (\<lambda>(limit, s, ready, rd, d, st). max (dsize st) limit - d)", goal_cases)
  case (3 limit s ready rd d st)
  then show ?case using accept_client_dsize [of limit "accept_ok rd" st] by auto
next
  case (4 limit s ready rd d st st')
  then show ?case using serve_client_dsize by auto
qed auto

declare serve_from.simps [simp del]

text \<open>\<open>while (1)\<close>: the events that come; the server waits for the next one.\<close>
fun serve :: "nat \<Rightarrow> nat \<Rightarrow> select_event list \<Rightarrow> echo_state \<Rightarrow> echo_state outcome" where
  "serve limit s [] st = Returns st"
| "serve limit s (Select_fails # es) st = Exits EXIT_FAILURE st"
| "serve limit s (Ready r rd # es) st =
     (case serve_from limit s (\<lambda>d. r d \<and> rfd st d) rd 3 st of
        Exits x st' \<Rightarrow> Exits x st'
      | Returns st' \<Rightarrow> serve limit s es st')"

section \<open>The invariant\<close>

definition echo_inv :: "nat \<Rightarrow> nat \<Rightarrow> (nat \<Rightarrow> bool) \<Rightarrow> echo_state \<Rightarrow> bool" where
  "echo_inv limit s inherited st \<longleftrightarrow>
     rfd st s \<and> (\<forall>d. opened st d \<longleftrightarrow> inherited d \<or> rfd st d) \<and> (\<forall>d. rfd st d \<longrightarrow> \<not> inherited d \<and> d < dsize st) \<and>
     dsize st \<le> descriptors limit \<and> \<not> misused st"

lemma lowest_free_Some: "lowest_free limit op = Some c \<Longrightarrow> c < limit \<and> \<not> op c"
  by (auto simp: lowest_free_def find_Some_iff)

lemma echo_inv_accept:
  assumes "echo_inv limit s inherited st"
  shows "echo_inv limit s inherited (accept_client limit ok st)"
proof (cases "if ok then lowest_free limit (opened st) else None")
  case (Some cs)
  then have "\<not> opened st cs" using lowest_free_Some by (auto split: if_splits)
  then show ?thesis
    using assms Some by (auto simp: accept_client_def echo_inv_def less_Suc_eq)
qed (use assms in \<open>simp add: accept_client_def\<close>)

lemma echo_inv_close:
  assumes "echo_inv limit s inherited st" "rfd st d" "d \<noteq> s"
  shows "echo_inv limit s inherited (close_client d (st\<lparr>misused := misused st \<or> \<not> opened st d\<rparr>))"
  using assms by (auto simp: close_client_def echo_inv_def)

text \<open>Serving one client.\<close>
lemma serve_client_ok:
  assumes "echo_inv limit s inherited st" "rfd st d" "d \<noteq> s"
  shows "case serve_client rd d st of
      Exits x st' \<Rightarrow> x = SIGPIPE_STATUS \<and> echo_inv limit s inherited st' \<and> rfd st' = rfd st
    | Returns st' \<Rightarrow> echo_inv limit s inherited st' \<and> (\<forall>j. j \<noteq> d \<longrightarrow> rfd st' j = rfd st j)"
proof -
  have m: "\<not> (misused st \<or> \<not> opened st d)" using assms by (auto simp: echo_inv_def)
  note c = echo_inv_close [OF assms]
  have keep: "echo_inv limit s inherited (st\<lparr>misused := misused st \<or> \<not> opened st d, came := a, went := b\<rparr>)"
      "echo_inv limit s inherited (st\<lparr>misused := misused st \<or> \<not> opened st d, came := a\<rparr>)" for a b
    using assms(1) m by (auto simp: echo_inv_def)
  show ?thesis
    using c keep unfolding serve_client_def Let_def
    by (auto simp: close_client_def split: recv_res.splits send_res.splits if_splits)
qed

lemma accept_keeps: "rfd st j \<Longrightarrow> rfd (accept_client limit ok st) j"
  by (auto simp: accept_client_def split: option.splits)

lemma serve_from_ok:
  assumes "echo_inv limit s inherited st" "\<And>j. d \<le> j \<Longrightarrow> ready j \<Longrightarrow> rfd st j"
  shows "case serve_from limit s ready rd d st of
      Exits x st' \<Rightarrow> x = SIGPIPE_STATUS \<and> echo_inv limit s inherited st'
    | Returns st' \<Rightarrow> echo_inv limit s inherited st'"
  using assms
proof (induction limit s ready rd d st rule: serve_from.induct)
  case (1 limit s ready rd d st)
  have u: "serve_from limit s ready rd d st = (if d < dsize st then
        (if \<not> ready d then serve_from limit s ready rd (d + 1) st
         else if d = s then serve_from limit s ready rd (d + 1) (accept_client limit (accept_ok rd) st)
         else (case serve_client rd d st of
                 Exits x st' \<Rightarrow> Exits x st'
               | Returns st' \<Rightarrow> serve_from limit s ready rd (d + 1) st'))
      else Returns st)"
    by (rule serve_from.simps)
  show ?case
  proof (cases "d < dsize st \<and> ready d")
    case False
    then show ?thesis using "1.IH"(1) "1.prems" by (cases "d < dsize st") (simp_all add: u)
  next
    case True
    show ?thesis
    proof (cases "d = s")
      case s: True
      have "echo_inv limit s inherited (accept_client limit (accept_ok rd) st)"
        by (rule echo_inv_accept [OF "1.prems"(1)])
      moreover have "rfd (accept_client limit (accept_ok rd) st) j" if "d + 1 \<le> j" "ready j" for j
        using "1.prems"(2) that by (intro accept_keeps) simp
      moreover have "serve_from limit s ready rd d st =
          serve_from limit s ready rd (d + 1) (accept_client limit (accept_ok rd) st)"
        unfolding u using True s by simp
      ultimately show ?thesis using "1.IH"(2) True s by simp
    next
      case c: False
      note ok = serve_client_ok [OF "1.prems"(1) "1.prems"(2) [OF order.refl] c, of rd]
      show ?thesis
      proof (cases "serve_client rd d st")
        case (Exits x st')
        then show ?thesis using ok True c by (simp add: u)
      next
        case (Returns st')
        have "rfd st' j" if "d + 1 \<le> j" "ready j" for j
          using ok Returns True "1.prems"(2) [of j] that by simp
        then show ?thesis using "1.IH"(3) [OF _ _ c Returns] ok Returns True c by (simp add: u)
      qed
    qed
  qed
qed

lemma serve_ok:
  assumes "echo_inv limit s inherited st"
  shows "case serve limit s es st of
      Exits x st' \<Rightarrow> (x = EXIT_FAILURE \<or> x = SIGPIPE_STATUS) \<and> echo_inv limit s inherited st'
    | Returns st' \<Rightarrow> echo_inv limit s inherited st'"
  using assms
proof (induction limit s es st rule: serve.induct)
  case (3 limit s r rd es st)
  note ok = serve_from_ok [OF "3.prems", of 3 "\<lambda>d. r d \<and> rfd st d" rd]
  then show ?case
    using "3.IH" by (cases "serve_from limit s (\<lambda>d. r d \<and> rfd st d) rd 3 st") simp_all
qed simp_all

section \<open>The echo\<close>

text \<open>The round delivers everything: every \<open>send\<close> takes the whole buffer.\<close>
definition delivers :: "round \<Rightarrow> bool" where
  "delivers rd \<longleftrightarrow> (\<forall>d. \<exists>n\<ge>BUFLEN. sends rd d = Sent n)"

fun undisturbed :: "select_event \<Rightarrow> bool" where
  "undisturbed Select_fails = False"
| "undisturbed (Ready r rd) = delivers rd"

lemma accept_echo: "went st = came st \<Longrightarrow> went (accept_client limit ok st) = came (accept_client limit ok st)"
  by (auto simp: accept_client_def split: option.splits)

lemma serve_client_echo:
  assumes "delivers rd" "went st = came st"
  shows "\<exists>st'. serve_client rd d st = Returns st' \<and> went st' = came st'"
proof -
  obtain n where n: "BUFLEN \<le> n" "sends rd d = Sent n" using assms(1) by (auto simp: delivers_def)
  then have "take n (take BUFLEN x) = take BUFLEN x" for x :: string by (simp add: min_def)
  then show ?thesis
    using n(2) assms(2) by (cases "recvs rd d") (auto simp: serve_client_def close_client_def Let_def)
qed

lemma serve_from_echo:
  assumes "delivers rd" "went st = came st"
  shows "\<exists>st'. serve_from limit s ready rd d st = Returns st' \<and> went st' = came st'"
  using assms
proof (induction limit s ready rd d st rule: serve_from.induct)
  case (1 limit s ready rd d st)
  obtain st1 where st1: "serve_client rd d st = Returns st1" "went st1 = came st1"
    using serve_client_echo [OF "1.prems"] by blast
  show ?case
    unfolding serve_from.simps [of limit s ready rd d st]
    using "1.IH" "1.prems" st1 accept_echo [OF "1.prems"(2)] by (simp split: if_splits)
qed

lemma serve_echo:
  "list_all undisturbed es \<Longrightarrow> went st = came st \<Longrightarrow> \<exists>st'. serve limit s es st = Returns st' \<and> went st' = came st'"
proof (induction limit s es st rule: serve.induct)
  case (3 limit s r rd es st)
  obtain st1 where "serve_from limit s (\<lambda>d. r d \<and> rfd st d) rd 3 st = Returns st1" "went st1 = came st1"
    using serve_from_echo [of rd st limit s _ 3] "3.prems" by fastforce
  then show ?case using "3.IH" [of st1] "3.prems" by simp
qed simp_all

section \<open>Starting well\<close>

lemma bind_first_ok:
  assumes "bind_first limit op as = Some (s, op')"
  shows "s < limit \<and> \<not> op s \<and> op' = op(s := True)"
  using assms
proof (induction limit op as rule: bind_first.induct)
  case (2 limit op a as)
  show ?case
  proof (cases "if socket_ok a then lowest_free limit op else None")
    case None
    then show ?thesis using 2 by simp
  next
    case (Some c)
    then have c: "c < limit" "\<not> op c" using lowest_free_Some by (auto split: if_splits)
    then have eq: "(op(c := True))(c := False) = op" by (auto simp: fun_eq_iff)
    show ?thesis
    proof (cases "\<not> reuse_ok a \<or> \<not> bind_ok a")
      case True
      have "bind_first limit op as = Some (s, op')" using "2.prems" Some True eq by (simp split: if_splits)
      then show ?thesis using "2.IH"(2) [OF Some True, unfolded eq] by blast
    next
      case False
      then have "s = c \<and> op' = op(c := True)" using "2.prems" Some by (auto split: if_splits)
      then show ?thesis using c by blast
    qed
  qed
qed simp

lemma echo_start_ok:
  assumes "echo_start limit inherited addresses ok = Some (s, st)" "s < FD_SETSIZE"
  shows "echo_inv limit s inherited st \<and> went st = came st"
  using assms bind_first_ok
  by (fastforce simp: echo_start_def echo_inv_def descriptors_def split: option.splits if_splits)

text \<open>C7. The echo server, with the standard streams open and a listening descriptor that fits an
  \<open>fd_set\<close>, whatever its clients do: it reads, writes and closes open descriptors only, the open
  descriptors are the inherited and the watched ones (no connection is lost and none is left
  open), the watched ones lie between 3 and \<open>dsize\<close>, which fits the set; only a failing \<open>select\<close> or a
  client that has gone while it is written to ends it; and while every \<open>send\<close> takes all it is given,
  every connection gets back exactly what it sent.\<close>
theorem echo_server_correct:
  assumes "echo_start limit inherited addresses ok = Some (s, st0)" "s < FD_SETSIZE"
    and "inherited 0" "inherited 1" "inherited 2"
  shows "(case serve limit s es st0 of
      Exits x st \<Rightarrow> (x = EXIT_FAILURE \<or> x = SIGPIPE_STATUS) \<and> \<not> misused st
    | Returns st \<Rightarrow> \<not> misused st \<and> (\<forall>d. opened st d \<longleftrightarrow> inherited d \<or> rfd st d) \<and>
        (\<forall>d. rfd st d \<longrightarrow> 3 \<le> d \<and> d < dsize st) \<and> dsize st \<le> FD_SETSIZE) \<and>
    (list_all undisturbed es \<longrightarrow> (\<exists>st. serve limit s es st0 = Returns st \<and> went st = came st))"
proof -
  note start = echo_start_ok [OF assms(1,2)]
  note ok = serve_ok [OF conjunct1 [OF start], of es]
  have "3 \<le> d" if "rfd st d" "echo_inv limit s inherited st" for d st
  proof (rule ccontr)
    assume "\<not> 3 \<le> d"
    then have "d = 0 \<or> d = 1 \<or> d = 2" by linarith
    then show False using that assms(3-5) by (auto simp: echo_inv_def)
  qed
  then have "case serve limit s es st0 of
      Exits x st \<Rightarrow> (x = EXIT_FAILURE \<or> x = SIGPIPE_STATUS) \<and> \<not> misused st
    | Returns st \<Rightarrow> \<not> misused st \<and> (\<forall>d. opened st d \<longleftrightarrow> inherited d \<or> rfd st d) \<and>
        (\<forall>d. rfd st d \<longrightarrow> 3 \<le> d \<and> d < dsize st) \<and> dsize st \<le> FD_SETSIZE"
    using ok by (cases "serve limit s es st0") (auto simp: echo_inv_def descriptors_def split: if_splits)
  then show ?thesis using serve_echo [OF _ conjunct2 [OF start]] by blast
qed

definition std_streams :: "nat \<Rightarrow> bool" where "std_streams d \<longleftrightarrow> d < 3"

definition demo_address :: address where
  "demo_address = \<lparr>socket_ok = True, reuse_ok = True, bind_ok = True\<rparr>"

definition demo_round :: "string \<Rightarrow> round" where
  "demo_round x = \<lparr>accept_ok = True, recvs = (\<lambda>d. Received x), sends = (\<lambda>d. Sent 4096)\<rparr>"

text \<open>A client connects, sends \<open>hi\<close> and closes, while another one connects.\<close>
definition demo_events :: "select_event list" where
  "demo_events = [Ready (\<lambda>d. d = 3) (demo_round []), Ready (\<lambda>d. d = 4) (demo_round ''hi''),
     Ready (\<lambda>d. True) (demo_round [])]"

lemma demo_serve:
  "case echo_start 64 std_streams (Some [demo_address]) True of
     None \<Rightarrow> False
   | Some (s, st0) \<Rightarrow> s = 3 \<and>
       (case serve 64 s demo_events st0 of Exits x st \<Rightarrow> False | Returns st \<Rightarrow> came st 4 = ''hi'' \<and> rfd st 5 \<and> \<not> rfd st 4)"
  by code_simp

theorem echo_server_correct_witness:
  "\<exists>st0 st. echo_start 64 std_streams (Some [demo_address]) True = Some (3, st0) \<and>
     serve 64 3 demo_events st0 = Returns st \<and> went st 4 = ''hi'' \<and> opened st 5 \<and> \<not> opened st 4 \<and> \<not> misused st"
proof -
  obtain st0 where st0: "echo_start 64 std_streams (Some [demo_address]) True = Some (3, st0)"
    using demo_serve by (auto split: option.splits)
  obtain st where st: "serve 64 3 demo_events st0 = Returns st" "came st 4 = ''hi''" "rfd st 5" "\<not> rfd st 4"
    using demo_serve st0 by (auto split: outcome.splits)
  have u: "list_all undisturbed demo_events"
    by (auto simp: demo_events_def delivers_def demo_round_def BUFLEN_def)
  have "went st = came st \<and> \<not> misused st \<and> (\<forall>d. opened st d \<longleftrightarrow> std_streams d \<or> rfd st d)"
    using echo_server_correct [OF st0, of demo_events] st u by (simp add: std_streams_def FD_SETSIZE_def)
  then show ?thesis using st0 st by (auto simp: std_streams_def)
qed

text \<open>The descriptor of the listening socket is not compared with \<open>FD_SETSIZE\<close>, and \<open>send\<close> may take less
  than it is given: the rest is dropped.\<close>
lemma echo_cut:
  "case echo_start 64 std_streams (Some [demo_address]) True of
     None \<Rightarrow> False
   | Some (s, st0) \<Rightarrow>
       (case serve 64 s [Ready (\<lambda>d. d = 3) (demo_round []), Ready (\<lambda>d. d = 4) ((demo_round ''hi'')\<lparr>sends := (\<lambda>d. Sent 1)\<rparr>)] st0 of
          Exits x st \<Rightarrow> False | Returns st \<Rightarrow> came st 4 = ''hi'' \<and> went st 4 = ''h'' \<and> rfd st 4)"
  by code_simp

end
