(* ===== verification/Simple_Sockets.thy ===== *)
theory Simple_Sockets
  imports Echo_Server
begin

text \<open>
  The other servers and clients of \<open>07-sockets\<close>: \<open>single-client-echo-server.c\<close> and
  \<open>hello-world-server.c\<close>, which serve one client after the other, their IPv4 versions, the first version
  of the server for several clients (\<open>IPv4/multi-client-echo-server-oldIPv4.c\<close>), and the two daytime clients. The
  kernel is that of \<open>Echo_Server\<close>. What a program hands to \<open>send\<close> as a length is a \<open>size_t\<close>: the
  result -1 of a failed \<open>recv\<close> becomes \<open>2 ^ 64 - 1\<close>.
\<close>

section \<open>Starting\<close>

text \<open>\<open>single-client-echo-server.c\<close> up to its endless loop, with the answers of \<open>getaddrinfo\<close>,
  \<open>getsockname\<close> and \<open>listen\<close>: the listening descriptor, if it gets there, and the open descriptors.\<close>
definition single_start ::
    "nat \<Rightarrow> (nat \<Rightarrow> bool) \<Rightarrow> address list option \<Rightarrow> bool \<Rightarrow> bool \<Rightarrow> nat option \<times> (nat \<Rightarrow> bool)" where
  "single_start limit inherited addresses name_ok listen_ok =
     (case addresses of
        None \<Rightarrow> (None, inherited)
      | Some as \<Rightarrow>
          (case bind_first limit inherited as of
             None \<Rightarrow> (None, inherited)
           | Some (s, op) \<Rightarrow>
               if \<not> name_ok then (None, op(s := False))
               else if \<not> listen_ok then (None, op)
               else (Some s, op)))"

text \<open>\<open>hello-world-server.c\<close> tries the first address only.\<close>
definition hello_start ::
    "nat \<Rightarrow> (nat \<Rightarrow> bool) \<Rightarrow> address list option \<Rightarrow> bool \<Rightarrow> nat option \<times> (nat \<Rightarrow> bool)" where
  "hello_start limit inherited addresses listen_ok =
     (case addresses of
        Some (a # as) \<Rightarrow>
          (case (if socket_ok a then lowest_free limit inherited else None) of
             None \<Rightarrow> (None, inherited)
           | Some s \<Rightarrow>
               if \<not> reuse_ok a \<or> \<not> bind_ok a \<or> \<not> listen_ok then (None, inherited(s := True))
               else (Some s, inherited(s := True)))
      | _ \<Rightarrow> (None, inherited))"

text \<open>The IPv4 servers: \<open>socket\<close>, \<open>bind\<close>, \<open>listen\<close>.\<close>
definition old_start :: "nat \<Rightarrow> (nat \<Rightarrow> bool) \<Rightarrow> address \<Rightarrow> bool \<Rightarrow> nat option \<times> (nat \<Rightarrow> bool)" where
  "old_start limit inherited a listen_ok =
     (case (if socket_ok a then lowest_free limit inherited else None) of
        None \<Rightarrow> (None, inherited)
      | Some s \<Rightarrow>
          if \<not> bind_ok a \<or> \<not> listen_ok then (None, inherited(s := True)) else (Some s, inherited(s := True)))"

section \<open>One client after the other\<close>

text \<open>A client: does \<open>accept\<close> give it to the program, what does the program read, what becomes of its answer?\<close>
record visit =
  visit_ok :: bool
  visit_recv :: recv_res
  visit_send :: send_res

text \<open>The open descriptors, the bytes that went out on each connection so far, and whether the program handed
  over more than its buffer holds (what goes out then is not modelled).\<close>
record serial_state =
  sopened :: "nat \<Rightarrow> bool"
  answers :: "string list"
  overread :: bool

definition answered :: "send_res \<Rightarrow> string \<Rightarrow> string" where
  "answered r buf = (case r of Sent n \<Rightarrow> take n buf | _ \<Rightarrow> [])"

text \<open>The length after a call of \<open>recv\<close>, and the bytes it has put into the buffer.\<close>
definition recv_length :: "recv_res \<Rightarrow> 64 word" where
  "recv_length r = (case r of Received data \<Rightarrow> of_nat (length (take BUFLEN data)) | Recv_error \<Rightarrow> -1)"

definition recv_data :: "recv_res \<Rightarrow> string" where
  "recv_data r = (case r of Received data \<Rightarrow> take BUFLEN data | Recv_error \<Rightarrow> [])"

text \<open>The body of the loop of \<open>single-client-echo-server.c\<close>. The buffer has \<open>BUFLEN + 1\<close> bytes.\<close>
definition serve_single :: "nat \<Rightarrow> visit \<Rightarrow> serial_state \<Rightarrow> serial_state outcome" where
  "serve_single limit v st =
     (case (if visit_ok v then lowest_free limit (sopened st) else None) of
        None \<Rightarrow> Returns st
      | Some cs \<Rightarrow>
          (let st1 = st\<lparr>sopened := (sopened st)(cs := True),
                 overread := overread st \<or> recv_length (visit_recv v) > of_nat (BUFLEN + 1)\<rparr> in
           if visit_send v = Sigpipe then Exits SIGPIPE_STATUS st1
           else Returns (st1\<lparr>answers := answers st @ [answered (visit_send v) (recv_data (visit_recv v))],
                  sopened := (sopened st1)(cs := False)\<rparr>)))"

text \<open>The line of \<open>hello-world-server.c\<close>, and the one of its IPv4 version.\<close>
definition LINE :: string where "LINE = ''Hello world!'' @ [CHR 0x0A]"
definition old_LINE :: string where "old_LINE = ''Hello world'' @ [CHR 0x0A]"

text \<open>The body of the loop of \<open>hello-world-server.c\<close> and \<open>hello-world-server-oldIPv4.c\<close>. It writes
  \<open>sizeof (LINE)\<close> bytes: the line and its terminating zero.\<close>
definition serve_hello :: "nat \<Rightarrow> string \<Rightarrow> visit \<Rightarrow> serial_state \<Rightarrow> serial_state outcome" where
  "serve_hello limit line v st =
     (case (if visit_ok v then lowest_free limit (sopened st) else None) of
        None \<Rightarrow> Returns st
      | Some cs \<Rightarrow>
          (let st1 = st\<lparr>sopened := (sopened st)(cs := True)\<rparr> in
           if visit_send v = Sigpipe then Exits SIGPIPE_STATUS st1
           else Returns (st1\<lparr>answers := answers st @ [answered (visit_send v) (line @ [CHR 0x00])],
                  sopened := (sopened st1)(cs := False)\<rparr>)))"

text \<open>The endless loop, for the clients that come.\<close>
fun serve_serially ::
    "(visit \<Rightarrow> serial_state \<Rightarrow> serial_state outcome) \<Rightarrow> visit list \<Rightarrow> serial_state \<Rightarrow> serial_state outcome" where
  "serve_serially f [] st = Returns st"
| "serve_serially f (v # vs) st =
     (case f v st of Exits x st' \<Rightarrow> Exits x st' | Returns st' \<Rightarrow> serve_serially f vs st')"

definition serial_state0 :: "(nat \<Rightarrow> bool) \<Rightarrow> serial_state" where
  "serial_state0 op = \<lparr>sopened = op, answers = [], overread = False\<rparr>"

text \<open>The four programs, for the clients that come.\<close>
definition single_server ::
    "nat \<Rightarrow> (nat \<Rightarrow> bool) \<Rightarrow> address list option \<Rightarrow> bool \<Rightarrow> bool \<Rightarrow> visit list \<Rightarrow> serial_state outcome" where
  "single_server limit inherited addresses name_ok listen_ok vs =
     (case single_start limit inherited addresses name_ok listen_ok of
        (None, op) \<Rightarrow> Exits EXIT_FAILURE (serial_state0 op)
      | (Some s, op) \<Rightarrow> serve_serially (serve_single limit) vs (serial_state0 op))"

definition hello_server ::
    "nat \<Rightarrow> (nat \<Rightarrow> bool) \<Rightarrow> address list option \<Rightarrow> bool \<Rightarrow> visit list \<Rightarrow> serial_state outcome" where
  "hello_server limit inherited addresses listen_ok vs =
     (case hello_start limit inherited addresses listen_ok of
        (None, op) \<Rightarrow> Exits EXIT_FAILURE (serial_state0 op)
      | (Some s, op) \<Rightarrow> serve_serially (serve_hello limit LINE) vs (serial_state0 op))"

definition old_single_server ::
    "nat \<Rightarrow> (nat \<Rightarrow> bool) \<Rightarrow> address \<Rightarrow> bool \<Rightarrow> visit list \<Rightarrow> serial_state outcome" where
  "old_single_server limit inherited a listen_ok vs =
     (case old_start limit inherited a listen_ok of
        (None, op) \<Rightarrow> Exits EXIT_FAILURE (serial_state0 op)
      | (Some s, op) \<Rightarrow> serve_serially (serve_single limit) vs (serial_state0 op))"

definition old_hello_server ::
    "nat \<Rightarrow> (nat \<Rightarrow> bool) \<Rightarrow> address \<Rightarrow> bool \<Rightarrow> visit list \<Rightarrow> serial_state outcome" where
  "old_hello_server limit inherited a listen_ok vs =
     (case old_start limit inherited a listen_ok of
        (None, op) \<Rightarrow> Exits EXIT_FAILURE (serial_state0 op)
      | (Some s, op) \<Rightarrow> serve_serially (serve_hello limit old_LINE) vs (serial_state0 op))"

section \<open>The daytime clients\<close>

text \<open>\<open>while ((rc = read (s, pc, BUFLEN - (pc - buf))) > 0) pc += rc;\<close> with what the reads answer: what has
  been read and whether the last call failed; \<open>None\<close> while it waits for more. With no room left
  \<open>read\<close> is asked for 0 bytes and returns 0 at once.\<close>
fun read_answer :: "recv_res list \<Rightarrow> string \<Rightarrow> (string \<times> bool) option" where
  "read_answer rs acc =
     (if length acc = BUFLEN then Some (acc, True)
      else case rs of
        [] \<Rightarrow> None
      | Recv_error # rs' \<Rightarrow> Some (acc, False)
      | Received data # rs' \<Rightarrow>
          if data = [] then Some (acc, True)
          else read_answer rs' (acc @ take (BUFLEN - length acc) data))"

declare read_answer.simps [simp del]

text \<open>\<open>main\<close>: the exit status and the buffer with the zero behind the answer; the calls before the loop
  succeed or end it.\<close>
definition daytime_client :: "bool \<Rightarrow> bool \<Rightarrow> bool \<Rightarrow> bool \<Rightarrow> recv_res list \<Rightarrow> (int \<times> string) option" where
  "daytime_client has_arg resolved got_socket connected rs =
     (if \<not> has_arg \<or> \<not> resolved \<or> \<not> got_socket \<or> \<not> connected then Some (EXIT_FAILURE, [])
      else case read_answer rs [] of
        None \<Rightarrow> None
      | Some (buf, ok) \<Rightarrow> if ok then Some (EXIT_SUCCESS, buf @ [CHR 0x00]) else Some (EXIT_FAILURE, []))"

section \<open>The first server for several clients\<close>

text \<open>It closes what it has inherited from 3 on, except its socket.\<close>
definition old_close_all :: "nat \<Rightarrow> nat \<Rightarrow> (nat \<Rightarrow> bool) \<Rightarrow> nat \<Rightarrow> bool" where
  "old_close_all dtsize s op d \<longleftrightarrow> op d \<and> \<not> (3 \<le> d \<and> d < dtsize \<and> d \<noteq> s)"

record old_state =
  old_rfd :: "nat \<Rightarrow> bool"
  old_opened :: "nat \<Rightarrow> bool"
  old_overread :: bool
  old_out_of_set :: bool

text \<open>One descriptor of the inner loop. \<open>FD_SET\<close> on a number that is too large writes behind the set;
  after a failed \<open>read\<close> it writes \<open>2 ^ 64 - 1\<close> bytes and keeps the client.\<close>
definition old_serve_one :: "nat \<Rightarrow> nat \<Rightarrow> round \<Rightarrow> nat \<Rightarrow> old_state \<Rightarrow> old_state outcome" where
  "old_serve_one limit s rd d st =
     (if d = s then
        (case (if accept_ok rd then lowest_free limit (old_opened st) else None) of
           None \<Rightarrow> Returns st
         | Some cs \<Rightarrow>
             Returns (st\<lparr>old_opened := (old_opened st)(cs := True), old_rfd := (old_rfd st)(cs := True),
               old_out_of_set := old_out_of_set st \<or> FD_SETSIZE \<le> cs\<rparr>))
      else if recv_length (recvs rd d) = 0 then
        Returns (st\<lparr>old_opened := (old_opened st)(d := False), old_rfd := (old_rfd st)(d := False)\<rparr>)
      else
        (let st1 = st\<lparr>old_overread := old_overread st \<or> recv_length (recvs rd d) > of_nat (BUFLEN + 1)\<rparr> in
         if sends rd d = Sigpipe then Exits SIGPIPE_STATUS st1 else Returns st1))"

fun old_serve_all :: "nat \<Rightarrow> nat \<Rightarrow> (nat \<Rightarrow> bool) \<Rightarrow> round \<Rightarrow> nat list \<Rightarrow> old_state \<Rightarrow> old_state outcome" where
  "old_serve_all limit s ready rd [] st = Returns st"
| "old_serve_all limit s ready rd (d # ds) st =
     (if \<not> ready d then old_serve_all limit s ready rd ds st
      else case old_serve_one limit s rd d st of
        Exits x st' \<Rightarrow> Exits x st'
      | Returns st' \<Rightarrow> old_serve_all limit s ready rd ds st')"

text \<open>\<open>select\<close> looks at the descriptors below \<open>dtsize\<close> only.\<close>
fun old_serve :: "nat \<Rightarrow> nat \<Rightarrow> select_event list \<Rightarrow> old_state \<Rightarrow> old_state outcome" where
  "old_serve limit s [] st = Returns st"
| "old_serve limit s (Select_fails # es) st = Exits EXIT_FAILURE st"
| "old_serve limit s (Ready r rd # es) st =
     (case old_serve_all limit s (\<lambda>d. r d \<and> old_rfd st d) rd [3..<descriptors limit] st of
        Exits x st' \<Rightarrow> Exits x st'
      | Returns st' \<Rightarrow> old_serve limit s es st')"

definition old_state0 :: "nat \<Rightarrow> nat \<Rightarrow> (nat \<Rightarrow> bool) \<Rightarrow> old_state" where
  "old_state0 limit s op =
     \<lparr>old_rfd = (\<lambda>_. False)(s := True), old_opened = old_close_all (descriptors limit) s op,
      old_overread = False, old_out_of_set = False\<rparr>"

section \<open>Lemmas\<close>

lemma length_recv_data: "length (recv_data r) \<le> BUFLEN"
  by (cases r) (simp_all add: recv_data_def)

lemma unat_recv_length:
  "unat (recv_length r) = (case r of Received data \<Rightarrow> length (take BUFLEN data) | Recv_error \<Rightarrow> 2 ^ 64 - 1)"
proof (cases r)
  case (Received data)
  have "length (take BUFLEN data) < 2 ^ 64" by (simp add: BUFLEN_def)
  then show ?thesis using Received by (simp add: recv_length_def unsigned_of_nat take_bit_nat_eq_self del: length_take)
qed (simp add: recv_length_def unsigned_minus_1_eq_mask mask_eq_exp_minus_1)

definition recv_bytes :: "recv_res \<Rightarrow> string" where
  "recv_bytes r = (case r of Received data \<Rightarrow> data | Recv_error \<Rightarrow> [])"

lemma overread_iff: "recv_length r > of_nat (BUFLEN + 1) \<longleftrightarrow> r = Recv_error"
  unfolding word_less_nat_alt by (cases r) (simp_all add: unat_recv_length BUFLEN_def)

lemma read_answer_step:
  "length acc \<noteq> BUFLEN \<Longrightarrow> data \<noteq> [] \<Longrightarrow>
    read_answer (Received data # rs) acc = read_answer rs (acc @ take (BUFLEN - length acc) data)"
  by (simp add: read_answer.simps [of "Received data # rs"])

lemma read_answer_ok:
  assumes "read_answer rs acc = Some (buf, ok)" "length acc \<le> BUFLEN"
  shows "length buf \<le> BUFLEN \<and> (\<exists>n\<le>length rs. buf = take BUFLEN (acc @ concat (map recv_bytes (take n rs))))"
  using assms
proof (induction rs arbitrary: acc)
  case Nil
  then show ?case by (auto simp: read_answer.simps [of "[]"] split: if_splits)
next
  case (Cons r rs)
  show ?case
  proof (cases "length acc = BUFLEN \<or> r = Recv_error \<or> r = Received []")
    case True
    then have "buf = acc" using Cons.prems(1) by (auto simp: read_answer.simps [of "r # rs"] split: if_splits)
    then show ?thesis using Cons.prems(2) by (intro conjI exI [of _ 0]) simp_all
  next
    case False
    then obtain data where r: "r = Received data" "data \<noteq> []" by (cases r) auto
    let ?acc = "acc @ take (BUFLEN - length acc) data"
    have "read_answer rs ?acc = Some (buf, ok)"
      using Cons.prems(1) False r by (simp add: read_answer_step)
    moreover have "length ?acc \<le> BUFLEN" using Cons.prems(2) by simp
    ultimately obtain n where n: "length buf \<le> BUFLEN" "n \<le> length rs"
        "buf = take BUFLEN (?acc @ concat (map recv_bytes (take n rs)))"
      using Cons.IH by blast
    have "take BUFLEN (?acc @ x) = take BUFLEN (acc @ data @ x)" for x
      using Cons.prems(2) by (cases "length data \<le> BUFLEN - length acc") (simp_all add: take_append)
    then have "buf = take BUFLEN (acc @ concat (map recv_bytes (take (Suc n) (r # rs))))"
      using n(3) r(1) by (simp add: recv_bytes_def)
    then show ?thesis using n(1,2) by (intro conjI exI [of _ "Suc n"]) simp_all
  qed
qed

text \<open>Every read that succeeds fills at least one byte.\<close>
lemma read_answer_ends:
  assumes "BUFLEN \<le> length rs + length acc" "length acc \<le> BUFLEN"
  shows "read_answer rs acc \<noteq> None"
  using assms
proof (induction rs arbitrary: acc)
  case Nil
  then show ?case by (simp add: read_answer.simps [of "[]"])
next
  case (Cons r rs)
  show ?case
  proof (cases "length acc = BUFLEN \<or> r = Recv_error \<or> r = Received []")
    case True
    then show ?thesis by (auto simp: read_answer.simps [of "r # rs"])
  next
    case False
    then obtain data where r: "r = Received data" "data \<noteq> []" by (cases r) auto
    have "read_answer rs (acc @ take (BUFLEN - length acc) data) \<noteq> None"
    proof (rule Cons.IH)
      show "BUFLEN \<le> length rs + length (acc @ take (BUFLEN - length acc) data)"
        using Cons.prems False r(2) by (cases data) (auto simp: min_def)
      show "length (acc @ take (BUFLEN - length acc) data) \<le> BUFLEN" using Cons.prems(2) by simp
    qed
    then show ?thesis using False r by (simp add: read_answer_step)
  qed
qed

lemma serve_single_free:
  assumes "lowest_free limit (sopened st) = Some c"
  shows "serve_single limit v st =
    (if \<not> visit_ok v then Returns st
     else if visit_send v = Sigpipe then
       Exits SIGPIPE_STATUS (st\<lparr>sopened := (sopened st)(c := True), overread := overread st \<or> visit_recv v = Recv_error\<rparr>)
     else Returns (st\<lparr>answers := answers st @ [answered (visit_send v) (recv_data (visit_recv v))],
       overread := overread st \<or> visit_recv v = Recv_error\<rparr>))"
proof -
  have "\<not> sopened st c" using lowest_free_Some [OF assms] by simp
  then have "((sopened st)(c := True))(c := False) = sopened st" by (auto simp: fun_eq_iff)
  then show ?thesis using assms by (simp add: serve_single_def Let_def overread_iff [simplified])
qed

lemma serve_hello_free:
  assumes "lowest_free limit (sopened st) = Some c"
  shows "serve_hello limit line v st =
    (if \<not> visit_ok v then Returns st
     else if visit_send v = Sigpipe then Exits SIGPIPE_STATUS (st\<lparr>sopened := (sopened st)(c := True)\<rparr>)
     else Returns (st\<lparr>answers := answers st @ [answered (visit_send v) (line @ [CHR 0x00])]\<rparr>))"
proof -
  have "\<not> sopened st c" using lowest_free_Some [OF assms] by simp
  then have "((sopened st)(c := True))(c := False) = sopened st" by (auto simp: fun_eq_iff)
  then show ?thesis using assms by (simp add: serve_hello_def Let_def)
qed

text \<open>Serving a list of clients one by one.\<close>
lemma serve_serially_single:
  assumes "lowest_free limit (sopened st) = Some c"
  shows "case serve_serially (serve_single limit) vs st of
      Exits x st' \<Rightarrow> x = SIGPIPE_STATUS \<and> (\<exists>v. v \<in> set vs \<and> visit_send v = Sigpipe)
    | Returns st' \<Rightarrow> sopened st' = sopened st \<and>
        answers st' = answers st @ map (\<lambda>v. answered (visit_send v) (recv_data (visit_recv v))) (filter visit_ok vs) \<and>
        overread st' = (overread st \<or> list_ex (\<lambda>v. visit_ok v \<and> visit_recv v = Recv_error) vs)"
  using assms
proof (induction vs arbitrary: st)
  case (Cons v vs)
  have u: "serve_serially (serve_single limit) (v # vs) st =
      (case serve_single limit v st of Exits x st' \<Rightarrow> Exits x st' | Returns st' \<Rightarrow> serve_serially (serve_single limit) vs st')"
    by simp
  show ?case
  proof (cases "serve_single limit v st")
    case (Exits x st')
    then show ?thesis using Cons.prems by (auto simp: u serve_single_free split: if_splits)
  next
    case (Returns st')
    have "sopened st' = sopened st" using Returns Cons.prems by (auto simp: serve_single_free split: if_splits)
    then have "lowest_free limit (sopened st') = Some c" using Cons.prems by simp
    from Cons.IH [OF this] show ?thesis
      using Returns Cons.prems
      by (cases "serve_serially (serve_single limit) vs st'") (auto simp: u serve_single_free split: if_splits)
  qed
qed simp

lemma serve_serially_hello:
  assumes "lowest_free limit (sopened st) = Some c"
  shows "case serve_serially (serve_hello limit line) vs st of
      Exits x st' \<Rightarrow> x = SIGPIPE_STATUS \<and> (\<exists>v. v \<in> set vs \<and> visit_send v = Sigpipe)
    | Returns st' \<Rightarrow> sopened st' = sopened st \<and>
        answers st' = answers st @ map (\<lambda>v. answered (visit_send v) (line @ [CHR 0x00])) (filter visit_ok vs) \<and>
        overread st' = overread st"
  using assms
proof (induction vs arbitrary: st)
  case (Cons v vs)
  show ?case
  proof (cases "serve_hello limit line v st")
    case (Exits x st')
    then show ?thesis using Cons.prems by (auto simp: serve_hello_free split: if_splits)
  next
    case (Returns st')
    have "sopened st' = sopened st" using Returns Cons.prems by (auto simp: serve_hello_free split: if_splits)
    then have "lowest_free limit (sopened st') = Some c" using Cons.prems by simp
    from Cons.IH [OF this] show ?thesis
      using Returns Cons.prems
      by (cases "serve_serially (serve_hello limit line) vs st'") (auto simp: serve_hello_free split: if_splits)
  qed
qed simp

lemma single_start_ok:
  assumes "single_start limit inherited addresses name_ok listen_ok = (Some s, op)"
  shows "op = inherited(s := True) \<and> \<not> inherited s \<and> s < limit"
  using assms bind_first_ok by (fastforce simp: single_start_def split: option.splits if_splits)

lemma hello_start_ok:
  assumes "hello_start limit inherited addresses listen_ok = (Some s, op)"
  shows "op = inherited(s := True) \<and> \<not> inherited s \<and> s < limit"
  using assms lowest_free_Some
  by (auto simp: hello_start_def split: option.splits list.splits if_splits dest: lowest_free_Some)

lemma old_start_ok:
  assumes "old_start limit inherited a listen_ok = (Some s, op)"
  shows "op = inherited(s := True) \<and> \<not> inherited s \<and> s < limit"
  using assms lowest_free_Some
  by (auto simp: old_start_def split: option.splits if_splits dest: lowest_free_Some)

text \<open>What a server for one client at a time promises: it ends before it has answered anything, because it
  cannot start, or by \<open>SIGPIPE\<close>; else just what it has inherited and its socket are open, and every client
  that was accepted has been answered, in order.\<close>
definition serial_promise ::
    "(nat \<Rightarrow> bool) \<Rightarrow> (visit \<Rightarrow> string) \<Rightarrow> (visit \<Rightarrow> bool) \<Rightarrow> visit list \<Rightarrow> serial_state outcome \<Rightarrow> bool" where
  "serial_promise inherited answer over vs r \<longleftrightarrow>
     (case r of
        Exits x st \<Rightarrow> x = EXIT_FAILURE \<and> answers st = [] \<or> x = SIGPIPE_STATUS \<and> list_ex (\<lambda>v. visit_send v = Sigpipe) vs
      | Returns st \<Rightarrow>
          (\<exists>s. \<not> inherited s \<and> sopened st = inherited(s := True)) \<and>
          answers st = map (\<lambda>v. answered (visit_send v) (answer v)) (filter visit_ok vs) \<and>
          overread st = list_ex over (filter visit_ok vs))"

text \<open>Two free descriptors are enough: one for the socket, one for the clients.\<close>
lemma lowest_free_after:
  assumes "c < limit" "c' < limit" "c \<noteq> c'" "\<not> inherited c" "\<not> inherited c'"
  obtains d where "lowest_free limit (inherited(s := True)) = Some d"
proof -
  have "\<exists>d<limit. \<not> (inherited(s := True)) d" using assms by (cases "s = c") auto
  then show ?thesis using that
    by (cases "lowest_free limit (inherited(s := True))") (auto simp: lowest_free_def find_None_iff)
qed

lemma single_promise:
  assumes "lowest_free limit (inherited(s := True)) = Some d" "\<not> inherited s"
  shows "serial_promise inherited (\<lambda>v. recv_data (visit_recv v)) (\<lambda>v. visit_recv v = Recv_error) vs
    (serve_serially (serve_single limit) vs (serial_state0 (inherited(s := True))))"
  using serve_serially_single [of limit "serial_state0 (inherited(s := True))" d vs] assms
  by (auto simp: serial_promise_def serial_state0_def list_ex_iff split: outcome.splits)

lemma hello_promise:
  assumes "lowest_free limit (inherited(s := True)) = Some d" "\<not> inherited s"
  shows "serial_promise inherited (\<lambda>v. line @ [CHR 0x00]) (\<lambda>v. False) vs
    (serve_serially (serve_hello limit line) vs (serial_state0 (inherited(s := True))))"
  using serve_serially_hello [of limit "serial_state0 (inherited(s := True))" d line vs] assms
  by (auto simp: serial_promise_def serial_state0_def list_ex_iff split: outcome.splits)

section \<open>Properties\<close>

text \<open>C26. The servers for one client at a time, with two descriptors that are not inherited: after every client
  just the inherited descriptors and the listening one are open; every client that is accepted is answered, in
  order, by the first bytes it has sent, at most \<open>BUFLEN\<close> (the echo servers), or by the line of the
  server, which is ''Hello world!'' for \<open>hello-world-server.c\<close> and ''Hello world'' for its IPv4 version, with a line feed and a
  zero byte; nothing but a call that fails before the first client, or a
  client that has gone, ends them. But the echo servers hand a failed \<open>recv\<close> on to \<open>send\<close> as a length
  far beyond their buffer, exactly when a \<open>recv\<close> fails.\<close>
theorem serial_servers_correct:
  assumes "c < limit" "c' < limit" "c \<noteq> c'" "\<not> inherited c" "\<not> inherited c'"
  shows "serial_promise inherited (\<lambda>v. recv_data (visit_recv v)) (\<lambda>v. visit_recv v = Recv_error) vs
      (single_server limit inherited addresses name_ok listen_ok vs) \<and>
    serial_promise inherited (\<lambda>v. recv_data (visit_recv v)) (\<lambda>v. visit_recv v = Recv_error) vs
      (old_single_server limit inherited a listen_ok vs) \<and>
    serial_promise inherited (\<lambda>v. LINE @ [CHR 0x00]) (\<lambda>v. False) vs
      (hello_server limit inherited addresses listen_ok vs) \<and>
    serial_promise inherited (\<lambda>v. old_LINE @ [CHR 0x00]) (\<lambda>v. False) vs
      (old_hello_server limit inherited a listen_ok vs)"
proof -
  have free: "\<exists>d. lowest_free limit (inherited(s := True)) = Some d" for s
    using lowest_free_after [OF assms] by blast
  have failed: "serial_promise inherited f g vs (Exits EXIT_FAILURE (serial_state0 op))" for f g op
    by (simp add: serial_promise_def serial_state0_def)
  show ?thesis
    unfolding single_server_def old_single_server_def hello_server_def old_hello_server_def
    using free failed single_promise hello_promise
    by (intro conjI; fastforce split: prod.split option.split dest: single_start_ok hello_start_ok old_start_ok)
qed

definition demo_visit :: visit where
  "demo_visit = \<lparr>visit_ok = True, visit_recv = Received ''hi'', visit_send = Sent 2\<rparr>"

theorem serial_servers_correct_witness:
  "(\<exists>st. single_server 64 std_streams (Some [demo_address]) True True [demo_visit] = Returns st \<and>
     answers st = [''hi''] \<and> \<not> overread st) \<and>
   (\<exists>st. hello_server 64 std_streams (Some [demo_address]) True [demo_visit] = Returns st \<and>
     answers st = [''He'']) \<and>
   (\<exists>st. old_hello_server 64 std_streams demo_address True [demo_visit\<lparr>visit_send := Sent 13\<rparr>] = Returns st \<and>
     answers st = [''Hello world'' @ [CHR 0x0A, CHR 0x00]])"
proof -
  have n: "\<not> std_streams 3" "\<not> std_streams 4" by code_simp+
  have e: "case single_server 64 std_streams (Some [demo_address]) True True [demo_visit] of Returns st \<Rightarrow> True | _ \<Rightarrow> False"
    "case hello_server 64 std_streams (Some [demo_address]) True [demo_visit] of Returns st \<Rightarrow> True | _ \<Rightarrow> False"
    "case old_hello_server 64 std_streams demo_address True [demo_visit\<lparr>visit_send := Sent 13\<rparr>] of Returns st \<Rightarrow> True | _ \<Rightarrow> False"
    by code_simp+
  note correct = serial_servers_correct [of 3 64 4 std_streams, simplified, OF n]
  have "serial_promise std_streams (\<lambda>v. recv_data (visit_recv v)) (\<lambda>v. visit_recv v = Recv_error) [demo_visit]
      (single_server 64 std_streams (Some [demo_address]) True True [demo_visit])"
    "serial_promise std_streams (\<lambda>v. LINE @ [CHR 0x00]) (\<lambda>v. False) [demo_visit]
      (hello_server 64 std_streams (Some [demo_address]) True [demo_visit])"
    "serial_promise std_streams (\<lambda>v. old_LINE @ [CHR 0x00]) (\<lambda>v. False) [demo_visit\<lparr>visit_send := Sent 13\<rparr>]
      (old_hello_server 64 std_streams demo_address True [demo_visit\<lparr>visit_send := Sent 13\<rparr>])"
    using correct by blast+
  then show ?thesis
    using e by (auto simp: serial_promise_def demo_visit_def answered_def recv_data_def BUFLEN_def LINE_def old_LINE_def
      split: outcome.splits)
qed

text \<open>The daytime clients read to the end of the answer or of the buffer: after at most \<open>BUFLEN\<close> successful
  reads they stop; what is in the buffer is the beginning of what the server has sent, and the zero behind it is
  inside the \<open>BUFLEN + 1\<close> bytes of the buffer.\<close>
theorem daytime_answer:
  "(BUFLEN \<le> length rs \<longrightarrow> daytime_client has_arg resolved got_socket connected rs \<noteq> None) \<and>
   (daytime_client has_arg resolved got_socket connected rs = Some (x, out) \<longrightarrow>
      length out \<le> BUFLEN + 1 \<and>
      (x = EXIT_SUCCESS \<and> (\<exists>n. n \<le> length rs \<and> out = take BUFLEN (concat (map recv_bytes (take n rs))) @ [CHR 0x00]) \<or>
       x = EXIT_FAILURE \<and> out = []))"
proof (intro conjI impI)
  show "daytime_client has_arg resolved got_socket connected rs \<noteq> None" if "BUFLEN \<le> length rs"
    using read_answer_ends [of rs "[]"] that by (auto simp: daytime_client_def split: option.splits)
  assume d: "daytime_client has_arg resolved got_socket connected rs = Some (x, out)"
  then have "(x = EXIT_FAILURE \<and> out = []) \<or> (\<exists>buf. read_answer rs [] = Some (buf, True) \<and> x = EXIT_SUCCESS \<and> out = buf @ [CHR 0x00])"
    by (auto simp: daytime_client_def split: option.splits if_splits)
  then show "length out \<le> BUFLEN + 1"
      "x = EXIT_SUCCESS \<and> (\<exists>n. n \<le> length rs \<and> out = take BUFLEN (concat (map recv_bytes (take n rs))) @ [CHR 0x00]) \<or>
       x = EXIT_FAILURE \<and> out = []"
    using read_answer_ok [of rs "[]"] by fastforce+
qed

theorem daytime_answer_witness:
  "daytime_client True True True True [Received ''09:'', Received ''15'', Received []] = Some (0, ''09:15'' @ [CHR 0x00]) \<and>
   length (''09:15'' @ [CHR 0x00]) \<le> BUFLEN + 1"
proof -
  have "daytime_client True True True True [Received ''09:'', Received ''15'', Received []] = Some (0, ''09:15'' @ [CHR 0x00])"
    by code_simp
  then show ?thesis using daytime_answer by blast
qed

text \<open>What holds of the first server for several clients as long as no read fails.\<close>
definition old_inv :: "nat \<Rightarrow> nat \<Rightarrow> old_state \<Rightarrow> bool" where
  "old_inv limit s st \<longleftrightarrow>
     old_rfd st s \<and> (\<forall>d. old_rfd st d \<longrightarrow> old_opened st d) \<and> \<not> old_overread st \<and>
     (old_out_of_set st \<longrightarrow> FD_SETSIZE < limit)"

fun reads_fine :: "select_event \<Rightarrow> bool" where
  "reads_fine Select_fails = True"
| "reads_fine (Ready r rd) = (\<forall>d. recvs rd d \<noteq> Recv_error)"

lemma old_serve_one_inv:
  assumes "old_inv limit s st" "\<forall>d. recvs rd d \<noteq> Recv_error"
  shows "case old_serve_one limit s rd d st of
      Exits x st' \<Rightarrow> x = SIGPIPE_STATUS \<and> old_inv limit s st' | Returns st' \<Rightarrow> old_inv limit s st'"
proof (cases "d = s")
  case True
  then show ?thesis
    using assms lowest_free_Some [of limit "old_opened st"]
    by (auto simp: old_serve_one_def old_inv_def split: option.splits)
next
  case False
  then show ?thesis
    using assms overread_iff [of "recvs rd d"]
    by (auto simp: old_serve_one_def old_inv_def Let_def)
qed

lemma old_serve_all_inv:
  assumes "old_inv limit s st" "\<forall>d. recvs rd d \<noteq> Recv_error"
  shows "case old_serve_all limit s ready rd ds st of
      Exits x st' \<Rightarrow> x = SIGPIPE_STATUS \<and> old_inv limit s st' | Returns st' \<Rightarrow> old_inv limit s st'"
  using assms(1)
proof (induction ds arbitrary: st)
  case (Cons d ds)
  then show ?case
    using old_serve_one_inv [OF Cons.prems assms(2), of d]
    by (cases "old_serve_one limit s rd d st") simp_all
qed simp

lemma old_serve_inv:
  assumes "old_inv limit s st" "list_all reads_fine es"
  shows "case old_serve limit s es st of
      Exits x st' \<Rightarrow> (x = SIGPIPE_STATUS \<or> x = EXIT_FAILURE) \<and> old_inv limit s st' | Returns st' \<Rightarrow> old_inv limit s st'"
  using assms
proof (induction limit s es st rule: old_serve.induct)
  case (3 limit s r rd es st)
  then have fine: "\<forall>d. recvs rd d \<noteq> Recv_error" by simp
  show ?case
    using old_serve_all_inv [OF "3.prems"(1) fine, of "\<lambda>d. r d \<and> old_rfd st d" "[3..<descriptors limit]"] "3.IH" "3.prems"(2)
    by (cases "old_serve_all limit s (\<lambda>d. r d \<and> old_rfd st d) rd [3..<descriptors limit] st") simp_all
qed simp_all

text \<open>The first server for several clients watches open descriptors only and hands to \<open>write\<close> no more than
  it has read, as long as no read fails; it sets a bit outside the set only if the process may have more than
  \<open>FD_SETSIZE\<close> descriptors. But when a read fails it writes from far beyond its buffer and keeps the
  client, which its later version closes.\<close>
theorem old_echo_server:
  assumes "old_start limit inherited a listen_ok = (Some s, op)" "list_all reads_fine es"
  shows "(case old_serve limit s es (old_state0 limit s op) of
      Exits x st \<Rightarrow> (x = SIGPIPE_STATUS \<or> x = EXIT_FAILURE) \<and> \<not> old_overread st
    | Returns st \<Rightarrow> (\<forall>d. old_rfd st d \<longrightarrow> old_opened st d) \<and> \<not> old_overread st \<and>
        (old_out_of_set st \<longrightarrow> FD_SETSIZE < limit)) \<and>
    (\<exists>r rd st. old_serve 8 3 [Ready (\<lambda>d. True) (demo_round []), Ready r rd] (old_state0 8 3 (std_streams(3 := True))) = Returns st \<and>
      recvs rd 4 = Recv_error \<and> old_overread st \<and> old_rfd st 4 \<and> old_opened st 4)"
proof
  have "old_inv limit s (old_state0 limit s op)"
    using old_start_ok [OF assms(1)] by (auto simp: old_inv_def old_state0_def old_close_all_def)
  from old_serve_inv [OF this assms(2)]
  show "case old_serve limit s es (old_state0 limit s op) of
      Exits x st \<Rightarrow> (x = SIGPIPE_STATUS \<or> x = EXIT_FAILURE) \<and> \<not> old_overread st
    | Returns st \<Rightarrow> (\<forall>d. old_rfd st d \<longrightarrow> old_opened st d) \<and> \<not> old_overread st \<and>
        (old_out_of_set st \<longrightarrow> FD_SETSIZE < limit)"
    by (auto simp: old_inv_def split: outcome.splits)
  let ?rd = "(demo_round [])\<lparr>recvs := (\<lambda>d. Recv_error)\<rparr>"
  have "case old_serve 8 3 [Ready (\<lambda>d. True) (demo_round []), Ready (\<lambda>d. d = 4) ?rd]
      (old_state0 8 3 (std_streams(3 := True))) of
      Returns st \<Rightarrow> old_overread st \<and> old_rfd st 4 \<and> old_opened st 4 | _ \<Rightarrow> False"
    by code_simp
  then obtain st where "old_serve 8 3 [Ready (\<lambda>d. True) (demo_round []), Ready (\<lambda>d. d = 4) ?rd]
      (old_state0 8 3 (std_streams(3 := True))) = Returns st" "old_overread st \<and> old_rfd st 4 \<and> old_opened st 4"
    by (auto split: outcome.splits)
  moreover have "recvs ?rd 4 = Recv_error" by simp
  ultimately show "\<exists>r rd st. old_serve 8 3 [Ready (\<lambda>d. True) (demo_round []), Ready r rd]
      (old_state0 8 3 (std_streams(3 := True))) = Returns st \<and>
      recvs rd 4 = Recv_error \<and> old_overread st \<and> old_rfd st 4 \<and> old_opened st 4" by blast
qed

theorem old_echo_server_witness:
  "\<exists>st. old_serve 8 3 [Ready (\<lambda>d. True) (demo_round [])] (old_state0 8 3 (std_streams(3 := True))) = Returns st \<and>
     old_rfd st 4 \<and> old_opened st 4 \<and> \<not> old_overread st"
proof -
  have "case old_start 8 std_streams demo_address True of (Some s, op) \<Rightarrow> s = 3 | _ \<Rightarrow> False" by code_simp
  then obtain op where a: "old_start 8 std_streams demo_address True = (Some 3, op)"
    by (auto split: prod.splits option.splits)
  have o: "op = std_streams(3 := True)" using old_start_ok [OF a] by simp
  have f: "list_all reads_fine [Ready (\<lambda>d. True) (demo_round [])]" by (simp add: demo_round_def)
  have e: "case old_serve 8 3 [Ready (\<lambda>d. True) (demo_round [])] (old_state0 8 3 (std_streams(3 := True))) of
      Returns st \<Rightarrow> old_rfd st 4 | _ \<Rightarrow> False"
    by code_simp
  show ?thesis using old_echo_server [OF a f, unfolded o] e by (auto split: outcome.splits)
qed

end
