(* ===== verification/Messages.thy ===== *)
theory Messages
  imports Libc Interleaving Ipc
begin

text \<open>
  The System V message samples of \<open>06-messages\<close>: \<open>messagesSV_snd_arg.c\<close> sends its arguments to a queue,
  \<open>messagesSV_rcv_cycle.c\<close> prints what it finds there until the queue stays empty, and then removes it;
  \<open>messagesSV_snd.c\<close> sends one message to the child it runs \<open>messagesSV_rcv.c\<close> in. The programs are processes
  over the queues of the kernel; \<open>msgget\<close> turns a key into the identifier of the queue that has the key then, and an
  identifier is of no use once its queue has been removed, even if there is a new queue with the key. A process index \<open>i\<close> selects the calls of
  the environment that fail.
\<close>

definition MSG_MAX :: nat where "MSG_MAX = 30"

text \<open>The key as an argument: \<open>0x%x\<close>, and \<open>(key_t) strtol (argv[1], NULL, 0)\<close>.\<close>
definition hex_char :: "nat \<Rightarrow> char" where
  "hex_char d = (if d < 10 then char_of (48 + d) else char_of (87 + d))"

fun print_hex :: "nat \<Rightarrow> string" where
  "print_hex n = (if n < 16 then [hex_char n] else print_hex (n div 16) @ [hex_char (n mod 16)])"

declare print_hex.simps [simp del]

definition key_str :: "32 word \<Rightarrow> string" where
  "key_str key = ''0x'' @ print_hex (unat key)"

definition key_of :: "string \<Rightarrow> 32 word" where
  "key_of s = word_of_int (strtol_any s)"

section \<open>Messages and queues\<close>

definition strncpy :: "nat \<Rightarrow> string \<Rightarrow> string" where
  "strncpy n s = take n s @ replicate (n - length s) CHR 0x00"

text \<open>\<open>msgsnd (mq_id, &msg_data, strlen (buffer), 0)\<close> sends as many bytes as \<open>buffer\<close> has, from an array
  of \<open>MSG_MAX\<close> bytes, and beyond it when \<open>buffer\<close> is longer.\<close>
definition sent_bytes :: "(nat \<Rightarrow> char) \<Rightarrow> string \<Rightarrow> string" where
  "sent_bytes behind buffer = take (length buffer) (strncpy MSG_MAX buffer @ map behind [0..<length buffer])"

text \<open>\<open>msgrcv\<close> with \<open>MSG_NOERROR\<close> cuts the message to \<open>MSG_MAX\<close> bytes; \<open>printf\<close> stops at a zero.\<close>
definition shown :: "string \<Rightarrow> string" where
  "shown m = takeWhile (\<lambda>c. c \<noteq> CHR 0x00) (take MSG_MAX m)"

record menv =
  msgmax :: nat
  qbytes :: nat
  msgget_fails :: "nat \<Rightarrow> bool"
  msgctl_fails :: "nat \<Rightarrow> bool"
  msgsnd_fails :: "nat \<Rightarrow> bool"
  msgrcv_fails :: "nat \<Rightarrow> bool"
  rmid_fails :: bool
  behind :: "nat \<Rightarrow> char"

text \<open>The queues, with the oldest message first, how often a queue with a key has been removed, what has been sent by whom, what has been printed, the exit
  statuses, and whether \<open>msgsnd\<close> has read behind the array.\<close>
record msys =
  queues :: "32 word \<Rightarrow> string list option"
  removals :: "32 word \<Rightarrow> nat"
  sent :: "(nat \<times> string) list"
  got :: "string list"
  exits :: "nat \<Rightarrow> int option"
  msg_overread :: bool

text \<open>An identifier: the key and how many queues with the key had been removed when \<open>msgget\<close> was called; the kernel
  does not use an identifier twice. The positions of the programs keep the second number as \<open>q\<close>.\<close>
type_synonym msqid = "32 word \<times> nat"

definition queue_of :: "msqid \<Rightarrow> 'x msys_scheme \<Rightarrow> string list option" where
  "queue_of q d = (if removals d (fst q) = snd q then queues d (fst q) else None)"

definition msgget_creat :: "32 word \<Rightarrow> 'x msys_scheme \<Rightarrow> 'x msys_scheme" where
  "msgget_creat key d =
     (case queues d key of None \<Rightarrow> d\<lparr>queues := (queues d)(key := Some [])\<rparr> | Some ms \<Rightarrow> d)"

text \<open>It fails when the message is too long for the system, or the queue is gone; it waits while the queue is full.\<close>
definition queue_send ::
    "'e menv_scheme \<Rightarrow> nat \<Rightarrow> msqid \<Rightarrow> string \<Rightarrow> 'x msys_scheme \<Rightarrow> 'x msys_scheme callres" where
  "queue_send env i q buffer d =
     (case queue_of q d of
        None \<Rightarrow> EFAIL
      | Some ms \<Rightarrow>
          if msgsnd_fails env i \<or> msgmax env < length buffer then EFAIL
          else if qbytes env < sum_list (map length ms) + length buffer then WAIT
          else OK (d\<lparr>queues := (queues d)(fst q := Some (ms @ [sent_bytes (behind env) buffer])),
                 sent := sent d @ [(i, buffer)],
                 msg_overread := msg_overread d \<or> MSG_MAX < length buffer\<rparr>))"

definition exit_process :: "nat \<Rightarrow> int \<Rightarrow> 'x msys_scheme \<Rightarrow> 'x msys_scheme" where
  "exit_process i x d = d\<lparr>exits := (exits d)(i := Some x)\<rparr>"

text \<open>\<open>remove_q\<close>, registered with \<open>atexit\<close>.\<close>
definition remove_q :: "'e menv_scheme \<Rightarrow> msqid \<Rightarrow> 'x msys_scheme \<Rightarrow> 'x msys_scheme" where
  "remove_q env q d =
     (if rmid_fails env \<or> queue_of q d = None then d
      else d\<lparr>queues := (queues d)(fst q := None), removals := (removals d)(fst q := removals d (fst q) + 1)\<rparr>)"

section \<open>\<open>messagesSV_snd_arg.c\<close> and \<open>messagesSV_rcv_cycle.c\<close>\<close>

datatype mpc = Sd_get | Sd_stat nat | Sd_send nat nat | Sd_end | Rv_get | Rv_stat nat | Rv_recv nat nat | Rv_end

definition default_message :: string where "default_message = ''no news is good news''"

text \<open>\<open>args\<close> are \<open>argv[1]\<close> on; \<open>(key, q)\<close> is the variable \<open>mq_id\<close>, and \<open>k\<close> is the variable \<open>i\<close> of \<open>main\<close>.\<close>
definition snd_arg :: "menv \<Rightarrow> 32 word \<Rightarrow> string list \<Rightarrow> nat \<Rightarrow> msys \<Rightarrow> mpc \<Rightarrow> (msys \<times> mpc) option" where
  "snd_arg env key args i d pc =
     (case pc of
        Sd_get \<Rightarrow>
          if msgget_fails env i then Some (exit_process i EXIT_FAILURE d, Sd_end)
          else Some (msgget_creat key d, Sd_stat (removals d key))
      | Sd_stat q \<Rightarrow>
          if msgctl_fails env i \<or> queue_of (key, q) d = None then Some (exit_process i EXIT_FAILURE d, Sd_end)
          else Some (d, Sd_send q 1)
      | Sd_send q k \<Rightarrow>
          (let buffer = (if args \<noteq> [] then args ! (k - 1) else default_message) in
           case queue_send env i (key, q) buffer d of
             EFAIL \<Rightarrow> Some (exit_process i EXIT_FAILURE d, Sd_end)
           | WAIT \<Rightarrow> None
           | OK d1 \<Rightarrow>
               if k + 1 < length args + 1 then Some (d1, Sd_send q (k + 1))
               else Some (exit_process i EXIT_SUCCESS d1, Sd_end))
      | _ \<Rightarrow> None)"

text \<open>\<open>st\<close> is the variable \<open>status\<close>. Without an argument the program ends at once.\<close>
definition rcv_cycle :: "menv \<Rightarrow> string option \<Rightarrow> nat \<Rightarrow> msys \<Rightarrow> mpc \<Rightarrow> (msys \<times> mpc) option" where
  "rcv_cycle env arg i d pc =
     (case arg of
        None \<Rightarrow> if pc = Rv_get then Some (exit_process i EXIT_FAILURE d, Rv_end) else None
      | Some s \<Rightarrow>
          (let key = key_of s in
           case pc of
             Rv_get \<Rightarrow>
               if msgget_fails env i \<or> queues d key = None then Some (exit_process i EXIT_FAILURE d, Rv_end)
               else Some (d, Rv_stat (removals d key))
           | Rv_stat q \<Rightarrow>
               if msgctl_fails env i \<or> queue_of (key, q) d = None
               then Some (exit_process i EXIT_FAILURE (remove_q env (key, q) d), Rv_end)
               else Some (d, Rv_recv q 0)
           | Rv_recv q st \<Rightarrow>
               if st < 2 then
                 (case queue_of (key, q) d of
                    None \<Rightarrow> Some (exit_process i EXIT_FAILURE (remove_q env (key, q) d), Rv_end)
                  | Some ms \<Rightarrow>
                      if msgrcv_fails env i then Some (exit_process i EXIT_FAILURE (remove_q env (key, q) d), Rv_end)
                      else case ms of
                        [] \<Rightarrow> Some (d, Rv_recv q (st + 1))
                      | m # ms' \<Rightarrow>
                          Some (d\<lparr>queues := (queues d)(key := Some ms'), got := got d @ [shown m]\<rparr>, Rv_recv q 0))
               else Some (exit_process i EXIT_SUCCESS (remove_q env (key, q) d), Rv_end)
           | _ \<Rightarrow> None))"

text \<open>The receiver is process 0, the others are senders.\<close>
definition mail_step :: "menv \<Rightarrow> 32 word \<Rightarrow> (nat \<Rightarrow> string list) \<Rightarrow> (msys, mpc) tstep" where
  "mail_step env key args i d pc =
     (if i = 0 then rcv_cycle env (Some (key_str key)) i d pc else snd_arg env key (args i) i d pc)"

definition msys0 :: "(32 word \<Rightarrow> string list option) \<Rightarrow> msys" where
  "msys0 qs = \<lparr>queues = qs, removals = (\<lambda>_. 0), sent = [], got = [], exits = (\<lambda>_. None), msg_overread = False\<rparr>"

definition mail_start :: "(32 word \<Rightarrow> string list option) \<Rightarrow> (msys, mpc) conf" where
  "mail_start qs = (msys0 qs, \<lambda>i. if i = 0 then Rv_get else Sd_get)"

section \<open>\<open>messagesSV_snd.c\<close> and \<open>messagesSV_rcv.c\<close>\<close>

record family_env = menv +
  fork_fails :: bool
  execl_fails :: bool

record psys = msys +
  forked :: bool

datatype family_pc = Pa_get | Pa_fork nat | Pa_send nat | Pa_wait nat | Pa_end | Ch_exec | Ch_get | Ch_recv nat | Ch_end

text \<open>The parent; \<open>arg\<close> is \<open>argv[1]\<close>.\<close>
definition parent :: "family_env \<Rightarrow> 32 word \<Rightarrow> string option \<Rightarrow> psys \<Rightarrow> family_pc \<Rightarrow> (psys \<times> family_pc) option" where
  "parent env key arg d pc =
     (case pc of
        Pa_get \<Rightarrow>
          if msgget_fails env 0 then Some (exit_process 0 EXIT_FAILURE d, Pa_end)
          else Some (msgget_creat key d, Pa_fork (removals d key))
      | Pa_fork q \<Rightarrow>
          if fork_fails env then Some (exit_process 0 EXIT_FAILURE (remove_q env (key, q) d), Pa_end)
          else Some (d\<lparr>forked := True\<rparr>, Pa_send q)
      | Pa_send q \<Rightarrow>
          (case queue_send env 0 (key, q) (case arg of Some s \<Rightarrow> s | None \<Rightarrow> default_message) d of
             EFAIL \<Rightarrow> Some (exit_process 0 EXIT_FAILURE (remove_q env (key, q) d), Pa_end)
           | WAIT \<Rightarrow> None
           | OK d1 \<Rightarrow> Some (d1, Pa_wait q))
      | Pa_wait q \<Rightarrow>
          if exits d 1 = None then None else Some (exit_process 0 EXIT_SUCCESS (remove_q env (key, q) d), Pa_end)
      | _ \<Rightarrow> None)"

text \<open>\<open>messagesSV_rcv.c\<close>.\<close>
definition rcv_once :: "family_env \<Rightarrow> string \<Rightarrow> psys \<Rightarrow> family_pc \<Rightarrow> (psys \<times> family_pc) option" where
  "rcv_once env s d pc =
     (let key = key_of s in
      case pc of
        Ch_get \<Rightarrow>
          if msgget_fails env 1 \<or> queues d key = None then Some (exit_process 1 EXIT_FAILURE d, Ch_end)
          else Some (d, Ch_recv (removals d key))
      | Ch_recv q \<Rightarrow>
          (case queue_of (key, q) d of
             None \<Rightarrow> Some (exit_process 1 EXIT_FAILURE d, Ch_end)
           | Some ms \<Rightarrow>
               if msgrcv_fails env 1 then Some (exit_process 1 EXIT_FAILURE d, Ch_end)
               else case ms of
                 [] \<Rightarrow> None
               | m # ms' \<Rightarrow>
                   Some (exit_process 1 EXIT_SUCCESS (d\<lparr>queues := (queues d)(key := Some ms'), got := got d @ [shown m]\<rparr>), Ch_end))
      | _ \<Rightarrow> None)"

text \<open>The child, which does not remove the queue when it cannot run the other program.\<close>
definition child :: "family_env \<Rightarrow> 32 word \<Rightarrow> psys \<Rightarrow> family_pc \<Rightarrow> (psys \<times> family_pc) option" where
  "child env key d pc =
     (if \<not> forked d then None
      else if pc = Ch_exec then
        (if execl_fails env then Some (exit_process 1 EXIT_FAILURE d, Ch_end) else Some (d, Ch_get))
      else rcv_once env (key_str key) d pc)"

definition family_step :: "family_env \<Rightarrow> 32 word \<Rightarrow> string option \<Rightarrow> (psys, family_pc) tstep" where
  "family_step env key arg i d pc = (if i = 0 then parent env key arg d pc else child env key d pc)"

definition family_start :: "(32 word \<Rightarrow> string list option) \<Rightarrow> (psys, family_pc) conf" where
  "family_start qs =
     (\<lparr>queues = qs, removals = (\<lambda>_. 0), sent = [], got = [], exits = (\<lambda>_. None), msg_overread = False, forked = False\<rparr>,
      \<lambda>i. if i = 0 then Pa_get else Ch_exec)"

section \<open>Keys and texts\<close>

lemma hex_digit: "d < 16 \<Longrightarrow> xdigit_of (hex_char d) = Some (int d)"
  by (auto simp: xdigit_of_def hex_char_def Let_def)

lemma digits_print_hex:
  "digits_in 16 acc (print_hex n @ r) = digits_in 16 (acc * 16 ^ length (print_hex n) + int n) r"
proof (induction n arbitrary: acc r rule: print_hex.induct)
  case (1 n)
  show ?case
  proof (cases "n < 16")
    case True
    then show ?thesis by (simp add: print_hex.simps [of n] hex_digit mult.commute)
  next
    case False
    have "int n = 16 * int (n div 16) + int (n mod 16)"
      by (metis mult.commute of_nat_add of_nat_mult of_nat_numeral div_mult_mod_eq)
    then show ?thesis
      using False 1 [OF False] by (simp add: print_hex.simps [of n] hex_digit algebra_simps)
  qed
qed

lemma print_hex_head: obtains d cs where "print_hex n = hex_char d # cs" "d < 16"
proof -
  have "\<exists>d cs. print_hex n = hex_char d # cs \<and> d < 16"
  proof (induction n rule: print_hex.induct)
    case (1 n)
    then show ?case
      by (cases "n < 16") (auto simp: print_hex.simps [of n])
  qed
  then show ?thesis using that by blast
qed

text \<open>A key survives the way through the argument of the child.\<close>
lemma key_roundtrip: "key_of (key_str key) = key"
proof -
  obtain d cs where h: "print_hex (unat key) = hex_char d # cs" "d < 16" by (rule print_hex_head)
  have d: "digits_in 16 0 (hex_char d # cs) = int (unat key)"
    using digits_print_hex [of 0 "unat key" "[]"] h(1) by simp
  have b: "int (unat key) < 2 ^ 32" using unsigned_less [of key, where ?'a = int] by simp
  have "- (2 ^ 63) \<le> int (unat key)" by (rule order_trans [of _ 0]) simp_all
  then have "strtol_any (key_str key) = int (unat key)"
    using b h d by (simp add: strtol_any_def key_str_def is_space_def unsigned_in_def hex_digit min_def max_def del: digits_in.simps)
  then show ?thesis by (simp add: key_of_def)
qed

lemma shown_sent:
  assumes "CHR 0x00 \<notin> set buffer"
  shows "shown (sent_bytes b buffer) = take MSG_MAX buffer"
proof -
  have "take MSG_MAX (sent_bytes b buffer) = take MSG_MAX buffer"
  proof (cases "length buffer \<le> MSG_MAX")
    case True
    then have "strncpy MSG_MAX buffer = buffer @ replicate (MSG_MAX - length buffer) CHR 0x00"
      by (simp add: strncpy_def)
    then have "sent_bytes b buffer = buffer" by (simp add: sent_bytes_def)
    then show ?thesis by simp
  next
    case False
    then have "strncpy MSG_MAX buffer = take MSG_MAX buffer" by (simp add: strncpy_def)
    moreover have "min MSG_MAX (length buffer) = MSG_MAX" using False by simp
    ultimately show ?thesis unfolding sent_bytes_def take_take by simp
  qed
  moreover have "CHR 0x00 \<notin> set (take MSG_MAX buffer)" using assms by (meson in_set_takeD)
  then have "takeWhile (\<lambda>c. c \<noteq> CHR 0x00) (take MSG_MAX buffer) = take MSG_MAX buffer"
    unfolding takeWhile_eq_all_conv by blast
  ultimately show ?thesis unfolding shown_def by (simp only:)
qed

section \<open>Every run ends\<close>

definition msgs :: "32 word \<Rightarrow> 'x msys_scheme \<Rightarrow> string list" where
  "msgs key d = (case queues d key of None \<Rightarrow> [] | Some ms \<Rightarrow> ms)"

text \<open>What a sender has to send.\<close>
definition buffers :: "string list \<Rightarrow> string list" where
  "buffers args = (if args \<noteq> [] then args else [default_message])"

fun mail_weight :: "string list \<Rightarrow> mpc \<Rightarrow> nat" where
  "mail_weight as Sd_get = 4 * length (buffers as) + 6"
| "mail_weight as (Sd_stat q) = 4 * length (buffers as) + 5"
| "mail_weight as (Sd_send q k) = 4 * (length (buffers as) + 1 - k) + 4"
| "mail_weight as Sd_end = 0"
| "mail_weight as Rv_get = 5"
| "mail_weight as (Rv_stat q) = 4"
| "mail_weight as (Rv_recv q st) = 1 + (2 - st)"
| "mail_weight as Rv_end = 0"

lemma exit_process_simps [simp]:
  "queues (exit_process i x d) = queues d" "sent (exit_process i x d) = sent d" "got (exit_process i x d) = got d"
  "msg_overread (exit_process i x d) = msg_overread d" "exits (exit_process i x d) = (exits d)(i := Some x)"
  "msgs key (exit_process i x d) = msgs key d" "removals (exit_process i x d) = removals d" "queue_of q (exit_process i x d) = queue_of q d"
  by (simp_all add: exit_process_def msgs_def queue_of_def)

lemma remove_q_simps [simp]:
  "sent (remove_q env key d) = sent d" "got (remove_q env key d) = got d" "exits (remove_q env key d) = exits d"
  "msg_overread (remove_q env key d) = msg_overread d"
  by (simp_all add: remove_q_def)

lemma msgs_remove: "msgs key (remove_q env (key, q) d) = [] \<or> msgs key (remove_q env (key, q) d) = msgs key d"
  by (simp add: remove_q_def msgs_def)

lemma msgs_creat [simp]: "msgs key (msgget_creat key d) = msgs key d"
  by (simp add: msgget_creat_def msgs_def split: option.splits)

lemma msgget_creat_simps [simp]:
  "sent (msgget_creat key d) = sent d" "got (msgget_creat key d) = got d" "exits (msgget_creat key d) = exits d"
  "msg_overread (msgget_creat key d) = msg_overread d"
  by (simp_all add: msgget_creat_def split: option.splits)

lemma msgsnd_OK:
  assumes "queue_send env i (key, q) buffer d = OK d'"
  shows "msgs key d' = msgs key d @ [sent_bytes (behind env) buffer]" "sent d' = sent d @ [(i, buffer)]" "got d' = got d"
    "exits d' = exits d" "msg_overread d' = (msg_overread d \<or> MSG_MAX < length buffer)"
  using assms by (auto simp: queue_send_def queue_of_def msgs_def split: option.splits if_splits)

lemma snd_arg_less:
  assumes "snd_arg env key as i d l = Some (d', l')"
  shows "3 * length (msgs key d') + mail_weight as l' < 3 * length (msgs key d) + mail_weight as l"
  using assms by (cases l)
    (auto simp: snd_arg_def buffers_def Let_def dest: msgsnd_OK split: if_splits callres.splits)

lemma rcv_cycle_less:
  assumes "rcv_cycle env (Some (key_str key)) i d l = Some (d', l')"
  shows "3 * length (msgs key d') + mail_weight as l' < 3 * length (msgs key d) + mail_weight as l"
  using assms by (cases l)
    (auto simp: rcv_cycle_def queue_of_def remove_q_def key_roundtrip Let_def msgs_def split: if_splits option.splits list.splits)

lemma sum_upd_indexed:
  fixes f :: "nat \<Rightarrow> 'l \<Rightarrow> nat"
  assumes "i < n"
  shows "(\<Sum>j<n. f j ((c(i := x)) j)) + f i (c i) = (\<Sum>j<n. f j (c j)) + f i x"
proof -
  have e: "(\<lambda>j. (j, c j))(i := (i, x)) = (\<lambda>j. (j, (c(i := x)) j))" by auto
  show ?thesis
    using sum_upd_add [OF assms, of "\<lambda>(j, l). f j l" "\<lambda>j. (j, c j)" "(i, x)"] by (simp add: e)
qed

lemma mail_run_bound:
  assumes "run_sched n (mail_step env key args) sched (d, ls) = Some c"
  shows "length sched \<le> 3 * length (msgs key d) + (\<Sum>i<n. mail_weight (args i) (ls i))"
proof -
  let ?m = "\<lambda>c. 3 * length (msgs key (fst c)) + (\<Sum>i<n. mail_weight (args i) (snd c i))"
  have "?m (d', ls(i := l')) < ?m (d, ls)"
    if "i < n" "mail_step env key args i d (ls i) = Some (d', l')" for i d ls d' l'
    using snd_arg_less [of env key "args i" i d "ls i" d' l'] rcv_cycle_less [of env key i d "ls i" d' l' "args i"]
      sum_upd_indexed [OF that(1), of "\<lambda>i. mail_weight (args i)" ls l'] that(2)
    by (fastforce simp: mail_step_def split: if_splits)
  from run_bound [OF assms, of ?m, OF this] show ?thesis by simp
qed

section \<open>Nothing is lost on the way\<close>

text \<open>The messages a sender has sent: how many, by the place it is at.\<close>
fun sender_ok :: "string list \<Rightarrow> nat \<Rightarrow> msys \<Rightarrow> mpc \<Rightarrow> bool" where
  "sender_ok as i d Sd_get = (map snd (filter (\<lambda>m. fst m = i) (sent d)) = [] \<and> exits d i = None)"
| "sender_ok as i d (Sd_stat q) = (map snd (filter (\<lambda>m. fst m = i) (sent d)) = [] \<and> exits d i = None)"
| "sender_ok as i d (Sd_send q k) =
     (0 < k \<and> k \<le> length (buffers as) \<and> map snd (filter (\<lambda>m. fst m = i) (sent d)) = take (k - 1) (buffers as) \<and> exits d i = None)"
| "sender_ok as i d Sd_end =
     (exits d i = Some EXIT_FAILURE \<and> (\<exists>k. map snd (filter (\<lambda>m. fst m = i) (sent d)) = take k (buffers as)) \<or>
      exits d i = Some EXIT_SUCCESS \<and> map snd (filter (\<lambda>m. fst m = i) (sent d)) = buffers as)"
| "sender_ok as i d _ = False"

fun receiver_ok :: "msys \<Rightarrow> mpc \<Rightarrow> bool" where
  "receiver_ok d Rv_get = (exits d 0 = None)"
| "receiver_ok d (Rv_stat q) = (exits d 0 = None)"
| "receiver_ok d (Rv_recv q st) = (exits d 0 = None)"
| "receiver_ok d Rv_end = (exits d 0 \<noteq> None)"
| "receiver_ok d _ = False"

text \<open>What was printed, lost with the queue, or is still in it, is what was there and what was sent, in order.\<close>
definition mail_kept :: "'e menv_scheme \<Rightarrow> 32 word \<Rightarrow> string list \<Rightarrow> 'x msys_scheme \<Rightarrow> bool" where
  "mail_kept env key old d \<longleftrightarrow>
     (\<exists>lost. got d @ map shown (lost @ msgs key d) = map shown (old @ map (\<lambda>m. sent_bytes (behind env) (snd m)) (sent d)) \<and>
       (exits d 0 = None \<longrightarrow> lost = []))"

definition mail_inv ::
    "menv \<Rightarrow> 32 word \<Rightarrow> (nat \<Rightarrow> string list) \<Rightarrow> string list \<Rightarrow> nat \<Rightarrow> msys \<Rightarrow> (nat \<Rightarrow> mpc) \<Rightarrow> bool" where
  "mail_inv env key args old n d ls \<longleftrightarrow>
     mail_kept env key old d \<and> receiver_ok d (ls 0) \<and>
     (\<forall>i. 0 < i \<and> i < n \<longrightarrow> sender_ok (args i) i d (ls i)) \<and>
     (\<forall>m\<in>set (sent d). 0 < fst m \<and> fst m < n) \<and>
     (msg_overread d \<longleftrightarrow> (\<exists>m\<in>set (sent d). MSG_MAX < length (snd m)))"

lemma sender_ok_frame:
  assumes "sender_ok as i d l" "filter (\<lambda>m. fst m = i) (sent d') = filter (\<lambda>m. fst m = i) (sent d)" "exits d' i = exits d i"
  shows "sender_ok as i d' l"
  using assms by (cases l) simp_all

lemma receiver_ok_frame: "receiver_ok d l \<Longrightarrow> exits d' 0 = exits d 0 \<Longrightarrow> receiver_ok d' l"
  by (cases l) simp_all

lemma snd_arg_effect:
  assumes "snd_arg env key as i d l = Some (d', l')"
  shows "got d' = got d \<and> (\<forall>j. j \<noteq> i \<longrightarrow> exits d' j = exits d j) \<and>
    (sent d' = sent d \<and> msgs key d' = msgs key d \<and> msg_overread d' = msg_overread d \<or>
     (\<exists>b. sent d' = sent d @ [(i, b)] \<and> msgs key d' = msgs key d @ [sent_bytes (behind env) b] \<and>
       msg_overread d' = (msg_overread d \<or> MSG_MAX < length b)))"
proof (cases l)
  case (Sd_send q k)
  obtain b where b: "b = (if as \<noteq> [] then as ! (k - 1) else default_message)" by blast
  show ?thesis
  proof (cases "queue_send env i (key, q) b d")
    case (OK d1)
    then have "d' = d1 \<or> d' = exit_process i EXIT_SUCCESS d1"
      using assms Sd_send by (auto simp: snd_arg_def Let_def b split: if_splits)
    then show ?thesis using msgsnd_OK [OF OK] by (elim disjE) auto
  qed (use assms Sd_send in \<open>auto simp: snd_arg_def Let_def b\<close>)
qed (use assms in \<open>auto simp: snd_arg_def split: if_splits\<close>)

lemma snd_arg_ok:
  assumes "snd_arg env key as i d l = Some (d', l')" "sender_ok as i d l"
  shows "sender_ok as i d' l'"
proof (cases l)
  case (Sd_send q k)
  have k: "0 < k" "k \<le> length (buffers as)" using assms(2) Sd_send by auto
  obtain b where b: "b = (if as \<noteq> [] then as ! (k - 1) else default_message)" by blast
  then have n: "b = buffers as ! (k - 1)" using k by (auto simp: buffers_def)
  show ?thesis
  proof (cases "queue_send env i (key, q) b d")
    case (OK d1)
    have "map snd (filter (\<lambda>m. fst m = i) (sent d1)) = take k (buffers as)" "exits d1 = exits d"
      using msgsnd_OK [OF OK] assms(2) Sd_send k take_Suc_conv_app_nth [of "k - 1" "buffers as"] n by simp_all
    then show ?thesis
      using assms Sd_send OK k by (auto simp: snd_arg_def buffers_def Let_def b split: if_splits)
  qed (use assms Sd_send in \<open>auto simp: snd_arg_def Let_def b\<close>)
qed (use assms in \<open>auto simp: snd_arg_def buffers_def Suc_le_eq split: if_splits\<close>)

lemma rcv_cycle_effect:
  assumes "rcv_cycle env (Some (key_str key)) 0 d l = Some (d', l')" "receiver_ok d l"
  shows "sent d' = sent d \<and> (\<forall>j. j \<noteq> 0 \<longrightarrow> exits d' j = exits d j) \<and> msg_overread d' = msg_overread d \<and>
    receiver_ok d' l' \<and> exits d 0 = None \<and>
    (got d' = got d \<and> msgs key d' = msgs key d \<or>
     got d' = got d \<and> msgs key d' = [] \<and> exits d' 0 \<noteq> None \<or>
     (\<exists>m. msgs key d = m # msgs key d' \<and> got d' = got d @ [shown m]))"
  using assms by (cases l)
    (auto simp: rcv_cycle_def queue_of_def remove_q_def key_roundtrip Let_def msgs_def split: if_splits option.splits list.splits)

lemma mail_inv_step:
  assumes inv: "mail_inv env key args old n d ls" and i: "i < n"
    and st: "mail_step env key args i d (ls i) = Some (d', l')"
  shows "mail_inv env key args old n d' (ls(i := l'))"
proof (cases "i = 0")
  case True
  have e: "rcv_cycle env (Some (key_str key)) 0 d (ls 0) = Some (d', l')" "receiver_ok d (ls 0)"
    using st inv True by (simp_all add: mail_step_def mail_inv_def)
  note f = rcv_cycle_effect [OF e]
  have "got d @ map shown (msgs key d) = map shown (old @ map (\<lambda>m. sent_bytes (behind env) (snd m)) (sent d))"
    using inv f by (auto simp: mail_inv_def mail_kept_def)
  then have "mail_kept env key old d'"
    unfolding mail_kept_def using f by (elim conjE disjE exE) (simp_all, force+)
  then show ?thesis
    using inv f True sender_ok_frame [of "args j" j d "ls j" d' for j] by (simp add: mail_inv_def)
next
  case False
  have e: "snd_arg env key (args i) i d (ls i) = Some (d', l')"
    using st False by (simp add: mail_step_def)
  have ok: "sender_ok (args i) i d' l'" using snd_arg_ok [OF e] inv False i by (simp add: mail_inv_def)
  note f = snd_arg_effect [OF e]
  have k: "mail_kept env key old d'"
  proof -
    obtain lost where l: "got d @ map shown (lost @ msgs key d) =
        map shown (old @ map (\<lambda>m. sent_bytes (behind env) (snd m)) (sent d))" "exits d 0 = None \<longrightarrow> lost = []"
      using inv by (auto simp: mail_inv_def mail_kept_def)
    have "got d' @ map shown (lost @ msgs key d') = map shown (old @ map (\<lambda>m. sent_bytes (behind env) (snd m)) (sent d'))"
      using l(1) f by auto
    then show ?thesis using l(2) f False by (auto simp: mail_kept_def)
  qed
  have o: "sender_ok (args j) j d' (ls j)" if "0 < j" "j < n" "j \<noteq> i" for j
    by (rule sender_ok_frame [of _ _ d]) (use inv that f in \<open>auto simp: mail_inv_def\<close>)
  show ?thesis
    using inv k ok o f False i receiver_ok_frame [of d "ls 0" d'] by (auto simp: mail_inv_def)
qed

lemma mail_inv_start: "0 < n \<Longrightarrow> mail_inv env key args (msgs key (msys0 qs)) n (msys0 qs) (snd (mail_start qs))"
  by (auto simp: mail_inv_def mail_kept_def mail_start_def msys0_def msgs_def intro: exI [of _ "[]"])

text \<open>Who cannot go on has ended, or finds the queue full when the receiver has ended.\<close>
lemma mail_stuck:
  assumes inv: "mail_inv env key args old n d ls" and "msgmax env \<le> qbytes env"
    and st: "stuck n (mail_step env key args) (d, ls)" and i: "i < n"
  shows "exits d i \<noteq> None \<or> exits d 0 \<noteq> None \<and> msgs key d \<noteq> []"
proof -
  have z: "rcv_cycle env (Some (key_str key)) 0 d (ls 0) = None" "receiver_ok d (ls 0)"
    using st inv i by (auto simp: stuck_def mail_step_def mail_inv_def)
  have e: "exits d 0 \<noteq> None"
    using z by (cases "ls 0") (auto simp: rcv_cycle_def Let_def split: if_splits option.splits list.splits)
  show ?thesis
  proof (cases "i = 0")
    case False
    then have s: "snd_arg env key (args i) i d (ls i) = None" "sender_ok (args i) i d (ls i)"
      using st inv i by (auto simp: stuck_def mail_step_def mail_inv_def)
    have "exits d i \<noteq> None \<or> msgs key d \<noteq> []"
      using s assms(2) by (cases "ls i")
        (auto simp: snd_arg_def Let_def queue_send_def queue_of_def msgs_def split: if_splits callres.splits option.splits)
    then show ?thesis using e by blast
  qed (use e in simp)
qed

section \<open>The pair of programs\<close>

text \<open>What the parent sends.\<close>
definition letter :: "string option \<Rightarrow> string" where
  "letter arg = (case arg of Some s \<Rightarrow> s | None \<Rightarrow> default_message)"

fun family_weight :: "family_pc \<Rightarrow> nat" where
  "family_weight Pa_get = 4"
| "family_weight (Pa_fork q) = 3"
| "family_weight (Pa_send q) = 2"
| "family_weight (Pa_wait q) = 1"
| "family_weight Pa_end = 0"
| "family_weight Ch_exec = 3"
| "family_weight Ch_get = 2"
| "family_weight (Ch_recv q) = 1"
| "family_weight Ch_end = 0"

lemma family_less:
  assumes "family_step env key arg i d l = Some (d', l')"
  shows "family_weight l' < family_weight l"
  using assms by (cases l)
    (auto simp: family_step_def parent_def child_def rcv_once_def Let_def
      split: if_splits callres.splits option.splits list.splits)

fun parent_ok :: "family_env \<Rightarrow> 32 word \<Rightarrow> string \<Rightarrow> psys \<Rightarrow> family_pc \<Rightarrow> bool" where
  "parent_ok env key b d Pa_get = (removals d key = 0 \<and> \<not> forked d \<and> sent d = [] \<and> exits d 0 = None)"
| "parent_ok env key b d (Pa_fork q) = (q = 0 \<and> removals d key = 0 \<and> \<not> forked d \<and> sent d = [] \<and> exits d 0 = None \<and> queues d key \<noteq> None)"
| "parent_ok env key b d (Pa_send q) = (q = 0 \<and> removals d key = 0 \<and> forked d \<and> sent d = [] \<and> exits d 0 = None \<and> queues d key \<noteq> None)"
| "parent_ok env key b d (Pa_wait q) = (q = 0 \<and> removals d key = 0 \<and> forked d \<and> sent d = [(0, b)] \<and> exits d 0 = None \<and> queues d key \<noteq> None)"
| "parent_ok env key b d Pa_end =
     ((exits d 0 = Some EXIT_FAILURE \<and> sent d = [] \<or>
       exits d 0 = Some EXIT_SUCCESS \<and> sent d = [(0, b)] \<and> exits d 1 \<noteq> None) \<and>
      (queues d key = None \<or> removals d key = 0) \<and> (queues d key = None \<or> rmid_fails env \<or> \<not> forked d))"
| "parent_ok env key b d _ = False"

fun child_ok :: "family_env \<Rightarrow> psys \<Rightarrow> family_pc \<Rightarrow> bool" where
  "child_ok env d Ch_exec = (exits d 1 = None \<and> got d = [])"
| "child_ok env d Ch_get = (forked d \<and> exits d 1 = None \<and> got d = [])"
| "child_ok env d (Ch_recv q) = (q = 0 \<and> forked d \<and> exits d 1 = None \<and> got d = [])"
| "child_ok env d Ch_end =
     (forked d \<and> (exits d 1 = Some EXIT_SUCCESS \<and> length (got d) = 1 \<or>
      exits d 1 = Some EXIT_FAILURE \<and> got d = [] \<and>
        (execl_fails env \<or> msgget_fails env 1 \<or> msgrcv_fails env 1 \<or> exits d 0 = Some EXIT_FAILURE)))"
| "child_ok env d _ = False"

text \<open>As long as the queue is there nothing is lost.\<close>
definition all_there :: "family_env \<Rightarrow> 32 word \<Rightarrow> string list \<Rightarrow> psys \<Rightarrow> bool" where
  "all_there env key old d \<longleftrightarrow>
     got d @ map shown (msgs key d) = map shown (old @ map (\<lambda>m. sent_bytes (behind env) (snd m)) (sent d))"

definition family_inv :: "family_env \<Rightarrow> 32 word \<Rightarrow> string \<Rightarrow> string list \<Rightarrow> psys \<Rightarrow> (nat \<Rightarrow> family_pc) \<Rightarrow> bool" where
  "family_inv env key b old d ls \<longleftrightarrow>
     mail_kept env key old d \<and> (queues d key \<noteq> None \<longrightarrow> all_there env key old d) \<and> parent_ok env key b d (ls 0) \<and> child_ok env d (ls 1) \<and>
     (\<not> forked d \<longrightarrow> ls 1 = Ch_exec) \<and> (msg_overread d \<longleftrightarrow> sent d \<noteq> [] \<and> MSG_MAX < length b)"

lemma remove_q_psys [simp]: "forked (remove_q env key d) = forked d"
  by (simp add: remove_q_def)

lemma creat_psys [simp]:
  "forked (msgget_creat key d) = forked d" "\<exists>ms. queues (msgget_creat key d) key = Some ms"
  "removals (msgget_creat key d) = removals d"
  by (cases "queues d key"; simp add: msgget_creat_def)+

lemma exit_psys [simp]: "forked (exit_process i x d) = forked d"
  by (simp add: exit_process_def)

lemma msgsnd_psys:
  "queue_send env i (key, q) b d = OK d' \<Longrightarrow> forked d' = forked d \<and> queues d' key \<noteq> None \<and> removals d' = removals d"
  by (auto simp: queue_send_def split: option.splits if_splits)

lemma remove_q_gone:
  "removals d key = q \<Longrightarrow> queues (remove_q env (key, q) d) key = None \<or> rmid_fails env \<and> removals (remove_q env (key, q) d) key = q"
  by (auto simp: remove_q_def queue_of_def)

text \<open>Only the parent removes the queue, so that the identifiers of both are good as long as there is one.\<close>
lemma family_queue: "parent_ok env key b d l \<Longrightarrow> queue_of (key, 0) d = queues d key"
  by (cases l) (auto simp: queue_of_def)

lemma family_removals: "parent_ok env key b d l \<Longrightarrow> queues d key \<noteq> None \<Longrightarrow> removals d key = 0"
  by (cases l) auto

lemma mail_kept_same:
  assumes "mail_kept env key old d" "got d' = got d" "sent d' = sent d" "msgs key d' = msgs key d" "exits d' 0 = exits d 0"
  shows "mail_kept env key old d'"
  using assms by (simp add: mail_kept_def)

lemma mail_kept_exit:
  assumes "mail_kept env key old d" "got d' = got d" "sent d' = sent d" "exits d' 0 \<noteq> None"
    and "msgs key d' = msgs key d \<or> msgs key d' = []"
  shows "mail_kept env key old d'"
  using assms(5)
proof
  assume "msgs key d' = msgs key d"
  then show ?thesis using assms by (auto simp: mail_kept_def)
next
  assume "msgs key d' = []"
  moreover obtain lost where "got d @ map shown (lost @ msgs key d) =
      map shown (old @ map (\<lambda>m. sent_bytes (behind env) (snd m)) (sent d))"
    using assms(1) by (auto simp: mail_kept_def)
  ultimately have "got d' @ map shown ((lost @ msgs key d) @ msgs key d') =
      map shown (old @ map (\<lambda>m. sent_bytes (behind env) (snd m)) (sent d'))"
    using assms(2,3) by simp
  then show ?thesis
    unfolding mail_kept_def using assms(4) by (intro exI [of _ "lost @ msgs key d"] conjI impI) simp_all
qed

lemma mail_kept_remove:
  "mail_kept env key old d \<Longrightarrow> mail_kept env key old (exit_process 0 x (remove_q env' (key, q) d))"
  by (rule mail_kept_exit) (use msgs_remove [of key env' q d] in auto)

lemma mail_kept_forked: "mail_kept env key old d \<Longrightarrow> mail_kept env key old (d\<lparr>forked := v\<rparr>)"
  by (rule mail_kept_same) (simp_all add: msgs_def)

lemma mail_kept_sent:
  assumes "mail_kept env key old d" "got d' = got d" "sent d' = sent d @ [(i, b)]" "exits d' 0 = exits d 0"
    "msgs key d' = msgs key d @ [sent_bytes (behind env) b]"
  shows "mail_kept env key old d'"
proof -
  obtain lost where l: "got d @ map shown (lost @ msgs key d) =
      map shown (old @ map (\<lambda>m. sent_bytes (behind env) (snd m)) (sent d))" "exits d 0 = None \<longrightarrow> lost = []"
    using assms(1) by (auto simp: mail_kept_def)
  then show ?thesis using assms(2-5) by (auto simp: mail_kept_def)
qed

lemma mail_kept_got:
  assumes "mail_kept env key old d" "msgs key d = m # msgs key d'" "got d' = got d @ [shown m]" "sent d' = sent d"
    "exits d 0 = None" "exits d' 0 = None"
  shows "mail_kept env key old d'"
  using assms by (auto simp: mail_kept_def)

lemma parent_inv:
  assumes "parent env key arg d l = Some (d', l')" "mail_kept env key old d" "parent_ok env key (letter arg) d l"
    "msg_overread d \<longleftrightarrow> sent d \<noteq> [] \<and> MSG_MAX < length (letter arg)"
  shows "mail_kept env key old d' \<and> parent_ok env key (letter arg) d' l' \<and>
    (msg_overread d' \<longleftrightarrow> sent d' \<noteq> [] \<and> MSG_MAX < length (letter arg))"
proof (cases l)
  case (Pa_send q)
  show ?thesis
  proof (cases "queue_send env 0 (key, 0) (letter arg) d")
    case (OK d1)
    then have "d' = d1" "l' = Pa_wait 0" using assms(1,3) Pa_send by (simp_all add: parent_def letter_def [symmetric])
    then show ?thesis
      using msgsnd_OK [OF OK] msgsnd_psys [OF OK] assms(2-4) Pa_send
        mail_kept_sent [OF assms(2), of d' 0 "letter arg"] by simp
  next
    case EFAIL
    then show ?thesis
      using assms Pa_send remove_q_gone [of d key 0 env] mail_kept_remove [OF assms(2), of _ env 0]
      by (auto simp: parent_def letter_def [symmetric])
  qed (use assms Pa_send in \<open>simp add: parent_def letter_def [symmetric]\<close>)
next
  case Pa_get
  then show ?thesis
    using assms mail_kept_exit [OF assms(2), of d'] mail_kept_same [OF assms(2), of d']
    by (auto simp: parent_def split: if_splits)
next
  case (Pa_fork q)
  then show ?thesis
    using assms remove_q_gone [of d key 0 env] mail_kept_remove [OF assms(2), of _ env 0] mail_kept_forked [OF assms(2)]
    by (auto simp: parent_def split: if_splits)
next
  case (Pa_wait q)
  then show ?thesis
    using assms remove_q_gone [of d key 0 env] mail_kept_remove [OF assms(2), of _ env 0]
    by (auto simp: parent_def split: if_splits)
qed (use assms in \<open>simp_all add: parent_def\<close>)

lemma running_all_there: "mail_kept env key old d \<Longrightarrow> exits d 0 = None \<Longrightarrow> all_there env key old d"
  by (auto simp: mail_kept_def all_there_def)

lemma all_there_same:
  "all_there env key old d \<Longrightarrow> got d' = got d \<Longrightarrow> sent d' = sent d \<Longrightarrow> msgs key d' = msgs key d \<Longrightarrow> all_there env key old d'"
  by (simp add: all_there_def)

lemma parent_all_there:
  assumes "parent env key arg d l = Some (d', l')" "mail_kept env key old d'" "all_there env key old d" "queues d' key \<noteq> None"
    "exits d 0 = None"
  shows "all_there env key old d'"
proof (cases "exits d' 0 = None")
  case True
  then show ?thesis using running_all_there [OF assms(2)] by blast
next
  case False
  have q: "queues (remove_q env (key, g) d) key \<noteq> None \<Longrightarrow> remove_q env (key, g) d = d" for g
    by (auto simp: remove_q_def split: if_splits)
  have "(\<exists>x. d' = exit_process 0 x d) \<or> (\<exists>x g. d' = exit_process 0 x (remove_q env (key, g) d))"
    using assms(1,5) False by (cases l) (auto simp: parent_def dest: msgsnd_OK split: if_splits callres.splits)
  then obtain x where "d' = exit_process 0 x d" using q assms(4) by (metis exit_process_simps(1))
  then show ?thesis using assms(3) by (auto intro: all_there_same)
qed

lemma parent_running: "parent env key arg d l = Some (d', l') \<Longrightarrow> parent_ok env key b d l \<Longrightarrow> exits d 0 = None"
  by (cases l) (auto simp: parent_def)

text \<open>What the parent does to the child, and the child to the parent.\<close>
lemma parent_child_ok:
  assumes "parent env key arg d l = Some (d', l')" "parent_ok env key b d l" "child_ok env d c" "\<not> forked d \<longrightarrow> c = Ch_exec"
  shows "child_ok env d' c \<and> (\<not> forked d' \<longrightarrow> c = Ch_exec)"
proof -
  have "got d' = got d \<and> exits d' 1 = exits d 1 \<and> (forked d \<longrightarrow> forked d')"
    using assms(1) by (cases l)
      (auto simp: parent_def dest: msgsnd_OK msgsnd_psys split: if_splits callres.splits)
  then show ?thesis
    using assms(3,4) parent_running [OF assms(1,2)] by (cases c) auto
qed

lemma child_step:
  assumes "child env key d c = Some (d', c')" "child_ok env d c" "parent_ok env key b d p"
    and "queues d key \<noteq> None \<longrightarrow> all_there env key old d" "mail_kept env key old d"
  shows "child_ok env d' c' \<and> parent_ok env key b d' p \<and> (queues d' key \<noteq> None \<longrightarrow> all_there env key old d') \<and>
    mail_kept env key old d' \<and> sent d' = sent d \<and> msg_overread d' = msg_overread d \<and> forked d'"
proof -
  have f: "forked d" using assms(1) by (auto simp: child_def split: if_splits)
  have k: "sent d' = sent d \<and> msg_overread d' = msg_overread d \<and> forked d' = forked d \<and> removals d' = removals d \<and> exits d' 0 = exits d 0 \<and>
      (queues d' key = None \<longleftrightarrow> queues d key = None) \<and> (exits d 1 \<noteq> None \<longrightarrow> exits d' 1 \<noteq> None) \<and>
      (got d' = got d \<and> msgs key d' = msgs key d \<or>
       queues d key \<noteq> None \<and> (\<exists>m. msgs key d = m # msgs key d' \<and> got d' = got d @ [shown m]))"
    using assms(1,2) by (cases c)
      (auto simp: child_def rcv_once_def key_roundtrip Let_def msgs_def queue_of_def split: if_splits option.splits list.splits)
  then have a: "queues d' key \<noteq> None \<longrightarrow> all_there env key old d'"
    using assms(4) by (auto simp: all_there_def)
  have m: "mail_kept env key old d'"
  proof (cases "got d' = got d \<and> msgs key d' = msgs key d")
    case True
    then show ?thesis using k mail_kept_same [OF assms(5), of d'] by blast
  next
    case False
    then have "all_there env key old d'" using k a by auto
    then show ?thesis unfolding mail_kept_def all_there_def by (intro exI [of _ "[]"]) simp
  qed
  have p: "parent_ok env key b d' p" using k assms(3) by (cases p) auto
  have q: "exits d 0 = Some EXIT_FAILURE" if "queues d key = None" "exits d 1 = None"
    using assms(3) f that by (cases p) auto
  have "child_ok env d' c'"
  proof (cases c)
    case (Ch_recv q)
    then show ?thesis
      using assms(1,2) f q
      by (cases "queues d key")
        (auto simp: child_def rcv_once_def key_roundtrip family_queue [OF assms(3)] split: if_splits list.splits)
  next
    case Ch_get
    then show ?thesis
      using assms(1,2) f q family_removals [OF assms(3)]
      by (auto simp: child_def rcv_once_def key_roundtrip split: if_splits)
  qed (use assms(1,2) f in \<open>auto simp: child_def rcv_once_def split: if_splits\<close>)
  then show ?thesis using a m p k f by blast
qed

lemma family_inv_step:
  assumes inv: "family_inv env key (letter arg) old d ls" and i: "i < 2"
    and st: "family_step env key arg i d (ls i) = Some (d', l')"
  shows "family_inv env key (letter arg) old d' (ls(i := l'))"
proof (cases "i = 0")
  case True
  have e: "parent env key arg d (ls 0) = Some (d', l')" using st True by (simp add: family_step_def)
  have o: "parent_ok env key (letter arg) d (ls 0)" "mail_kept env key old d"
    using inv by (simp_all add: family_inv_def)
  have r: "exits d 0 = None" by (rule parent_running [OF e o(1)])
  have p: "mail_kept env key old d' \<and> parent_ok env key (letter arg) d' l' \<and>
      (msg_overread d' \<longleftrightarrow> sent d' \<noteq> [] \<and> MSG_MAX < length (letter arg))"
    using parent_inv [OF e o(2,1)] inv by (simp add: family_inv_def)
  then have "queues d' key \<noteq> None \<longrightarrow> all_there env key old d'"
    using parent_all_there [OF e _ running_all_there [OF o(2) r] _ r] by blast
  moreover have "child_ok env d' (ls 1) \<and> (\<not> forked d' \<longrightarrow> ls 1 = Ch_exec)"
    using parent_child_ok [OF e o(1)] inv by (simp add: family_inv_def)
  ultimately show ?thesis using p True by (simp add: family_inv_def)
next
  case False
  then have i1: "i = 1" using i by simp
  then have e: "child env key d (ls 1) = Some (d', l')" using st by (simp add: family_step_def)
  show ?thesis using child_step [OF e, of "letter arg" "ls 0" old] inv i1 by (simp add: family_inv_def)
qed

lemma family_inv_start:
  "family_inv env key b (msgs key (fst (family_start qs))) (fst (family_start qs)) (snd (family_start qs))"
  by (simp add: family_inv_def mail_kept_def all_there_def family_start_def)

text \<open>When the parent waits for ever: for room in a queue that holds old messages. The child waits for ever only
  in a queue that could not be removed.\<close>
lemma family_stuck:
  assumes inv: "family_inv env key b old d ls" and "msgmax env \<le> qbytes env"
    and st: "stuck 2 (family_step env key arg) (d, ls)"
  shows "exits d 0 \<noteq> None \<and> (forked d \<longrightarrow> exits d 1 \<noteq> None) \<or> rmid_fails env \<or>
    exits d 0 = None \<and> exits d 1 \<noteq> None \<and> msgs key d \<noteq> []"
proof -
  have p: "parent env key arg d (ls 0) = None" "parent_ok env key b d (ls 0)"
    and c: "child env key d (ls 1) = None" "child_ok env d (ls 1)"
    and a: "queues d key \<noteq> None \<longrightarrow> all_there env key old d"
    using st inv by (auto simp: stuck_def family_step_def family_inv_def less_2_cases_iff)
  have cw: "exits d 1 \<noteq> None \<or> queues d key = Some []" if "forked d"
    using c that by (cases "ls 1")
      (auto simp: child_def rcv_once_def key_roundtrip family_queue [OF p(2)] split: if_splits option.splits list.splits)
  have got: "got d = []" if "exits d 1 = None" using c(2) that by (cases "ls 1") auto
  show ?thesis
  proof (cases "ls 0")
    case (Pa_send q)
    have "msgs key d \<noteq> []"
      using p(1) Pa_send assms(2)
      by (auto simp: parent_def queue_send_def queue_of_def msgs_def split: callres.splits option.splits if_splits)
    moreover have "forked d" "exits d 0 = None" using p(2) Pa_send by auto
    ultimately show ?thesis using cw by (auto simp: msgs_def)
  next
    case (Pa_wait q)
    then have w: "exits d 1 = None" "forked d" "sent d = [(0, b)]" "queues d key \<noteq> None"
      using p by (auto simp: parent_def split: if_splits)
    then show ?thesis using a cw got by (auto simp: all_there_def msgs_def)
  next
    case Pa_end
    then show ?thesis using p(2) cw by (cases "forked d") (auto split: if_splits)
  qed (use p in \<open>auto simp: parent_def split: if_splits\<close>)
qed

section \<open>Properties\<close>

lemma mail_inv_run:
  assumes "run_sched (Suc n) (mail_step env key args) sched (mail_start qs) = Some (d, ls)"
  shows "mail_inv env key args (msgs key (msys0 qs)) (Suc n) d ls"
  using reach_invariant [where P = "\<lambda>c. mail_inv env key args (msgs key (msys0 qs)) (Suc n) (fst c) (snd c)",
      OF run_sched_reach [OF assms]] mail_inv_start mail_inv_step
  by (fastforce simp: mail_start_def)

lemma sender_prefix:
  "sender_ok as i d l \<Longrightarrow> \<exists>k. map snd (filter (\<lambda>m. fst m = i) (sent d)) = take k (buffers as)"
  by (cases l) (auto intro: exI [of _ 0] exI [of _ "length (buffers as)"])

lemma sender_done:
  "sender_ok as i d l \<Longrightarrow> exits d i = Some EXIT_SUCCESS \<Longrightarrow> map snd (filter (\<lambda>m. fst m = i) (sent d)) = buffers as"
  by (cases l) auto

text \<open>Arguments are C strings, so that the messages are shown as they were sent, but for the cut.\<close>
lemma sent_shown:
  assumes "mail_inv env key args old n d ls" "\<forall>i. \<forall>b\<in>set (args i). CHR 0x00 \<notin> set b"
  shows "map shown (map (\<lambda>m. sent_bytes (behind env) (snd m)) (sent d)) = map (\<lambda>m. take MSG_MAX (snd m)) (sent d)"
proof -
  have "CHR 0x00 \<notin> set (snd m)" if m: "m \<in> set (sent d)" for m
  proof -
    have "sender_ok (args (fst m)) (fst m) d (ls (fst m))" using assms(1) m by (auto simp: mail_inv_def)
    from sender_prefix [OF this] obtain k
      where "map snd (filter (\<lambda>m'. fst m' = fst m) (sent d)) = take k (buffers (args (fst m)))" by blast
    moreover have "snd m \<in> set (map snd (filter (\<lambda>m'. fst m' = fst m) (sent d)))" using m by auto
    ultimately have "snd m \<in> set (buffers (args (fst m)))" by (metis in_set_takeD)
    then show ?thesis using assms(2) by (auto simp: buffers_def default_message_def split: if_splits)
  qed
  then show ?thesis by (simp add: shown_sent)
qed

text \<open>C17. Any number of \<open>messagesSV_snd_arg\<close> and one \<open>messagesSV_rcv_cycle\<close> that is started with the key they print:
  what was printed, followed by what was lost with the removed queue and by what is still in it, is what the
  queue held before and then what was sent, in order, each message cut to \<open>MSG_MAX\<close> characters; nothing is lost before the
  receiver ends. A sender that ends with \<open>EXIT_SUCCESS\<close> has sent all its arguments, in order. Every run is
  bounded, and when nobody can go on all have ended, or a sender waits at a queue that nobody reads any more.
  \<open>msgsnd\<close> reads behind the array exactly when an argument is longer than it.\<close>
theorem mail_in_order:
  assumes "run_sched (Suc n) (mail_step env key args) sched (mail_start qs) = Some (d, ls)"
    and "\<forall>i. \<forall>b\<in>set (args i). CHR 0x00 \<notin> set b"
    and "msgmax env \<le> qbytes env"
  shows "length sched \<le> 3 * length (msgs key (msys0 qs)) + 5 + (\<Sum>i<n. 4 * length (buffers (args (Suc i))) + 6) \<and>
    (\<exists>lost. got d @ lost @ map shown (msgs key d) =
        map shown (msgs key (msys0 qs)) @ map (\<lambda>m. take MSG_MAX (snd m)) (sent d) \<and>
      (exits d 0 = None \<longrightarrow> lost = [])) \<and>
    (\<forall>i. 0 < i \<and> i \<le> n \<longrightarrow>
      (\<exists>k. map snd (filter (\<lambda>m. fst m = i) (sent d)) = take k (buffers (args i))) \<and>
      (exits d i = Some EXIT_SUCCESS \<longrightarrow> map snd (filter (\<lambda>m. fst m = i) (sent d)) = buffers (args i))) \<and>
    (msg_overread d \<longleftrightarrow> (\<exists>m\<in>set (sent d). MSG_MAX < length (snd m))) \<and>
    (stuck (Suc n) (mail_step env key args) (d, ls) \<longrightarrow>
      (\<forall>i\<le>n. exits d i \<noteq> None \<or> exits d 0 \<noteq> None \<and> msgs key d \<noteq> []))"
proof (intro conjI allI impI)
  note inv = mail_inv_run [OF assms(1)]
  show "length sched \<le> 3 * length (msgs key (msys0 qs)) + 5 + (\<Sum>i<n. 4 * length (buffers (args (Suc i))) + 6)"
    using mail_run_bound [OF assms(1) [unfolded mail_start_def]] by (simp add: sum.lessThan_Suc_shift del: sum.lessThan_Suc)
  show "\<exists>lost. got d @ lost @ map shown (msgs key d) =
        map shown (msgs key (msys0 qs)) @ map (\<lambda>m. take MSG_MAX (snd m)) (sent d) \<and>
      (exits d 0 = None \<longrightarrow> lost = [])"
  proof -
    obtain lost where "got d @ map shown (lost @ msgs key d) =
        map shown (msgs key (msys0 qs) @ map (\<lambda>m. sent_bytes (behind env) (snd m)) (sent d))" "exits d 0 = None \<longrightarrow> lost = []"
      using inv by (auto simp: mail_inv_def mail_kept_def)
    then show ?thesis using sent_shown [OF inv assms(2)] by (intro exI [of _ "map shown lost"]) auto
  qed
  show "\<exists>k. map snd (filter (\<lambda>m. fst m = i) (sent d)) = take k (buffers (args i))" if "0 < i \<and> i \<le> n" for i
    by (rule sender_prefix [of _ _ _ "ls i"]) (use inv that in \<open>simp add: mail_inv_def\<close>)
  show "map snd (filter (\<lambda>m. fst m = i) (sent d)) = buffers (args i)"
    if "0 < i \<and> i \<le> n" "exits d i = Some EXIT_SUCCESS" for i
    by (rule sender_done [of _ _ _ "ls i"]) (use inv that in \<open>simp_all add: mail_inv_def\<close>)
  show "msg_overread d \<longleftrightarrow> (\<exists>m\<in>set (sent d). MSG_MAX < length (snd m))"
    using inv by (simp only: mail_inv_def)
  show "exits d i \<noteq> None \<or> exits d 0 \<noteq> None \<and> msgs key d \<noteq> []"
    if "stuck (Suc n) (mail_step env key args) (d, ls)" "i \<le> n" for i
    using mail_stuck [OF inv assms(3) that(1)] that(2) by simp
qed

definition calm_mail :: menv where
  "calm_mail = \<lparr>msgmax = 64, qbytes = 128, msgget_fails = (\<lambda>_. False), msgctl_fails = (\<lambda>_. False),
     msgsnd_fails = (\<lambda>_. False), msgrcv_fails = (\<lambda>_. False), rmid_fails = False, behind = (\<lambda>_. CHR ''?'')\<rparr>"

definition two_letters :: "nat \<Rightarrow> string list" where
  "two_letters i = (if i = 1 then [''hello'', ''world''] else [])"

lemma mail_run_ends:
  "case run_sched (Suc 1) (mail_step calm_mail 21 two_letters) ([1, 1, 1] @ [0, 0, 0] @ [1] @ [0, 0, 0, 0]) (mail_start (\<lambda>_. None)) of
     None \<Rightarrow> False
   | Some c \<Rightarrow> got (fst c) = [''hello'', ''world''] \<and> exits (fst c) 0 = Some 0 \<and> exits (fst c) 1 = Some 0"
  by code_simp

theorem mail_in_order_witness:
  "\<exists>d ls. run_sched (Suc 1) (mail_step calm_mail 21 two_letters) ([1, 1, 1] @ [0, 0, 0] @ [1] @ [0, 0, 0, 0])
      (mail_start (\<lambda>_. None)) = Some (d, ls) \<and>
    got d = [''hello'', ''world''] \<and> map snd (filter (\<lambda>m. fst m = 1) (sent d)) = [''hello'', ''world'']"
proof -
  obtain d ls where c: "run_sched (Suc 1) (mail_step calm_mail 21 two_letters) ([1, 1, 1] @ [0, 0, 0] @ [1] @ [0, 0, 0, 0])
      (mail_start (\<lambda>_. None)) = Some (d, ls)" "got d = [''hello'', ''world'']" "exits d 1 = Some 0"
    using mail_run_ends by (auto split: option.splits)
  have a: "\<forall>i. \<forall>b\<in>set (two_letters i). CHR 0x00 \<notin> set b" by (auto simp: two_letters_def)
  have m: "msgmax calm_mail \<le> qbytes calm_mail" by (simp add: calm_mail_def)
  have "map snd (filter (\<lambda>m. fst m = 1) (sent d)) = buffers (two_letters 1)"
    using mail_in_order [OF c(1) a m] c(3) by simp
  then show ?thesis using c by (simp add: buffers_def two_letters_def)
qed

text \<open>What is sent after the receiver has found the queue empty twice is lost, and both end with success.\<close>
theorem mail_lost:
  "\<exists>d ls. reach (Suc 1) (mail_step calm_mail 21 two_letters) (mail_start (\<lambda>_. None)) (d, ls) \<and>
     exits d 0 = Some EXIT_SUCCESS \<and> exits d 1 = Some EXIT_SUCCESS \<and> length (sent d) = 2 \<and> got d = [''hello''] \<and> queues d 21 = None"
proof -
  have "case run_sched (Suc 1) (mail_step calm_mail 21 two_letters) ([1, 1, 1] @ [0, 0, 0, 0, 0] @ [1] @ [0]) (mail_start (\<lambda>_. None)) of
      None \<Rightarrow> False
    | Some c \<Rightarrow> exits (fst c) 0 = Some EXIT_SUCCESS \<and> exits (fst c) 1 = Some EXIT_SUCCESS \<and> length (sent (fst c)) = 2 \<and>
        got (fst c) = [''hello''] \<and> queues (fst c) 21 = None"
    by code_simp
  from run_case [OF this] show ?thesis by auto
qed

text \<open>A sender that got its identifier before the queue was removed cannot send to the new queue with the key: it ends with
  \<open>EXIT_FAILURE\<close>.\<close>
theorem stale_identifier:
  "\<exists>d ls. reach (Suc 2) (mail_step calm_mail 21 two_letters) (mail_start (\<lambda>_. None)) (d, ls) \<and>
     exits d 1 = Some EXIT_FAILURE \<and> sent d = [] \<and> queues d 21 = Some []"
proof -
  have "case run_sched (Suc 2) (mail_step calm_mail 21 two_letters) ([1, 1] @ replicate 5 0 @ [2, 1]) (mail_start (\<lambda>_. None)) of
      None \<Rightarrow> False
    | Some c \<Rightarrow> exits (fst c) 1 = Some EXIT_FAILURE \<and> sent (fst c) = [] \<and> queues (fst c) 21 = Some []"
    by code_simp
  from run_case [OF this] show ?thesis by auto
qed

text \<open>\<open>messagesSV_snd\<close> with the \<open>messagesSV_rcv\<close> it runs: the child prints at most one message, the first one of
  what the queue held before and the letter of the parent, cut to \<open>MSG_MAX\<close>; so an old queue, which \<open>msgget\<close> takes over, makes it print
  something else. When the parent ends with \<open>EXIT_SUCCESS\<close> the child has ended, with success unless it could not be run or its
  calls failed, and the queue is removed. Every run takes at most 7 steps, and at its end both have ended, or the
  queue could not be removed, or the parent waits for room among old messages.\<close>
theorem family_letter:
  assumes "run_sched 2 (family_step env key arg) sched (family_start qs) = Some (d, ls)"
    and "CHR 0x00 \<notin> set (letter arg)" "msgmax env \<le> qbytes env"
  shows "length sched \<le> 7 \<and>
    (got d = [] \<or> got d = [hd (map shown (msgs key (fst (family_start qs))) @ [take MSG_MAX (letter arg)])]) \<and>
    (exits d 1 = Some EXIT_SUCCESS \<longrightarrow> length (got d) = 1) \<and>
    (exits d 0 = Some EXIT_SUCCESS \<longrightarrow>
      (queues d key = None \<or> rmid_fails env) \<and> sent d = [(0, letter arg)] \<and>
      (exits d 1 = Some EXIT_SUCCESS \<or> execl_fails env \<or> msgget_fails env 1 \<or> msgrcv_fails env 1)) \<and>
    (stuck 2 (family_step env key arg) (d, ls) \<longrightarrow>
      exits d 0 \<noteq> None \<and> (forked d \<longrightarrow> exits d 1 \<noteq> None) \<or> rmid_fails env \<or>
      exits d 0 = None \<and> exits d 1 \<noteq> None \<and> msgs key d \<noteq> [])"
proof (intro conjI impI)
  let ?old = "msgs key (fst (family_start qs))"
  have inv: "family_inv env key (letter arg) ?old d ls"
    using reach_invariant [where P = "\<lambda>c. family_inv env key (letter arg) ?old (fst c) (snd c)",
        OF run_sched_reach [OF assms(1)]] family_inv_start family_inv_step by fastforce
  have p: "parent_ok env key (letter arg) d (ls 0)" and c: "child_ok env d (ls 1)" and k: "mail_kept env key ?old d"
    using inv by (simp_all add: family_inv_def)
  have "(\<Sum>j<2. family_weight ((ls(i := l')) j)) < (\<Sum>j<2. family_weight (ls j))"
    if "i < 2" "family_step env key arg i d (ls i) = Some (d', l')" for i d ls d' l'
    by (rule sum_upd_less [OF that(1)]) (rule family_less [OF that(2)])
  then have "length sched + (\<Sum>i<2. family_weight (ls i)) \<le> (\<Sum>i<2. family_weight (snd (family_start qs) i))"
    using run_bound [OF assms(1), of "\<lambda>c. \<Sum>i<2. family_weight (snd c i)"] by (simp only: snd_conv)
  then show "length sched \<le> 7" by (simp add: family_start_def numeral_2_eq_2)
  have s: "sent d = [] \<or> sent d = [(0, letter arg)]" using p by (cases "ls 0") auto
  have g: "length (got d) \<le> 1" using c by (cases "ls 1") auto
  obtain rest where r: "got d @ rest = map shown ?old @ map (\<lambda>m. take MSG_MAX (snd m)) (sent d)"
  proof -
    have "map shown (map (\<lambda>m. sent_bytes (behind env) (snd m)) (sent d)) = map (\<lambda>m. take MSG_MAX (snd m)) (sent d)"
      using s shown_sent [OF assms(2)] by (elim disjE) simp_all
    moreover obtain lost where "got d @ map shown (lost @ msgs key d) =
        map shown (?old @ map (\<lambda>m. sent_bytes (behind env) (snd m)) (sent d))"
      using k unfolding mail_kept_def by blast
    ultimately show ?thesis using that [of "map shown (lost @ msgs key d)"] by (simp only: map_append)
  qed
  show "got d = [] \<or> got d = [hd (map shown ?old @ [take MSG_MAX (letter arg)])]"
  proof (cases "got d")
    case (Cons m ms)
    then have "got d = [m]" using g by simp
    then show ?thesis using r s by (cases "map shown ?old") auto
  qed simp
  show "length (got d) = 1" if "exits d 1 = Some EXIT_SUCCESS" using c that by (cases "ls 1") auto
  show "queues d key = None \<or> rmid_fails env" "sent d = [(0, letter arg)]"
      "exits d 1 = Some EXIT_SUCCESS \<or> execl_fails env \<or> msgget_fails env 1 \<or> msgrcv_fails env 1"
    if "exits d 0 = Some EXIT_SUCCESS"
    using p c that inv by (cases "ls 0"; cases "ls 1"; auto simp: family_inv_def)+
  show "exits d 0 \<noteq> None \<and> (forked d \<longrightarrow> exits d 1 \<noteq> None) \<or> rmid_fails env \<or>
      exits d 0 = None \<and> exits d 1 \<noteq> None \<and> msgs key d \<noteq> []"
    if "stuck 2 (family_step env key arg) (d, ls)"
    by (rule family_stuck [OF inv assms(3) that])
qed

definition calm_family :: family_env where
  "calm_family = \<lparr>msgmax = 64, qbytes = 128, msgget_fails = (\<lambda>_. False), msgctl_fails = (\<lambda>_. False),
     msgsnd_fails = (\<lambda>_. False), msgrcv_fails = (\<lambda>_. False), rmid_fails = False, behind = (\<lambda>_. CHR ''?''),
     fork_fails = False, execl_fails = False\<rparr>"

lemma family_run_ends:
  "case run_sched 2 (family_step calm_family 21 (Some ''hi'')) [0, 0, 1, 0, 1, 1, 0] (family_start (\<lambda>_. None)) of
     None \<Rightarrow> False | Some c \<Rightarrow> exits (fst c) 0 = Some 0 \<and> exits (fst c) 1 = Some 0"
  by code_simp

theorem family_letter_witness:
  "\<exists>d ls. run_sched 2 (family_step calm_family 21 (Some ''hi'')) [0, 0, 1, 0, 1, 1, 0] (family_start (\<lambda>_. None)) = Some (d, ls) \<and>
     got d = [''hi''] \<and> queues d 21 = None"
proof -
  obtain d ls where c: "run_sched 2 (family_step calm_family 21 (Some ''hi'')) [0, 0, 1, 0, 1, 1, 0] (family_start (\<lambda>_. None)) = Some (d, ls)"
      "exits d 0 = Some 0" "exits d 1 = Some 0"
    using family_run_ends by (auto split: option.splits)
  have l: "CHR 0x00 \<notin> set (letter (Some ''hi''))" by (simp add: letter_def)
  have m: "msgmax calm_family \<le> qbytes calm_family" by (simp add: calm_family_def)
  have "got d = [hd (map shown (msgs 21 (fst (family_start (\<lambda>_. None)))) @ [take MSG_MAX (letter (Some ''hi''))])]"
      "queues d 21 = None \<or> rmid_fails calm_family"
    using family_letter [OF c(1) l m] c(2,3) by auto
  then show ?thesis using c(1) by (simp add: letter_def msgs_def family_start_def calm_family_def MSG_MAX_def)
qed

end
