(* ===== verification/Condition_Variables.thy ===== *)
theory Condition_Variables
  imports Threads
begin

text \<open>
  The condition variables of \<open>05-synchronization\<close>: \<open>sync_cond_var.c\<close>, where a watching thread waits
  until two counting threads have reached a threshold, and \<open>sync_assignment_cond.c\<close>, where \<open>main\<close> waits
  for the other thread to print first, with \<open>sync_assignment.c\<close>, the same without synchronization.
  The programs do not check their calls, which succeed here, except \<open>pthread_create\<close> where its result is
  used. POSIX allows \<open>pthread_cond_wait\<close> to return without a signal: the parameter \<open>spurious\<close> says
  whether it may. \<open>sleep\<close> is no step, since any thread may be late anyway.
\<close>

section \<open>Mutex and condition variable\<close>

text \<open>The mutex is its owner, the condition variable the threads that wait, the longest waiting first.\<close>
record sync_vars =
  mutex_owner :: "nat option"
  cv_waiting :: "nat list"

definition cv_lock :: "nat \<Rightarrow> 'x sync_vars_scheme \<Rightarrow> 'x sync_vars_scheme option" where
  "cv_lock i d = (if mutex_owner d = None then Some (d\<lparr>mutex_owner := Some i\<rparr>) else None)"

definition cv_unlock :: "'x sync_vars_scheme \<Rightarrow> 'x sync_vars_scheme" where
  "cv_unlock d = d\<lparr>mutex_owner := None\<rparr>"

text \<open>\<open>pthread_cond_wait\<close>: it releases the mutex and waits, in one step (\<open>cv_wait\<close>); it goes on when it
  has been signalled or wakes up by itself (\<open>cv_wake\<close>), and then takes the mutex again.\<close>
definition cv_wait :: "nat \<Rightarrow> 'x sync_vars_scheme \<Rightarrow> 'x sync_vars_scheme" where
  "cv_wait i d = d\<lparr>mutex_owner := None, cv_waiting := cv_waiting d @ [i]\<rparr>"

definition cv_wake :: "bool \<Rightarrow> nat \<Rightarrow> 'x sync_vars_scheme \<Rightarrow> 'x sync_vars_scheme option" where
  "cv_wake spurious i d =
     (if i \<notin> set (cv_waiting d) then Some d
      else if spurious then Some (d\<lparr>cv_waiting := removeAll i (cv_waiting d)\<rparr>)
      else None)"

definition cv_signal :: "'x sync_vars_scheme \<Rightarrow> 'x sync_vars_scheme" where
  "cv_signal d = d\<lparr>cv_waiting := tl (cv_waiting d)\<rparr>"

text \<open>Going on after a call that may have to wait.\<close>
definition go_if :: "'d option \<Rightarrow> 'l \<Rightarrow> ('d, 'l) act option" where
  "go_if r l = map_option (\<lambda>d. Go d l) r"

lemma go_if_Some: "go_if r l = Some a \<longleftrightarrow> (\<exists>d. r = Some d \<and> a = Go d l)"
  by (auto simp: go_if_def)

named_theorems cv_defs \<open>the operations on the mutex and the condition variable\<close>
declare cv_lock_def [cv_defs] cv_unlock_def [cv_defs] cv_wait_def [cv_defs] cv_wake_def [cv_defs]
  cv_signal_def [cv_defs]

section \<open>\<open>sync_cond_var.c\<close>\<close>

definition NUM_THREADS :: nat where "NUM_THREADS = 3"
definition TCOUNT :: nat where "TCOUNT = 10"
definition COUNT_THRESHOLD :: int where "COUNT_THRESHOLD = 12"

text \<open>What the threads print, with the values the texts contain.\<close>
datatype count_event =
    Threshold_reached int int | Incremented int int | Going_into_wait int | Signal_received int
  | Count_now int int | Final_value int

text \<open>\<open>count\<close> stays between 0 and 120, so that \<open>int\<close> does not overflow.\<close>
record count_data = sync_vars +
  cv_count :: int
  count_created :: nat
  count_returned :: "nat \<Rightarrow> bool"
  printed :: "count_event list"

datatype count_pc =
    I_lock nat | I_read nat | I_write nat int | I_test nat | I_signal nat | I_print nat | I_unlock nat | I_end
  | V_lock | V_test | V_wait | V_waiting | V_relock | V_received | V_read | V_write int | V_print | V_unlock | V_end
  | Mn_create nat | Mn_join nat | Mn_print

text \<open>The watching thread has the index 0 and the number 1, and so on.\<close>
abbreviation my_id :: "nat \<Rightarrow> int" where "my_id i \<equiv> int i + 1"

definition say :: "count_event \<Rightarrow> count_data \<Rightarrow> count_data" where
  "say e d = d\<lparr>printed := printed d @ [e]\<rparr>"

definition inc_count :: "nat \<Rightarrow> count_data \<Rightarrow> count_pc \<Rightarrow> (count_data, count_pc) act option" where
  "inc_count i d pc =
     (case pc of
        I_lock k \<Rightarrow>
          if k < TCOUNT then go_if (cv_lock i d) (I_read k)
          else Some (Go (d\<lparr>count_returned := (count_returned d)(i := True)\<rparr>) I_end)
      | I_read k \<Rightarrow> Some (Go d (I_write k (cv_count d + 1)))
      | I_write k v \<Rightarrow> Some (Go (d\<lparr>cv_count := v\<rparr>) (I_test k))
      | I_test k \<Rightarrow> Some (Go d (if cv_count d = COUNT_THRESHOLD then I_signal k else I_print k))
      | I_signal k \<Rightarrow> Some (Go (cv_signal (say (Threshold_reached (my_id i) (cv_count d)) d)) (I_print k))
      | I_print k \<Rightarrow> Some (Go (say (Incremented (my_id i) (cv_count d)) d) (I_unlock k))
      | I_unlock k \<Rightarrow> Some (Go (cv_unlock d) (I_lock (k + 1)))
      | _ \<Rightarrow> None)"

definition watch_count :: "bool \<Rightarrow> nat \<Rightarrow> count_data \<Rightarrow> count_pc \<Rightarrow> (count_data, count_pc) act option" where
  "watch_count spurious i d pc =
     (case pc of
        V_lock \<Rightarrow> go_if (cv_lock i d) V_test
      | V_test \<Rightarrow> Some (Go d (if cv_count d < COUNT_THRESHOLD then V_wait else V_read))
      | V_wait \<Rightarrow> Some (Go (cv_wait i (say (Going_into_wait (my_id i)) d)) V_waiting)
      | V_waiting \<Rightarrow> go_if (cv_wake spurious i d) V_relock
      | V_relock \<Rightarrow> go_if (cv_lock i d) V_received
      | V_received \<Rightarrow> Some (Go (say (Signal_received (my_id i)) d) V_read)
      | V_read \<Rightarrow> Some (Go d (V_write (cv_count d + 100)))
      | V_write v \<Rightarrow> Some (Go (d\<lparr>cv_count := v\<rparr>) V_print)
      | V_print \<Rightarrow> Some (Go (say (Count_now (my_id i) (cv_count d)) d) V_unlock)
      | V_unlock \<Rightarrow> Some (Go ((cv_unlock d)\<lparr>count_returned := (count_returned d)(i := True)\<rparr>) V_end)
      | _ \<Rightarrow> None)"

definition count_main :: "count_data \<Rightarrow> count_pc \<Rightarrow> (count_data, count_pc) act option" where
  "count_main d pc =
     (case pc of
        Mn_create t \<Rightarrow>
          if t < NUM_THREADS then Some (Go (d\<lparr>count_created := t + 1\<rparr>) (Mn_create (t + 1)))
          else Some (Go d (Mn_join 0))
      | Mn_join t \<Rightarrow>
          if t < NUM_THREADS then (if count_returned d t then Some (Go d (Mn_join (t + 1))) else None)
          else Some (Go d Mn_print)
      | Mn_print \<Rightarrow> Some (Quit (say (Final_value (cv_count d)) d) EXIT_SUCCESS)
      | _ \<Rightarrow> None)"

text \<open>A thread can run once it has been created.\<close>
definition count_outs :: "bool \<Rightarrow> nat \<Rightarrow> count_data \<Rightarrow> count_pc \<Rightarrow> (count_data, count_pc) act option" where
  "count_outs spurious i d pc =
     (if i = NUM_THREADS then count_main d pc
      else if count_created d \<le> i then None
      else if i = 0 then watch_count spurious i d pc
      else inc_count i d pc)"

definition count_data0 :: count_data where
  "count_data0 = \<lparr>mutex_owner = None, cv_waiting = [], cv_count = 0, count_created = 0,
     count_returned = (\<lambda>_. False), printed = []\<rparr>"

definition count_start :: "(count_data process, count_pc) conf" where
  "count_start = ((count_data0, None),
     \<lambda>i. if i = NUM_THREADS then Mn_create 0 else if i = 0 then V_lock else I_lock 0)"

abbreviation count_step :: "bool \<Rightarrow> (count_data process, count_pc) tstep" where
  "count_step spurious \<equiv> free_step (count_outs spurious)"

lemmas count_defs = count_outs_def inc_count_def watch_count_def count_main_def say_def NUM_THREADS_def

subsection \<open>Every run ends\<close>

fun count_weight :: "count_pc \<Rightarrow> nat" where
  "count_weight (I_lock k) = 7 * (TCOUNT - k) + 1"
| "count_weight (I_read k) = 7 * (TCOUNT - 1 - k) + 7"
| "count_weight (I_write k v) = 7 * (TCOUNT - 1 - k) + 6"
| "count_weight (I_test k) = 7 * (TCOUNT - 1 - k) + 5"
| "count_weight (I_signal k) = 7 * (TCOUNT - 1 - k) + 4"
| "count_weight (I_print k) = 7 * (TCOUNT - 1 - k) + 3"
| "count_weight (I_unlock k) = 7 * (TCOUNT - 1 - k) + 2"
| "count_weight I_end = 0"
| "count_weight V_lock = 10"
| "count_weight V_test = 9"
| "count_weight V_wait = 8"
| "count_weight V_waiting = 7"
| "count_weight V_relock = 6"
| "count_weight V_received = 5"
| "count_weight V_read = 4"
| "count_weight (V_write v) = 3"
| "count_weight V_print = 2"
| "count_weight V_unlock = 1"
| "count_weight V_end = 0"
| "count_weight (Mn_create t) = 6 + (NUM_THREADS - t)"
| "count_weight (Mn_join t) = 2 + (NUM_THREADS - t)"
| "count_weight Mn_print = 1"

lemma count_outs_sync: "count_outs sp i d l \<noteq> Some (Sync d' l')"
  by (cases l) (auto simp: count_defs go_if_def)

lemma count_outs_less:
  assumes "count_outs sp i d l = Some (Go d' l')"
  shows "count_weight l' < count_weight l"
  using assms by (cases l) (auto simp: count_defs go_if_Some TCOUNT_def split: if_splits)

section \<open>The invariant\<close>

text \<open>Whether a thread has the mutex, how often it has incremented \<open>count\<close>, and what it has added.\<close>
fun has_mutex :: "count_pc \<Rightarrow> bool" where
  "has_mutex (I_read k) = True"
| "has_mutex (I_write k v) = True"
| "has_mutex (I_test k) = True"
| "has_mutex (I_signal k) = True"
| "has_mutex (I_print k) = True"
| "has_mutex (I_unlock k) = True"
| "has_mutex V_test = True"
| "has_mutex V_wait = True"
| "has_mutex V_received = True"
| "has_mutex V_read = True"
| "has_mutex (V_write v) = True"
| "has_mutex V_print = True"
| "has_mutex V_unlock = True"
| "has_mutex _ = False"

fun contribution :: "count_pc \<Rightarrow> int" where
  "contribution (I_lock k) = int k"
| "contribution (I_read k) = int k"
| "contribution (I_write k v) = int k"
| "contribution (I_test k) = int k + 1"
| "contribution (I_signal k) = int k + 1"
| "contribution (I_print k) = int k + 1"
| "contribution (I_unlock k) = int k + 1"
| "contribution I_end = int TCOUNT"
| "contribution V_print = 100"
| "contribution V_unlock = 100"
| "contribution V_end = 100"
| "contribution _ = 0"

text \<open>What a counting thread says of the state.\<close>
fun inc_ok :: "count_data \<Rightarrow> nat \<Rightarrow> count_pc \<Rightarrow> bool" where
  "inc_ok d i (I_lock k) = (k \<le> TCOUNT \<and> \<not> count_returned d i)"
| "inc_ok d i (I_read k) = (k < TCOUNT \<and> \<not> count_returned d i)"
| "inc_ok d i (I_write k v) = (k < TCOUNT \<and> v = cv_count d + 1 \<and> \<not> count_returned d i)"
| "inc_ok d i (I_test k) = (k < TCOUNT \<and> \<not> count_returned d i)"
| "inc_ok d i (I_signal k) = (k < TCOUNT \<and> COUNT_THRESHOLD \<le> cv_count d \<and> \<not> count_returned d i)"
| "inc_ok d i (I_print k) = (k < TCOUNT \<and> \<not> count_returned d i)"
| "inc_ok d i (I_unlock k) = (k < TCOUNT \<and> \<not> count_returned d i)"
| "inc_ok d i I_end = count_returned d i"
| "inc_ok d i _ = False"

text \<open>What the watching thread says of it; \<open>sp\<close> tells whether it may wake up too early.\<close>
fun watch_ok :: "bool \<Rightarrow> count_data \<Rightarrow> count_pc \<Rightarrow> bool" where
  "watch_ok sp d V_lock = (\<not> count_returned d 0)"
| "watch_ok sp d V_test = (\<not> count_returned d 0)"
| "watch_ok sp d V_wait = (cv_count d < COUNT_THRESHOLD \<and> \<not> count_returned d 0)"
| "watch_ok sp d V_waiting =
     ((sp \<or> 0 \<in> set (cv_waiting d) \<or> COUNT_THRESHOLD \<le> cv_count d) \<and> \<not> count_returned d 0)"
| "watch_ok sp d V_relock = ((sp \<or> COUNT_THRESHOLD \<le> cv_count d) \<and> \<not> count_returned d 0)"
| "watch_ok sp d V_received = ((sp \<or> COUNT_THRESHOLD \<le> cv_count d) \<and> \<not> count_returned d 0)"
| "watch_ok sp d V_read = ((sp \<or> COUNT_THRESHOLD \<le> cv_count d) \<and> \<not> count_returned d 0)"
| "watch_ok sp d (V_write v) =
     ((sp \<or> COUNT_THRESHOLD \<le> cv_count d) \<and> v = cv_count d + 100 \<and> \<not> count_returned d 0)"
| "watch_ok sp d V_print = ((sp \<or> COUNT_THRESHOLD + 100 \<le> cv_count d) \<and> \<not> count_returned d 0)"
| "watch_ok sp d V_unlock = (\<not> count_returned d 0)"
| "watch_ok sp d V_end = count_returned d 0"
| "watch_ok sp d _ = False"

fun count_main_ok :: "count_data \<Rightarrow> count_pc \<Rightarrow> bool" where
  "count_main_ok d (Mn_create t) = (count_created d = t \<and> t \<le> NUM_THREADS)"
| "count_main_ok d (Mn_join t) = (count_created d = NUM_THREADS \<and> t \<le> NUM_THREADS \<and> (\<forall>j<t. count_returned d j))"
| "count_main_ok d Mn_print = (\<forall>j<NUM_THREADS. count_returned d j)"
| "count_main_ok d _ = False"

text \<open>The thread that is about to signal: \<open>count\<close> has just come to the threshold.\<close>
fun signalling :: "count_pc \<Rightarrow> bool" where
  "signalling (I_test k) = True"
| "signalling (I_signal k) = True"
| "signalling _ = False"

definition waiting_ok :: "count_data \<Rightarrow> (nat \<Rightarrow> count_pc) \<Rightarrow> bool" where
  "waiting_ok d ls \<longleftrightarrow> cv_waiting d = [] \<or> (cv_waiting d = [0] \<and> ls 0 = V_waiting \<and>
     (cv_count d < COUNT_THRESHOLD \<or>
      cv_count d = COUNT_THRESHOLD \<and> (signalling (ls 1) \<or> signalling (ls 2))))"

text \<open>What has been printed of the value the watching thread left.\<close>
definition printed_ok :: "bool \<Rightarrow> count_event list \<Rightarrow> bool" where
  "printed_ok sp ps \<longleftrightarrow> (\<forall>i c. Count_now i c \<in> set ps \<longrightarrow> sp \<or> COUNT_THRESHOLD + 100 \<le> c)"

lemma printed_ok_snoc [simp]:
  "printed_ok sp (ps @ [e]) \<longleftrightarrow>
     printed_ok sp ps \<and> (case e of Count_now i c \<Rightarrow> sp \<or> COUNT_THRESHOLD + 100 \<le> c | _ \<Rightarrow> True)"
  by (cases e) (auto simp: printed_ok_def)

definition count_inv :: "bool \<Rightarrow> count_data \<Rightarrow> (nat \<Rightarrow> count_pc) \<Rightarrow> bool" where
  "count_inv sp d ls \<longleftrightarrow>
     (\<forall>i. mutex_owner d = Some i \<longleftrightarrow> i < 3 \<and> has_mutex (ls i)) \<and>
     cv_count d = contribution (ls 0) + contribution (ls 1) + contribution (ls 2) \<and>
     watch_ok sp d (ls 0) \<and> inc_ok d 1 (ls 1) \<and> inc_ok d 2 (ls 2) \<and> count_main_ok d (ls 3) \<and>
     waiting_ok d ls \<and> printed_ok sp (printed d)"

lemma count_inv_start: "count_inv sp count_data0 (snd count_start)"
  by (auto simp: count_inv_def count_data0_def count_start_def waiting_ok_def printed_ok_def NUM_THREADS_def
      less_Suc_eq numeral_3_eq_3)

lemma watch_ok_frame:
  assumes "watch_ok sp d l" "\<not> has_mutex l \<or> cv_count d' = cv_count d" "cv_count d \<le> cv_count d'"
    and "count_returned d' 0 = count_returned d 0"
    and "0 \<in> set (cv_waiting d) \<Longrightarrow> 0 \<in> set (cv_waiting d') \<or> COUNT_THRESHOLD \<le> cv_count d'"
  shows "watch_ok sp d' l"
  using assms by (cases l) auto

lemma inc_ok_frame:
  assumes "inc_ok d i l" "\<not> has_mutex l \<or> cv_count d' = cv_count d" "count_returned d' i = count_returned d i"
  shows "inc_ok d' i l"
  using assms by (cases l) auto

lemma count_main_ok_frame:
  assumes "count_main_ok d l" "count_created d' = count_created d"
    and "\<And>j. count_returned d j \<Longrightarrow> count_returned d' j"
  shows "count_main_ok d' l"
  using assms by (cases l) auto

lemma mutex_alone:
  assumes "count_inv sp d ls" "i < 3" "has_mutex (ls i)" "j < 3" "j \<noteq> i"
  shows "\<not> has_mutex (ls j)"
  using assms unfolding count_inv_def by (metis option.inject)

lemma count_invD:
  assumes "count_inv sp d ls"
  shows "\<And>i. mutex_owner d = Some i \<longleftrightarrow> i < 3 \<and> has_mutex (ls i)"
    "cv_count d = contribution (ls 0) + contribution (ls 1) + contribution (ls 2)"
    "watch_ok sp d (ls 0)" "inc_ok d 1 (ls 1)" "inc_ok d 2 (ls 2)" "count_main_ok d (ls 3)"
    "waiting_ok d ls" "printed_ok sp (printed d)"
  using assms unfolding count_inv_def by blast+

text \<open>A step of a counting thread, \<open>i\<close> of 1 and 2; \<open>j\<close> is the other one.\<close>
lemma inc_count_owner:
  assumes "inc_count i d l = Some (Go d' l')" "mutex_owner d = Some i \<longleftrightarrow> has_mutex l"
  shows "(mutex_owner d' = Some i \<longleftrightarrow> has_mutex l') \<and>
    (k \<noteq> i \<longrightarrow> mutex_owner d' = Some k \<longleftrightarrow> mutex_owner d = Some k)"
  using assms by (cases l) (auto simp: inc_count_def go_if_Some cv_defs say_def split: if_splits)

lemma inc_count_effect:
  assumes "inc_count i d l = Some (Go d' l')" "inc_ok d i l" "i \<in> {1, 2}"
  shows "inc_ok d' i l' \<and> cv_count d' - cv_count d = contribution l' - contribution l \<and>
    cv_count d \<le> cv_count d' \<and> (has_mutex l \<or> cv_count d' = cv_count d) \<and>
    (\<forall>k. count_returned d k \<longrightarrow> count_returned d' k) \<and> (\<forall>k. k \<noteq> i \<longrightarrow> count_returned d' k = count_returned d k) \<and>
    count_created d' = count_created d \<and> (printed_ok sp (printed d) \<longrightarrow> printed_ok sp (printed d'))"
  using assms(1,2,3)
  by (cases l) (auto simp: inc_count_def go_if_Some cv_defs say_def split: if_splits)

text \<open>What it does to the waiting thread: the condition holds until it signals.\<close>
lemma inc_count_waiting:
  assumes "inc_count i d l = Some (Go d' l')" "inc_ok d i l"
    and "cv_waiting d = [] \<or> (cv_waiting d = [0] \<and> w = V_waiting \<and>
      (cv_count d < COUNT_THRESHOLD \<or> cv_count d = COUNT_THRESHOLD \<and> (signalling l \<or> signalling other)))"
    and "has_mutex l \<Longrightarrow> \<not> signalling other"
  shows "(cv_waiting d' = [] \<or> (cv_waiting d' = [0] \<and> w = V_waiting \<and>
      (cv_count d' < COUNT_THRESHOLD \<or> cv_count d' = COUNT_THRESHOLD \<and> (signalling l' \<or> signalling other)))) \<and>
    (cv_waiting d = cv_waiting d' \<or> COUNT_THRESHOLD \<le> cv_count d')"
  using assms by (cases l) (auto simp: inc_count_def go_if_Some cv_defs say_def split: if_splits)

lemma signalling_has_mutex: "signalling l \<Longrightarrow> has_mutex l"
  by (cases l) auto

lemma inc_count_inv:
  assumes inv: "count_inv sp d ls" and i: "i = 1 \<and> j = 2 \<or> i = 2 \<and> j = (1 :: nat)"
    and st: "inc_count i d (ls i) = Some (Go d' l')"
  shows "count_inv sp d' (ls(i := l'))"
proof -
  note own = count_invD(1) [OF inv]
  have ok: "inc_ok d i (ls i)" "inc_ok d j (ls j)" using count_invD(4,5) [OF inv] i by auto
  have c: "cv_count d = contribution (ls 0) + contribution (ls i) + contribution (ls j)"
    using count_invD(2) [OF inv] i by auto
  have ji: "j \<noteq> i" "0 \<noteq> i" "3 \<noteq> i" "i < 3" "j < 3" using i by auto
  have e: "inc_ok d' i l'" "cv_count d' - cv_count d = contribution l' - contribution (ls i)"
    "cv_count d \<le> cv_count d'" "has_mutex (ls i) \<or> cv_count d' = cv_count d"
    "\<And>k. count_returned d k \<Longrightarrow> count_returned d' k" "\<And>k. k \<noteq> i \<Longrightarrow> count_returned d' k = count_returned d k"
    "count_created d' = count_created d" "printed_ok sp (printed d) \<longrightarrow> printed_ok sp (printed d')"
    using inc_count_effect [OF st ok(1)] i by auto
  have same: "\<not> has_mutex (ls k) \<or> cv_count d' = cv_count d" if "k < 3" "k \<noteq> i" for k
    using e(4) mutex_alone [OF inv, of i k] ji that by auto
  have w: "(cv_waiting d' = [] \<or> (cv_waiting d' = [0] \<and> ls 0 = V_waiting \<and> (cv_count d' < COUNT_THRESHOLD \<or>
      cv_count d' = COUNT_THRESHOLD \<and> (signalling l' \<or> signalling (ls j))))) \<and>
      (cv_waiting d = cv_waiting d' \<or> COUNT_THRESHOLD \<le> cv_count d')"
  proof (rule inc_count_waiting [OF st ok(1)])
    show "cv_waiting d = [] \<or> (cv_waiting d = [0] \<and> ls 0 = V_waiting \<and> (cv_count d < COUNT_THRESHOLD \<or>
        cv_count d = COUNT_THRESHOLD \<and> (signalling (ls i) \<or> signalling (ls j))))"
      using count_invD(7) [OF inv] i by (auto simp: waiting_ok_def)
    show "has_mutex (ls i) \<Longrightarrow> \<not> signalling (ls j)"
      using mutex_alone [OF inv, of i j] ji signalling_has_mutex by auto
  qed
  have oo: "mutex_owner d' = Some k \<longleftrightarrow> k < 3 \<and> has_mutex ((ls(i := l')) k)" for k
    using inc_count_owner [OF st, of k] own [of i] own [of k] ji(4) by (cases "k = i") simp_all
  have wo: "watch_ok sp d' (ls 0)"
    by (rule watch_ok_frame [of sp d]) (use count_invD(3) [OF inv] w e(3) e(6) [of 0] same [of 0] ji in auto)
  have jo: "inc_ok d' j (ls j)"
    by (rule inc_ok_frame [OF ok(2)]) (use same e(6) ji in auto)
  have mo: "count_main_ok d' (ls 3)"
    by (rule count_main_ok_frame [of d]) (use count_invD(6) [OF inv] e in auto)
  have wp: "waiting_ok d' (ls(i := l'))" using conjunct1 [OF w] i by (auto simp: waiting_ok_def)
  have pp: "printed_ok sp (printed d')" using count_invD(8) [OF inv] e(8) by blast
  have cc: "cv_count d' = contribution ((ls(i := l')) 0) + contribution ((ls(i := l')) 1) + contribution ((ls(i := l')) 2)"
    using c e(2) i by auto
  have "watch_ok sp d' ((ls(i := l')) 0)" "inc_ok d' 1 ((ls(i := l')) 1)" "inc_ok d' 2 ((ls(i := l')) 2)"
      "count_main_ok d' ((ls(i := l')) 3)" using wo jo mo e(1) i by auto
  then show ?thesis unfolding count_inv_def using oo cc wp pp by blast
qed

lemma watch_count_owner:
  assumes "watch_count sp 0 d l = Some (Go d' l')" "mutex_owner d = Some 0 \<longleftrightarrow> has_mutex l"
  shows "(mutex_owner d' = Some 0 \<longleftrightarrow> has_mutex l') \<and>
    (k \<noteq> 0 \<longrightarrow> mutex_owner d' = Some k \<longleftrightarrow> mutex_owner d = Some k)"
  using assms by (cases l) (auto simp: watch_count_def go_if_Some cv_defs say_def split: if_splits)

lemma watch_count_effect:
  assumes "watch_count sp 0 d l = Some (Go d' l')" "watch_ok sp d l" "0 \<le> cv_count d - contribution l"
    "cv_waiting d = [] \<or> cv_waiting d = [0] \<and> l = V_waiting"
  shows "watch_ok sp d' l' \<and> cv_count d' - cv_count d = contribution l' - contribution l \<and>
    (has_mutex l \<or> cv_count d' = cv_count d) \<and>
    (\<forall>k. count_returned d k \<longrightarrow> count_returned d' k) \<and> (\<forall>k. k \<noteq> 0 \<longrightarrow> count_returned d' k = count_returned d k) \<and>
    count_created d' = count_created d \<and> (printed_ok sp (printed d) \<longrightarrow> printed_ok sp (printed d')) \<and>
    (cv_waiting d' = [] \<or> cv_waiting d' = [0] \<and> l' = V_waiting \<and> cv_count d' < COUNT_THRESHOLD)"
  using assms
  by (cases l) (auto simp: watch_count_def go_if_Some cv_defs say_def split: if_splits)

lemma watch_count_inv:
  assumes inv: "count_inv sp d ls" and st: "watch_count sp 0 d (ls 0) = Some (Go d' l')"
  shows "count_inv sp d' (ls(0 := l'))"
proof -
  have own: "\<And>k. mutex_owner d = Some k \<longleftrightarrow> k < 3 \<and> has_mutex (ls k)" and ok: "watch_ok sp d (ls 0)"
    and c: "cv_count d = contribution (ls 0) + contribution (ls 1) + contribution (ls 2)"
    and w: "waiting_ok d ls" and i: "inc_ok d 1 (ls 1)" "inc_ok d 2 (ls 2)"
    using count_invD [OF inv] by blast+
  have "0 \<le> contribution (ls 1)" "0 \<le> contribution (ls 2)"
    using i by (cases "ls 1"; simp) (cases "ls 2"; simp)
  then have e: "watch_ok sp d' l'" "cv_count d' - cv_count d = contribution l' - contribution (ls 0)"
    "has_mutex (ls 0) \<or> cv_count d' = cv_count d"
    "\<And>k. count_returned d k \<Longrightarrow> count_returned d' k" "\<And>k. k \<noteq> 0 \<Longrightarrow> count_returned d' k = count_returned d k"
    "count_created d' = count_created d" "printed_ok sp (printed d) \<longrightarrow> printed_ok sp (printed d')"
    "cv_waiting d' = [] \<or> cv_waiting d' = [0] \<and> l' = V_waiting \<and> cv_count d' < COUNT_THRESHOLD"
    using watch_count_effect [OF st ok] c w by (auto simp: waiting_ok_def)
  have same: "\<not> has_mutex (ls k) \<or> cv_count d' = cv_count d" if "k < 3" "k \<noteq> 0" for k
    using e(3) mutex_alone [OF inv, of 0 k] that by auto
  have "mutex_owner d' = Some k \<longleftrightarrow> k < 3 \<and> has_mutex ((ls(0 := l')) k)" for k
    using watch_count_owner [OF st, of k] own [of 0] own [of k] by (cases "k = 0") simp_all
  moreover have "inc_ok d' 1 (ls 1)" "inc_ok d' 2 (ls 2)"
    using inc_ok_frame [OF i(1), of d'] inc_ok_frame [OF i(2), of d'] same [of 1] same [of 2] e(5) by simp_all
  moreover have "count_main_ok d' (ls 3)"
    by (rule count_main_ok_frame [of d]) (use count_invD(6) [OF inv] e in auto)
  moreover have "waiting_ok d' (ls(0 := l'))" using e(8) by (auto simp: waiting_ok_def)
  moreover have "printed_ok sp (printed d')" using count_invD(8) [OF inv] e(7) by blast
  moreover have "cv_count d' = contribution ((ls(0 := l')) 0) + contribution ((ls(0 := l')) 1) + contribution ((ls(0 := l')) 2)"
    using c e(2) by simp
  ultimately show ?thesis unfolding count_inv_def using e(1) by simp
qed

lemma count_main_inv:
  assumes inv: "count_inv sp d ls" and st: "count_main d (ls 3) = Some (Go d' l')"
  shows "count_inv sp d' (ls(3 := l'))"
proof -
  have m: "count_main_ok d' l'" "mutex_owner d' = mutex_owner d" "cv_count d' = cv_count d"
    "count_returned d' = count_returned d" "cv_waiting d' = cv_waiting d" "printed d' = printed d"
    using st count_invD(6) [OF inv]
    by (cases "ls 3"; auto simp: count_main_def NUM_THREADS_def less_Suc_eq split: if_splits)+
  have "watch_ok sp d' (ls 0)"
    by (rule watch_ok_frame [OF count_invD(3) [OF inv]]) (use m in auto)
  moreover have "inc_ok d' 1 (ls 1)" "inc_ok d' 2 (ls 2)"
    using inc_ok_frame [OF count_invD(4) [OF inv], of d'] inc_ok_frame [OF count_invD(5) [OF inv], of d'] m by simp_all
  moreover have "waiting_ok d' (ls(3 := l'))" using count_invD(7) [OF inv] m by (simp add: waiting_ok_def)
  moreover have "mutex_owner d' = Some k \<longleftrightarrow> k < 3 \<and> has_mutex ((ls(3 := l')) k)" for k
    using count_invD(1) [OF inv, of k] m(2) by (cases "k = 3") simp_all
  ultimately show ?thesis
    using m count_invD(2,8) [OF inv] unfolding count_inv_def by simp
qed

lemma count_outs_inv:
  assumes "count_inv sp d ls" "i < 4" "count_outs sp i d (ls i) = Some (Go d' l')"
  shows "count_inv sp d' (ls(i := l'))"
proof -
  have "i = 0 \<or> i = 1 \<or> i = 2 \<or> i = 3" using assms(2) by linarith
  then show ?thesis
    using assms watch_count_inv [OF assms(1)] inc_count_inv [OF assms(1), of 1 2] inc_count_inv [OF assms(1), of 2 1]
      count_main_inv [OF assms(1)]
    by (auto simp: count_outs_def NUM_THREADS_def split: if_splits)
qed

lemma watch_returned: "watch_ok sp d l \<Longrightarrow> count_returned d 0 \<Longrightarrow> l = V_end"
  by (cases l) auto

lemma inc_returned: "inc_ok d i l \<Longrightarrow> count_returned d i \<Longrightarrow> l = I_end"
  by (cases l) auto

lemma count_outs_quit:
  assumes "count_inv sp d ls" "i < 4" "count_outs sp i d (ls i) = Some (Quit d' x)"
  shows "i = 3 \<and> ls 3 = Mn_print \<and> x = EXIT_SUCCESS \<and> d' = say (Final_value 120) d \<and> cv_count d = 120"
proof -
  have "i = 3 \<and> ls 3 = Mn_print \<and> x = EXIT_SUCCESS \<and> d' = say (Final_value (cv_count d)) d"
    using assms(3) by (cases "ls i") (auto simp: count_defs go_if_def split: if_splits)
  moreover from this have "count_returned d 0 \<and> count_returned d 1 \<and> count_returned d 2"
    using count_invD(6) [OF assms(1)] by (simp add: NUM_THREADS_def)
  then have "ls 0 = V_end" "ls 1 = I_end" "ls 2 = I_end"
    using count_invD(3-5) [OF assms(1)] by (blast dest: watch_returned inc_returned)+
  then have "cv_count d = 120" using count_invD(2) [OF assms(1)] by (simp add: TCOUNT_def)
  ultimately show ?thesis by simp
qed

text \<open>What holds when the program has ended.\<close>
definition count_end :: "bool \<Rightarrow> count_data \<Rightarrow> int \<Rightarrow> bool" where
  "count_end sp d x \<longleftrightarrow> x = EXIT_SUCCESS \<and> cv_count d = 120 \<and> last (printed d) = Final_value 120 \<and> printed_ok sp (printed d)"

lemma watch_blocked: "has_mutex l \<Longrightarrow> watch_ok sp d l \<Longrightarrow> watch_count sp i d l \<noteq> None"
  by (cases l) (auto simp: watch_count_def)

lemma inc_blocked: "has_mutex l \<Longrightarrow> inc_ok d i l \<Longrightarrow> inc_count i d l \<noteq> None"
  by (cases l) (auto simp: inc_count_def)

text \<open>With the mutex free only a thread that has returned, or waits for the signal, stands still.\<close>
lemma inc_stopped: "inc_count i d l = None \<Longrightarrow> mutex_owner d = None \<Longrightarrow> inc_ok d i l \<Longrightarrow> l = I_end"
  by (cases l) (auto simp: inc_count_def go_if_def cv_defs split: if_splits)

lemma watch_stopped:
  "watch_count sp 0 d l = None \<Longrightarrow> mutex_owner d = None \<Longrightarrow> watch_ok sp d l \<Longrightarrow>
    l = V_end \<or> l = V_waiting \<and> 0 \<in> set (cv_waiting d)"
  by (cases l) (auto simp: watch_count_def go_if_def cv_defs split: if_splits)

lemma count_moves:
  assumes inv: "count_inv sp d ls"
  shows "\<exists>i<4. count_outs sp i d (ls i) \<noteq> None"
proof (rule ccontr)
  assume "\<not> ?thesis"
  then have none: "\<And>i. i < 4 \<Longrightarrow> count_outs sp i d (ls i) = None" by blast
  have m: "count_main d (ls 3) = None" using none [of 3] by (simp add: count_outs_def NUM_THREADS_def)
  obtain t where t: "ls 3 = Mn_join t" "t < 3" "\<not> count_returned d t" "count_created d = 3"
    using m count_invD(6) [OF inv] by (cases "ls 3") (auto simp: count_main_def NUM_THREADS_def split: if_splits)
  have st: "watch_count sp 0 d (ls 0) = None" "inc_count 1 d (ls 1) = None" "inc_count 2 d (ls 2) = None"
    using none [of 0] none [of 1] none [of 2] t(4) by (simp_all add: count_outs_def NUM_THREADS_def)
  have b: "\<not> has_mutex (ls 0)" "\<not> has_mutex (ls 1)" "\<not> has_mutex (ls 2)"
    using st count_invD(3-5) [OF inv] by (blast dest: watch_blocked inc_blocked)+
  have free: "mutex_owner d = None"
  proof (rule ccontr)
    assume "mutex_owner d \<noteq> None"
    then obtain i where "i < 3" "has_mutex (ls i)" using count_invD(1) [OF inv] by blast
    then show False using b by (auto simp: less_Suc_eq numeral_3_eq_3 numeral_2_eq_2)
  qed
  have e: "ls 1 = I_end" "ls 2 = I_end"
    using st(2,3) free count_invD(4,5) [OF inv] by (blast dest: inc_stopped)+
  have v: "ls 0 = V_end \<or> ls 0 = V_waiting \<and> 0 \<in> set (cv_waiting d)"
    using st(1) free count_invD(3) [OF inv] by (blast dest: watch_stopped)
  then show False
  proof
    assume "ls 0 = V_end"
    then have "count_returned d t"
      using e t(2) count_invD(3-5) [OF inv] by (auto simp: less_Suc_eq numeral_3_eq_3 numeral_2_eq_2)
    then show False using t(3) by simp
  next
    assume w: "ls 0 = V_waiting \<and> 0 \<in> set (cv_waiting d)"
    then have "cv_count d = 20" using count_invD(2) [OF inv] e by (simp add: TCOUNT_def)
    then show False using count_invD(7) [OF inv] w e by (auto simp: waiting_ok_def COUNT_THRESHOLD_def)
  qed
qed

lemma count_outs_end:
  assumes "count_inv sp d ls" "i < 4" "count_outs sp i d (ls i) = Some (Quit d' x)"
  shows "count_end sp d' x"
  using count_outs_quit [OF assms] count_invD(8) [OF assms(1)] by (simp add: count_end_def say_def)

interpretation watching: finite_program 4 "count_outs sp" "count_inv sp" "count_end sp" count_weight False for sp
  by unfold_locales (fact count_outs_sync count_outs_less count_outs_inv count_outs_end | rule count_moves)+

text \<open>C8. Every run of \<open>sync_cond_var.c\<close> ends, after at most 163 steps, whether the waiting thread may wake
  up without a signal or not: when nobody can go on, the process has ended with \<open>EXIT_SUCCESS\<close>, \<open>count\<close>
  is 120 and this value is the last one printed. The value the watching thread prints is at least 112,
  unless it has woken up by itself.\<close>
theorem watch_count_ends:
  assumes "run_sched 4 (count_step spurious) sched count_start = Some ((d, x), ls)"
  shows "length sched \<le> 163 \<and>
    (stuck 4 (count_step spurious) ((d, x), ls) \<longrightarrow>
      x = Some EXIT_SUCCESS \<and> cv_count d = 120 \<and> last (printed d) = Final_value 120) \<and>
    (\<forall>i v. Count_now i v \<in> set (printed d) \<longrightarrow> spurious \<or> 112 \<le> v)"
proof (intro conjI impI)
  note run = assms [unfolded count_start_def]
  note reach = run_sched_reach [OF run]
  note start = count_inv_start [of spurious, unfolded count_start_def snd_conv]
  show "length sched \<le> 163"
    using watching.run_length [OF run] by (simp add: NUM_THREADS_def TCOUNT_def numeral_eq_Suc)
  have "printed_ok spurious (printed d)"
    using watching.outcome [OF reach start] count_invD(8) by (auto simp: count_end_def split: option.splits)
  then show "\<forall>i v. Count_now i v \<in> set (printed d) \<longrightarrow> spurious \<or> 112 \<le> v"
    by (auto simp: printed_ok_def COUNT_THRESHOLD_def)
  assume "stuck 4 (count_step spurious) ((d, x), ls)"
  from watching.stuck_end [OF reach start this]
  show "x = Some EXIT_SUCCESS" "cv_count d = 120" "last (printed d) = Final_value 120"
    by (auto simp: count_end_def)
qed

text \<open>A run to the end: the counting threads one after the other, the watching thread in between.\<close>
definition count_run :: "nat list" where
  "count_run = replicate 4 3 @ replicate 3 0 @ replicate 61 1 @ replicate 13 2 @ replicate 7 0 @
     replicate 49 2 @ replicate 5 3"

lemma count_run_ends:
  "case run_sched 4 (count_step False) count_run count_start of
     None \<Rightarrow> False | Some c \<Rightarrow> snd (fst c) = Some 0 \<and> Count_now 1 112 \<in> set (printed (fst (fst c)))"
  by code_simp

theorem watch_count_ends_witness:
  "\<exists>d x ls. run_sched 4 (count_step False) count_run count_start = Some ((d, x), ls) \<and> length count_run \<le> 163 \<and>
     x = Some EXIT_SUCCESS \<and> cv_count d = 120 \<and> Count_now 1 112 \<in> set (printed d)"
proof -
  obtain d x ls where c: "run_sched 4 (count_step False) count_run count_start = Some ((d, x), ls)" "x = Some 0"
      "Count_now 1 112 \<in> set (printed d)"
    using count_run_ends by (auto split: option.splits)
  have "stuck 4 (count_step False) ((d, x), ls)" using c(2) by (simp add: stuck_def free_step_def)
  then show ?thesis using watch_count_ends [OF c(1)] c by auto
qed

section \<open>\<open>sync_assignment_cond.c\<close> and \<open>sync_assignment.c\<close>\<close>

text \<open>Thread 0 runs \<open>thread_f1\<close>, thread 1 is \<open>main\<close>. What is printed is 1 and 2.\<close>
record order_data = sync_vars +
  f1_created :: bool
  f1_returned :: bool
  order_printed :: "nat list"

datatype order_pc =
    F1_lock | F1_print | F1_signal | F1_unlock | F1_end
  | Mo_create | F2_lock | F2_wait | F2_waiting | F2_relock | F2_print | F2_unlock | Mo_join | Mo_return

definition f1 :: "order_data \<Rightarrow> order_pc \<Rightarrow> (order_data, order_pc) act option" where
  "f1 d pc =
     (case pc of
        F1_lock \<Rightarrow> go_if (cv_lock 0 d) F1_print
      | F1_print \<Rightarrow> Some (Go (d\<lparr>order_printed := order_printed d @ [1]\<rparr>) F1_signal)
      | F1_signal \<Rightarrow> Some (Go (cv_signal d) F1_unlock)
      | F1_unlock \<Rightarrow> Some (Go ((cv_unlock d)\<lparr>f1_returned := True\<rparr>) F1_end)
      | _ \<Rightarrow> None)"

definition f2 :: "bool \<Rightarrow> order_data \<Rightarrow> order_pc \<Rightarrow> (order_data, order_pc) act option" where
  "f2 spurious d pc =
     (case pc of
        F2_lock \<Rightarrow> go_if (cv_lock 1 d) F2_wait
      | F2_wait \<Rightarrow> Some (Go (cv_wait 1 d) F2_waiting)
      | F2_waiting \<Rightarrow> go_if (cv_wake spurious 1 d) F2_relock
      | F2_relock \<Rightarrow> go_if (cv_lock 1 d) F2_print
      | F2_print \<Rightarrow> Some (Go (d\<lparr>order_printed := order_printed d @ [2]\<rparr>) F2_unlock)
      | F2_unlock \<Rightarrow> Some (Go (cv_unlock d) Mo_join)
      | _ \<Rightarrow> None)"

text \<open>\<open>main\<close> around \<open>f2\<close>.\<close>
definition order_main ::
    "bool \<Rightarrow> (order_data \<Rightarrow> order_pc \<Rightarrow> (order_data, order_pc) act option) \<Rightarrow> order_pc \<Rightarrow>
     order_data \<Rightarrow> order_pc \<Rightarrow> (order_data, order_pc) act option" where
  "order_main create_fails f begin_f2 d pc =
     (case pc of
        Mo_create \<Rightarrow> if create_fails then Some (Quit d EXIT_FAILURE) else Some (Go (d\<lparr>f1_created := True\<rparr>) begin_f2)
      | Mo_join \<Rightarrow> if f1_returned d then Some (Go d Mo_return) else None
      | Mo_return \<Rightarrow> Some (Quit d 0)
      | _ \<Rightarrow> f d pc)"

definition order_outs :: "bool \<Rightarrow> bool \<Rightarrow> nat \<Rightarrow> order_data \<Rightarrow> order_pc \<Rightarrow> (order_data, order_pc) act option" where
  "order_outs spurious create_fails i d pc =
     (if i = 1 then order_main create_fails (f2 spurious) F2_lock d pc
      else if f1_created d then f1 d pc else None)"

text \<open>\<open>sync_assignment.c\<close>: \<open>f1\<close> and \<open>f2\<close> just print.\<close>
definition plain_f1 :: "order_data \<Rightarrow> order_pc \<Rightarrow> (order_data, order_pc) act option" where
  "plain_f1 d pc =
     (case pc of
        F1_print \<Rightarrow> Some (Go (d\<lparr>order_printed := order_printed d @ [1], f1_returned := True\<rparr>) F1_end)
      | _ \<Rightarrow> None)"

definition plain_f2 :: "order_data \<Rightarrow> order_pc \<Rightarrow> (order_data, order_pc) act option" where
  "plain_f2 d pc =
     (case pc of
        F2_print \<Rightarrow> Some (Go (d\<lparr>order_printed := order_printed d @ [2]\<rparr>) Mo_join)
      | _ \<Rightarrow> None)"

definition plain_order_outs :: "bool \<Rightarrow> nat \<Rightarrow> order_data \<Rightarrow> order_pc \<Rightarrow> (order_data, order_pc) act option" where
  "plain_order_outs create_fails i d pc =
     (if i = 1 then order_main create_fails plain_f2 F2_print d pc
      else if f1_created d then plain_f1 d pc else None)"

definition order_data0 :: order_data where
  "order_data0 = \<lparr>mutex_owner = None, cv_waiting = [], f1_created = False, f1_returned = False, order_printed = []\<rparr>"

definition order_start :: "order_pc \<Rightarrow> (order_data process, order_pc) conf" where
  "order_start begin_f1 = ((order_data0, None), \<lambda>i. if i = 1 then Mo_create else begin_f1)"

lemmas order_defs = order_outs_def order_main_def f1_def f2_def

lemma order_outs_sync: "order_outs sp cf i d l \<noteq> Some (Sync d' l')"
  by (cases l) (auto simp: order_defs go_if_def)

text \<open>How far the two threads have come, in terms of what is printed and of the mutex.\<close>
fun f1_ok :: "order_data \<Rightarrow> order_pc \<Rightarrow> bool" where
  "f1_ok d F1_lock = (order_printed d = [] \<and> mutex_owner d \<noteq> Some 0 \<and> \<not> f1_returned d)"
| "f1_ok d F1_print = (order_printed d = [] \<and> mutex_owner d = Some 0 \<and> \<not> f1_returned d)"
| "f1_ok d F1_signal = (order_printed d = [1] \<and> mutex_owner d = Some 0 \<and> \<not> f1_returned d)"
| "f1_ok d F1_unlock = (order_printed d = [1] \<and> mutex_owner d = Some 0 \<and> \<not> f1_returned d)"
| "f1_ok d F1_end = (order_printed d \<in> {[1], [1, 2]} \<and> mutex_owner d \<noteq> Some 0)"
| "f1_ok d _ = False"

fun f2_ok :: "order_data \<Rightarrow> order_pc \<Rightarrow> bool" where
  "f2_ok d Mo_create = (cv_waiting d = [] \<and> order_printed d = [] \<and> \<not> f1_created d)"
| "f2_ok d F2_lock = (cv_waiting d = [] \<and> order_printed d \<in> {[], [1]})"
| "f2_ok d F2_wait = (cv_waiting d = [] \<and> mutex_owner d = Some 1 \<and> order_printed d \<in> {[], [1]})"
| "f2_ok d F2_waiting = (cv_waiting d = [1] \<and> order_printed d \<in> {[], [1]} \<or> cv_waiting d = [] \<and> order_printed d = [1])"
| "f2_ok d F2_relock = (cv_waiting d = [] \<and> order_printed d = [1])"
| "f2_ok d F2_print = (cv_waiting d = [] \<and> mutex_owner d = Some 1 \<and> order_printed d = [1])"
| "f2_ok d F2_unlock = (cv_waiting d = [] \<and> mutex_owner d = Some 1 \<and> order_printed d = [1, 2])"
| "f2_ok d Mo_join = (cv_waiting d = [] \<and> order_printed d = [1, 2])"
| "f2_ok d Mo_return = (cv_waiting d = [] \<and> order_printed d = [1, 2])"
| "f2_ok d _ = False"

definition order_inv :: "order_data \<Rightarrow> (nat \<Rightarrow> order_pc) \<Rightarrow> bool" where
  "order_inv d ls \<longleftrightarrow> f1_ok d (ls 0) \<and> f2_ok d (ls 1)"

lemma order_outs_inv:
  assumes "order_inv d ls" "i < 2" "order_outs False cf i d (ls i) = Some (Go d' l')"
  shows "order_inv d' (ls(i := l'))"
proof (cases "i = 0")
  case True
  then show ?thesis
    using assms by (cases "ls 0"; cases "ls 1") (auto simp: order_inv_def order_defs go_if_Some cv_defs split: if_splits)
next
  case False
  then have "i = 1" using assms(2) by simp
  then show ?thesis
    using assms by (cases "ls 1"; cases "ls 0") (auto simp: order_inv_def order_defs go_if_Some cv_defs split: if_splits)
qed

lemma order_reach:
  assumes "reach 2 (free_step (order_outs False cf)) (order_start F1_lock) c"
  shows "order_inv (fst (fst c)) (snd c) \<and>
    (\<forall>x. snd (fst c) = Some x \<longrightarrow> (x = EXIT_SUCCESS \<and> order_printed (fst (fst c)) = [1, 2]) \<or>
      x = EXIT_FAILURE \<and> cf \<and> order_printed (fst (fst c)) = [])"
proof (rule free_invariant [where P = order_inv and R = "\<lambda>d x. (x = EXIT_SUCCESS \<and> order_printed d = [1, 2]) \<or>
      x = EXIT_FAILURE \<and> cf \<and> order_printed d = []", OF assms])
  show "order_inv (fst (fst (order_start F1_lock))) (snd (order_start F1_lock))"
    by (simp add: order_start_def order_inv_def order_data0_def)
  show "snd (fst (order_start F1_lock)) = None" by (simp add: order_start_def)
  show "order_outs False cf i d l \<noteq> Some (Sync d' l')" for i d l d' l' by (rule order_outs_sync)
  show "order_inv d' (ls(i := l'))"
    if "order_inv d ls" "i < 2" "order_outs False cf i d (ls i) = Some (Go d' l')" for d ls i d' l'
    by (rule order_outs_inv [OF that])
  show "order_inv d' ls \<and> ((x = EXIT_SUCCESS \<and> order_printed d' = [1, 2]) \<or> x = EXIT_FAILURE \<and> cf \<and> order_printed d' = [])"
    if "order_inv d ls" "i < 2" "order_outs False cf i d (ls i) = Some (Quit d' x)" for d ls i d' x
    using that by (cases "ls i") (auto simp: order_inv_def order_defs go_if_def less_2_cases_iff split: if_splits)
qed

lemma order_prefixes: "order_inv d ls \<Longrightarrow> order_printed d \<in> {[], [1], [1, 2]}"
  by (cases "ls 0") (auto simp: order_inv_def)

lemma stuck_2:
  "ts 0 (fst c) (snd c 0) = None \<Longrightarrow> ts 1 (fst c) (snd c 1) = None \<Longrightarrow> stuck 2 ts c"
  by (auto simp: stuck_def less_2_cases_iff)

text \<open>As long as \<open>pthread_cond_wait\<close> only returns after a signal, \<open>sync_assignment_cond.c\<close> prints 1 before
  2 in every interleaving, and both when it ends with success. But it need not end: when the
  other thread signals before \<open>main\<close> waits, the signal is lost and \<open>main\<close> waits for ever. And if the wait
  returns by itself, which POSIX allows, 2 is printed first, as in \<open>sync_assignment.c\<close>.\<close>
theorem assignment_cond_order:
  assumes "reach 2 (free_step (order_outs False create_fails)) (order_start F1_lock) c"
  shows "order_printed (fst (fst c)) \<in> {[], [1], [1, 2]} \<and>
    (\<forall>x. snd (fst c) = Some x \<longrightarrow>
      (x = EXIT_SUCCESS \<and> order_printed (fst (fst c)) = [1, 2]) \<or>
      (x = EXIT_FAILURE \<and> create_fails \<and> order_printed (fst (fst c)) = [])) \<and>
    (\<exists>c'. reach 2 (free_step (order_outs False False)) (order_start F1_lock) c' \<and>
      stuck 2 (free_step (order_outs False False)) c' \<and> snd (fst c') = None \<and> order_printed (fst (fst c')) = [1]) \<and>
    (\<exists>c'. reach 2 (free_step (order_outs True False)) (order_start F1_lock) c' \<and>
      snd (fst c') = Some EXIT_SUCCESS \<and> order_printed (fst (fst c')) = [2, 1]) \<and>
    (\<exists>c'. reach 2 (free_step (plain_order_outs False)) (order_start F1_print) c' \<and>
      snd (fst c') = Some EXIT_SUCCESS \<and> order_printed (fst (fst c')) = [2, 1])"
proof (intro conjI)
  note r = order_reach [OF assms]
  show "order_printed (fst (fst c)) \<in> {[], [1], [1, 2]}" using r order_prefixes by blast
  show "\<forall>x. snd (fst c) = Some x \<longrightarrow> (x = EXIT_SUCCESS \<and> order_printed (fst (fst c)) = [1, 2]) \<or>
      (x = EXIT_FAILURE \<and> create_fails \<and> order_printed (fst (fst c)) = [])"
    using r by blast
  have "case run_sched 2 (free_step (order_outs False False)) [1, 0, 0, 0, 0, 1, 1] (order_start F1_lock) of
      None \<Rightarrow> False
    | Some c' \<Rightarrow> (free_step (order_outs False False) 0 (fst c') (snd c' 0) = None \<and>
        free_step (order_outs False False) 1 (fst c') (snd c' 1) = None) \<and>
        snd (fst c') = None \<and> order_printed (fst (fst c')) = [1]"
    by code_simp
  from run_case [OF this] stuck_2
  show "\<exists>c'. reach 2 (free_step (order_outs False False)) (order_start F1_lock) c' \<and>
      stuck 2 (free_step (order_outs False False)) c' \<and> snd (fst c') = None \<and> order_printed (fst (fst c')) = [1]"
    by blast
  have "case run_sched 2 (free_step (order_outs True False)) [1, 1, 1, 1, 1, 1, 1, 0, 0, 0, 0, 1, 1] (order_start F1_lock) of
      None \<Rightarrow> False | Some c' \<Rightarrow> snd (fst c') = Some EXIT_SUCCESS \<and> order_printed (fst (fst c')) = [2, 1]"
    by code_simp
  from run_case [OF this] show "\<exists>c'. reach 2 (free_step (order_outs True False)) (order_start F1_lock) c' \<and>
      snd (fst c') = Some EXIT_SUCCESS \<and> order_printed (fst (fst c')) = [2, 1]" .
  have "case run_sched 2 (free_step (plain_order_outs False)) [1, 1, 0, 1, 1] (order_start F1_print) of
      None \<Rightarrow> False | Some c' \<Rightarrow> snd (fst c') = Some EXIT_SUCCESS \<and> order_printed (fst (fst c')) = [2, 1]"
    by code_simp
  from run_case [OF this] show "\<exists>c'. reach 2 (free_step (plain_order_outs False)) (order_start F1_print) c' \<and>
      snd (fst c') = Some EXIT_SUCCESS \<and> order_printed (fst (fst c')) = [2, 1]" .
qed

theorem assignment_cond_order_witness:
  "\<exists>c. reach 2 (free_step (order_outs False False)) (order_start F1_lock) c \<and> snd (fst c) = Some EXIT_SUCCESS \<and>
     order_printed (fst (fst c)) = [1, 2]"
proof -
  have "case run_sched 2 (free_step (order_outs False False)) [1, 1, 1, 0, 0, 0, 0, 1, 1, 1, 1, 1, 1] (order_start F1_lock) of
      None \<Rightarrow> False | Some c \<Rightarrow> snd (fst c) = Some EXIT_SUCCESS"
    by code_simp
  from run_case [OF this] obtain c
    where c: "reach 2 (free_step (order_outs False False)) (order_start F1_lock) c" "snd (fst c) = Some EXIT_SUCCESS"
    by blast
  then have "order_printed (fst (fst c)) = [1, 2]" using assignment_cond_order [OF c(1)] by simp
  then show ?thesis using c by blast
qed

end
