(* ===== verification/Sync_Barrier.thy ===== *)
theory Sync_Barrier
  imports Threads
begin

text \<open>
  \<open>05-synchronization/sync_barrier.c\<close>: ten threads work for a time that is different for each and wait
  for each other at a barrier. Threads 0 to 9 run \<open>thread_func\<close>, thread 10 is \<open>main\<close>. One of the
  threads that leave the barrier gets \<open>PTHREAD_BARRIER_SERIAL_THREAD\<close>; POSIX does not say which, so that
  it is a parameter, as are the calls that fail.
\<close>

definition B_THREADS :: nat where "B_THREADS = 10"

record benv =
  b_init_fails :: bool
  b_destroy_fails :: bool
  b_create_fails :: "nat \<Rightarrow> bool"
  b_wait_fails :: "nat \<Rightarrow> bool"
  b_serial :: nat

text \<open>The lines the program prints.\<close>
datatype barrier_event = Working nat | Waiting nat | All_resumed nat | Resumed nat

text \<open>\<open>sync_threads\<close> is the number of threads that have come to it, once it is initialized.\<close>
record barrier_data =
  sync_threads :: "nat option"
  sync_threads_barrier_initialized :: bool
  b_created :: nat
  b_returned :: "nat \<Rightarrow> bool"
  b_printed :: "barrier_event list"

datatype barrier_pc =
    B_working | B_print | B_arrive | B_wait | B_serial | B_resumed | B_end
  | Bm_init | Bm_create nat | Bm_join nat | Bm_return

definition bsay :: "barrier_event \<Rightarrow> barrier_data \<Rightarrow> barrier_data" where
  "bsay e d = d\<lparr>b_printed := b_printed d @ [e]\<rparr>"

text \<open>Registered with \<open>atexit\<close>.\<close>
definition release_barrier :: "benv \<Rightarrow> barrier_data \<Rightarrow> barrier_data" where
  "release_barrier env d =
     (if sync_threads_barrier_initialized d then
        (if b_destroy_fails env then d
         else d\<lparr>sync_threads := None, sync_threads_barrier_initialized := False\<rparr>)
      else d)"

definition barrier_thread :: "benv \<Rightarrow> nat \<Rightarrow> barrier_data \<Rightarrow> barrier_pc \<Rightarrow> (barrier_data, barrier_pc) act option" where
  "barrier_thread env i d pc =
     (case pc of
        B_working \<Rightarrow> if i < b_created d then Some (Go (bsay (Working i) d) B_print) else None
      | B_print \<Rightarrow> Some (Go (bsay (Waiting i) d) B_arrive)
      | B_arrive \<Rightarrow>
          (case sync_threads d of
             None \<Rightarrow> Some (Quit (release_barrier env d) EXIT_FAILURE)
           | Some n \<Rightarrow>
               if b_wait_fails env i then Some (Quit (release_barrier env d) EXIT_FAILURE)
               else Some (Go (d\<lparr>sync_threads := Some (n + 1)\<rparr>) B_wait))
      | B_wait \<Rightarrow>
          (case sync_threads d of
             None \<Rightarrow> None
           | Some n \<Rightarrow>
               if n < B_THREADS then None
               else Some (Go d (if i = b_serial env then B_serial else B_resumed)))
      | B_serial \<Rightarrow> Some (Go (bsay (All_resumed i) d) B_resumed)
      | B_resumed \<Rightarrow> Some (Go ((bsay (Resumed i) d)\<lparr>b_returned := (b_returned d)(i := True)\<rparr>) B_end)
      | _ \<Rightarrow> None)"

definition barrier_main :: "benv \<Rightarrow> barrier_data \<Rightarrow> barrier_pc \<Rightarrow> (barrier_data, barrier_pc) act option" where
  "barrier_main env d pc =
     (case pc of
        Bm_init \<Rightarrow>
          if b_init_fails env then Some (Quit (release_barrier env d) EXIT_FAILURE)
          else Some (Go (d\<lparr>sync_threads := Some 0, sync_threads_barrier_initialized := True\<rparr>) (Bm_create 0))
      | Bm_create t \<Rightarrow>
          if t < B_THREADS then
            (if b_create_fails env t then Some (Quit (release_barrier env d) EXIT_FAILURE)
             else Some (Go (d\<lparr>b_created := t + 1\<rparr>) (Bm_create (t + 1))))
          else Some (Go d (Bm_join 0))
      | Bm_join t \<Rightarrow>
          if t < B_THREADS then (if b_returned d t then Some (Go d (Bm_join (t + 1))) else None)
          else Some (Go d Bm_return)
      | Bm_return \<Rightarrow> Some (Quit (release_barrier env d) EXIT_SUCCESS)
      | _ \<Rightarrow> None)"

definition barrier_outs :: "benv \<Rightarrow> nat \<Rightarrow> barrier_data \<Rightarrow> barrier_pc \<Rightarrow> (barrier_data, barrier_pc) act option" where
  "barrier_outs env i d pc =
     (if i = B_THREADS then barrier_main env d pc else barrier_thread env i d pc)"

definition barrier_data0 :: barrier_data where
  "barrier_data0 = \<lparr>sync_threads = None, sync_threads_barrier_initialized = False, b_created = 0,
     b_returned = (\<lambda>_. False), b_printed = []\<rparr>"

definition barrier_locals :: "nat \<Rightarrow> barrier_pc" where
  "barrier_locals i = (if i = B_THREADS then Bm_init else B_working)"

abbreviation barrier_step :: "benv \<Rightarrow> (barrier_data process, barrier_pc) tstep" where
  "barrier_step env \<equiv> free_step (barrier_outs env)"

abbreviation barrier_start :: "(barrier_data process, barrier_pc) conf" where
  "barrier_start \<equiv> ((barrier_data0, None), barrier_locals)"

lemmas barrier_defs = barrier_outs_def barrier_thread_def barrier_main_def

section \<open>Every run ends\<close>

fun barrier_weight :: "barrier_pc \<Rightarrow> nat" where
  "barrier_weight B_working = 6"
| "barrier_weight B_print = 5"
| "barrier_weight B_arrive = 4"
| "barrier_weight B_wait = 3"
| "barrier_weight B_serial = 2"
| "barrier_weight B_resumed = 1"
| "barrier_weight B_end = 0"
| "barrier_weight Bm_init = 24"
| "barrier_weight (Bm_create t) = 13 + (B_THREADS - t)"
| "barrier_weight (Bm_join t) = 2 + (B_THREADS - t)"
| "barrier_weight Bm_return = 1"

lemma barrier_outs_less:
  "barrier_outs env i d l = Some (Go d' l') \<Longrightarrow> barrier_weight l' < barrier_weight l"
  by (cases l) (auto simp: barrier_defs B_THREADS_def split: if_splits option.splits)

lemma barrier_outs_sync: "barrier_outs env i d l \<noteq> Some (Sync d' l')"
  by (cases l) (auto simp: barrier_defs split: option.splits)

section \<open>The invariant\<close>

fun has_arrived :: "barrier_pc \<Rightarrow> bool" where
  "has_arrived B_wait = True"
| "has_arrived B_serial = True"
| "has_arrived B_resumed = True"
| "has_arrived B_end = True"
| "has_arrived _ = False"

definition arrivals :: "(nat \<Rightarrow> barrier_pc) \<Rightarrow> nat" where
  "arrivals ls = (\<Sum>i<B_THREADS. of_bool (has_arrived (ls i)))"

text \<open>All threads have come to the barrier.\<close>
definition barrier_open :: "barrier_data \<Rightarrow> bool" where
  "barrier_open d \<longleftrightarrow> (\<exists>n. sync_threads d = Some n \<and> B_THREADS \<le> n)"

fun barrier_thread_ok :: "nat \<Rightarrow> barrier_data \<Rightarrow> nat \<Rightarrow> barrier_pc \<Rightarrow> bool" where
  "barrier_thread_ok s d i B_working = (\<not> b_returned d i \<and> (i = s \<longrightarrow> (\<forall>j. All_resumed j \<notin> set (b_printed d))))"
| "barrier_thread_ok s d i B_print =
     (i < b_created d \<and> \<not> b_returned d i \<and> (i = s \<longrightarrow> (\<forall>j. All_resumed j \<notin> set (b_printed d))))"
| "barrier_thread_ok s d i B_arrive =
     (i < b_created d \<and> \<not> b_returned d i \<and> Waiting i \<in> set (b_printed d) \<and>
      (i = s \<longrightarrow> (\<forall>j. All_resumed j \<notin> set (b_printed d))))"
| "barrier_thread_ok s d i B_wait =
     (i < b_created d \<and> \<not> b_returned d i \<and> Waiting i \<in> set (b_printed d) \<and>
      (i = s \<longrightarrow> (\<forall>j. All_resumed j \<notin> set (b_printed d))))"
| "barrier_thread_ok s d i B_serial =
     (i < b_created d \<and> \<not> b_returned d i \<and> Waiting i \<in> set (b_printed d) \<and> barrier_open d \<and>
      i = s \<and> (\<forall>j. All_resumed j \<notin> set (b_printed d)))"
| "barrier_thread_ok s d i B_resumed =
     (i < b_created d \<and> \<not> b_returned d i \<and> Waiting i \<in> set (b_printed d) \<and> barrier_open d \<and>
      (i = s \<longrightarrow> All_resumed i \<in> set (b_printed d)))"
| "barrier_thread_ok s d i B_end =
     (i < b_created d \<and> b_returned d i \<and> Waiting i \<in> set (b_printed d) \<and> barrier_open d \<and>
      Resumed i \<in> set (b_printed d) \<and> (i = s \<longrightarrow> All_resumed i \<in> set (b_printed d)))"
| "barrier_thread_ok s d i _ = False"

fun barrier_main_ok :: "barrier_data \<Rightarrow> barrier_pc \<Rightarrow> bool" where
  "barrier_main_ok d Bm_init = (b_created d = 0 \<and> sync_threads d = None \<and> \<not> sync_threads_barrier_initialized d)"
| "barrier_main_ok d (Bm_create t) =
     (b_created d = t \<and> t \<le> B_THREADS \<and> sync_threads d \<noteq> None \<and> sync_threads_barrier_initialized d)"
| "barrier_main_ok d (Bm_join t) =
     (b_created d = B_THREADS \<and> t \<le> B_THREADS \<and> (\<forall>j<t. b_returned d j) \<and>
      sync_threads d \<noteq> None \<and> sync_threads_barrier_initialized d)"
| "barrier_main_ok d Bm_return =
     (b_created d = B_THREADS \<and> (\<forall>j<B_THREADS. b_returned d j) \<and>
      sync_threads d \<noteq> None \<and> sync_threads_barrier_initialized d)"
| "barrier_main_ok d _ = False"

text \<open>The line of the chosen thread is printed at most once, and lines of resumed threads only
  when the barrier is open.\<close>
definition barrier_lines_ok :: "nat \<Rightarrow> barrier_data \<Rightarrow> bool" where
  "barrier_lines_ok s d \<longleftrightarrow>
     (\<forall>i. Resumed i \<in> set (b_printed d) \<longrightarrow> barrier_open d) \<and>
     (\<forall>i. All_resumed i \<in> set (b_printed d) \<longrightarrow> i = s \<and> barrier_open d) \<and>
     count_list (b_printed d) (All_resumed s) \<le> 1"

definition barrier_inv :: "benv \<Rightarrow> barrier_data \<Rightarrow> (nat \<Rightarrow> barrier_pc) \<Rightarrow> bool" where
  "barrier_inv env d ls \<longleftrightarrow>
     (\<forall>i<B_THREADS. barrier_thread_ok (b_serial env) d i (ls i)) \<and> barrier_main_ok d (ls B_THREADS) \<and>
     barrier_lines_ok (b_serial env) d \<and>
     (case sync_threads d of None \<Rightarrow> arrivals ls = 0 \<and> b_created d = 0 | Some n \<Rightarrow> n = arrivals ls)"

lemma barrier_inv_start: "barrier_inv env barrier_data0 barrier_locals"
  by (auto simp: barrier_inv_def barrier_data0_def barrier_locals_def barrier_lines_ok_def arrivals_def)

text \<open>The barrier opens when all have come.\<close>
lemma open_all_arrived:
  assumes "arrivals ls \<ge> B_THREADS" "j < B_THREADS"
  shows "has_arrived (ls j)"
proof (rule ccontr)
  assume n: "\<not> has_arrived (ls j)"
  have "(\<Sum>i<B_THREADS. of_bool (has_arrived (ls i))) < (\<Sum>i<B_THREADS. 1 :: nat)"
    by (rule sum_strict_mono_ex1) (use assms(2) n in auto)
  then show False using assms(1) by (simp add: arrivals_def)
qed

lemma arrived_waiting:
  "barrier_thread_ok s d i l \<Longrightarrow> has_arrived l \<Longrightarrow> Waiting i \<in> set (b_printed d)"
  by (cases l) auto

lemma arrivals_upd:
  assumes "i < B_THREADS"
  shows "arrivals (ls(i := l)) + of_bool (has_arrived (ls i)) = arrivals ls + of_bool (has_arrived l)"
  unfolding arrivals_def by (rule sum_upd_add [OF assms, where f = "\<lambda>l. of_bool (has_arrived l)"])

lemma arrivals_main: "arrivals (ls(B_THREADS := l)) = arrivals ls"
  unfolding arrivals_def by (rule sum.cong) auto

text \<open>What a thread does to the others.\<close>
lemma barrier_thread_frame:
  assumes "barrier_thread_ok s d j l" "b_created d \<le> b_created d'" "b_returned d' j = b_returned d j"
    and "barrier_open d \<Longrightarrow> barrier_open d'" "set (b_printed d) \<subseteq> set (b_printed d')"
    and "j = s \<Longrightarrow> (\<exists>k. All_resumed k \<in> set (b_printed d')) \<Longrightarrow> (\<exists>k. All_resumed k \<in> set (b_printed d))"
  shows "barrier_thread_ok s d' j l"
  using assms by (cases l) (auto dest: order.strict_trans2)

lemma barrier_lines_snoc:
  "barrier_lines_ok s (bsay e d) \<longleftrightarrow> barrier_lines_ok s d \<and>
     (case e of Resumed i \<Rightarrow> barrier_open d
      | All_resumed i \<Rightarrow> i = s \<and> barrier_open d \<and> All_resumed s \<notin> set (b_printed d) | _ \<Rightarrow> True)"
  by (cases e) (auto simp: barrier_lines_ok_def barrier_open_def bsay_def count_list_0_iff)

lemma barrier_lines_frame:
  "barrier_lines_ok s d \<Longrightarrow> b_printed d' = b_printed d \<Longrightarrow> (barrier_open d \<Longrightarrow> barrier_open d') \<Longrightarrow>
    barrier_lines_ok s d'"
  by (auto simp: barrier_lines_ok_def)

lemma barrier_open_frame: "sync_threads d' = sync_threads d \<Longrightarrow> barrier_open d' = barrier_open d"
  by (simp add: barrier_open_def)

lemma bsay_simps [simp]:
  "sync_threads (bsay e d) = sync_threads d" "b_created (bsay e d) = b_created d"
  "b_returned (bsay e d) = b_returned d" "b_printed (bsay e d) = b_printed d @ [e]"
  "sync_threads_barrier_initialized (bsay e d) = sync_threads_barrier_initialized d"
  by (simp_all add: bsay_def)

lemma barrier_thread_frames:
  assumes "barrier_thread env i d l = Some (Go d' l')"
  shows "b_created d' = b_created d \<and> (\<forall>j. j \<noteq> i \<longrightarrow> b_returned d' j = b_returned d j) \<and>
    (\<forall>j. b_returned d j \<longrightarrow> b_returned d' j) \<and> set (b_printed d) \<subseteq> set (b_printed d') \<and>
    sync_threads_barrier_initialized d' = sync_threads_barrier_initialized d"
  using assms by (cases l) (simp_all add: barrier_thread_def split: if_split_asm option.split_asm, auto)

lemma barrier_thread_serial:
  assumes "barrier_thread env i d l = Some (Go d' l')" "l \<noteq> B_serial"
  shows "All_resumed k \<in> set (b_printed d') \<longleftrightarrow> All_resumed k \<in> set (b_printed d)"
  using assms by (cases l) (simp_all add: barrier_thread_def split: if_split_asm option.split_asm, auto)

lemma barrier_thread_arrivals:
  assumes "barrier_thread env i d l = Some (Go d' l')"
  shows "sync_threads d' = map_option (\<lambda>n. n + of_bool (has_arrived l') - of_bool (has_arrived l)) (sync_threads d)"
  using assms
  by (cases l) (simp_all add: barrier_thread_def option.map_ident split: if_split_asm option.split_asm, auto simp: option.map_ident)

lemma barrier_thread_open:
  assumes "barrier_thread env i d l = Some (Go d' l')" "barrier_open d"
  shows "barrier_open d'"
  using assms by (cases l) (auto simp: barrier_thread_def barrier_open_def split: if_splits option.splits)

lemma barrier_thread_lines:
  assumes "barrier_thread env i d l = Some (Go d' l')" "barrier_thread_ok (b_serial env) d i l"
    and "barrier_lines_ok (b_serial env) d"
  shows "barrier_lines_ok (b_serial env) d'"
proof (cases l)
  case B_arrive
  then show ?thesis
    using assms by (auto simp: barrier_thread_def split: if_splits option.splits
        intro!: barrier_lines_frame [OF assms(3)] simp: barrier_open_def)
next
  case B_resumed
  then have "barrier_lines_ok (b_serial env) (bsay (Resumed i) d)"
    using assms(2,3) by (simp add: barrier_lines_snoc)
  then show ?thesis
    by (rule barrier_lines_frame) (use assms(1) B_resumed in \<open>auto simp: barrier_thread_def barrier_open_def\<close>)
qed (use assms in \<open>auto simp: barrier_thread_def barrier_lines_snoc split: if_splits option.splits\<close>)

lemma barrier_thread_keeps:
  assumes "barrier_thread env i d l = Some (Go d' l')" "barrier_thread_ok (b_serial env) d i l"
  shows "barrier_thread_ok (b_serial env) d' i l'"
  using assms by (cases l) (auto simp: barrier_thread_def barrier_open_def split: if_splits option.splits)

lemma barrier_thread_inv:
  assumes inv: "barrier_inv env d ls" and i: "i < B_THREADS"
    and st: "barrier_thread env i d (ls i) = Some (Go d' l')"
  shows "barrier_inv env d' (ls(i := l'))"
proof -
  let ?s = "b_serial env"
  have ok: "barrier_thread_ok ?s d j (ls j)" if "j < B_THREADS" for j
    using inv that by (simp add: barrier_inv_def)
  have li: "barrier_lines_ok ?s d" and m: "barrier_main_ok d (ls B_THREADS)"
    and sy: "case sync_threads d of None \<Rightarrow> arrivals ls = 0 \<and> b_created d = 0 | Some n \<Rightarrow> n = arrivals ls"
    using inv by (simp_all add: barrier_inv_def)
  note fr = barrier_thread_frames [OF st] and ar = barrier_thread_arrivals [OF st]
  have "b_created d \<noteq> 0" using st ok [OF i] by (cases "ls i") (auto simp: barrier_thread_def split: if_splits)
  then have sn: "sync_threads d \<noteq> None" using sy by (auto split: option.splits)
  have "barrier_thread_ok ?s d' j ((ls(i := l')) j)" if j: "j < B_THREADS" for j
  proof (cases "j = i")
    case True
    then show ?thesis using barrier_thread_keeps [OF st ok [OF i]] by simp
  next
    case False
    have "barrier_thread_ok ?s d' j (ls j)"
    proof (rule barrier_thread_frame [OF ok [OF j]])
      assume "j = ?s"
      then have "ls i \<noteq> B_serial" using ok [OF i] False by auto
      from barrier_thread_serial [OF st this]
      show "(\<exists>k. All_resumed k \<in> set (b_printed d')) \<Longrightarrow> (\<exists>k. All_resumed k \<in> set (b_printed d))" by blast
    qed (use fr False barrier_thread_open [OF st] in auto)
    then show ?thesis using False by simp
  qed
  moreover have "barrier_main_ok d' (ls B_THREADS)"
    using m fr ar by (cases "ls B_THREADS") auto
  moreover have "case sync_threads d' of None \<Rightarrow> arrivals (ls(i := l')) = 0 \<and> b_created d' = 0
      | Some n \<Rightarrow> n = arrivals (ls(i := l'))"
    using sy ar arrivals_upd [OF i, of ls l'] sn by (cases "sync_threads d") auto
  ultimately show ?thesis
    using barrier_thread_lines [OF st ok [OF i] li] i by (simp add: barrier_inv_def)
qed

lemma barrier_main_frames:
  assumes "barrier_main env d l = Some (Go d' l')" "barrier_main_ok d l"
  shows "barrier_main_ok d' l' \<and> b_created d \<le> b_created d' \<and> b_returned d' = b_returned d \<and>
    b_printed d' = b_printed d \<and> (barrier_open d \<longrightarrow> barrier_open d') \<and>
    (sync_threads d' = sync_threads d \<and> sync_threads d \<noteq> None \<or> sync_threads d = None \<and> sync_threads d' = Some 0)"
  using assms by (cases l) (auto simp: barrier_main_def barrier_open_def less_Suc_eq split: if_splits)

lemma barrier_main_inv:
  assumes inv: "barrier_inv env d ls" and st: "barrier_main env d (ls B_THREADS) = Some (Go d' l')"
  shows "barrier_inv env d' (ls(B_THREADS := l'))"
proof -
  have m: "barrier_main_ok d (ls B_THREADS)" and li: "barrier_lines_ok (b_serial env) d"
    and sy: "case sync_threads d of None \<Rightarrow> arrivals ls = 0 \<and> b_created d = 0 | Some n \<Rightarrow> n = arrivals ls"
    using inv by (simp_all add: barrier_inv_def)
  note fr = barrier_main_frames [OF st m]
  have "barrier_thread_ok (b_serial env) d' j (ls j)" if "j < B_THREADS" for j
    by (rule barrier_thread_frame [of _ d]) (use inv that fr in \<open>auto simp: barrier_inv_def\<close>)
  moreover have "barrier_lines_ok (b_serial env) d'"
    by (rule barrier_lines_frame [OF li]) (use fr in auto)
  moreover have "case sync_threads d' of None \<Rightarrow> arrivals (ls(B_THREADS := l')) = 0 \<and> b_created d' = 0
      | Some n \<Rightarrow> n = arrivals (ls(B_THREADS := l'))"
    using fr sy by (auto simp: arrivals_main split: option.splits)
  ultimately show ?thesis using fr by (simp add: barrier_inv_def)
qed

lemma barrier_outs_inv:
  assumes "barrier_inv env d ls" "i < B_THREADS + 1" "barrier_outs env i d (ls i) = Some (Go d' l')"
  shows "barrier_inv env d' (ls(i := l'))"
  using assms barrier_main_inv [of env d ls d' l'] barrier_thread_inv [of env d ls i d' l']
  by (auto simp: barrier_outs_def split: if_splits)

text \<open>How the program ends.\<close>
definition barrier_end :: "benv \<Rightarrow> barrier_data \<Rightarrow> int \<Rightarrow> bool" where
  "barrier_end env d x \<longleftrightarrow>
     (x = EXIT_SUCCESS \<and> (\<forall>j<B_THREADS. Resumed j \<in> set (b_printed d)) \<and>
       count_list (b_printed d) (All_resumed (b_serial env)) = 1 \<or>
      x = EXIT_FAILURE \<and> (b_init_fails env \<or> (\<exists>t. b_create_fails env t) \<or> (\<exists>i. b_wait_fails env i))) \<and>
     (b_destroy_fails env \<or> sync_threads d = None)"

lemma release_barrier_simps [simp]:
  "b_printed (release_barrier env d) = b_printed d"
  "sync_threads_barrier_initialized d \<Longrightarrow> \<not> b_destroy_fails env \<Longrightarrow> sync_threads (release_barrier env d) = None"
  by (simp_all add: release_barrier_def)

lemma barrier_outs_quit:
  assumes inv: "barrier_inv env d ls" and s: "b_serial env < B_THREADS" and i: "i < B_THREADS + 1"
    and st: "barrier_outs env i d (ls i) = Some (Quit d' x)"
  shows "barrier_end env d' x"
proof (cases "i = B_THREADS")
  case True
  then have m: "barrier_main_ok d (ls i)" using inv by (simp add: barrier_inv_def)
  show ?thesis
  proof (cases "ls i")
    case Bm_return
    then have end_: "\<forall>j<B_THREADS. b_returned d j" using m by simp
    have e: "ls j = B_end" if "j < B_THREADS" for j
    proof -
      have "barrier_thread_ok (b_serial env) d j (ls j)" using inv that by (simp add: barrier_inv_def)
      then show ?thesis using end_ that by (cases "ls j") auto
    qed
    then have r: "barrier_thread_ok (b_serial env) d j B_end" if "j < B_THREADS" for j
      using inv that unfolding barrier_inv_def by metis
    have "All_resumed (b_serial env) \<in> set (b_printed d)" using r [OF s] by simp
    then have "count_list (b_printed d) (All_resumed (b_serial env)) \<noteq> 0" by (simp add: count_list_0_iff)
    moreover have "count_list (b_printed d) (All_resumed (b_serial env)) \<le> 1"
      using inv by (simp add: barrier_inv_def barrier_lines_ok_def)
    ultimately show ?thesis
      using st True Bm_return r m
      by (cases "b_destroy_fails env") (auto simp: barrier_outs_def barrier_main_def barrier_end_def)
  qed (use st True m in \<open>auto simp: barrier_outs_def barrier_main_def barrier_end_def release_barrier_def split: if_splits\<close>)
next
  case False
  then have ok: "barrier_thread_ok (b_serial env) d i (ls i)" using inv i by (simp add: barrier_inv_def)
  have l: "ls i = B_arrive" "d' = release_barrier env d" "x = EXIT_FAILURE"
    using st False by (cases "ls i"; auto simp: barrier_outs_def barrier_thread_def split: if_splits option.splits)+
  have c: "0 < b_created d" using ok l(1) by simp
  then have n: "sync_threads d \<noteq> None" using inv by (auto simp: barrier_inv_def split: option.splits)
  moreover have "sync_threads_barrier_initialized d"
    using inv c by (cases "ls B_THREADS") (auto simp: barrier_inv_def)
  ultimately show ?thesis
    using st False l
    by (cases "b_destroy_fails env") (auto simp: barrier_outs_def barrier_thread_def barrier_end_def split: if_splits)
qed

section \<open>Nobody waits for ever\<close>

lemma barrier_moves:
  assumes inv: "barrier_inv env d ls"
  shows "\<exists>i<B_THREADS + 1. barrier_outs env i d (ls i) \<noteq> None"
proof (rule ccontr)
  assume "\<not> ?thesis"
  then have none: "\<And>i. i < B_THREADS + 1 \<Longrightarrow> barrier_outs env i d (ls i) = None" by blast
  have m: "barrier_main_ok d (ls B_THREADS)" "barrier_main env d (ls B_THREADS) = None"
    using inv none [of B_THREADS] by (simp_all add: barrier_inv_def barrier_outs_def)
  then obtain t where t: "t < B_THREADS" "\<not> b_returned d t" "b_created d = B_THREADS" "sync_threads d \<noteq> None"
    by (cases "ls B_THREADS") (auto simp: barrier_main_def split: if_splits)
  then obtain n where n: "sync_threads d = Some n" by blast
  have th: "barrier_thread_ok (b_serial env) d j (ls j)" "barrier_thread env j d (ls j) = None" if "j < B_THREADS" for j
    using inv that none [of j] by (simp_all add: barrier_inv_def barrier_outs_def)
  have p: "ls j = B_end \<or> ls j = B_wait \<and> n < B_THREADS" if "j < B_THREADS" for j
    using th [OF that] t(3) n that by (cases "ls j") (auto simp: barrier_thread_def split: if_splits)
  have "arrivals ls = (\<Sum>i<B_THREADS. 1)"
    unfolding arrivals_def by (rule sum.cong) (use p in force)+
  then have "n = B_THREADS" using inv n by (simp add: barrier_inv_def)
  then have "ls t = B_end" using p [OF t(1)] by simp
  then show False using th(1) [OF t(1)] t(2) by simp
qed

interpretation meeting: finite_program "B_THREADS + 1" "barrier_outs env"
    "\<lambda>d ls. b_serial env < B_THREADS \<and> barrier_inv env d ls" "barrier_end env" barrier_weight False
  for env
proof (unfold_locales, goal_cases)
  case 1
  show ?case by (rule barrier_outs_sync)
next
  case 2
  then show ?case by (rule barrier_outs_less)
next
  case 3
  then show ?case by (elim conjE, intro conjI) (assumption, rule barrier_outs_inv)
next
  case 4
  then show ?case by (elim conjE) (rule barrier_outs_quit)
next
  case 5
  then show ?case by (elim conjE) (rule barrier_moves)
qed

section \<open>Property\<close>

text \<open>C12. In every interleaving of \<open>sync_barrier.c\<close> no thread is told to be resumed before all ten have
  printed that they wait; the line about all threads is printed by one thread, once when the program ends
  well. Every run ends, after at most 85 steps: when nobody can go on the process has ended, with
  \<open>EXIT_SUCCESS\<close> and all threads resumed, or with \<open>EXIT_FAILURE\<close> after a failing call, and the barrier has
  been destroyed, unless \<open>pthread_barrier_destroy\<close> fails.\<close>
theorem sync_barrier_correct:
  assumes "b_serial env < B_THREADS"
    and "run_sched (B_THREADS + 1) (barrier_step env) sched barrier_start = Some ((d, x), ls)"
  shows "length sched \<le> 85 \<and>
    (x = None \<longrightarrow>
      (\<forall>i. Resumed i \<in> set (b_printed d) \<or> All_resumed i \<in> set (b_printed d) \<longrightarrow>
        (\<forall>j<B_THREADS. Waiting j \<in> set (b_printed d))) \<and>
      count_list (b_printed d) (All_resumed (b_serial env)) \<le> 1) \<and>
    (stuck (B_THREADS + 1) (barrier_step env) ((d, x), ls) \<longrightarrow> x \<noteq> None) \<and>
    (\<forall>e. x = Some e \<longrightarrow> barrier_end env d e)"
proof (intro conjI impI)
  show "length sched \<le> 85"
    using meeting.run_length [OF assms(2)] by (simp add: barrier_locals_def B_THREADS_def numeral_eq_Suc)
next
  note start = conjI [OF assms(1) barrier_inv_start]
  note reach = run_sched_reach [OF assms(2)]
  show "x \<noteq> None" if "stuck (B_THREADS + 1) (barrier_step env) ((d, x), ls)"
    using meeting.stuck_end [OF reach start that] by blast
  show "\<forall>e. x = Some e \<longrightarrow> barrier_end env d e"
    using meeting.at_end [OF _ start] reach by blast
  assume "x = None"
  then have inv: "barrier_inv env d ls" using meeting.while_running [OF _ start] reach by blast
  then have li: "barrier_lines_ok (b_serial env) d" by (simp add: barrier_inv_def)
  then show "count_list (b_printed d) (All_resumed (b_serial env)) \<le> 1" by (simp add: barrier_lines_ok_def)
  show "\<forall>i. Resumed i \<in> set (b_printed d) \<or> All_resumed i \<in> set (b_printed d) \<longrightarrow>
      (\<forall>j<B_THREADS. Waiting j \<in> set (b_printed d))"
  proof (intro allI impI)
    fix i j assume "Resumed i \<in> set (b_printed d) \<or> All_resumed i \<in> set (b_printed d)" and j: "j < B_THREADS"
    then have "barrier_open d" using li by (auto simp: barrier_lines_ok_def)
    then have "B_THREADS \<le> arrivals ls" using inv by (auto simp: barrier_inv_def barrier_open_def)
    from open_all_arrived [OF this j] show "Waiting j \<in> set (b_printed d)"
      using inv j arrived_waiting by (auto simp: barrier_inv_def)
  qed
qed

definition calm_barrier :: benv where
  "calm_barrier = \<lparr>b_init_fails = False, b_destroy_fails = False, b_create_fails = (\<lambda>_. False),
     b_wait_fails = (\<lambda>_. False), b_serial = 3\<rparr>"

text \<open>All threads come to the barrier, then all leave it.\<close>
definition barrier_run :: "nat list" where
  "barrier_run = replicate 12 10 @ concat (map (replicate 3) [0..<10]) @ [3] @ concat (map (replicate 2) [0..<10]) @
     replicate 12 10"

lemma barrier_run_ends:
  "case run_sched (B_THREADS + 1) (barrier_step calm_barrier) barrier_run barrier_start of
     None \<Rightarrow> False | Some c \<Rightarrow> snd (fst c) = Some 0"
  by code_simp

theorem sync_barrier_correct_witness:
  "\<exists>d x ls. run_sched (B_THREADS + 1) (barrier_step calm_barrier) barrier_run barrier_start = Some ((d, x), ls) \<and>
     x = Some EXIT_SUCCESS \<and> length barrier_run \<le> 85 \<and> Resumed 9 \<in> set (b_printed d) \<and> sync_threads d = None"
proof -
  have s: "b_serial calm_barrier < B_THREADS" by code_simp
  obtain d x ls where c: "run_sched (B_THREADS + 1) (barrier_step calm_barrier) barrier_run barrier_start = Some ((d, x), ls)"
      "x = Some 0"
    using barrier_run_ends by (auto split: option.splits)
  have p: "length barrier_run \<le> 85" "barrier_end calm_barrier d 0"
    using sync_barrier_correct [OF s c(1)] c(2) by auto
  then have "Resumed 9 \<in> set (b_printed d)" "sync_threads d = None"
    by (auto simp: barrier_end_def calm_barrier_def B_THREADS_def)
  then show ?thesis using c p(1) by blast
qed

end
