(* ===== verification/Sync_RGB.thy ===== *)
theory Sync_RGB
  imports Threads
begin

text \<open>
  \<open>05-synchronization/sync_RGB_assignment.c\<close> and \<open>sync_RGB_assignment2.c\<close>: one thread sets the three
  components of a colour, \<open>main\<close> prints them, and nothing makes the one wait for the other. The components
  are \<open>volatile\<close>, so that each is read where it is named. C does not say in which order the arguments of
  a call are evaluated: \<open>arg_order\<close> is the order the compiler has chosen. Thread 0 is \<open>thread_set\<close>,
  thread 1 is \<open>main\<close>.
\<close>

datatype component = Red | Green | Blue

type_synonym colour = "component \<Rightarrow> int"

definition isColorValid :: "int \<Rightarrow> int \<Rightarrow> int \<Rightarrow> bool" where
  "isColorValid r g b \<longleftrightarrow> 0 \<le> r \<and> r \<le> 255 \<and> 0 \<le> g \<and> g \<le> 255 \<and> 0 \<le> b \<and> b \<le> 255"

text \<open>The assignments of \<open>setRGB\<close> in their order, and what it returns.\<close>
definition setRGB :: "int \<Rightarrow> int \<Rightarrow> int \<Rightarrow> (component \<times> int) list \<times> bool" where
  "setRGB r g b = (if isColorValid r g b then ([(Red, r), (Green, g), (Blue, b)], True) else ([], False))"

text \<open>A printed colour has its components twice, in decimal and in hexadecimal.\<close>
datatype rgb_line = Color colour colour | Invalid colour

record rgb_data =
  rgb :: colour
  rgb_created :: bool
  rgb_returned :: bool
  rgb_lines :: "rgb_line list"

text \<open>\<open>main\<close> reads the components that are left into what it has read so far.\<close>
datatype rgb_pc =
    S_set "(component \<times> int) list" | S_end
  | P_create | P_check "component list" colour | P_first "component list" colour
  | P_second "component list" colour colour | P_invalid "component list" colour | P_join | P_return

definition thread_set :: "rgb_data \<Rightarrow> rgb_pc \<Rightarrow> (rgb_data, rgb_pc) act option" where
  "thread_set d pc =
     (case pc of
        S_set [] \<Rightarrow> Some (Go (d\<lparr>rgb_returned := True\<rparr>) S_end)
      | S_set ((c, v) # ws) \<Rightarrow> Some (Go (d\<lparr>rgb := (rgb d)(c := v)\<rparr>) (S_set ws))
      | _ \<Rightarrow> None)"

definition no_colour :: colour where "no_colour c = -1"

definition printRGB :: "component list \<Rightarrow> rgb_data \<Rightarrow> rgb_pc \<Rightarrow> (rgb_data, rgb_pc) act option" where
  "printRGB arg_order d pc =
     (case pc of
        P_check (c # cs) x \<Rightarrow> Some (Go d (P_check cs (x(c := rgb d c))))
      | P_check [] x \<Rightarrow>
          Some (Go d (if isColorValid (x Red) (x Green) (x Blue) then P_first arg_order no_colour
                      else P_invalid arg_order no_colour))
      | P_first (c # cs) x \<Rightarrow> Some (Go d (P_first cs (x(c := rgb d c))))
      | P_first [] x \<Rightarrow> Some (Go d (P_second arg_order x no_colour))
      | P_second (c # cs) x y \<Rightarrow> Some (Go d (P_second cs x (y(c := rgb d c))))
      | P_second [] x y \<Rightarrow> Some (Go (d\<lparr>rgb_lines := rgb_lines d @ [Color x y]\<rparr>) P_join)
      | P_invalid (c # cs) x \<Rightarrow> Some (Go d (P_invalid cs (x(c := rgb d c))))
      | P_invalid [] x \<Rightarrow> Some (Go (d\<lparr>rgb_lines := rgb_lines d @ [Invalid x]\<rparr>) P_join)
      | _ \<Rightarrow> None)"

definition rgb_main :: "bool \<Rightarrow> component list \<Rightarrow> rgb_data \<Rightarrow> rgb_pc \<Rightarrow> (rgb_data, rgb_pc) act option" where
  "rgb_main create_fails arg_order d pc =
     (case pc of
        P_create \<Rightarrow>
          if create_fails then Some (Quit d EXIT_FAILURE)
          else Some (Go (d\<lparr>rgb_created := True\<rparr>) (P_check arg_order no_colour))
      | P_join \<Rightarrow> if rgb_returned d then Some (Go d P_return) else None
      | P_return \<Rightarrow> Some (Quit d EXIT_SUCCESS)
      | _ \<Rightarrow> printRGB arg_order d pc)"

definition rgb_outs ::
    "bool \<Rightarrow> component list \<Rightarrow> nat \<Rightarrow> rgb_data \<Rightarrow> rgb_pc \<Rightarrow> (rgb_data, rgb_pc) act option" where
  "rgb_outs create_fails arg_order i d pc =
     (if i = 1 then rgb_main create_fails arg_order d pc
      else if rgb_created d then thread_set d pc else None)"

definition rgb_data0 :: rgb_data where
  "rgb_data0 = \<lparr>rgb = no_colour, rgb_created = False, rgb_returned = False, rgb_lines = []\<rparr>"

definition rgb_locals :: "nat \<Rightarrow> rgb_pc" where
  "rgb_locals i = (if i = 1 then P_create else S_set (fst (setRGB 255 85 0)))"

abbreviation rgb_step :: "bool \<Rightarrow> component list \<Rightarrow> (rgb_data process, rgb_pc) tstep" where
  "rgb_step create_fails arg_order \<equiv> free_step (rgb_outs create_fails arg_order)"

abbreviation rgb_start :: "(rgb_data process, rgb_pc) conf" where
  "rgb_start \<equiv> ((rgb_data0, None), rgb_locals)"

lemmas rgb_defs = rgb_outs_def rgb_main_def printRGB_def thread_set_def

lemma rgb_outs_sync: "rgb_outs cf ao i d l \<noteq> Some (Sync d' l')"
  by (cases l) (auto simp: rgb_defs split: list.splits)

section \<open>Every run ends\<close>

fun rgb_weight :: "component list \<Rightarrow> rgb_pc \<Rightarrow> nat" where
  "rgb_weight ao (S_set ws) = length ws + 1"
| "rgb_weight ao S_end = 0"
| "rgb_weight ao P_create = 3 * length ao + 5"
| "rgb_weight ao (P_check cs x) = 2 * length ao + length cs + 4"
| "rgb_weight ao (P_first cs x) = length ao + length cs + 3"
| "rgb_weight ao (P_second cs x y) = length cs + 2"
| "rgb_weight ao (P_invalid cs x) = length cs + 2"
| "rgb_weight ao P_join = 1"
| "rgb_weight ao P_return = 0"

lemma rgb_outs_less: "rgb_outs cf ao i d l = Some (Go d' l') \<Longrightarrow> rgb_weight ao l' < rgb_weight ao l"
  by (cases l) (auto simp: rgb_defs split: if_splits list.splits)

section \<open>The invariant\<close>

text \<open>The colour that is set.\<close>
definition the_colour :: colour where
  "the_colour c = (case c of Red \<Rightarrow> 255 | Green \<Rightarrow> 85 | Blue \<Rightarrow> 0)"

text \<open>A component is unset or final, and what has been read is, too; it is final once it was found valid.\<close>
definition partly_set :: "colour \<Rightarrow> bool" where
  "partly_set x \<longleftrightarrow> (\<forall>c. x c = -1 \<or> x c = the_colour c)"

fun rgb_ok :: "rgb_data \<Rightarrow> rgb_pc \<Rightarrow> bool" where
  "rgb_ok d (S_set ws) = ((\<forall>c v. (c, v) \<in> set ws \<longrightarrow> v = the_colour c) \<and> \<not> rgb_returned d)"
| "rgb_ok d S_end = rgb_returned d"
| "rgb_ok d P_create = (\<not> rgb_created d \<and> rgb_lines d = [])"
| "rgb_ok d (P_check cs x) =
     (rgb_created d \<and> (\<forall>c. c \<in> set cs \<or> x c = -1 \<or> x c = the_colour c \<and> rgb d c = the_colour c) \<and> rgb_lines d = [])"
| "rgb_ok d (P_first cs x) =
     (rgb_created d \<and> (\<forall>c. rgb d c = the_colour c) \<and> (\<forall>c. c \<in> set cs \<or> x c = the_colour c) \<and> rgb_lines d = [])"
| "rgb_ok d (P_second cs x y) =
     (rgb_created d \<and> (\<forall>c. rgb d c = the_colour c) \<and> x = the_colour \<and> (\<forall>c. c \<in> set cs \<or> y c = the_colour c) \<and> rgb_lines d = [])"
| "rgb_ok d (P_invalid cs x) =
     (rgb_created d \<and> (\<forall>c. c \<in> set cs \<or> x c = -1 \<or> x c = the_colour c) \<and> rgb_lines d = [])"
| "rgb_ok d P_join =
     (rgb_created d \<and> (rgb_lines d = [Color the_colour the_colour] \<or> (\<exists>x. partly_set x \<and> rgb_lines d = [Invalid x])))"
| "rgb_ok d P_return =
     (rgb_lines d = [Color the_colour the_colour] \<or> (\<exists>x. partly_set x \<and> rgb_lines d = [Invalid x]))"

definition rgb_inv :: "rgb_data \<Rightarrow> (nat \<Rightarrow> rgb_pc) \<Rightarrow> bool" where
  "rgb_inv d ls \<longleftrightarrow> rgb_ok d (ls 0) \<and> rgb_ok d (ls 1) \<and> partly_set (rgb d) \<and>
     (ls 0 = S_end \<or> (\<exists>ws. ls 0 = S_set ws)) \<and> ls 1 \<noteq> S_end \<and> (\<forall>ws. ls 1 \<noteq> S_set ws)"

lemma valid_colour:
  assumes "isColorValid (x Red) (x Green) (x Blue)" "\<And>c. x c = -1 \<or> P c"
  shows "P c"
  using assms(1) assms(2) [of c] by (cases c) (auto simp: isColorValid_def)

lemma set_all_components: "set cs = {Red, Green, Blue} \<Longrightarrow> c \<in> set cs"
  by (cases c) auto

text \<open>Setting components does not harm \<open>main\<close>.\<close>
lemma rgb_ok_frame:
  assumes "rgb_ok d l" "\<And>c. rgb d c = the_colour c \<Longrightarrow> rgb d' c = the_colour c"
    and "rgb_created d' = rgb_created d" "rgb_lines d' = rgb_lines d" "l \<noteq> S_end" "\<forall>ws. l \<noteq> S_set ws"
  shows "rgb_ok d' l"
  using assms by (cases l) auto

lemma partly_set_upd: "partly_set x \<Longrightarrow> v = the_colour c \<Longrightarrow> partly_set (x(c := v))"
  by (simp add: partly_set_def)

lemma thread_set_inv:
  assumes inv: "rgb_inv d ls" and st: "thread_set d (ls 0) = Some (Go d' l')"
  shows "rgb_inv d' (ls(0 := l'))"
proof -
  have "rgb_ok d' (ls 1)"
    by (rule rgb_ok_frame [of d])
      (use inv st in \<open>auto simp: rgb_inv_def thread_set_def split: rgb_pc.splits list.splits\<close>)
  moreover have "partly_set (rgb d')"
    using inv st
    by (auto simp: rgb_inv_def thread_set_def split: rgb_pc.splits list.splits intro!: partly_set_upd)
  moreover have "rgb_ok d' l' \<and> (l' = S_end \<or> (\<exists>ws. l' = S_set ws))"
    using inv st by (auto simp: rgb_inv_def thread_set_def split: rgb_pc.splits list.splits)
  ultimately show ?thesis using inv by (simp add: rgb_inv_def)
qed

lemma printRGB_ok:
  assumes "rgb_ok d l" "printRGB ao d l = Some (Go d' l')" "\<And>c. c \<in> set ao" "partly_set (rgb d)"
  shows "rgb_ok d' l' \<and> rgb d' = rgb d \<and> rgb_returned d' = rgb_returned d \<and> rgb_created d' = rgb_created d \<and>
    l' \<noteq> S_end \<and> (\<forall>ws. l' \<noteq> S_set ws)"
proof (cases l)
  case (P_check cs x)
  show ?thesis
  proof (cases "cs = [] \<and> isColorValid (x Red) (x Green) (x Blue)")
    case True
    then have "rgb d c = the_colour c" for c
      using assms(1) P_check valid_colour [of x "\<lambda>c. rgb d c = the_colour c"] by auto
    then show ?thesis using assms True P_check by (auto simp: printRGB_def)
  next
    case False
    then show ?thesis
      using assms P_check by (cases cs) (auto simp: printRGB_def partly_set_def)
  qed
next
  case (P_first cs x)
  then show ?thesis using assms by (cases cs) (auto simp: printRGB_def intro!: ext)
next
  case (P_second cs x y)
  then show ?thesis using assms by (cases cs) (auto simp: printRGB_def intro!: ext)
next
  case (P_invalid cs x)
  then show ?thesis using assms by (cases cs) (auto simp: printRGB_def partly_set_def)
qed (use assms in \<open>auto simp: printRGB_def\<close>)

lemma rgb_main_inv:
  assumes inv: "rgb_inv d ls" and st: "rgb_main cf ao d (ls 1) = Some (Go d' l')" and ao: "set ao = {Red, Green, Blue}"
  shows "rgb_inv d' (ls(1 := l'))"
proof -
  have "rgb_ok d' l' \<and> rgb d' = rgb d \<and> rgb_returned d' = rgb_returned d \<and> l' \<noteq> S_end \<and> (\<forall>ws. l' \<noteq> S_set ws)"
  proof (cases "ls 1 \<in> {P_create, P_join, P_return}")
    case True
    then show ?thesis
      using inv st set_all_components [OF ao] by (auto simp: rgb_inv_def rgb_main_def split: if_splits)
  next
    case False
    then have "printRGB ao d (ls 1) = Some (Go d' l')" using st by (auto simp: rgb_main_def split: rgb_pc.splits)
    from printRGB_ok [OF _ this set_all_components [OF ao]] show ?thesis using inv by (simp add: rgb_inv_def)
  qed
  moreover from this have "rgb_ok d' (ls 0)" using inv by (cases "ls 0") (auto simp: rgb_inv_def)
  ultimately show ?thesis using inv by (simp add: rgb_inv_def)
qed

lemma rgb_outs_inv:
  assumes "set ao = {Red, Green, Blue}" "rgb_inv d ls" "i < 2" "rgb_outs cf ao i d (ls i) = Some (Go d' l')"
  shows "rgb_inv d' (ls(i := l'))"
  using assms thread_set_inv [OF assms(2), of d' l'] rgb_main_inv [OF assms(2), of cf ao d' l']
  by (auto simp: rgb_outs_def less_2_cases_iff split: if_splits)

text \<open>How the program ends.\<close>
definition rgb_end :: "bool \<Rightarrow> rgb_data \<Rightarrow> int \<Rightarrow> bool" where
  "rgb_end create_fails d x \<longleftrightarrow>
     x = EXIT_SUCCESS \<and> (rgb_lines d = [Color the_colour the_colour] \<or> (\<exists>y. partly_set y \<and> rgb_lines d = [Invalid y])) \<or>
     x = EXIT_FAILURE \<and> create_fails \<and> rgb_lines d = []"

lemma rgb_outs_quit:
  assumes "rgb_inv d ls" "i < 2" "rgb_outs cf ao i d (ls i) = Some (Quit d' x)"
  shows "rgb_end cf d' x"
  using assms by (cases "ls i")
    (auto simp: rgb_defs rgb_inv_def rgb_end_def less_2_cases_iff split: if_splits list.splits)

lemma rgb_inv_start: "rgb_inv rgb_data0 rgb_locals"
  by (auto simp: rgb_inv_def rgb_data0_def rgb_locals_def setRGB_def isColorValid_def partly_set_def no_colour_def
      the_colour_def)

lemma rgb_moves:
  assumes "rgb_inv d ls"
  shows "\<exists>i<2. rgb_outs cf ao i d (ls i) \<noteq> None"
proof (cases "ls 1 = P_join \<and> \<not> rgb_returned d")
  case True
  then have "rgb_outs cf ao 0 d (ls 0) \<noteq> None"
    using assms by (auto simp: rgb_inv_def rgb_outs_def thread_set_def split: list.splits)
  then show ?thesis by (intro exI [of _ 0]) simp
next
  case False
  then have "rgb_outs cf ao 1 d (ls 1) \<noteq> None"
    using assms by (cases "ls 1") (auto simp: rgb_inv_def rgb_defs split: list.splits)
  then show ?thesis by (intro exI [of _ 1]) simp
qed

interpretation colouring: finite_program 2 "rgb_outs cf ao" "\<lambda>d ls. set ao = {Red, Green, Blue} \<and> rgb_inv d ls"
    "rgb_end cf" "rgb_weight ao" False
  for cf ao
proof (unfold_locales, goal_cases)
  case 1
  show ?case by (rule rgb_outs_sync)
next
  case 2
  then show ?case by (rule rgb_outs_less)
next
  case 3
  then show ?case by (elim conjE, intro conjI) (assumption, rule rgb_outs_inv)
next
  case 4
  then show ?case by (elim conjE) (rule rgb_outs_quit)
next
  case 5
  then show ?case by (elim conjE) (rule rgb_moves)
qed

section \<open>Properties\<close>

text \<open>A run in which the message is printed although all components have been set.\<close>
lemma rgb_misprint:
  "\<exists>d ls. reach 2 (rgb_step False [Blue, Green, Red]) rgb_start ((d, Some EXIT_SUCCESS), ls) \<and>
    rgb_lines d = [Invalid the_colour]"
proof -
  have "case run_sched 2 (rgb_step False [Blue, Green, Red]) ([1, 1, 1, 1, 1] @ [0, 0, 0, 0] @ [1, 1, 1, 1, 1, 1])
      rgb_start of
      None \<Rightarrow> False
    | Some c \<Rightarrow> snd (fst c) = Some 0 \<and> length (rgb_lines (fst (fst c))) = 1 \<and>
        (case hd (rgb_lines (fst (fst c))) of Invalid y \<Rightarrow> y Red = 255 \<and> y Green = 85 \<and> y Blue = 0 | _ \<Rightarrow> False)"
    by code_simp
  from run_case [OF this] obtain d ls where c: "reach 2 (rgb_step False [Blue, Green, Red]) rgb_start ((d, Some 0), ls)"
    "length (rgb_lines d) = 1"
    "case hd (rgb_lines d) of Invalid y \<Rightarrow> y Red = 255 \<and> y Green = 85 \<and> y Blue = 0 | _ \<Rightarrow> False"
    by auto
  then obtain y where "rgb_lines d = [Invalid y]" "y Red = 255 \<and> y Green = 85 \<and> y Blue = 0"
    by (auto simp: length_Suc_conv split: rgb_line.splits)
  moreover from this have "y = the_colour" by (intro ext) (simp add: the_colour_def split: component.split)
  ultimately show ?thesis using c(1) by blast
qed

text \<open>Although nothing orders the two threads of \<open>sync_RGB_assignment.c\<close>, a colour that is printed as one is the
  colour that was set, all six times a component is read for it, whatever the order of evaluation;
  otherwise the program prints the error message, with components that are unset or final. Both happen
  with \<open>EXIT_SUCCESS\<close>, and the message can even show three valid components. Every run ends, after at most
  19 steps.\<close>
theorem printed_colour:
  assumes "set arg_order = {Red, Green, Blue}" "length arg_order = 3"
    and "run_sched 2 (rgb_step create_fails arg_order) sched rgb_start = Some ((d, x), ls)"
  shows "length sched \<le> 19 \<and>
    (\<forall>y z. Color y z \<in> set (rgb_lines d) \<longrightarrow> y = the_colour \<and> z = the_colour) \<and>
    (\<forall>y c. Invalid y \<in> set (rgb_lines d) \<longrightarrow> y c = -1 \<or> y c = the_colour c) \<and>
    (\<forall>e. x = Some e \<longrightarrow> rgb_end create_fails d e) \<and>
    (stuck 2 (rgb_step create_fails arg_order) ((d, x), ls) \<longrightarrow> x \<noteq> None) \<and>
    (\<exists>d'. \<exists>ls'. reach 2 (rgb_step False [Blue, Green, Red]) rgb_start ((d', Some EXIT_SUCCESS), ls') \<and>
      rgb_lines d' = [Invalid the_colour])"
proof (intro conjI)
  note start = conjI [OF assms(1) rgb_inv_start]
  note reach = run_sched_reach [OF assms(3)]
  show "length sched \<le> 19"
    using colouring.run_length [OF assms(3)] assms(2)
    by (simp add: rgb_locals_def setRGB_def isColorValid_def numeral_2_eq_2)
  have "case x of None \<Rightarrow> rgb_inv d ls | Some e \<Rightarrow> rgb_end create_fails d e"
    using colouring.outcome [OF reach start] by (auto split: option.splits)
  then have lines: "rgb_lines d = [] \<or> rgb_lines d = [Color the_colour the_colour] \<or>
      (\<exists>y. partly_set y \<and> rgb_lines d = [Invalid y])"
    by (cases x; cases "ls 1") (auto simp: rgb_inv_def rgb_end_def)
  then show "\<forall>y z. Color y z \<in> set (rgb_lines d) \<longrightarrow> y = the_colour \<and> z = the_colour"
      "\<forall>y c. Invalid y \<in> set (rgb_lines d) \<longrightarrow> y c = -1 \<or> y c = the_colour c"
    by (auto simp: partly_set_def)
  show "\<forall>e. x = Some e \<longrightarrow> rgb_end create_fails d e" using colouring.at_end [OF _ start] reach by blast
  show "stuck 2 (rgb_step create_fails arg_order) ((d, x), ls) \<longrightarrow> x \<noteq> None"
    using colouring.stuck_end [OF reach start] by blast
qed (rule rgb_misprint)

theorem printed_colour_witness:
  "\<exists>d ls. run_sched 2 (rgb_step False [Blue, Green, Red]) ([1, 0, 0, 0, 0] @ replicate 14 1) rgb_start =
       Some ((d, Some 0), ls) \<and>
     rgb_lines d = [Color the_colour the_colour] \<and> rgb_end False d 0"
proof -
  have "case run_sched 2 (rgb_step False [Blue, Green, Red]) ([1, 0, 0, 0, 0] @ replicate 14 1) rgb_start of
      None \<Rightarrow> False
    | Some c \<Rightarrow> snd (fst c) = Some 0 \<and> (case rgb_lines (fst (fst c)) of [Color y z] \<Rightarrow> True | _ \<Rightarrow> False)"
    by code_simp
  then obtain d ls where c: "run_sched 2 (rgb_step False [Blue, Green, Red]) ([1, 0, 0, 0, 0] @ replicate 14 1) rgb_start =
      Some ((d, Some 0), ls)" "case rgb_lines d of [Color y z] \<Rightarrow> True | _ \<Rightarrow> False"
    by (auto split: option.splits)
  have "set [Blue, Green, Red] = {Red, Green, Blue}" "length [Blue, Green, Red] = 3" by auto
  from printed_colour [OF this c(1)] c show ?thesis by (auto split: list.splits rgb_line.splits)
qed

end
