(* ===== verification/Cleanup.thy ===== *)
theory Cleanup
  imports Threads
begin

text \<open>
  \<open>pthread_cleanup.c\<close> and \<open>05-synchronization/pthread_cleanup_sem.c\<close>, the exercise it solves: one thread reads a
  name into a temporary buffer, \<open>main\<close> waits for it at most five seconds and else cancels it. The heap
  is the list of its blocks. Cancellation is deferred: it takes effect at a cancellation point, where the
  handlers that were pushed are run. POSIX leaves it open whether \<open>printf\<close> is one; reading is. Thread 0 is
  \<open>thread_func\<close>, thread 1 is \<open>main\<close>. \<open>strdup\<close>,
  \<open>pthread_create\<close> and \<open>sem_destroy\<close> succeed; the functions registered with \<open>atexit\<close> run in one step.
\<close>

definition BUF_SIZE :: nat where "BUF_SIZE = 2 ^ 5"

text \<open>The environment: what the user enters (nothing, an end of file or a line), how \<open>sem_timedwait\<close> returns
  when the semaphore is 0 for too long (by the timeout, or by a signal), which calls fail, and whether
  \<open>printf\<close> is a cancellation point. \<open>Line s\<close> is \<open>s\<close> and the line feed behind it.\<close>
datatype entry = Nothing | End_of_file | Line string

record cenv =
  entered :: entry
  interrupted :: bool
  csem_init_fails :: bool
  malloc_fails :: bool
  cancel_fails :: bool
  cjoin_fails :: bool
  printf_cancels :: bool

text \<open>\<open>fgets\<close>, told that the buffer has \<open>n\<close> bytes: it stores at most \<open>n - 1\<close> characters of the line, and a zero.\<close>
definition fgets_line :: "nat \<Rightarrow> string \<Rightarrow> string" where
  "fgets_line n s = take (n - 1) (s @ [CHR 0x0A])"

text \<open>The variables of the programs, the heap (the blocks there are, the size of the buffer, the strings in the
  buffer and in the name), and what must not happen: a block that is freed twice, and bytes written behind the
  buffer. \<open>printed_name\<close> is \<open>Some None\<close> when \<open>main\<close> prints a name that is \<open>NULL\<close>.\<close>
record cdata =
  timeout_gone :: bool
  thread_finished :: "nat option"
  thread_finished_initialized :: bool
  fgets_exited_with_error :: bool
  cname :: "nat option"
  cbuf :: "nat option"
  handler_pushed :: bool
  cthread_created :: bool
  cthread_cancelled :: bool
  cthread_ended :: bool
  blocks :: "nat list"
  next_block :: nat
  buf_size :: nat
  buf_text :: string
  name_text :: string
  bad_free :: bool
  overflow :: bool
  printed_name :: "string option option"

datatype cpc =
    T_malloc | T_allocated | T_push | T_enter | T_read | T_strdup | T_named | T_pop | T_freed | T_post | T_end
  | M_init | M_create_thread | M_timedwait | M_checks | M_cancel | M_join_thread | M_exit

section \<open>Memory\<close>

definition alloc_block :: "cdata \<Rightarrow> nat \<times> cdata" where
  "alloc_block d = (next_block d, d\<lparr>blocks := blocks d @ [next_block d], next_block := next_block d + 1\<rparr>)"

definition free_block :: "nat \<Rightarrow> cdata \<Rightarrow> cdata" where
  "free_block b d =
     (if b \<in> set (blocks d) then d\<lparr>blocks := removeAll b (blocks d)\<rparr> else d\<lparr>bad_free := True\<rparr>)"

text \<open>\<open>release_buffer\<close>, of the buffer and of the name; \<open>release_at_exit\<close> is \<open>release_resources\<close>, registered with
  \<open>atexit\<close>. Freeing \<open>NULL\<close> does nothing.\<close>
definition release_buffer_tmp :: "cdata \<Rightarrow> cdata" where
  "release_buffer_tmp d = (case cbuf d of None \<Rightarrow> d | Some b \<Rightarrow> (free_block b d)\<lparr>cbuf := None\<rparr>)"

definition release_name :: "cdata \<Rightarrow> cdata" where
  "release_name d = (case cname d of None \<Rightarrow> d | Some b \<Rightarrow> (free_block b d)\<lparr>cname := None\<rparr>)"

definition release_at_exit :: "cdata \<Rightarrow> cdata" where
  "release_at_exit d =
     release_name (if thread_finished_initialized d then
       d\<lparr>thread_finished := None, thread_finished_initialized := False\<rparr> else d)"

text \<open>A string and its zero are written to the buffer.\<close>
definition write_buf :: "string \<Rightarrow> cdata \<Rightarrow> cdata" where
  "write_buf t d = d\<lparr>buf_text := t, overflow := overflow d \<or> buf_size d < length t + 1\<rparr>"

definition print_entered :: "cdata \<Rightarrow> cdata" where
  "print_entered d = d\<lparr>printed_name := Some (if cname d = None then None else Some (name_text d))\<rparr>"

text \<open>What the request to cancel does at a cancellation point.\<close>
definition cancel_here :: "cdata \<Rightarrow> cdata" where
  "cancel_here d =
     (let d1 = (if handler_pushed d then release_buffer_tmp d else d)
      in d1\<lparr>handler_pushed := False, cthread_ended := True\<rparr>)"

section \<open>\<open>pthread_cleanup.c\<close>\<close>

definition thread_func :: "cenv \<Rightarrow> cdata \<Rightarrow> cpc \<Rightarrow> (cdata, cpc) act option" where
  "thread_func env d pc =
     (case pc of
        T_malloc \<Rightarrow>
          if malloc_fails env then Some (Go (d\<lparr>cthread_ended := True\<rparr>) T_end)
          else (let (b, d1) = alloc_block d in Some (Go (d1\<lparr>cbuf := Some b, buf_size := BUF_SIZE\<rparr>) T_allocated))
      | T_allocated \<Rightarrow>
          if printf_cancels env \<and> cthread_cancelled d then Some (Go (cancel_here d) T_end)
          else Some (Go d T_push)
      | T_push \<Rightarrow> Some (Go (d\<lparr>handler_pushed := True\<rparr>) T_enter)
      | T_enter \<Rightarrow>
          if printf_cancels env \<and> cthread_cancelled d then Some (Go (cancel_here d) T_end)
          else Some (Go d T_read)
      | T_read \<Rightarrow>
          if cthread_cancelled d then Some (Go (cancel_here d) T_end)
          else (case entered env of
                  Nothing \<Rightarrow> None
                | End_of_file \<Rightarrow> Some (Go (d\<lparr>fgets_exited_with_error := True\<rparr>) T_pop)
                | Line s \<Rightarrow> Some (Go (write_buf (fgets_line BUF_SIZE s) d) T_strdup))
      | T_strdup \<Rightarrow> (let (b, d1) = alloc_block d in Some (Go (d1\<lparr>cname := Some b, name_text := buf_text d\<rparr>) T_named))
      | T_named \<Rightarrow>
          if printf_cancels env \<and> cthread_cancelled d then Some (Go (cancel_here d) T_end)
          else Some (Go d T_pop)
      | T_pop \<Rightarrow> Some (Go (release_buffer_tmp (d\<lparr>handler_pushed := False\<rparr>)) T_freed)
      | T_freed \<Rightarrow>
          if printf_cancels env \<and> cthread_cancelled d then Some (Go (cancel_here d) T_end)
          else Some (Go d T_post)
      | T_post \<Rightarrow>
          Some (Go (d\<lparr>thread_finished := map_option Suc (thread_finished d), cthread_ended := True\<rparr>) T_end)
      | _ \<Rightarrow> None)"

definition cleanup_main :: "cenv \<Rightarrow> cdata \<Rightarrow> cpc \<Rightarrow> (cdata, cpc) act option" where
  "cleanup_main env d pc =
     (case pc of
        M_init \<Rightarrow>
          if csem_init_fails env then Some (Quit (release_at_exit d) EXIT_FAILURE)
          else Some (Go (d\<lparr>thread_finished := Some 0, thread_finished_initialized := True\<rparr>) M_create_thread)
      | M_create_thread \<Rightarrow> Some (Go (d\<lparr>cthread_created := True\<rparr>) M_timedwait)
      | M_timedwait \<Rightarrow>
          (case thread_finished d of
             Some (Suc n) \<Rightarrow> Some (Go (d\<lparr>thread_finished := Some n\<rparr>) M_checks)
           | _ \<Rightarrow> Some (Go (d\<lparr>timeout_gone := \<not> interrupted env\<rparr>) M_checks))
      | M_checks \<Rightarrow>
          if fgets_exited_with_error d then Some (Go d M_join_thread)
          else if timeout_gone d then Some (Go d M_cancel)
          else Some (Go (print_entered d) M_join_thread)
      | M_cancel \<Rightarrow> Some (Go (if cancel_fails env then d else d\<lparr>cthread_cancelled := True\<rparr>) M_join_thread)
      | M_join_thread \<Rightarrow> if cjoin_fails env \<or> cthread_ended d then Some (Go d M_exit) else None
      | M_exit \<Rightarrow> Some (Quit (release_at_exit d) EXIT_SUCCESS)
      | _ \<Rightarrow> None)"

definition cleanup_outs :: "cenv \<Rightarrow> nat \<Rightarrow> cdata \<Rightarrow> cpc \<Rightarrow> (cdata, cpc) act option" where
  "cleanup_outs env i d pc =
     (if i = 1 then cleanup_main env d pc
      else if cthread_created d then thread_func env d pc else None)"

section \<open>\<open>pthread_cleanup_sem.c\<close>\<close>

text \<open>No handler is pushed, and \<open>gets\<close> does not know how large the buffer is; at an end of file it leaves the
  buffer as it is, and the name is copied all the same.\<close>
definition sem_thread_func :: "cenv \<Rightarrow> cdata \<Rightarrow> cpc \<Rightarrow> (cdata, cpc) act option" where
  "sem_thread_func env d pc =
     (case pc of
        T_malloc \<Rightarrow>
          if malloc_fails env then Some (Go (d\<lparr>cthread_ended := True\<rparr>) T_end)
          else (let (b, d1) = alloc_block d in Some (Go (d1\<lparr>cbuf := Some b, buf_size := BUF_SIZE\<rparr>) T_allocated))
      | T_allocated \<Rightarrow>
          if printf_cancels env \<and> cthread_cancelled d then Some (Go (cancel_here d) T_end)
          else Some (Go d T_enter)
      | T_enter \<Rightarrow>
          if printf_cancels env \<and> cthread_cancelled d then Some (Go (cancel_here d) T_end)
          else Some (Go d T_read)
      | T_read \<Rightarrow>
          if cthread_cancelled d then Some (Go (cancel_here d) T_end)
          else (case entered env of
                  Nothing \<Rightarrow> None
                | End_of_file \<Rightarrow> Some (Go d T_strdup)
                | Line s \<Rightarrow> Some (Go (write_buf s d) T_strdup))
      | T_strdup \<Rightarrow> (let (b, d1) = alloc_block d in Some (Go (d1\<lparr>cname := Some b, name_text := buf_text d\<rparr>) T_named))
      | T_named \<Rightarrow>
          if printf_cancels env \<and> cthread_cancelled d then Some (Go (cancel_here d) T_end)
          else Some (Go d T_pop)
      | T_pop \<Rightarrow> Some (Go (release_buffer_tmp d) T_freed)
      | T_freed \<Rightarrow>
          if printf_cancels env \<and> cthread_cancelled d then Some (Go (cancel_here d) T_end)
          else Some (Go d T_post)
      | T_post \<Rightarrow>
          Some (Go (d\<lparr>thread_finished := map_option Suc (thread_finished d), cthread_ended := True\<rparr>) T_end)
      | _ \<Rightarrow> None)"

definition sem_main :: "cenv \<Rightarrow> cdata \<Rightarrow> cpc \<Rightarrow> (cdata, cpc) act option" where
  "sem_main env d pc =
     (case pc of
        M_init \<Rightarrow>
          if csem_init_fails env then Some (Quit (release_at_exit d) EXIT_FAILURE)
          else Some (Go (d\<lparr>thread_finished := Some 0, thread_finished_initialized := True\<rparr>) M_create_thread)
      | M_create_thread \<Rightarrow> Some (Go (d\<lparr>cthread_created := True\<rparr>) M_timedwait)
      | M_timedwait \<Rightarrow>
          (case thread_finished d of
             Some (Suc n) \<Rightarrow> Some (Go (d\<lparr>thread_finished := Some n\<rparr>) M_checks)
           | _ \<Rightarrow> Some (Go (d\<lparr>timeout_gone := \<not> interrupted env\<rparr>) M_checks))
      | M_checks \<Rightarrow>
          if timeout_gone d then Some (Go d M_cancel)
          else Some (Go (print_entered d) M_join_thread)
      | M_cancel \<Rightarrow> Some (Go (if cancel_fails env then d else d\<lparr>cthread_cancelled := True\<rparr>) M_join_thread)
      | M_join_thread \<Rightarrow> if cjoin_fails env \<or> cthread_ended d then Some (Go d M_exit) else None
      | M_exit \<Rightarrow> Some (Quit (release_at_exit d) EXIT_SUCCESS)
      | _ \<Rightarrow> None)"

definition cleanup_sem_outs :: "cenv \<Rightarrow> nat \<Rightarrow> cdata \<Rightarrow> cpc \<Rightarrow> (cdata, cpc) act option" where
  "cleanup_sem_outs env i d pc =
     (if i = 1 then sem_main env d pc
      else if cthread_created d then sem_thread_func env d pc else None)"

definition cdata0 :: cdata where
  "cdata0 = \<lparr>timeout_gone = False, thread_finished = None, thread_finished_initialized = False,
     fgets_exited_with_error = False, cname = None, cbuf = None, handler_pushed = False, cthread_created = False,
     cthread_cancelled = False, cthread_ended = False, blocks = [], next_block = 0, buf_size = 0, buf_text = [], name_text = [], bad_free = False,
     overflow = False, printed_name = None\<rparr>"

definition cleanup_locals :: "nat \<Rightarrow> cpc" where
  "cleanup_locals i = (if i = 1 then M_init else T_malloc)"

abbreviation cleanup_start :: "(cdata process, cpc) conf" where
  "cleanup_start \<equiv> ((cdata0, None), cleanup_locals)"

section \<open>Every run ends\<close>

fun cleanup_weight :: "cpc \<Rightarrow> nat" where
  "cleanup_weight T_malloc = 10"
| "cleanup_weight T_allocated = 9"
| "cleanup_weight T_push = 8"
| "cleanup_weight T_enter = 7"
| "cleanup_weight T_read = 6"
| "cleanup_weight T_strdup = 5"
| "cleanup_weight T_named = 4"
| "cleanup_weight T_pop = 3"
| "cleanup_weight T_freed = 2"
| "cleanup_weight T_post = 1"
| "cleanup_weight T_end = 0"
| "cleanup_weight M_init = 7"
| "cleanup_weight M_create_thread = 6"
| "cleanup_weight M_timedwait = 5"
| "cleanup_weight M_checks = 4"
| "cleanup_weight M_cancel = 3"
| "cleanup_weight M_join_thread = 2"
| "cleanup_weight M_exit = 1"

lemmas cleanup_defs = cleanup_outs_def cleanup_main_def thread_func_def write_buf_def print_entered_def
lemmas memory_defs = alloc_block_def free_block_def release_buffer_tmp_def release_name_def cancel_here_def Let_def

lemma cleanup_outs_less:
  "cleanup_outs env i d l = Some (Go d' l') \<Longrightarrow> cleanup_weight l' < cleanup_weight l"
  by (cases l) (auto simp: cleanup_defs split: if_splits entry.splits option.splits nat.splits prod.splits)

lemma cleanup_outs_sync: "cleanup_outs env i d l \<noteq> Some (Sync d' l')"
  by (cases l) (auto simp: cleanup_defs split: entry.splits option.splits nat.splits prod.splits)

section \<open>The invariant\<close>

text \<open>The blocks there are: the buffer and the name, and no others.\<close>
definition heap_ok :: "cdata \<Rightarrow> bool" where
  "heap_ok d \<longleftrightarrow> set (blocks d) = set_option (cbuf d) \<union> set_option (cname d) \<and>
     (\<forall>b. b \<in> set (blocks d) \<longrightarrow> b < next_block d) \<and> (cbuf d = None \<or> cbuf d \<noteq> cname d) \<and>
     \<not> bad_free d \<and> \<not> overflow d"

text \<open>What is read, if anything is.\<close>
definition name_read :: "cenv \<Rightarrow> string" where
  "name_read env = (case entered env of Line s \<Rightarrow> fgets_line BUF_SIZE s | _ \<Rightarrow> [])"

fun cleanup_thread_ok :: "cenv \<Rightarrow> cdata \<Rightarrow> cpc \<Rightarrow> bool" where
  "cleanup_thread_ok env d T_malloc = (cbuf d = None \<and> cname d = None \<and> \<not> handler_pushed d \<and> \<not> fgets_exited_with_error d \<and> \<not> cthread_ended d)"
| "cleanup_thread_ok env d T_allocated = (buf_size d = BUF_SIZE \<and> cbuf d \<noteq> None \<and> cname d = None \<and> \<not> handler_pushed d \<and> \<not> fgets_exited_with_error d \<and> \<not> cthread_ended d)"
| "cleanup_thread_ok env d T_push = (buf_size d = BUF_SIZE \<and> cbuf d \<noteq> None \<and> cname d = None \<and> \<not> handler_pushed d \<and> \<not> fgets_exited_with_error d \<and> \<not> cthread_ended d)"
| "cleanup_thread_ok env d T_enter = (buf_size d = BUF_SIZE \<and> cbuf d \<noteq> None \<and> cname d = None \<and> handler_pushed d \<and> \<not> fgets_exited_with_error d \<and> \<not> cthread_ended d)"
| "cleanup_thread_ok env d T_read = (buf_size d = BUF_SIZE \<and> cbuf d \<noteq> None \<and> cname d = None \<and> handler_pushed d \<and> \<not> fgets_exited_with_error d \<and> \<not> cthread_ended d)"
| "cleanup_thread_ok env d T_strdup = (buf_text d = name_read env \<and> cbuf d \<noteq> None \<and> cname d = None \<and> handler_pushed d \<and> \<not> fgets_exited_with_error d \<and> \<not> cthread_ended d)"
| "cleanup_thread_ok env d T_named = (cbuf d \<noteq> None \<and> cname d \<noteq> None \<and> handler_pushed d \<and> \<not> fgets_exited_with_error d \<and> \<not> cthread_ended d)"
| "cleanup_thread_ok env d T_pop =
     (cbuf d \<noteq> None \<and> (cname d \<noteq> None \<or> fgets_exited_with_error d) \<and> handler_pushed d \<and> \<not> cthread_ended d)"
| "cleanup_thread_ok env d T_freed =
     (cbuf d = None \<and> (cname d \<noteq> None \<or> fgets_exited_with_error d) \<and> \<not> handler_pushed d \<and> \<not> cthread_ended d)"
| "cleanup_thread_ok env d T_post =
     (cbuf d = None \<and> (cname d \<noteq> None \<or> fgets_exited_with_error d) \<and> \<not> handler_pushed d \<and> \<not> cthread_ended d)"
| "cleanup_thread_ok env d T_end = ((cbuf d = None \<or> printf_cancels env) \<and> cthread_ended d)"
| "cleanup_thread_ok env d _ = False"

text \<open>The semaphore tells that a name was read, or that nothing could be.\<close>
fun cleanup_main_ok :: "cenv \<Rightarrow> cdata \<Rightarrow> cpc \<Rightarrow> bool" where
  "cleanup_main_ok env d M_init = (\<not> timeout_gone d \<and> \<not> cthread_created d \<and> blocks d = [] \<and> cname d = None \<and> printed_name d = None)"
| "cleanup_main_ok env d M_create_thread = (\<not> timeout_gone d \<and> \<not> cthread_created d \<and> thread_finished d = Some 0 \<and> printed_name d = None)"
| "cleanup_main_ok env d M_timedwait = (cthread_created d \<and> printed_name d = None \<and> \<not> timeout_gone d \<and>
     (thread_finished d = Some 0 \<or> thread_finished d \<noteq> None \<and> (cname d \<noteq> None \<or> fgets_exited_with_error d)))"
| "cleanup_main_ok env d M_checks = (cthread_created d \<and> printed_name d = None \<and>
     (timeout_gone d \<or> interrupted env \<or> cname d \<noteq> None \<or> fgets_exited_with_error d))"
| "cleanup_main_ok env d M_cancel = (cthread_created d \<and> printed_name d = None)"
| "cleanup_main_ok env d M_join_thread = (cthread_created d \<and> (printed_name d \<noteq> Some None \<or> interrupted env) \<and>
     (cthread_cancelled d \<or> cancel_fails env \<or> interrupted env \<or> cname d \<noteq> None \<or> fgets_exited_with_error d))"
| "cleanup_main_ok env d M_exit = ((cthread_ended d \<or> cjoin_fails env) \<and> (printed_name d \<noteq> Some None \<or> interrupted env))"
| "cleanup_main_ok env d _ = False"

text \<open>The name is what was read, and nothing else is printed.\<close>
definition name_ok :: "cenv \<Rightarrow> cdata \<Rightarrow> bool" where
  "name_ok env d \<longleftrightarrow> (cname d \<noteq> None \<longrightarrow> name_text d = name_read env) \<and> (\<forall>s. printed_name d = Some (Some s) \<longrightarrow> s = name_read env)"

definition cleanup_inv :: "cenv \<Rightarrow> cdata \<Rightarrow> (nat \<Rightarrow> cpc) \<Rightarrow> bool" where
  "cleanup_inv env d ls \<longleftrightarrow> heap_ok d \<and> cleanup_thread_ok env d (ls 0) \<and> cleanup_main_ok env d (ls 1) \<and>
     (thread_finished_initialized d \<longleftrightarrow> thread_finished d \<noteq> None) \<and> name_ok env d"

lemma free_block_simps [simp]:
  "cbuf (free_block b d) = cbuf d" "cname (free_block b d) = cname d" "cthread_ended (free_block b d) = cthread_ended d"
  "handler_pushed (free_block b d) = handler_pushed d" "cthread_created (free_block b d) = cthread_created d"
  "thread_finished (free_block b d) = thread_finished d" "printed_name (free_block b d) = printed_name d"
  "fgets_exited_with_error (free_block b d) = fgets_exited_with_error d" "timeout_gone (free_block b d) = timeout_gone d"
  "cthread_cancelled (free_block b d) = cthread_cancelled d" "name_text (free_block b d) = name_text d"
  by (simp_all add: free_block_def)

lemma release_tmp_simps [simp]:
  "cbuf (release_buffer_tmp d) = None" "cname (release_buffer_tmp d) = cname d"
  "cthread_ended (release_buffer_tmp d) = cthread_ended d" "handler_pushed (release_buffer_tmp d) = handler_pushed d"
  "cthread_created (release_buffer_tmp d) = cthread_created d" "thread_finished (release_buffer_tmp d) = thread_finished d"
  "printed_name (release_buffer_tmp d) = printed_name d" "timeout_gone (release_buffer_tmp d) = timeout_gone d"
  "fgets_exited_with_error (release_buffer_tmp d) = fgets_exited_with_error d"
  "cthread_cancelled (release_buffer_tmp d) = cthread_cancelled d" "name_text (release_buffer_tmp d) = name_text d"
  by (simp_all add: release_buffer_tmp_def split: option.splits)

lemma heap_release_tmp: "heap_ok d \<Longrightarrow> heap_ok (release_buffer_tmp d)"
  by (auto simp: heap_ok_def release_buffer_tmp_def free_block_def split: option.splits)

lemma heap_frame:
  "heap_ok d \<Longrightarrow> blocks d' = blocks d \<Longrightarrow> cbuf d' = cbuf d \<Longrightarrow> cname d' = cname d \<Longrightarrow>
    next_block d' = next_block d \<Longrightarrow> bad_free d' = bad_free d \<Longrightarrow> overflow d' = overflow d \<Longrightarrow> heap_ok d'"
  by (simp add: heap_ok_def)

lemma heap_cancel: "heap_ok d \<Longrightarrow> heap_ok (cancel_here d)"
  by (auto simp: cancel_here_def Let_def intro: heap_release_tmp heap_frame)

lemma thread_func_inv:
  assumes "thread_func env d l = Some (Go d' l')" "heap_ok d" "cleanup_thread_ok env d l"
  shows "heap_ok d' \<and> cleanup_thread_ok env d' l'"
proof (cases l)
  case T_pop
  then show ?thesis
    using assms heap_release_tmp [OF heap_frame [OF assms(2), of "d\<lparr>handler_pushed := False\<rparr>"]]
    by (auto simp: thread_func_def)
next
  case T_malloc
  then show ?thesis
    using assms by (auto simp: thread_func_def alloc_block_def heap_ok_def split: if_splits)
next
  case T_strdup
  then show ?thesis using assms by (auto simp: thread_func_def alloc_block_def heap_ok_def)
next
  case T_read
  show ?thesis
  proof (cases "\<not> cthread_cancelled d \<and> (\<exists>s. entered env = Line s)")
    case True
    then obtain s where s: "\<not> cthread_cancelled d" "entered env = Line s" by blast
    have "length (fgets_line BUF_SIZE s) + 1 \<le> BUF_SIZE" by (simp add: fgets_line_def BUF_SIZE_def)
    then show ?thesis
      using assms s T_read by (auto simp: thread_func_def write_buf_def heap_ok_def name_read_def)
  next
    case False
    then show ?thesis
      using assms heap_cancel [OF assms(2)] T_read
      by (auto simp: thread_func_def cancel_here_def Let_def split: if_splits entry.splits intro: heap_frame)
  qed
qed (use assms heap_cancel [OF assms(2)] in
  \<open>auto simp: thread_func_def cancel_here_def Let_def split: if_splits entry.splits intro: heap_frame\<close>)

text \<open>What the thread does to \<open>main\<close>.\<close>
lemma thread_func_main:
  assumes "thread_func env d l = Some (Go d' l')" "cleanup_thread_ok env d l" "cthread_created d" "cleanup_main_ok env d m"
  shows "cleanup_main_ok env d' m"
proof -
  have "cthread_created d' = cthread_created d \<and> printed_name d' = printed_name d \<and> timeout_gone d' = timeout_gone d \<and>
      cthread_cancelled d' = cthread_cancelled d \<and> (cthread_ended d \<longrightarrow> cthread_ended d') \<and>
      (cname d \<noteq> None \<longrightarrow> cname d' \<noteq> None) \<and> (fgets_exited_with_error d \<longrightarrow> fgets_exited_with_error d') \<and>
      (thread_finished d' = thread_finished d \<or>
        thread_finished d' = map_option Suc (thread_finished d) \<and> (cname d' \<noteq> None \<or> fgets_exited_with_error d'))"
    using assms(1,2)
    by (cases l) (auto simp: thread_func_def alloc_block_def write_buf_def cancel_here_def Let_def split: if_splits entry.splits)
  then show ?thesis using assms(3,4) by (cases m) auto
qed

lemma cleanup_main_inv:
  assumes "cleanup_main env d l = Some (Go d' l')" "heap_ok d" "cleanup_thread_ok env d t" "cleanup_main_ok env d l"
  shows "heap_ok d' \<and> cleanup_thread_ok env d' t \<and> cleanup_main_ok env d' l'"
proof -
  have c: "cleanup_main_ok env d' l'"
    using assms(1,3,4) by (cases l; cases t) (auto simp: cleanup_main_def print_entered_def split: if_splits option.splits nat.splits)
  have f: "blocks d' = blocks d \<and> cbuf d' = cbuf d \<and> cname d' = cname d \<and> next_block d' = next_block d \<and>
      bad_free d' = bad_free d \<and> overflow d' = overflow d \<and> handler_pushed d' = handler_pushed d \<and>
      cthread_ended d' = cthread_ended d \<and> fgets_exited_with_error d' = fgets_exited_with_error d \<and>
      buf_size d' = buf_size d \<and> buf_text d' = buf_text d"
    using assms(1) by (cases l) (auto simp: cleanup_main_def print_entered_def split: if_splits option.splits nat.splits)
  have "cleanup_thread_ok env d' t" using f assms(3) by (cases t) auto
  then show ?thesis using c f heap_frame [OF assms(2)] by blast
qed

lemma cleanup_outs_sem:
  assumes "cleanup_outs env i d l = Some (Go d' l')" "thread_finished_initialized d \<longleftrightarrow> thread_finished d \<noteq> None"
  shows "thread_finished_initialized d' \<longleftrightarrow> thread_finished d' \<noteq> None"
  using assms
  by (cases l) (auto simp: cleanup_defs memory_defs split: if_splits entry.splits option.splits nat.splits)

lemma cleanup_outs_name:
  assumes "cleanup_outs env i d l = Some (Go d' l')" "name_ok env d" "i = 0 \<Longrightarrow> cleanup_thread_ok env d l" "i = 0 \<or> i = 1"
  shows "name_ok env d'"
  using assms
  by (cases l) (auto simp: cleanup_defs alloc_block_def cancel_here_def Let_def name_ok_def
    split: if_splits entry.splits option.splits nat.splits)

lemma cleanup_outs_inv:
  assumes "cleanup_inv env d ls" "i < 2" "cleanup_outs env i d (ls i) = Some (Go d' l')"
  shows "cleanup_inv env d' (ls(i := l'))"
proof -
  have "thread_finished_initialized d' \<longleftrightarrow> thread_finished d' \<noteq> None"
    using cleanup_outs_sem [OF assms(3)] assms(1) by (simp add: cleanup_inv_def)
  moreover have "name_ok env d'"
    using cleanup_outs_name [OF assms(3)] assms(1,2) by (auto simp: cleanup_inv_def less_2_cases_iff)
  ultimately show ?thesis
    using assms thread_func_inv [of env d "ls 0" d' l'] thread_func_main [of env d "ls 0" d' l' "ls 1"]
      cleanup_main_inv [of env d "ls 1" d' l' "ls 0"]
    by (auto simp: cleanup_inv_def cleanup_outs_def less_2_cases_iff split: if_splits)
qed

text \<open>How the program ends: with nothing left on the heap, or the buffer lost at the first \<open>printf\<close> or because
  \<open>main\<close> could not join the thread.\<close>
definition cleanup_end :: "cenv \<Rightarrow> cdata \<Rightarrow> int \<Rightarrow> bool" where
  "cleanup_end env d x \<longleftrightarrow> (blocks d = [] \<or> printf_cancels env \<or> cjoin_fails env) \<and> \<not> bad_free d \<and> \<not> overflow d \<and>
     thread_finished d = None \<and> (printed_name d \<noteq> Some None \<or> interrupted env) \<and>
     (\<forall>s. printed_name d = Some (Some s) \<longrightarrow> s = name_read env) \<and>
     (x = EXIT_SUCCESS \<or> x = EXIT_FAILURE \<and> csem_init_fails env)"


lemma heap_release_name:
  assumes "heap_ok d" "cbuf d = None"
  shows "blocks (release_name d) = [] \<and> \<not> bad_free (release_name d) \<and> \<not> overflow (release_name d)"
proof (cases "cname d")
  case None
  then show ?thesis using assms by (simp add: release_name_def heap_ok_def)
next
  case (Some b)
  then have "set (blocks d) = {b}" using assms by (simp add: heap_ok_def)
  then have "removeAll b (blocks d) = []" by (simp flip: set_empty)
  then show ?thesis using Some assms \<open>set (blocks d) = {b}\<close>
    by (simp add: release_name_def heap_ok_def free_block_def)
qed

text \<open>The name is one of the blocks, so that it is freed once in any case.\<close>
lemma release_name_good:
  assumes "heap_ok d"
  shows "\<not> bad_free (release_name d) \<and> \<not> overflow (release_name d)"
  using assms by (auto simp: release_name_def heap_ok_def free_block_def split: option.splits)

lemma release_name_simps [simp]:
  "thread_finished (release_name d) = thread_finished d" "printed_name (release_name d) = printed_name d"
  by (simp_all add: release_name_def split: option.splits)

lemma release_at_exit_end:
  assumes "heap_ok d" "cbuf d = None \<or> printf_cancels env \<or> cjoin_fails env" "thread_finished_initialized d \<or> thread_finished d = None"
    "printed_name d \<noteq> Some None \<or> interrupted env" "\<forall>s. printed_name d = Some (Some s) \<longrightarrow> s = name_read env"
    "x = EXIT_SUCCESS \<or> x = EXIT_FAILURE \<and> csem_init_fails env"
  shows "cleanup_end env (release_at_exit d) x"
proof -
  let ?d = "if thread_finished_initialized d then d\<lparr>thread_finished := None, thread_finished_initialized := False\<rparr> else d"
  have "heap_ok ?d" by (rule heap_frame [OF assms(1)]) simp_all
  moreover have "cbuf ?d = cbuf d" "thread_finished ?d = None" "printed_name ?d = printed_name d" using assms(3) by auto
  ultimately show ?thesis
    using assms(2,4-6) heap_release_name [of ?d] release_name_good [of ?d]
    by (auto simp: cleanup_end_def release_at_exit_def)
qed

lemma cleanup_outs_quit:
  assumes "cleanup_inv env d ls" "i < 2" "cleanup_outs env i d (ls i) = Some (Quit d' x)"
  shows "cleanup_end env d' x"
proof (cases "i = 1")
  case True
  have h: "heap_ok d" "cleanup_thread_ok env d (ls 0)" "cleanup_main_ok env d (ls 1)"
      "thread_finished_initialized d \<or> thread_finished d = None" "\<forall>s. printed_name d = Some (Some s) \<longrightarrow> s = name_read env"
    using assms(1) unfolding cleanup_inv_def name_ok_def by (auto simp: cleanup_inv_def)
  have x: "d' = release_at_exit d" "x = EXIT_SUCCESS \<and> ls 1 = M_exit \<or> x = EXIT_FAILURE \<and> csem_init_fails env \<and> ls 1 = M_init"
    using assms(3) True
    by (cases "ls 1"; auto simp: cleanup_outs_def cleanup_main_def split: if_splits option.splits nat.splits)+
  have "(cbuf d = None \<or> printf_cancels env \<or> cjoin_fails env) \<and> (printed_name d \<noteq> Some None \<or> interrupted env)"
    using h(1-3) x(2) by (cases "ls 0") (auto simp: heap_ok_def)
  then show ?thesis unfolding x(1) using release_at_exit_end [OF h(1) _ h(4) _ h(5)] x(2) by blast
next
  case False
  then show ?thesis
    using assms(3) by (cases "ls i") (auto simp: cleanup_outs_def thread_func_def Let_def alloc_block_def split: if_splits entry.splits)
qed

lemma cleanup_inv_start: "cleanup_inv env cdata0 cleanup_locals"
  by (simp add: cleanup_inv_def cdata0_def cleanup_locals_def heap_ok_def name_ok_def)

text \<open>Nobody can go on only while \<open>main\<close>, which was interrupted while it waited or could not cancel the thread,
  joins a thread that reads.\<close>
lemma cleanup_moves:
  assumes "cleanup_inv env d ls" "entered env \<noteq> Nothing \<or> \<not> (interrupted env \<or> cancel_fails env)"
  shows "\<exists>i<2. cleanup_outs env i d (ls i) \<noteq> None"
proof -
  have "thread_func env d (ls 0) \<noteq> None \<or> cleanup_main env d (ls 1) \<noteq> None"
    "thread_func env d (ls 0) \<noteq> None \<longrightarrow> cthread_created d \<or> cleanup_main env d (ls 1) \<noteq> None"
    using assms
    by (cases "ls 0"; cases "ls 1"; auto simp: cleanup_inv_def thread_func_def cleanup_main_def alloc_block_def
        split: if_splits option.splits nat.splits entry.splits)+
  then show ?thesis
    by (intro exI [of _ "if cleanup_main env d (ls 1) \<noteq> None then 1 else 0"]) (auto simp: cleanup_outs_def)
qed

interpretation cancelling: finite_program 2 "cleanup_outs env" "cleanup_inv env" "cleanup_end env" cleanup_weight
    "entered env = Nothing \<and> (interrupted env \<or> cancel_fails env)"
  for env
proof (unfold_locales, goal_cases)
  case 1
  show ?case by (rule cleanup_outs_sync)
next
  case 2
  then show ?case by (rule cleanup_outs_less)
next
  case 3
  then show ?case by (rule cleanup_outs_inv)
next
  case 4
  then show ?case by (rule cleanup_outs_quit)
next
  case 5
  then show ?case using cleanup_moves by blast
qed

section \<open>Properties\<close>

text \<open>C25. However \<open>pthread_cleanup.c\<close> runs, with a name, an end of file or nothing entered: no block is freed
  twice, and what \<open>fgets\<close> writes fits the buffer; every run ends, after at most 18 steps, unless nothing is ever
  entered and a signal interrupts \<open>sem_timedwait\<close> or \<open>pthread_cancel\<close> fails; it ends with \<open>EXIT_SUCCESS\<close>, and
  with \<open>EXIT_FAILURE\<close> only if \<open>sem_init\<close> fails; the semaphore has then been destroyed and all memory
  freed, except that the buffer can be lost when \<open>printf\<close> is a cancellation point (between \<open>malloc\<close> and
  \<open>pthread_cleanup_push\<close>) or \<open>pthread_join\<close> fails. The name that is printed is what was read, at most 31
  characters of the line, and a \<open>NULL\<close> name is printed only after such a signal.\<close>
theorem cleanup_correct:
  assumes "run_sched 2 (free_step (cleanup_outs env)) sched cleanup_start = Some ((d, x), ls)"
  shows "length sched \<le> 18 \<and>
    (x = None \<longrightarrow> \<not> bad_free d \<and> \<not> overflow d) \<and>
    (stuck 2 (free_step (cleanup_outs env)) ((d, x), ls) \<longrightarrow> x \<noteq> None \<or> entered env = Nothing \<and> (interrupted env \<or> cancel_fails env)) \<and>
    (\<forall>e. x = Some e \<longrightarrow> cleanup_end env d e)"
proof (intro conjI impI)
  note reach = run_sched_reach [OF assms]
  show "length sched \<le> 18"
    using cancelling.run_length [OF assms] by (simp add: cleanup_locals_def numeral_2_eq_2)
  show "\<not> bad_free d" "\<not> overflow d" if "x = None"
    using cancelling.while_running [OF _ cleanup_inv_start] reach that by (auto simp: cleanup_inv_def heap_ok_def)
  show "x \<noteq> None \<or> entered env = Nothing \<and> (interrupted env \<or> cancel_fails env)"
    if "stuck 2 (free_step (cleanup_outs env)) ((d, x), ls)"
    using cancelling.stuck_end [OF reach cleanup_inv_start that] by blast
  show "\<forall>e. x = Some e \<longrightarrow> cleanup_end env d e"
    using cancelling.at_end [OF _ cleanup_inv_start] reach by blast
qed

definition calm_cleanup :: "entry \<Rightarrow> cenv" where
  "calm_cleanup e = \<lparr>entered = e, interrupted = False, csem_init_fails = False, malloc_fails = False, cancel_fails = False,
    cjoin_fails = False, printf_cancels = False\<rparr>"

text \<open>The name is entered too late: \<open>main\<close> cancels the thread that is about to read.\<close>
lemma cleanup_timeout_run:
  "case run_sched 2 (free_step (cleanup_outs (calm_cleanup Nothing))) ([1, 1] @ [0, 0, 0, 0] @ [1, 1, 1] @ [0] @ [1, 1]) cleanup_start
   of None \<Rightarrow> False | Some c \<Rightarrow> snd (fst c) = Some 0"
  by code_simp

theorem cleanup_correct_witness:
  "\<exists>d x ls. run_sched 2 (free_step (cleanup_outs (calm_cleanup Nothing))) ([1, 1] @ [0, 0, 0, 0] @ [1, 1, 1] @ [0] @ [1, 1])
       cleanup_start = Some ((d, x), ls) \<and> x = Some EXIT_SUCCESS \<and> blocks d = [] \<and> \<not> bad_free d"
proof -
  obtain d x ls where c: "run_sched 2 (free_step (cleanup_outs (calm_cleanup Nothing)))
      ([1, 1] @ [0, 0, 0, 0] @ [1, 1, 1] @ [0] @ [1, 1]) cleanup_start = Some ((d, x), ls)" "x = Some 0"
    using cleanup_timeout_run by (auto split: option.splits)
  from cleanup_correct [OF c(1)] c(2) have "cleanup_end (calm_cleanup Nothing) d 0" by blast
  then show ?thesis using c by (simp add: cleanup_end_def calm_cleanup_def)
qed

text \<open>\<open>pthread_cleanup_sem.c\<close>: a thread that is cancelled while it reads loses its buffer, a name of 32
  characters overruns it, and after an end of file the buffer, which nothing was written to, is copied.\<close>
definition sem_case :: "entry \<Rightarrow> nat list \<Rightarrow> (cdata \<Rightarrow> bool) \<Rightarrow> bool" where
  "sem_case e sched P =
     (case run_sched 2 (free_step (cleanup_sem_outs (calm_cleanup e))) sched cleanup_start of
        None \<Rightarrow> False | Some c \<Rightarrow> snd (fst c) = Some 0 \<and> P (fst (fst c)))"

theorem cleanup_sem_faults:
  "sem_case Nothing ([1, 1] @ [0, 0, 0] @ [1, 1, 1] @ [0] @ [1, 1]) (\<lambda>d. length (blocks d) = 1) \<and>
   sem_case (Line (replicate 32 CHR ''x'')) ([1, 1] @ replicate 9 0 @ [1, 1, 1, 1]) overflow \<and>
   sem_case (Line (replicate 31 CHR ''x'')) ([1, 1] @ replicate 9 0 @ [1, 1, 1, 1])
     (\<lambda>d. \<not> overflow d \<and> blocks d = [] \<and> printed_name d = Some (Some (replicate 31 CHR ''x''))) \<and>
   sem_case End_of_file ([1, 1] @ replicate 9 0 @ [1, 1, 1, 1]) (\<lambda>d. printed_name d = Some (Some []))"
  by (intro conjI; code_simp)

end
