(* ===== verification/Withdrawals.thy ===== *)
theory Withdrawals
  imports Threads
begin

text \<open>
  \<open>04-critical_section/bank_withdraw.c\<close> and \<open>bank_withdrawal.c\<close>: four threads withdraw random amounts from one
  balance, which nothing protects. The programs differ in the initial amount \<open>A\<close>, and in that the second has the
  withdrawal in a function of its own. The balance is \<open>volatile\<close>: each time it is named it is read,
  and \<open>balance -= amount\<close> is a read and a write. Threads 0 to 3 run \<open>do_withdrawals\<close>, thread 4 is \<open>main\<close>.
\<close>

definition W_THREADS :: nat where "W_THREADS = 4"
definition MAX_WITHDRAW :: int where "MAX_WITHDRAW = 64"

text \<open>\<open>INITIAL_AMOUNT\<close> of the two programs.\<close>
definition withdraw_amount :: int where "withdraw_amount = 2 ^ 20"
definition withdrawal_amount :: int where "withdrawal_amount = 2 ^ 22"

record withdraw_env =
  w_random :: "nat \<Rightarrow> nat \<Rightarrow> int"
  w_create_fails :: "nat \<Rightarrow> bool"
  w_join_fails :: "nat \<Rightarrow> bool"

text \<open>What is printed at the end: the balance, the total, and whether transactions are reported as lost.\<close>
record wdata =
  balance :: int
  withdrawn :: "nat \<Rightarrow> int"
  w_created :: nat
  w_returned :: "nat \<Rightarrow> bool"
  w_report :: "(int \<times> int \<times> bool) option"

datatype wdpc =
    W_loop nat bool | W_check nat int | W_read nat int | W_write nat int int | W_sum nat int | W_test nat | W_end
  | Mw_create nat | Mw_join nat int | Mw_report int

definition withdraw_sum :: "withdraw_env \<Rightarrow> nat \<Rightarrow> nat \<Rightarrow> int" where
  "withdraw_sum env t i = 1 + w_random env t i mod MAX_WITHDRAW"

definition do_withdrawals :: "withdraw_env \<Rightarrow> int \<Rightarrow> nat \<Rightarrow> wdata \<Rightarrow> wdpc \<Rightarrow> (wdata, wdpc) act option" where
  "do_withdrawals env A t d pc =
     (case pc of
        W_loop i finished \<Rightarrow>
          if int i < A div int W_THREADS \<and> \<not> finished then Some (Go d (W_check i (withdraw_sum env t i)))
          else Some (Go (d\<lparr>w_returned := (w_returned d)(t := True)\<rparr>) W_end)
      | W_check i amount \<Rightarrow> Some (Go d (if balance d < amount then W_test i else W_read i amount))
      | W_read i amount \<Rightarrow> Some (Go d (W_write i amount (balance d)))
      | W_write i amount b \<Rightarrow> Some (Go (d\<lparr>balance := b - amount\<rparr>) (W_sum i amount))
      | W_sum i amount \<Rightarrow> Some (Go (d\<lparr>withdrawn := (withdrawn d)(t := withdrawn d t + amount)\<rparr>) (W_test i))
      | W_test i \<Rightarrow> Some (Go d (W_loop (i + 1) (balance d \<le> 0)))
      | _ \<Rightarrow> None)"

definition withdraw_main :: "withdraw_env \<Rightarrow> int \<Rightarrow> wdata \<Rightarrow> wdpc \<Rightarrow> (wdata, wdpc) act option" where
  "withdraw_main env A d pc =
     (case pc of
        Mw_create t \<Rightarrow>
          if t < W_THREADS then
            (if w_create_fails env t then Some (Quit d EXIT_FAILURE)
             else Some (Go (d\<lparr>w_created := t + 1\<rparr>) (Mw_create (t + 1))))
          else Some (Go d (Mw_join 0 0))
      | Mw_join t so_far \<Rightarrow>
          if t < W_THREADS then
            (if w_join_fails env t then Some (Quit d EXIT_FAILURE)
             else if w_returned d t then Some (Go d (Mw_join (t + 1) (so_far + withdrawn d t))) else None)
          else Some (Go d (Mw_report so_far))
      | Mw_report sum_total \<Rightarrow>
          Some (Quit (d\<lparr>w_report := Some (balance d, sum_total, balance d + sum_total \<noteq> A)\<rparr>) EXIT_SUCCESS)
      | _ \<Rightarrow> None)"

definition withdraw_outs :: "withdraw_env \<Rightarrow> int \<Rightarrow> nat \<Rightarrow> wdata \<Rightarrow> wdpc \<Rightarrow> (wdata, wdpc) act option" where
  "withdraw_outs env A t d pc =
     (if t = W_THREADS then withdraw_main env A d pc
      else if t < w_created d then do_withdrawals env A t d pc else None)"

definition withdraw_data0 :: "int \<Rightarrow> wdata" where
  "withdraw_data0 A = \<lparr>balance = A, withdrawn = (\<lambda>_. 0), w_created = 0, w_returned = (\<lambda>_. False), w_report = None\<rparr>"

definition withdraw_locals :: "nat \<Rightarrow> wdpc" where
  "withdraw_locals t = (if t = W_THREADS then Mw_create 0 else W_loop 0 False)"

abbreviation withdraw_step :: "withdraw_env \<Rightarrow> int \<Rightarrow> (wdata process, wdpc) tstep" where
  "withdraw_step env A \<equiv> free_step (withdraw_outs env A)"

abbreviation withdraw_start :: "int \<Rightarrow> (wdata process, wdpc) conf" where
  "withdraw_start A \<equiv> ((withdraw_data0 A, None), withdraw_locals)"

lemmas withdraw_defs = withdraw_outs_def withdraw_main_def do_withdrawals_def

section \<open>Every run ends\<close>

text \<open>The number of rounds of a thread.\<close>
definition w_rounds :: "int \<Rightarrow> nat" where
  "w_rounds A = nat (A div int W_THREADS)"

fun withdraw_weight :: "int \<Rightarrow> wdpc \<Rightarrow> nat" where
  "withdraw_weight A (W_loop i f) = 6 * (w_rounds A - i) + 1"
| "withdraw_weight A (W_check i a) = 6 * (w_rounds A - 1 - i) + 6"
| "withdraw_weight A (W_read i a) = 6 * (w_rounds A - 1 - i) + 5"
| "withdraw_weight A (W_write i a b) = 6 * (w_rounds A - 1 - i) + 4"
| "withdraw_weight A (W_sum i a) = 6 * (w_rounds A - 1 - i) + 3"
| "withdraw_weight A (W_test i) = 6 * (w_rounds A - 1 - i) + 2"
| "withdraw_weight A W_end = 0"
| "withdraw_weight A (Mw_create t) = (W_THREADS - t) + W_THREADS + 3"
| "withdraw_weight A (Mw_join t s) = (W_THREADS - t) + 2"
| "withdraw_weight A (Mw_report s) = 1"

lemma withdraw_less: "withdraw_outs env A t d l = Some (Go d' l') \<Longrightarrow> withdraw_weight A l' < withdraw_weight A l"
  by (cases l) (auto simp: withdraw_defs w_rounds_def split: if_splits)

lemma withdraw_sync: "withdraw_outs env A t d l \<noteq> Some (Sync d' l')"
  by (cases l) (auto simp: withdraw_defs)

section \<open>The invariant\<close>

text \<open>What a thread has taken from the balance but not yet counted as its own.\<close>
fun w_pending :: "wdpc \<Rightarrow> int" where
  "w_pending (W_sum i a) = a"
| "w_pending _ = 0"

definition w_taken :: "wdata \<Rightarrow> (nat \<Rightarrow> wdpc) \<Rightarrow> int" where
  "w_taken d ls = (\<Sum>t<W_THREADS. withdrawn d t) + (\<Sum>t<W_THREADS. w_pending (ls t))"

abbreviation amount_ok :: "int \<Rightarrow> bool" where
  "amount_ok a \<equiv> 1 \<le> a \<and> a \<le> MAX_WITHDRAW"

text \<open>A thread of round \<open>i\<close> has withdrawn at most \<open>i\<close> times; the value it has read is not too small.\<close>
fun withdraw_thread_ok :: "int \<Rightarrow> int \<Rightarrow> wdata \<Rightarrow> nat \<Rightarrow> wdpc \<Rightarrow> bool" where
  "withdraw_thread_ok A low d t (W_loop i f) =
     (i \<le> w_rounds A \<and> \<not> w_returned d t \<and> 0 \<le> withdrawn d t \<and> withdrawn d t \<le> MAX_WITHDRAW * int i)"
| "withdraw_thread_ok A low d t (W_check i a) =
     (i < w_rounds A \<and> \<not> w_returned d t \<and> amount_ok a \<and> 0 \<le> withdrawn d t \<and> withdrawn d t \<le> MAX_WITHDRAW * int i)"
| "withdraw_thread_ok A low d t (W_read i a) =
     (i < w_rounds A \<and> \<not> w_returned d t \<and> amount_ok a \<and> 0 \<le> withdrawn d t \<and> withdrawn d t \<le> MAX_WITHDRAW * int i)"
| "withdraw_thread_ok A low d t (W_write i a b) =
     (i < w_rounds A \<and> \<not> w_returned d t \<and> amount_ok a \<and> 0 \<le> withdrawn d t \<and> withdrawn d t \<le> MAX_WITHDRAW * int i \<and>
      low \<le> b \<and> b \<le> A)"
| "withdraw_thread_ok A low d t (W_sum i a) =
     (i < w_rounds A \<and> \<not> w_returned d t \<and> amount_ok a \<and> 0 \<le> withdrawn d t \<and> withdrawn d t \<le> MAX_WITHDRAW * int i)"
| "withdraw_thread_ok A low d t (W_test i) =
     (i < w_rounds A \<and> \<not> w_returned d t \<and> 0 \<le> withdrawn d t \<and> withdrawn d t \<le> MAX_WITHDRAW * int (i + 1))"
| "withdraw_thread_ok A low d t W_end =
     (w_returned d t \<and> 0 \<le> withdrawn d t \<and> withdrawn d t \<le> MAX_WITHDRAW * int (w_rounds A))"
| "withdraw_thread_ok A low d t _ = False"

fun withdraw_main_ok :: "wdata \<Rightarrow> wdpc \<Rightarrow> bool" where
  "withdraw_main_ok d (Mw_create t) = (w_created d = t \<and> t \<le> W_THREADS)"
| "withdraw_main_ok d (Mw_join t s) =
     (w_created d = W_THREADS \<and> t \<le> W_THREADS \<and> (\<forall>j<t. w_returned d j) \<and> s = (\<Sum>j<t. withdrawn d j))"
| "withdraw_main_ok d (Mw_report s) =
     (w_created d = W_THREADS \<and> (\<forall>j<W_THREADS. w_returned d j) \<and> s = (\<Sum>j<W_THREADS. withdrawn d j))"
| "withdraw_main_ok d _ = False"

definition withdraw_inv :: "int \<Rightarrow> wdata \<Rightarrow> (nat \<Rightarrow> wdpc) \<Rightarrow> bool" where
  "withdraw_inv A d ls \<longleftrightarrow>
     A - w_taken d ls \<le> balance d \<and> balance d \<le> A \<and> w_report d = None \<and>
     (\<forall>t<W_THREADS. withdraw_thread_ok A (A - w_taken d ls) d t (ls t)) \<and> withdraw_main_ok d (ls W_THREADS)"

lemma withdraw_sum_ok: "amount_ok (withdraw_sum env t i)"
  using pos_mod_bound [of MAX_WITHDRAW "w_random env t i"] by (simp add: withdraw_sum_def MAX_WITHDRAW_def)

lemma withdraw_thread_frame:
  assumes "withdraw_thread_ok A low d t l" "low' \<le> low" "withdrawn d' t = withdrawn d t" "w_returned d' t = w_returned d t"
  shows "withdraw_thread_ok A low' d' t l"
  using assms by (cases l) auto

text \<open>A step of a thread takes from the balance what it adds to the sum taken.\<close>
lemma w_taken_step:
  assumes "t < W_THREADS" "withdrawn d' = (withdrawn d)(t := x)"
  shows "w_taken d' (ls(t := l')) = w_taken d ls + (x - withdrawn d t) + (w_pending l' - w_pending (ls t))"
  using sum_upd_add [OF assms(1), of "\<lambda>x. x" "withdrawn d" x] sum_upd_add [OF assms(1), of w_pending ls l']
  by (simp add: w_taken_def assms(2))

lemma rounds_Suc: "MAX_WITHDRAW * (1 + int i) = MAX_WITHDRAW + MAX_WITHDRAW * int i"
  by (simp add: distrib_left)

lemma in_rounds: "int i < A div int W_THREADS \<longleftrightarrow> i < w_rounds A"
  unfolding w_rounds_def by (simp add: zless_nat_eq_int_zless)

lemma do_withdrawals_ok:
  assumes "do_withdrawals env A t d l = Some (Go d' l')" "withdraw_thread_ok A (A - taken) d t l"
    and "A - taken \<le> balance d" "balance d \<le> A" "withdrawn d' t = x"
    and "taken' = taken + (x - withdrawn d t) + (w_pending l' - w_pending l)"
  shows "A - taken' \<le> balance d' \<and> balance d' \<le> A \<and> taken \<le> taken' \<and> withdraw_thread_ok A (A - taken') d' t l'"
proof (cases l)
  case (W_loop i f)
  then have "withdrawn d t \<le> MAX_WITHDRAW * int (w_rounds A)"
    using assms(2) by (auto simp: MAX_WITHDRAW_def)
  then show ?thesis
    using W_loop assms withdraw_sum_ok [of env t i] by (auto simp: do_withdrawals_def in_rounds split: if_splits)
next
  case (W_check i a)
  then show ?thesis
    using assms by (auto simp: do_withdrawals_def rounds_Suc split: if_splits)
next
  case (W_sum i a)
  then show ?thesis
    using assms by (auto simp: do_withdrawals_def rounds_Suc)
next
  case (W_test i)
  then show ?thesis using assms by (auto simp: do_withdrawals_def)
qed (use assms in \<open>auto simp: do_withdrawals_def\<close>)

lemma do_withdrawals_inv:
  assumes inv: "withdraw_inv A d ls" and t: "t < W_THREADS"
    and st: "do_withdrawals env A t d (ls t) = Some (Go d' l')"
  shows "withdraw_inv A d' (ls(t := l'))"
proof -
  have ok: "withdraw_thread_ok A (A - w_taken d ls) d t (ls t)" using inv t by (simp add: withdraw_inv_def)
  have f: "w_created d' = w_created d" "w_report d' = w_report d" "\<exists>x. withdrawn d' = (withdrawn d)(t := x)"
      "\<And>j. j \<noteq> t \<Longrightarrow> w_returned d' j = w_returned d j" "w_returned d t \<longrightarrow> w_returned d' t"
    using st by (cases "ls t"; auto simp: do_withdrawals_def fun_eq_iff split: if_splits)+
  then obtain x where x: "withdrawn d' = (withdrawn d)(t := x)" by blast
  have tk: "w_taken d' (ls(t := l')) = w_taken d ls + (x - withdrawn d t) + (w_pending l' - w_pending (ls t))"
    by (rule w_taken_step [OF t x])
  have b: "A - w_taken d' (ls(t := l')) \<le> balance d' \<and> balance d' \<le> A \<and> w_taken d ls \<le> w_taken d' (ls(t := l')) \<and>
      withdraw_thread_ok A (A - w_taken d' (ls(t := l'))) d' t l'"
    using do_withdrawals_ok [OF st ok _ _ _ tk] x inv by (simp add: withdraw_inv_def)
  have o: "withdraw_thread_ok A (A - w_taken d' (ls(t := l'))) d' j (ls j)" if "j < W_THREADS" "j \<noteq> t" for j
    by (rule withdraw_thread_frame [of A "A - w_taken d ls" d]) (use inv that b f x in \<open>auto simp: withdraw_inv_def\<close>)
  have "withdraw_main_ok d' (ls W_THREADS)"
  proof (cases "w_returned d t")
    case True
    then have "ls t = W_end" using ok by (cases "ls t") auto
    then show ?thesis using st by (simp add: do_withdrawals_def)
  next
    case False
    have e: "(\<Sum>j<n. withdrawn d' j) = (\<Sum>j<n. withdrawn d j)" if "\<forall>j<n. w_returned d j" for n
      by (rule sum.cong) (use that False x in auto)
    have k: "w_returned d' j" if "w_returned d j" for j using that f(4,5) by (cases "j = t") auto
    have "withdraw_main_ok d (ls W_THREADS)" using inv by (simp add: withdraw_inv_def)
    then show ?thesis using e k f(1) by (cases "ls W_THREADS") auto
  qed
  then show ?thesis using b o f(2) inv t by (auto simp: withdraw_inv_def)
qed

lemma withdraw_main_inv:
  assumes inv: "withdraw_inv A d ls" and st: "withdraw_main env A d (ls W_THREADS) = Some (Go d' l')"
  shows "withdraw_inv A d' (ls(W_THREADS := l'))"
proof -
  have f: "balance d' = balance d" "withdrawn d' = withdrawn d" "w_returned d' = w_returned d" "w_report d' = w_report d"
    using st by (cases "ls W_THREADS"; auto simp: withdraw_main_def split: if_splits)+
  have tk: "w_taken d' (ls(W_THREADS := l')) = w_taken d ls" by (simp add: w_taken_def f(2))
  have "withdraw_main_ok d (ls W_THREADS)" using inv by (simp add: withdraw_inv_def)
  then have "withdraw_main_ok d' l'"
    using st by (cases "ls W_THREADS") (auto simp: withdraw_main_def less_Suc_eq split: if_splits)
  moreover have "withdraw_thread_ok A (A - w_taken d ls) d' t (ls t)" if "t < W_THREADS" for t
    by (rule withdraw_thread_frame [of A "A - w_taken d ls" d]) (use inv that f in \<open>auto simp: withdraw_inv_def\<close>)
  ultimately show ?thesis using inv f tk by (simp add: withdraw_inv_def)
qed

lemma withdraw_inv_step:
  assumes "withdraw_inv A d ls" "t < W_THREADS + 1" "withdraw_outs env A t d (ls t) = Some (Go d' l')"
  shows "withdraw_inv A d' (ls(t := l'))"
  using assms do_withdrawals_inv [OF assms(1), of t env d' l'] withdraw_main_inv [OF assms(1), of env d' l']
  by (auto simp: withdraw_outs_def split: if_splits)

text \<open>How the program ends.\<close>
definition withdraw_end :: "withdraw_env \<Rightarrow> int \<Rightarrow> wdata \<Rightarrow> int \<Rightarrow> bool" where
  "withdraw_end env A d x \<longleftrightarrow>
     x = EXIT_FAILURE \<and> w_report d = None \<and> (\<exists>t<W_THREADS. w_create_fails env t \<or> w_join_fails env t) \<or>
     x = EXIT_SUCCESS \<and> (let s = (\<Sum>t<W_THREADS. withdrawn d t) in
       w_report d = Some (balance d, s, balance d + s \<noteq> A) \<and> A \<le> balance d + s \<and> balance d \<le> A \<and>
       0 \<le> s \<and> s \<le> MAX_WITHDRAW * int (W_THREADS * w_rounds A))"

lemma withdraw_quit:
  assumes inv: "withdraw_inv A d ls" and t: "t < W_THREADS + 1"
    and st: "withdraw_outs env A t d (ls t) = Some (Quit d' x)"
  shows "withdraw_end env A d' x"
proof (cases "t = W_THREADS")
  case True
  have m: "withdraw_main_ok d (ls W_THREADS)" "w_report d = None" using inv by (simp_all add: withdraw_inv_def)
  show ?thesis
  proof (cases "\<exists>s. ls W_THREADS = Mw_report s")
    case False
    then show ?thesis
      using st True m by (cases "ls W_THREADS") (auto simp: withdraw_outs_def withdraw_main_def withdraw_end_def split: if_splits)
  next
    case True
    then obtain s where s: "ls W_THREADS = Mw_report s" by blast
    have r: "ls j = W_end" "0 \<le> withdrawn d j" "withdrawn d j \<le> MAX_WITHDRAW * int (w_rounds A)" if "j < W_THREADS" for j
    proof -
      have o: "withdraw_thread_ok A (A - w_taken d ls) d j (ls j)" "w_returned d j"
        using inv that m(1) s by (simp_all add: withdraw_inv_def)
      then show e: "ls j = W_end" by (cases "ls j") auto
      show "0 \<le> withdrawn d j" "withdrawn d j \<le> MAX_WITHDRAW * int (w_rounds A)" using o e by simp_all
    qed
    have p: "(\<Sum>j<W_THREADS. w_pending (ls j)) = 0" using r(1) by (intro sum.neutral) auto
    have "s = (\<Sum>j<W_THREADS. withdrawn d j)" using m(1) s by simp
    moreover from this p have "w_taken d ls = s" by (simp add: w_taken_def)
    moreover have "0 \<le> (\<Sum>j<W_THREADS. withdrawn d j)" using r(2) by (intro sum_nonneg) auto
    moreover have "(\<Sum>j<W_THREADS. withdrawn d j) \<le> (\<Sum>j<W_THREADS. MAX_WITHDRAW * int (w_rounds A))"
      using r(3) by (intro sum_mono) auto
    ultimately show ?thesis
      using st \<open>t = W_THREADS\<close> s inv
      by (auto simp: withdraw_outs_def withdraw_main_def withdraw_end_def withdraw_inv_def Let_def algebra_simps)
  qed
next
  case False
  then show ?thesis
    using st by (cases "ls t") (auto simp: withdraw_outs_def do_withdrawals_def split: if_splits)
qed

lemma withdraw_moves:
  assumes "withdraw_inv A d ls"
  shows "\<exists>t<W_THREADS + 1. withdraw_outs env A t d (ls t) \<noteq> None"
proof (cases "\<exists>t s. ls W_THREADS = Mw_join t s \<and> t < W_THREADS \<and> \<not> w_returned d t")
  case True
  then obtain t s where t: "ls W_THREADS = Mw_join t s" "t < W_THREADS" "\<not> w_returned d t" by blast
  have "withdraw_thread_ok A (A - w_taken d ls) d t (ls t)" "t < w_created d"
    using assms t by (auto simp: withdraw_inv_def)
  then have "withdraw_outs env A t d (ls t) \<noteq> None"
    using t(2,3) by (cases "ls t") (auto simp: withdraw_outs_def do_withdrawals_def)
  then show ?thesis using t(2) by (intro exI [of _ t]) simp
next
  case False
  then have "withdraw_outs env A W_THREADS d (ls W_THREADS) \<noteq> None"
    using assms by (cases "ls W_THREADS") (auto simp: withdraw_inv_def withdraw_outs_def withdraw_main_def)
  then show ?thesis by (intro exI [of _ W_THREADS]) simp
qed

lemma withdraw_inv_start: "withdraw_inv A (withdraw_data0 A) withdraw_locals"
  by (simp add: withdraw_inv_def withdraw_data0_def withdraw_locals_def w_taken_def)

interpretation withdrawing: finite_program "W_THREADS + 1" "withdraw_outs env A" "withdraw_inv A" "withdraw_end env A"
    "withdraw_weight A" False
  for env A
proof (unfold_locales, goal_cases)
  case 1
  show ?case by (rule withdraw_sync)
next
  case 2
  then show ?case by (rule withdraw_less)
next
  case 3
  then show ?case by (rule withdraw_inv_step)
next
  case 4
  then show ?case by (rule withdraw_quit)
next
  case 5
  then show ?case by (intro withdraw_moves)
qed

text \<open>A bound for what is taken, so that the \<open>int\<close>s do not overflow: at most 64 times the initial amount.\<close>
lemma w_taken_bound:
  assumes "withdraw_inv A d ls"
  shows "w_taken d ls \<le> MAX_WITHDRAW * int (W_THREADS * w_rounds A)"
proof -
  have "withdrawn d t + w_pending (ls t) \<le> MAX_WITHDRAW * int (w_rounds A)" if "t < W_THREADS" for t
  proof -
    have "withdraw_thread_ok A (A - w_taken d ls) d t (ls t)" using assms that by (simp add: withdraw_inv_def)
    then show ?thesis by (cases "ls t") (auto simp: MAX_WITHDRAW_def)
  qed
  then have "(\<Sum>t<W_THREADS. withdrawn d t + w_pending (ls t)) \<le> (\<Sum>t<W_THREADS. MAX_WITHDRAW * int (w_rounds A))"
    by (intro sum_mono) auto
  then show ?thesis by (simp add: w_taken_def sum.distrib algebra_simps)
qed

section \<open>Property\<close>

text \<open>C18. However the unsynchronized withdrawals of \<open>bank_withdraw.c\<close> and \<open>bank_withdrawal.c\<close> interleave: the balance stays
  at most the initial amount and at least that amount minus 64 times itself, so that no \<open>int\<close> overflows; lost updates only make the
  balance too large, so that the balance and the total withdrawn are together at least the initial amount, and they are reported as lost
  exactly when they are more. Every run ends, within a bound, with \<open>EXIT_SUCCESS\<close> unless \<open>pthread_create\<close> or
  \<open>pthread_join\<close> fails.\<close>
theorem withdrawals_bounded:
  assumes "run_sched (W_THREADS + 1) (withdraw_step env A) sched (withdraw_start A) = Some ((d, x), ls)"
  shows "length sched \<le> 24 * w_rounds A + 16 \<and>
    (x = None \<longrightarrow> A - MAX_WITHDRAW * int (W_THREADS * w_rounds A) \<le> balance d \<and> balance d \<le> A) \<and>
    (stuck (W_THREADS + 1) (withdraw_step env A) ((d, x), ls) \<longrightarrow> x \<noteq> None) \<and>
    (\<forall>e. x = Some e \<longrightarrow> withdraw_end env A d e)"
proof (intro conjI impI)
  note reach = run_sched_reach [OF assms]
  show "length sched \<le> 24 * w_rounds A + 16"
    using withdrawing.run_length [OF assms] by (simp add: withdraw_locals_def W_THREADS_def numeral_eq_Suc)
  show "A - MAX_WITHDRAW * int (W_THREADS * w_rounds A) \<le> balance d" "balance d \<le> A" if "x = None"
    using withdrawing.while_running [OF _ withdraw_inv_start] reach that w_taken_bound [of A d ls]
    by (fastforce simp: withdraw_inv_def)+
  show "x \<noteq> None" if "stuck (W_THREADS + 1) (withdraw_step env A) ((d, x), ls)"
    using withdrawing.stuck_end [OF reach withdraw_inv_start that] by blast
  show "\<forall>e. x = Some e \<longrightarrow> withdraw_end env A d e"
    using withdrawing.at_end [OF _ withdraw_inv_start] reach by blast
qed

definition calm_bank :: withdraw_env where
  "calm_bank = \<lparr>w_random = (\<lambda>t i. 0), w_create_fails = (\<lambda>_. False), w_join_fails = (\<lambda>_. False)\<rparr>"

text \<open>Four units: threads 0 and 1 read the same balance, then all go on one after the other.\<close>
definition withdraw_run :: "nat list" where
  "withdraw_run = replicate 5 4 @ replicate 3 0 @ replicate 3 1 @ replicate 4 0 @ replicate 4 1 @ replicate 7 2 @ replicate 7 3 @
     replicate 6 4"

lemma withdraw_run_ends:
  "case run_sched (W_THREADS + 1) (withdraw_step calm_bank 4) withdraw_run (withdraw_start 4) of
     None \<Rightarrow> False | Some c \<Rightarrow> snd (fst c) = Some 0 \<and> balance (fst (fst c)) = 1"
  by code_simp

theorem withdrawals_bounded_witness:
  "\<exists>d ls. run_sched (W_THREADS + 1) (withdraw_step calm_bank 4) withdraw_run (withdraw_start 4) = Some ((d, Some 0), ls) \<and>
     balance d = 1 \<and> 4 \<le> balance d + (\<Sum>t<W_THREADS. withdrawn d t)"
proof -
  obtain d ls where c: "run_sched (W_THREADS + 1) (withdraw_step calm_bank 4) withdraw_run (withdraw_start 4) = Some ((d, Some 0), ls)"
      "balance d = 1"
    using withdraw_run_ends by (auto split: option.splits)
  have "withdraw_end calm_bank 4 d 0" using withdrawals_bounded [OF c(1)] by blast
  then show ?thesis using c by (auto simp: withdraw_end_def Let_def)
qed

text \<open>In \<open>bank_withdraw.c\<close> one of two withdrawals can be lost.\<close>
theorem withdrawal_lost:
  "\<exists>c. reach (W_THREADS + 1) (withdraw_step calm_bank withdraw_amount) (withdraw_start withdraw_amount) c \<and>
     withdrawn (fst (fst c)) 0 = 1 \<and> withdrawn (fst (fst c)) 1 = 1 \<and> balance (fst (fst c)) = withdraw_amount - 1"
proof -
  have "case run_sched (W_THREADS + 1) (withdraw_step calm_bank withdraw_amount) (replicate 5 4 @ replicate 3 0 @ replicate 5 1 @ replicate 2 0)
      (withdraw_start withdraw_amount) of
      None \<Rightarrow> False
    | Some c \<Rightarrow> withdrawn (fst (fst c)) 0 = 1 \<and> withdrawn (fst (fst c)) 1 = 1 \<and> balance (fst (fst c)) = withdraw_amount - 1"
    by code_simp
  from run_case [OF this] show ?thesis .
qed

end
