(* ===== verification/Address_Translation.thy ===== *)
theory Address_Translation
  imports Libc
begin

text \<open>
  \<open>08-shared_memory/address_translation_paging_partial.c\<close>: the translation of linear addresses through a page
  table in a file. The options, the checks and \<open>main\<close> are complete, the access of the table is left to the
  students (\<open>FIXME\<close>). What a local variable holds before it is assigned is the parameter \<open>junk\<close>; an
  operation that C leaves undefined is \<open>None\<close>.
\<close>

definition LINEAR_ADDRESS_SIZE :: nat where "LINEAR_ADDRESS_SIZE = 32"
definition DEFAULT_PT_FNAME :: string where "DEFAULT_PT_FNAME = ''page_table.dat''"
definition DEFAULT_OFFSET_SIZE :: "8 word" where "DEFAULT_OFFSET_SIZE = 12"
definition DEFAULT_PAGE_TABLE_ENTRY_SIZE :: "8 word" where "DEFAULT_PAGE_TABLE_ENTRY_SIZE = 32"

text \<open>The file-scope variables; the sizes are \<open>uint8_t\<close>.\<close>
record pt_cfg =
  pt_verbose :: int
  offset_size :: "8 word"
  page_table_entry_size :: "8 word"
  frame_start_bit :: "8 word"
  frame_size_limit :: "8 word"
  pt_filename :: string
  frame_size :: "8 word"

definition pt_defaults :: pt_cfg where
  "pt_defaults =
     \<lparr>pt_verbose = 1, offset_size = DEFAULT_OFFSET_SIZE, page_table_entry_size = DEFAULT_PAGE_TABLE_ENTRY_SIZE,
      frame_start_bit = DEFAULT_OFFSET_SIZE, frame_size_limit = 64, pt_filename = DEFAULT_PT_FNAME, frame_size = 0\<rparr>"

section \<open>Options\<close>

definition pt_eval_opt :: "pt_cfg \<Rightarrow> opt_event \<Rightarrow> pt_cfg outcome" where
  "pt_eval_opt cfg e =
     (case e of
        Bad c \<Rightarrow> Exits EXIT_FAILURE cfg
      | Opt ch arg \<Rightarrow>
          if ch = CHR ''o'' then
            (let c1 = cfg\<lparr>offset_size := word_of_int (strtol_any arg)\<rparr> in
             if unat (offset_size c1) > LINEAR_ADDRESS_SIZE \<or> unat (offset_size c1) < 4 then Exits EXIT_FAILURE c1
             else Returns c1)
          else if ch = CHR ''e'' then
            (let c1 = cfg\<lparr>page_table_entry_size := word_of_int (strtol_any arg)\<rparr> in
             if page_table_entry_size c1 = 32 \<or> page_table_entry_size c1 = 64 then Returns c1
             else Exits EXIT_FAILURE c1)
          else if ch = CHR ''f'' then Returns (cfg\<lparr>frame_size_limit := word_of_int (strtol_any arg)\<rparr>)
          else if ch = CHR ''t'' then Returns (cfg\<lparr>pt_filename := arg\<rparr>)
          else if ch = CHR ''q'' then Returns (cfg\<lparr>pt_verbose := 0\<rparr>)
          else if ch = CHR ''v'' then Returns (cfg\<lparr>pt_verbose := pt_verbose cfg + 1\<rparr>)
          else if ch = CHR ''h'' then Exits EXIT_SUCCESS cfg
          else Exits EXIT_FAILURE cfg)"

text \<open>The assignments after the loop.\<close>
definition pt_adjust :: "pt_cfg \<Rightarrow> pt_cfg" where
  "pt_adjust cfg =
     (let c1 = cfg\<lparr>frame_start_bit := offset_size cfg, frame_size := page_table_entry_size cfg - offset_size cfg\<rparr> in
      if frame_size c1 > frame_size_limit c1 then c1\<lparr>frame_size := frame_size_limit c1\<rparr> else c1)"

definition pt_eval_args :: "string list \<Rightarrow> pt_cfg outcome" where
  "pt_eval_args args =
     (case opt_loop pt_eval_opt pt_defaults (getopt ''hqvo:e:f:t:'' args) of
        Exits x c \<Rightarrow> Exits x c
      | Returns c \<Rightarrow> Returns (pt_adjust c))"

section \<open>Translation\<close>

definition SUCCESS :: int where "SUCCESS = 0"
definition INVALID_PAGE_SIZE :: int where "INVALID_PAGE_SIZE = 1"
definition INVALID_PAGE_NUMBER :: int where "INVALID_PAGE_NUMBER = 2"

text \<open>\<open>1 << n\<close> in \<open>int\<close>: undefined from 32 on; gcc documents that it does not treat the overflow of
  \<open>1 << 31\<close> as undefined.\<close>
definition shl_one :: "nat \<Rightarrow> cint option" where
  "shl_one n = (if n < 32 then Some (push_bit n 1) else None)"

text \<open>\<open>page2frame\<close> up to the access of the table; \<open>page\<close> is unsigned, and so is the comparison.\<close>
definition page2frame :: "cuint \<Rightarrow> 8 word \<Rightarrow> int option" where
  "page2frame page page_bits =
     (if unat page_bits > 64 then Some INVALID_PAGE_SIZE
      else case shl_one (unat page_bits) of
        None \<Rightarrow> None
      | Some entries \<Rightarrow> if page \<ge> entries then Some INVALID_PAGE_NUMBER else Some SUCCESS)"

text \<open>What is printed, with the values in it.\<close>
datatype pt_line =
    Linear_address cuint | Page_number cuint cuint | Frame_number "64 word" | Frame_address "64 word"
  | Physical_address "64 word" | Result "64 word" | Translation_error cuint int

text \<open>\<open>linear2physical\<close>: nothing assigns \<open>page_number\<close> and \<open>offset\<close>, and \<open>*physical_address\<close> stays.\<close>
definition linear2physical ::
    "pt_cfg \<Rightarrow> cuint \<times> cuint \<Rightarrow> cuint \<Rightarrow> 64 word \<Rightarrow> int \<times> 64 word \<times> pt_line list" where
  "linear2physical cfg junk linear_address physical_address =
     (SUCCESS, physical_address,
      (if pt_verbose cfg > 0 then [Linear_address linear_address, Page_number (fst junk) (snd junk)] else []) @
      (if pt_verbose cfg > 0 then [Frame_number (drop_bit (unat (offset_size cfg)) physical_address)] else []) @
      (if pt_verbose cfg > 1 then [Frame_address physical_address, Physical_address physical_address] else []))"

section \<open>The table\<close>

text \<open>What the system answers: an error number or the descriptor, an error number or the size of the file.\<close>
record pt_env =
  pt_open :: "string \<Rightarrow> int + nat"
  pt_fstat :: "nat \<Rightarrow> int + nat"

text \<open>The result, and the descriptor that stays open. The wanted size is not assigned either.\<close>
definition load_page_tables :: "pt_env \<Rightarrow> nat \<Rightarrow> string \<Rightarrow> int \<times> nat option" where
  "load_page_tables env pt_size fname =
     (case pt_open env fname of
        Inl errno \<Rightarrow> (errno, None)
      | Inr fd \<Rightarrow>
          (case pt_fstat env fd of
             Inl errno \<Rightarrow> (errno, Some fd)
           | Inr st_size \<Rightarrow> if pt_size > st_size then (EXIT_FAILURE, None) else (EXIT_SUCCESS, Some fd)))"

text \<open>The loop over the arguments; \<open>physical_address\<close> keeps its value from one to the next.\<close>
fun translate_all ::
    "pt_cfg \<Rightarrow> cuint \<times> cuint \<Rightarrow> 64 word \<Rightarrow> string list \<Rightarrow> pt_line list" where
  "translate_all cfg junk physical_address [] = []"
| "translate_all cfg junk physical_address (a # as) =
     (let linear_address = word_of_int (strtol_any a);
          (rc, pa, out) = linear2physical cfg junk linear_address physical_address
      in out @ (if rc \<noteq> SUCCESS then [Translation_error linear_address rc] else [Result pa]) @
         translate_all cfg junk pa as)"

definition pt_main :: "pt_env \<Rightarrow> nat \<Rightarrow> cuint \<times> cuint \<Rightarrow> string list \<Rightarrow> int \<times> pt_line list" where
  "pt_main env junk_size junk args =
     (case pt_eval_args args of
        Exits x c \<Rightarrow> (x, [])
      | Returns cfg \<Rightarrow>
          if fst (load_page_tables env junk_size (pt_filename cfg)) \<noteq> EXIT_SUCCESS then (EXIT_FAILURE, [])
          else (EXIT_SUCCESS, translate_all cfg junk 0 (operands ''hqvo:e:f:t:'' args)))"

text \<open>An exit is the doing of one of the options.\<close>
lemma opt_loop_exit_event:
  "opt_loop f c es = Exits x c' \<Longrightarrow> \<exists>e d. e \<in> set es \<and> f d e = Exits x c'"
proof (induction es arbitrary: c)
  case (Cons e es)
  then show ?case by (cases "f c e") (simp_all, blast+)
qed simp

section \<open>Options that pass\<close>

definition pt_cfg_ok :: "pt_cfg \<Rightarrow> bool" where
  "pt_cfg_ok c \<longleftrightarrow> 4 \<le> unat (offset_size c) \<and> unat (offset_size c) \<le> 32 \<and>
     page_table_entry_size c \<in> {32, 64}"

lemma pt_eval_opt_ok: "pt_cfg_ok c \<Longrightarrow> pt_eval_opt c e = Returns c' \<Longrightarrow> pt_cfg_ok c'"
  by (auto simp: pt_eval_opt_def pt_cfg_ok_def LINEAR_ADDRESS_SIZE_def Let_def split: opt_event.splits if_splits)

lemma pt_defaults_ok: "pt_cfg_ok pt_defaults"
  by (simp add: pt_cfg_ok_def pt_defaults_def DEFAULT_OFFSET_SIZE_def DEFAULT_PAGE_TABLE_ENTRY_SIZE_def)

lemma pt_eval_opt_exit:
  "pt_eval_opt c e = Exits x c' \<Longrightarrow> x = EXIT_SUCCESS \<and> (\<exists>a. e = Opt CHR ''h'' a) \<or> x = EXIT_FAILURE"
  by (auto simp: pt_eval_opt_def Let_def split: opt_event.splits if_splits)

lemma pt_frame_size:
  assumes "pt_cfg_ok c"
  shows "unat (page_table_entry_size c - offset_size c) = unat (page_table_entry_size c) - unat (offset_size c)"
  using assms by (intro unat_sub) (auto simp: pt_cfg_ok_def word_le_nat_alt)

lemma pt_options_ok:
  assumes "opt_loop pt_eval_opt pt_defaults es = Returns c"
  shows "pt_cfg_ok c"
  by (rule opt_loop_invariant [where P = pt_cfg_ok, OF _ assms pt_defaults_ok]) (rule pt_eval_opt_ok)

lemma shl_one_unat:
  assumes "n < 32"
  shows "\<exists>w. shl_one n = Some w \<and> unat w = 2 ^ n"
proof -
  have "unat (push_bit n (1 :: cint)) = 2 ^ n"
    unfolding unsigned_push_bit_eq using assms by (simp add: take_bit_nat_eq_self)
  then show ?thesis using assms by (simp add: shl_one_def)
qed

lemma drop_bit_page:
  assumes "n \<le> 32"
  shows "unat (drop_bit n (a :: cuint)) < 2 ^ (32 - n)"
proof -
  have "unat a < 2 ^ n * 2 ^ (32 - n)"
    using unsigned_less [of a] assms by (simp flip: power_add)
  then show ?thesis unfolding unat_drop_bit_eq by (simp add: drop_bit_eq_div less_mult_imp_div_less mult.commute)
qed

section \<open>Properties\<close>

text \<open>\<open>eval_args\<close> of the address translation ends the process, with \<open>EXIT_SUCCESS\<close> only for \<open>-h\<close>, or leaves an
  offset of 4 to 32 bits, entries of 32 or 64 bits, and a frame number that is as large as the limit and the entry
  allow and lies inside the entry. The value after \<open>-o\<close> is cut to eight bits before it is checked: 260
  is taken as 4.\<close>
theorem pt_eval_args_bounds:
  "(case pt_eval_args args of
      Returns cfg \<Rightarrow>
        4 \<le> unat (offset_size cfg) \<and> unat (offset_size cfg) \<le> 32 \<and> page_table_entry_size cfg \<in> {32, 64} \<and>
        frame_start_bit cfg = offset_size cfg \<and>
        unat (frame_size cfg) = min (unat (frame_size_limit cfg)) (unat (page_table_entry_size cfg) - unat (offset_size cfg)) \<and>
        unat (frame_start_bit cfg) + unat (frame_size cfg) \<le> unat (page_table_entry_size cfg)
    | Exits x cfg \<Rightarrow> x = EXIT_FAILURE \<or> x = EXIT_SUCCESS \<and> (\<exists>a. Opt CHR ''h'' a \<in> set (getopt ''hqvo:e:f:t:'' args))) \<and>
   (\<exists>cfg. pt_eval_args [''-o'', ''260''] = Returns cfg \<and> offset_size cfg = 4)"
proof
  show "\<exists>cfg. pt_eval_args [''-o'', ''260''] = Returns cfg \<and> offset_size cfg = 4"
    by (rule exI [of _ "case pt_eval_args [''-o'', ''260''] of Returns c \<Rightarrow> c | Exits x c \<Rightarrow> c"]) code_simp
  show "case pt_eval_args args of
      Returns cfg \<Rightarrow>
        4 \<le> unat (offset_size cfg) \<and> unat (offset_size cfg) \<le> 32 \<and> page_table_entry_size cfg \<in> {32, 64} \<and>
        frame_start_bit cfg = offset_size cfg \<and>
        unat (frame_size cfg) = min (unat (frame_size_limit cfg)) (unat (page_table_entry_size cfg) - unat (offset_size cfg)) \<and>
        unat (frame_start_bit cfg) + unat (frame_size cfg) \<le> unat (page_table_entry_size cfg)
    | Exits x cfg \<Rightarrow> x = EXIT_FAILURE \<or> x = EXIT_SUCCESS \<and> (\<exists>a. Opt CHR ''h'' a \<in> set (getopt ''hqvo:e:f:t:'' args))"
  proof (cases "opt_loop pt_eval_opt pt_defaults (getopt ''hqvo:e:f:t:'' args)")
    case (Returns c)
    note ok = pt_options_ok [OF Returns]
    then have "unat (offset_size c) \<le> unat (page_table_entry_size c)" by (auto simp: pt_cfg_ok_def)
    then show ?thesis
      using Returns ok pt_frame_size [OF ok]
      by (auto simp: pt_eval_args_def pt_adjust_def pt_cfg_ok_def Let_def word_less_nat_alt min_def)
  next
    case (Exits x c)
    then show ?thesis using opt_loop_exit_event [OF Exits] pt_eval_opt_exit by (fastforce simp: pt_eval_args_def)
  qed
qed

text \<open>C36. What the check of \<open>page2frame\<close> does for each number of bits: it is right up to 31 bits, undefined from
  32 to 64, which the check before it lets pass, and answers \<open>INVALID_PAGE_SIZE\<close> above. With
  the options that pass, the number of the page of any address is in range, so that no address is
  refused.\<close>
theorem page2frame_check:
  "page2frame page page_bits =
     (if unat page_bits \<le> 31 then
        Some (if unat page < 2 ^ unat page_bits then SUCCESS else INVALID_PAGE_NUMBER)
      else if unat page_bits \<le> 64 then None else Some INVALID_PAGE_SIZE) \<and>
   (pt_eval_args args = Returns cfg \<longrightarrow>
      page2frame (drop_bit (unat (offset_size cfg)) linear) (of_nat LINEAR_ADDRESS_SIZE - offset_size cfg) = Some SUCCESS)"
proof
  show spec: "page2frame page page_bits =
     (if unat page_bits \<le> 31 then
        Some (if unat page < 2 ^ unat page_bits then SUCCESS else INVALID_PAGE_NUMBER)
      else if unat page_bits \<le> 64 then None else Some INVALID_PAGE_SIZE)" for page page_bits
    using shl_one_unat [of "unat page_bits"]
    by (auto simp: page2frame_def shl_one_def word_le_nat_alt not_le split: option.splits)
  show "pt_eval_args args = Returns cfg \<longrightarrow>
      page2frame (drop_bit (unat (offset_size cfg)) linear) (of_nat LINEAR_ADDRESS_SIZE - offset_size cfg) = Some SUCCESS"
  proof
    assume "pt_eval_args args = Returns cfg"
    then have o: "4 \<le> unat (offset_size cfg)" "unat (offset_size cfg) \<le> 32"
      using pt_options_ok by (auto simp: pt_eval_args_def pt_adjust_def pt_cfg_ok_def Let_def split: outcome.splits)
    have "unat (of_nat LINEAR_ADDRESS_SIZE - offset_size cfg) = 32 - unat (offset_size cfg)"
      using o by (subst unat_sub) (auto simp: LINEAR_ADDRESS_SIZE_def word_le_nat_alt)
    then show "page2frame (drop_bit (unat (offset_size cfg)) linear) (of_nat LINEAR_ADDRESS_SIZE - offset_size cfg) = Some SUCCESS"
      using spec drop_bit_page [OF o(2), of linear] o(1) by simp
  qed
qed

theorem page2frame_check_witness:
  "page2frame (drop_bit 12 0x12345678) 20 = Some SUCCESS \<and> page2frame 7 32 = None"
proof -
  have e: "pt_eval_args [''-q''] = Returns (pt_adjust (pt_defaults\<lparr>pt_verbose := 0\<rparr>))" by code_simp
  have o: "offset_size (pt_adjust (pt_defaults\<lparr>pt_verbose := 0\<rparr>)) = 12" by code_simp
  show ?thesis
    using page2frame_check [of 7 32 "[''-q'']" "pt_adjust (pt_defaults\<lparr>pt_verbose := 0\<rparr>)" "0x12345678"] e o
    by (simp add: LINEAR_ADDRESS_SIZE_def)
qed

text \<open>As long as the access of the table is missing, the result for every address is 0.\<close>
lemma translate_all_zero:
  "Result pa \<in> set (translate_all cfg junk 0 as) \<Longrightarrow> pa = 0"
  by (induction as) (auto simp: linear2physical_def SUCCESS_def split: if_splits)

end
