(* ===== verification/Prime_Threads.thy ===== *)
theory Prime_Threads
  imports Libc
begin

text \<open>
  \<open>03-pthreads/pthread_join.c\<close>, \<open>pthread_join2.c\<close> and \<open>pthread_join3.c\<close>: a thread looks for the \<open>n\<close>-th prime number and
  passes it to \<open>main\<close>, as the address of a local variable, as a pointer made of the number, or in a global variable.
  \<open>main\<close> does nothing between \<open>pthread_create\<close> and \<open>pthread_join\<close>, so that the thread's function is called in between.
  An \<open>int\<close> is an integer, and \<open>None\<close> where an addition leaves its range.
\<close>

definition INT_MAX :: int where "INT_MAX = 2 ^ 31 - 1"

section \<open>The search\<close>

text \<open>The inner loop, from \<open>factor\<close> on: the value of \<open>is_prime\<close> after it.\<close>
function is_prime_from :: "int \<Rightarrow> int \<Rightarrow> bool" where
  "is_prime_from candidate factor =
     (if factor \<le> candidate div 2 then
        (if candidate mod factor = 0 then False else is_prime_from candidate (factor + 1))
      else True)"
  by auto
termination by (relation "measure (\<lambda>(candidate, factor). nat (candidate div 2 + 1 - factor))") auto

text \<open>The outer loop, \<open>n\<close> primes before its end.\<close>
function next_prime :: "int \<Rightarrow> int \<Rightarrow> int option" where
  "next_prime candidate n =
     (if is_prime_from candidate 2 \<and> n - 1 = 0 then Some candidate
      else if candidate < INT_MAX then
        next_prime (candidate + 1) (if is_prime_from candidate 2 then n - 1 else n)
      else None)"
  by auto
termination by (relation "measure (\<lambda>(candidate, n). nat (INT_MAX - candidate))") auto

declare is_prime_from.simps [simp del] next_prime.simps [simp del]

section \<open>The three ways to pass the result\<close>

text \<open>What a thread's function returns: no pointer, the address of one of its own variables, or an address made of an
  \<open>int\<close>, which is extended to 64 bits.\<close>
datatype thread_value = Null | Own_variable | Cast "64 word"

text \<open>\<open>None\<close> is an overflow.\<close>
definition compute_prime :: "int \<Rightarrow> thread_value option" where
  "compute_prime n =
     (if n \<le> 0 then Some Null
      else case next_prime 2 n of None \<Rightarrow> None | Some candidate \<Rightarrow> Some Own_variable)"

definition compute_prime_cast :: "int \<Rightarrow> thread_value option" where
  "compute_prime_cast n =
     (if n \<le> 0 then Some Null
      else case next_prime 2 n of
        None \<Rightarrow> None
      | Some candidate \<Rightarrow> Some (Cast (scast (word_of_int candidate :: cint))))"

text \<open>The value of the global variable \<open>prime\<close> after the thread.\<close>
definition compute_prime_global :: "int \<Rightarrow> int \<Rightarrow> int option" where
  "compute_prime_global prime n = (if n \<le> 0 then Some prime else next_prime 2 n)"

text \<open>What the programs print, or that their behaviour is undefined.\<close>
datatype prime_output = Missing | Bad_input | Prime_is int int

datatype prime_run = Ends prime_output int | Undefined

text \<open>\<open>pthread_create\<close> is not checked: when it fails, \<open>pthread_join\<close> gets an identifier that was never set.\<close>
definition join_main :: "bool \<Rightarrow> string list \<Rightarrow> prime_run" where
  "join_main create_fails args =
     (case args of
        [] \<Rightarrow> Ends Missing EXIT_FAILURE
      | arg # _ \<Rightarrow>
          if create_fails then Undefined
           else case compute_prime (sint (atoi arg)) of
             None \<Rightarrow> Undefined
           | Some Null \<Rightarrow> Ends Bad_input EXIT_SUCCESS
           | Some _ \<Rightarrow> Undefined)"

text \<open>\<open>pthread_join\<close> stores a pointer of eight bytes in the four bytes of \<open>prime\<close>, the lower ones on this
  platform, and in the four bytes above it. Whether these hold \<open>which_prime\<close> is up to the compiler.\<close>
definition join_store :: "bool \<Rightarrow> 64 word \<Rightarrow> cint \<Rightarrow> cint \<times> cint" where
  "join_store adjacent p which_prime =
     (ucast p, if adjacent then ucast (drop_bit 32 p) else which_prime)"

definition join2_main :: "bool \<Rightarrow> bool \<Rightarrow> string list \<Rightarrow> prime_run" where
  "join2_main adjacent create_fails args =
     (case args of
        [] \<Rightarrow> Ends Missing EXIT_FAILURE
      | arg # _ \<Rightarrow>
          if create_fails then Undefined
           else case compute_prime_cast (sint (atoi arg)) of
             None \<Rightarrow> Undefined
           | Some v \<Rightarrow>
               (let (prime, which_prime) = join_store adjacent (case v of Cast p \<Rightarrow> p | _ \<Rightarrow> 0) (atoi arg)
                in Ends (if prime = 0 then Bad_input else Prime_is (sint which_prime) (sint prime)) EXIT_SUCCESS))"

definition join3_main :: "bool \<Rightarrow> string list \<Rightarrow> prime_run" where
  "join3_main create_fails args =
     (case args of
        [] \<Rightarrow> Ends Missing EXIT_FAILURE
      | arg # _ \<Rightarrow>
          if create_fails then Undefined
           else case compute_prime_global 0 (sint (atoi arg)) of
             None \<Rightarrow> Undefined
           | Some prime \<Rightarrow> Ends (if prime = 0 then Bad_input else Prime_is (sint (atoi arg)) prime) EXIT_SUCCESS)"

lemmas prime_defs = join_main_def join2_main_def join3_main_def compute_prime_def compute_prime_cast_def compute_prime_global_def

section \<open>Prime numbers\<close>

definition prime_number :: "int \<Rightarrow> bool" where
  "prime_number p \<longleftrightarrow> 2 \<le> p \<and> (\<forall>d. d dvd p \<longrightarrow> d = 1 \<or> d = -1 \<or> d = p \<or> d = - p)"

definition primes_upto :: "int \<Rightarrow> int set" where
  "primes_upto m = {q. prime_number q \<and> q \<le> m}"

definition prime_count :: "int \<Rightarrow> int" where
  "prime_count m = int (card (primes_upto m))"

text \<open>\<open>p\<close> is the \<open>n\<close>-th prime number.\<close>
definition nth_prime :: "int \<Rightarrow> int \<Rightarrow> bool" where
  "nth_prime n p \<longleftrightarrow> prime_number p \<and> prime_count p = n"

lemma finite_primes_upto [simp]: "finite (primes_upto m)"
  by (rule finite_subset [of _ "{2..m}"]) (auto simp: prime_number_def primes_upto_def)

lemma is_prime_from_iff: "is_prime_from c f \<longleftrightarrow> (\<forall>d. f \<le> d \<and> d \<le> c div 2 \<longrightarrow> \<not> d dvd c)"
proof (induction c f rule: is_prime_from.induct)
  case (1 c f)
  have split_first: "(\<forall>d. f \<le> d \<and> d \<le> c div 2 \<longrightarrow> \<not> d dvd c) \<longleftrightarrow>
      \<not> f dvd c \<and> (\<forall>d. f + 1 \<le> d \<and> d \<le> c div 2 \<longrightarrow> \<not> d dvd c)" if "f \<le> c div 2"
    using that by (metis add1_zle_eq order_le_less order_refl)
  show ?case
    using 1 split_first by (subst is_prime_from.simps) (auto simp: mod_eq_0_iff_dvd)
qed

lemma proper_divisor_half:
  fixes d c :: int
  assumes "d dvd c" "0 < d" "d < c"
  shows "d \<le> c div 2"
proof -
  obtain k where k: "c = d * k" using assms(1) by blast
  then have "1 < k" using assms(2,3) by (metis mult.right_neutral mult_less_cancel_left_pos)
  then have "d * 2 \<le> c" using k assms(2) by (simp add: mult_left_mono)
  then show ?thesis by simp
qed

lemma is_prime_from_2:
  assumes "2 \<le> c"
  shows "is_prime_from c 2 \<longleftrightarrow> prime_number c"
proof
  assume loop: "is_prime_from c 2"
  have "d = 1 \<or> d = -1 \<or> d = c \<or> d = - c" if "d dvd c" for d
  proof -
    have "d \<noteq> 0" using that assms by auto
    moreover have "\<bar>d\<bar> \<le> c" using dvd_imp_le_int [of c d] that assms by simp
    ultimately have "\<bar>d\<bar> dvd c" "0 < \<bar>d\<bar>" "\<bar>d\<bar> \<le> c" using that by simp_all
    then have "\<bar>d\<bar> = c \<or> \<bar>d\<bar> \<le> c div 2" using proper_divisor_half [of "\<bar>d\<bar>" c] by linarith
    moreover have "\<not> (2 \<le> \<bar>d\<bar> \<and> \<bar>d\<bar> \<le> c div 2)"
      using loop \<open>\<bar>d\<bar> dvd c\<close> by (auto simp: is_prime_from_iff)
    ultimately show ?thesis using \<open>0 < \<bar>d\<bar>\<close> by linarith
  qed
  then show "prime_number c" using assms by (simp add: prime_number_def)
next
  assume "prime_number c"
  then have "\<not> d dvd c" if "2 \<le> d" "d \<le> c div 2" for d
    using that by (auto simp: prime_number_def)
  then show "is_prime_from c 2" by (simp add: is_prime_from_iff)
qed

lemma prime_count_step: "prime_count c = prime_count (c - 1) + (if prime_number c then 1 else 0)"
proof -
  have "primes_upto c = (if prime_number c then insert c (primes_upto (c - 1)) else primes_upto (c - 1))"
    by (auto simp: primes_upto_def order_le_less)
  moreover have "c \<notin> primes_upto (c - 1)" by (simp add: primes_upto_def)
  ultimately show ?thesis by (simp add: prime_count_def)
qed

lemma prime_count_mono: "m \<le> k \<Longrightarrow> prime_count m \<le> prime_count k"
  by (auto simp: prime_count_def primes_upto_def intro!: card_mono finite_primes_upto [unfolded primes_upto_def])

lemma prime_count_1: "prime_count 1 = 0"
proof -
  have "primes_upto 1 = {}" by (auto simp: primes_upto_def prime_number_def)
  then show ?thesis by (simp add: prime_count_def)
qed

lemma next_prime_finds:
  assumes "2 \<le> c" "c \<le> INT_MAX" "1 \<le> n"
  shows "case next_prime c n of
           None \<Rightarrow> prime_count INT_MAX < prime_count (c - 1) + n
         | Some p \<Rightarrow> nth_prime (prime_count (c - 1) + n) p \<and> c \<le> p \<and> p \<le> INT_MAX"
  using assms
proof (induction c n rule: next_prime.induct)
  case (1 c n)
  have t: "is_prime_from c 2 = prime_number c" using 1(2) by (rule is_prime_from_2)
  let ?n = "if prime_number c then n - 1 else n"
  have e: "prime_count (c - 1) + n = prime_count c + ?n" by (simp add: prime_count_step [of c])
  consider (found) "prime_number c" "n = 1" | (more) "\<not> (prime_number c \<and> n = 1)" "c < INT_MAX"
    | (over) "\<not> (prime_number c \<and> n = 1)" "c = INT_MAX"
    using 1(3) by linarith
  then show ?case
  proof cases
    case found
    then show ?thesis
      using 1(2,3) e by (subst next_prime.simps) (simp add: nth_prime_def t)
  next
    case more
    have s: "next_prime c n = next_prime (c + 1) ?n"
      using more by (subst next_prime.simps) (auto simp: t)
    have "case next_prime (c + 1) ?n of
           None \<Rightarrow> prime_count INT_MAX < prime_count (c + 1 - 1) + ?n
         | Some p \<Rightarrow> nth_prime (prime_count (c + 1 - 1) + ?n) p \<and> c + 1 \<le> p \<and> p \<le> INT_MAX"
      by (rule 1(1) [unfolded t]) (use more 1(2-4) in auto)
    then show ?thesis unfolding s e by (auto split: option.splits)
  next
    case over
    have "next_prime c n = None" using over t by (subst next_prime.simps) simp
    moreover have "1 \<le> ?n" using over 1(4) by auto
    ultimately show ?thesis using over(2) unfolding e by simp
  qed
qed

lemma next_prime_from_2:
  assumes "1 \<le> n"
  shows "case next_prime 2 n of
           None \<Rightarrow> prime_count INT_MAX < n
         | Some p \<Rightarrow> nth_prime n p \<and> 2 \<le> p \<and> p \<le> INT_MAX"
proof -
  have "prime_count (2 - 1) + n = n" by (simp add: prime_count_1)
  moreover have "2 \<le> INT_MAX" by (simp add: INT_MAX_def)
  ultimately show ?thesis using next_prime_finds [of 2 n] assms by (simp only:)
qed

lemma next_prime_found:
  assumes "1 \<le> n" "n \<le> prime_count INT_MAX"
  obtains p where "next_prime 2 n = Some p" "nth_prime n p" "2 \<le> p" "p \<le> INT_MAX"
  using next_prime_from_2 [OF assms(1)] assms(2) by (auto split: option.splits)

lemma next_prime_overflows:
  assumes "1 \<le> n" "prime_count INT_MAX < n"
  shows "next_prime 2 n = None"
proof (cases "next_prime 2 n")
  case (Some p)
  then have "nth_prime n p" "p \<le> INT_MAX" using next_prime_from_2 [OF assms(1)] by auto
  then show ?thesis using assms(2) prime_count_mono [of p INT_MAX] by (simp add: nth_prime_def)
qed simp

text \<open>A position has one prime number.\<close>
lemma nth_prime_unique:
  assumes "nth_prime n p" "nth_prime n q"
  shows "p = q"
proof -
  have "\<not> p < q" if "nth_prime n p" "nth_prime n q" for p q
    using that prime_count_step [of q] prime_count_mono [of p "q - 1"] by (auto simp: nth_prime_def)
  then show ?thesis using assms by (meson linorder_neqE)
qed

text \<open>The pointer made of an \<open>int\<close> that is not negative: its lower half is the number, its upper half zero.\<close>
lemma join_store_int:
  assumes "0 \<le> p" "p \<le> INT_MAX"
  shows "join_store adjacent (scast (word_of_int p :: cint)) w = (word_of_int p, if adjacent then 0 else w)"
proof -
  have s: "scast (word_of_int p :: cint) = (word_of_int p :: 64 word)"
    using assms by (simp add: scast_eq INT_MAX_def sint_sbintrunc' signed_take_bit_int_eq_self)
  have u: "uint (word_of_int p :: 64 word) = p"
    using assms by (simp add: uint_word_of_int_eq INT_MAX_def take_bit_int_eq_self)
  have l: "ucast (word_of_int p :: 64 word) = (word_of_int p :: cint)"
    by (simp add: ucast_eq u)
  have "uint (drop_bit 32 (word_of_int p :: 64 word)) = drop_bit 32 (uint (word_of_int p :: 64 word))"
    by (rule bit_eqI) (auto simp: bit_uint_iff bit_drop_bit_eq dest: bit_imp_le_length)
  also have "\<dots> = 0" using assms by (simp only: u) (simp add: drop_bit_eq_div INT_MAX_def)
  finally have h: "drop_bit 32 (word_of_int p :: 64 word) = 0" by (simp add: uint_0_iff)
  show ?thesis by (simp add: join_store_def s l h)
qed

section \<open>Property\<close>

text \<open>C20. With the \<open>n\<close>-th prime number asked for, and a thread that can be created: if \<open>n\<close> is not positive, all three programs report
  bad input. If there is an \<open>n\<close>-th prime number among the \<open>int\<close>s, \<open>pthread_join3.c\<close> prints it; \<open>pthread_join2.c\<close> prints it too, but
  writes beyond its variable, so that \<open>n\<close> is printed as 0 if it is stored there; \<open>pthread_join.c\<close> reads a variable of a
  thread that has ended. If there is none, the candidate overflows.\<close>
theorem nth_prime_printed:
  assumes "n = sint (atoi arg)"
  shows "(n \<le> 0 \<longrightarrow>
      join3_main False [arg] = Ends Bad_input EXIT_SUCCESS \<and> join_main False [arg] = Ends Bad_input EXIT_SUCCESS \<and>
      join2_main adjacent False [arg] = Ends Bad_input EXIT_SUCCESS) \<and>
    (1 \<le> n \<and> n \<le> prime_count INT_MAX \<longrightarrow>
      (\<exists>p. nth_prime n p \<and> join3_main False [arg] = Ends (Prime_is n p) EXIT_SUCCESS \<and>
         join2_main adjacent False [arg] = Ends (Prime_is (if adjacent then 0 else n) p) EXIT_SUCCESS \<and>
         join_main False [arg] = Undefined)) \<and>
    (prime_count INT_MAX < n \<and> 1 \<le> n \<longrightarrow>
      join3_main False [arg] = Undefined \<and> join2_main adjacent False [arg] = Undefined \<and> join_main False [arg] = Undefined)"
proof (intro conjI impI; (elim conjE)?)
  assume "1 \<le> n" "n \<le> prime_count INT_MAX"
  from next_prime_found [OF this] obtain p where
    p: "next_prime 2 n = Some p" "nth_prime n p" "2 \<le> p" "p \<le> INT_MAX" .
  have "sint (word_of_int p :: cint) = p" "(word_of_int p :: cint) \<noteq> 0"
    using p(3,4) by (auto simp: INT_MAX_def sint_sbintrunc' signed_take_bit_int_eq_self
        dest: arg_cong [where f = sint and y = 0])
  then show "\<exists>p. nth_prime n p \<and> join3_main False [arg] = Ends (Prime_is n p) EXIT_SUCCESS \<and>
      join2_main adjacent False [arg] = Ends (Prime_is (if adjacent then 0 else n) p) EXIT_SUCCESS \<and>
      join_main False [arg] = Undefined"
    using p assms \<open>1 \<le> n\<close> join_store_int [of p adjacent "atoi arg"]
    by (intro exI [of _ p]) (simp add: prime_defs)
qed (use assms next_prime_overflows [of n] in \<open>simp_all add: prime_defs join_store_def\<close>)

theorem nth_prime_printed_witness:
  "join3_main False [''5''] = Ends (Prime_is 5 11) EXIT_SUCCESS \<and> join2_main True False [''5''] = Ends (Prime_is 0 11) EXIT_SUCCESS \<and>
   nth_prime 5 11"
proof -
  have c: "next_prime 2 5 = Some 11" by code_simp
  then have n: "nth_prime 5 11" "(11::int) \<le> INT_MAX" using next_prime_from_2 [of 5] by simp_all
  then have "5 \<le> prime_count INT_MAX" using prime_count_mono [of 11 INT_MAX] by (simp add: nth_prime_def)
  moreover have "5 = sint (atoi ''5'')" by code_simp
  ultimately obtain p where "nth_prime 5 p" "join3_main False [''5''] = Ends (Prime_is 5 p) EXIT_SUCCESS"
      "join2_main True False [''5''] = Ends (Prime_is 0 p) EXIT_SUCCESS"
    using nth_prime_printed [of 5 "''5''" True] by auto
  then show ?thesis using n nth_prime_unique by blast
qed

end
