(* ===== verification/Get_Passwd.thy ===== *)
theory Get_Passwd
  imports Libc
begin

text \<open>
  \<open>02-signals/get-passwd.c\<close>: a name and a password are read, the latter with the echo of the terminal switched off; a
  handler for \<open>SIGTSTP\<close> (Ctrl-Z) switches the echo on while the process is stopped. The process goes on one call at a
  time (\<open>Go\<close>); in between the user can press Ctrl-Z (\<open>Tstp\<close>) and resume a stopped process (\<open>Cont\<close>). As
  on Linux, a handler set by \<open>signal\<close> stays set, its signal is blocked while it runs, and an interrupted \<open>fgets\<close> is
  restarted. Each stop signal that is pending is dropped when the process is resumed.
\<close>

section \<open>Input\<close>

definition NUL :: char where "NUL = CHR 0x00"
definition NEWLINE :: char where "NEWLINE = CHR 0x0A"

text \<open>\<open>fgets (buf, size, stdin)\<close>: the bytes that are stored before the final zero, and what is left of the input.\<close>
fun fgets :: "nat \<Rightarrow> string \<Rightarrow> string \<times> string" where
  "fgets 0 inp = ([], inp)"
| "fgets (Suc 0) inp = ([], inp)"
| "fgets (Suc (Suc n)) [] = ([], [])"
| "fgets (Suc (Suc n)) (c # inp) =
     (if c = NEWLINE then ([c], inp) else (case fgets (Suc n) inp of (s, r) \<Rightarrow> (c # s, r)))"

definition MAX_SIZE :: nat where "MAX_SIZE = 30"
definition GOOD_PASSWORD :: string where "GOOD_PASSWORD = ''marvelous''"

text \<open>The C string in a buffer: its bytes up to the first zero.\<close>
definition c_string :: "string \<Rightarrow> string" where
  "c_string s = takeWhile (\<lambda>c. c \<noteq> NUL) s"

text \<open>\<open>passwd\<close> after \<open>fgets\<close>: nothing is stored at the end of the input, and the variable keeps what was on
  the stack (\<open>junk\<close>).\<close>
definition read_passwd :: "string \<Rightarrow> string \<Rightarrow> string" where
  "read_passwd junk inp = (if inp = [] then c_string junk else c_string (fst (fgets MAX_SIZE inp)))"

text \<open>\<open>strlen (passwd) - 1\<close> as a \<open>size_t\<close>.\<close>
definition passwd_length :: "string \<Rightarrow> 64 word" where
  "passwd_length passwd = of_nat (length passwd) - 1"

definition passwd_good :: "string \<Rightarrow> bool" where
  "passwd_good passwd \<longleftrightarrow>
     passwd_length passwd = of_nat (length GOOD_PASSWORD) \<and>
     take (unat (passwd_length passwd)) passwd = take (unat (passwd_length passwd)) GOOD_PASSWORD"

section \<open>The process\<close>

text \<open>The calls of \<open>main\<close>, and of the handler.\<close>
datatype gp_pc =
  Get_user | Set_handler | Prompt | Echo_off | Get_passwd | Echo_on | Print_newline | Reset_handler | Verify | Ended

datatype susp_pc = Set_again | Say_suspending | Susp_echo_on | Stop_self | Say_resuming | Susp_echo_off | Prompt_again

text \<open>\<open>handling\<close> is the position in the handler while it runs; \<open>verdict\<close> is whether access was granted.\<close>
record gp =
  pc :: gp_pc
  handling :: "susp_pc option"
  handler_set :: bool
  pending :: bool
  stopped :: bool
  echo :: bool
  stdin :: string
  passwd :: string
  verdict :: "bool option"

datatype gp_event = Go | Tstp | Cont

definition echo_on :: "bool \<Rightarrow> gp \<Rightarrow> gp" where
  "echo_on is_it s = s\<lparr>echo := is_it\<rparr>"

definition catch_suspend :: "susp_pc \<Rightarrow> gp \<Rightarrow> gp" where
  "catch_suspend h s =
     (case h of
        Set_again \<Rightarrow> s\<lparr>handler_set := True, handling := Some Say_suspending\<rparr>
      | Say_suspending \<Rightarrow> s\<lparr>handling := Some Susp_echo_on\<rparr>
      | Susp_echo_on \<Rightarrow> (echo_on True s)\<lparr>handling := Some Stop_self\<rparr>
      | Stop_self \<Rightarrow> s\<lparr>stopped := True, handling := Some Say_resuming\<rparr>
      | Say_resuming \<Rightarrow> s\<lparr>handling := Some Susp_echo_off\<rparr>
      | Susp_echo_off \<Rightarrow> (echo_on False s)\<lparr>handling := Some Prompt_again\<rparr>
      | Prompt_again \<Rightarrow> s\<lparr>handling := None\<rparr>)"

definition gp_main :: "string \<Rightarrow> gp \<Rightarrow> gp" where
  "gp_main junk s =
     (case pc s of
        Get_user \<Rightarrow> s\<lparr>stdin := snd (fgets MAX_SIZE (stdin s)), pc := Set_handler\<rparr>
      | Set_handler \<Rightarrow> s\<lparr>handler_set := True, pc := Prompt\<rparr>
      | Prompt \<Rightarrow> s\<lparr>pc := Echo_off\<rparr>
      | Echo_off \<Rightarrow> (echo_on False s)\<lparr>pc := Get_passwd\<rparr>
      | Get_passwd \<Rightarrow>
          s\<lparr>passwd := read_passwd junk (stdin s), stdin := snd (fgets MAX_SIZE (stdin s)), pc := Echo_on\<rparr>
      | Echo_on \<Rightarrow> (echo_on True s)\<lparr>pc := Print_newline\<rparr>
      | Print_newline \<Rightarrow> s\<lparr>pc := Reset_handler\<rparr>
      | Reset_handler \<Rightarrow> s\<lparr>handler_set := False, pc := Verify\<rparr>
      | Verify \<Rightarrow> s\<lparr>verdict := Some (passwd_good (passwd s)), pc := Ended\<rparr>
      | Ended \<Rightarrow> s)"

text \<open>A signal is delivered before the process goes on: to the handler, or it stops the process.\<close>
definition gp_step :: "string \<Rightarrow> gp_event \<Rightarrow> gp \<Rightarrow> gp" where
  "gp_step junk e s =
     (if pc s = Ended then s
      else case e of
        Tstp \<Rightarrow> s\<lparr>pending := True\<rparr>
      | Cont \<Rightarrow> s\<lparr>stopped := False, pending := False\<rparr>
      | Go \<Rightarrow>
          (if stopped s then s
           else case handling s of
             Some h \<Rightarrow> catch_suspend h s
           | None \<Rightarrow>
               if \<not> pending s then gp_main junk s
               else if handler_set s then s\<lparr>pending := False, handling := Some Set_again\<rparr>
               else s\<lparr>pending := False, stopped := True\<rparr>))"

definition gp_start :: "string \<Rightarrow> gp" where
  "gp_start inp = \<lparr>pc = Get_user, handling = None, handler_set = False, pending = False, stopped = False, echo = True,
     stdin = inp, passwd = [], verdict = None\<rparr>"

text \<open>All states of a run, the first one first.\<close>
fun gp_run :: "string \<Rightarrow> gp_event list \<Rightarrow> gp \<Rightarrow> gp list" where
  "gp_run junk [] s = [s]"
| "gp_run junk (e # es) s = s # gp_run junk es (gp_step junk e s)"

lemmas gp_defs = gp_step_def gp_main_def catch_suspend_def echo_on_def

section \<open>The password\<close>

lemma passwd_good_iff:
  assumes "length p < 2 ^ 64"
  shows "passwd_good p \<longleftrightarrow> (\<exists>c. p = GOOD_PASSWORD @ [c])"
proof (cases p rule: rev_cases)
  case Nil
  have "(- 1 :: 64 word) \<noteq> 9" by simp
  then show ?thesis using Nil by (simp add: passwd_good_def passwd_length_def GOOD_PASSWORD_def)
next
  case (snoc q c)
  then have l: "passwd_length p = of_nat (length q)" by (simp add: passwd_length_def)
  have u: "unat (passwd_length p) = length q"
    using assms unfolding l by (simp add: snoc unat_of_nat)
  have e: "passwd_length p = of_nat (length GOOD_PASSWORD) \<longleftrightarrow> length q = length GOOD_PASSWORD"
    using u by (auto simp: l GOOD_PASSWORD_def dest: arg_cong [where f = unat])
  have "passwd_good p \<longleftrightarrow> length q = length GOOD_PASSWORD \<and> take (length q) p = take (length q) GOOD_PASSWORD"
    unfolding passwd_good_def u e by blast
  then show ?thesis using snoc by auto
qed

lemma fgets_length: "length (fst (fgets n inp)) \<le> n - 1"
proof (induction n inp rule: fgets.induct)
  case (4 n c inp)
  then show ?case by (cases "fgets (Suc n) inp") auto
qed auto

text \<open>A line that fits is read whole.\<close>
lemma fgets_line:
  "NEWLINE \<notin> set l \<Longrightarrow> length l + 1 < n \<Longrightarrow> fgets n (l @ NEWLINE # r) = (l @ [NEWLINE], r)"
proof (induction l arbitrary: n)
  case Nil
  then show ?case by (cases "(n, NEWLINE # r)" rule: fgets.cases) auto
next
  case (Cons a l)
  then show ?case by (cases "(n, a # l @ NEWLINE # r)" rule: fgets.cases) auto
qed

lemma fgets_eof: "NEWLINE \<notin> set l \<Longrightarrow> length l < n \<Longrightarrow> fgets n l = (l, [])"
proof (induction l arbitrary: n)
  case Nil
  then show ?case by (cases "(n, [] :: string)" rule: fgets.cases) auto
next
  case (Cons a l)
  then show ?case by (cases "(n, a # l)" rule: fgets.cases) auto
qed

lemma c_string_id: "NUL \<notin> set s \<Longrightarrow> c_string s = s"
  by (auto simp: c_string_def takeWhile_eq_all_conv)

lemma NUL_NEWLINE [simp]: "NUL \<noteq> NEWLINE"
  by (simp add: NUL_def NEWLINE_def)

lemma read_passwd_length:
  assumes "inp \<noteq> []"
  shows "length (read_passwd junk inp) < 2 ^ 64"
proof -
  have "length (c_string (fst (fgets MAX_SIZE inp))) \<le> length (fst (fgets MAX_SIZE inp))"
    by (simp add: c_string_def length_takeWhile_le)
  also have "\<dots> \<le> MAX_SIZE - 1" by (rule fgets_length)
  finally show ?thesis using assms by (simp add: read_passwd_def MAX_SIZE_def)
qed

section \<open>What holds in every run\<close>

lemma gp_run_invariant:
  assumes "t \<in> set (gp_run junk es s)" "P s"
    and "\<And>e s. P s \<Longrightarrow> P (gp_step junk e s)"
  shows "P t"
  using assms(1,2) by (induction es arbitrary: s) (auto intro: assms(3))

text \<open>What has been read.\<close>
definition input_inv :: "string \<Rightarrow> string \<Rightarrow> gp \<Rightarrow> bool" where
  "input_inv junk inp s \<longleftrightarrow>
     (let rest = snd (fgets MAX_SIZE inp) in
      case pc s of
        Get_user \<Rightarrow> stdin s = inp \<and> verdict s = None
      | Ended \<Rightarrow> verdict s = Some (passwd_good (read_passwd junk rest))
      | p \<Rightarrow> verdict s = None \<and>
          (if p \<in> {Set_handler, Prompt, Echo_off, Get_passwd} then stdin s = rest else passwd s = read_passwd junk rest))"

lemma input_inv_step: "input_inv junk inp s \<Longrightarrow> input_inv junk inp (gp_step junk e s)"
  by (cases "pc s"; cases e; cases "handling s")
    (auto simp: input_inv_def gp_defs Let_def split: susp_pc.splits)

text \<open>The terminal: \<open>late\<close> is a run of the handler after \<open>main\<close> has switched the echo on again.\<close>
definition late :: "gp \<Rightarrow> bool" where
  "late s \<longleftrightarrow> handling s \<noteq> None \<and> pc s \<in> {Print_newline, Reset_handler}"

definition echo_inv :: "gp \<Rightarrow> bool" where
  "echo_inv s \<longleftrightarrow>
     (handler_set s \<longleftrightarrow> pc s \<in> {Prompt, Echo_off, Get_passwd, Echo_on, Print_newline, Reset_handler}) \<and>
     (stopped s \<longrightarrow> echo s \<and> (handling s = Some Say_resuming \<or> handling s = None)) \<and>
     (case handling s of
        None \<Rightarrow>
          (pc s \<in> {Get_user, Set_handler, Print_newline, Reset_handler, Verify, Ended} \<longrightarrow> echo s) \<and>
          (pc s \<in> {Get_passwd, Echo_on} \<longrightarrow> \<not> echo s)
      | Some h \<Rightarrow> handler_set s \<and> \<not> late s \<and>
          (h \<in> {Stop_self, Say_resuming} \<longrightarrow> echo s) \<and>
          (h = Prompt_again \<longrightarrow> \<not> echo s))"

lemma gp_step_unless: "pc s = Ended \<or> stopped s \<and> e = Go \<Longrightarrow> gp_step junk e s = s"
  by (auto simp: gp_step_def)

lemma echo_inv_step:
  assumes "echo_inv s" "\<not> late (gp_step junk e s)"
  shows "echo_inv (gp_step junk e s)"
proof (cases "pc s = Ended \<or> stopped s \<and> e = Go")
  case True
  then show ?thesis using assms(1) by (simp add: gp_step_unless)
next
  case running: False
  show ?thesis
  proof (cases e)
    case Go
    show ?thesis
    proof (cases "handling s")
      case None
      then show ?thesis using assms running Go
        by (cases "pending s"; cases "handler_set s"; cases "pc s") (simp_all add: echo_inv_def late_def gp_defs)
    next
      case (Some h)
      then show ?thesis using assms running Go
        by (cases h; cases "pc s") (simp_all add: echo_inv_def late_def gp_defs)
    qed
  qed (use assms running in \<open>auto simp: echo_inv_def late_def gp_step_def split: option.splits\<close>)
qed

lemma echo_inv_run:
  assumes "\<forall>s\<in>set (gp_run junk es s0). \<not> late s" "echo_inv s0" "s \<in> set (gp_run junk es s0)"
  shows "echo_inv s"
  using assms
proof (induction es arbitrary: s0)
  case (Cons e es)
  have "gp_step junk e s0 \<in> set (gp_run junk es (gp_step junk e s0))" by (cases es) auto
  then have "echo_inv (gp_step junk e s0)" using Cons.prems by (intro echo_inv_step) auto
  then show ?case using Cons by auto
qed simp

section \<open>Properties\<close>

text \<open>C27. Whenever the user suspends the program: access is granted exactly when the bytes read for the password are the good one and
  one more byte. So a line without zero bytes and shorter than the buffer is compared as it should be, but the last
  line of an input that does not end with a newline may have any byte at its end; and at the end of the input the variable is used
  although nothing was stored in it.\<close>
theorem password_check:
  assumes "s \<in> set (gp_run junk es (gp_start inp))" "verdict s = Some granted"
    and "rest = snd (fgets MAX_SIZE inp)"
  shows "(rest \<noteq> [] \<longrightarrow> (granted \<longleftrightarrow> (\<exists>c. c_string (fst (fgets MAX_SIZE rest)) = GOOD_PASSWORD @ [c]))) \<and>
    (rest = [] \<longrightarrow> (granted \<longleftrightarrow> passwd_good (c_string junk))) \<and>
    (\<forall>line more. rest = line @ NEWLINE # more \<and> NEWLINE \<notin> set line \<and> NUL \<notin> set line \<and> length line < MAX_SIZE - 1 \<longrightarrow>
      (granted \<longleftrightarrow> line = GOOD_PASSWORD)) \<and>
    (NEWLINE \<notin> set rest \<and> NUL \<notin> set rest \<and> rest \<noteq> [] \<and> length rest < MAX_SIZE \<longrightarrow>
      (granted \<longleftrightarrow> (\<exists>c. rest = GOOD_PASSWORD @ [c])))"
proof -
  have "input_inv junk inp s"
    by (rule gp_run_invariant [where P = "input_inv junk inp", OF assms(1) _ input_inv_step])
      (simp add: input_inv_def gp_start_def)
  then have g: "granted = passwd_good (read_passwd junk rest)"
    using assms(2,3) by (cases "pc s") (auto simp: input_inv_def Let_def)
  have n: "granted \<longleftrightarrow> (\<exists>c. c_string (fst (fgets MAX_SIZE rest)) = GOOD_PASSWORD @ [c])" if "rest \<noteq> []"
    using passwd_good_iff [OF read_passwd_length [OF that]] that by (simp add: g read_passwd_def)
  show ?thesis
  proof (intro conjI allI impI)
    show "granted \<longleftrightarrow> passwd_good (c_string junk)" if "rest = []"
      using that by (simp add: g read_passwd_def)
    show "granted \<longleftrightarrow> line = GOOD_PASSWORD"
      if "rest = line @ NEWLINE # more \<and> NEWLINE \<notin> set line \<and> NUL \<notin> set line \<and> length line < MAX_SIZE - 1" for line more
      using that n fgets_line [of line MAX_SIZE more] c_string_id [of "line @ [NEWLINE]"] less_diff_conv by auto
    show "granted \<longleftrightarrow> (\<exists>c. rest = GOOD_PASSWORD @ [c])"
      if "NEWLINE \<notin> set rest \<and> NUL \<notin> set rest \<and> rest \<noteq> [] \<and> length rest < MAX_SIZE"
      using that n fgets_eof [of rest MAX_SIZE] by (simp add: c_string_id)
  qed (use n in auto)
qed

text \<open>A user who presses Ctrl-Z while the password is read, and resumes the program.\<close>
definition gp_session :: "string \<Rightarrow> gp list" where
  "gp_session inp = gp_run [] (replicate 4 Go @ [Tstp] @ replicate 5 Go @ [Tstp, Cont] @ replicate 20 Go) (gp_start inp)"

lemma session_verdict: "\<exists>s\<in>set (gp_session inp). \<exists>v. verdict s = Some v"
  by (simp add: gp_session_def gp_start_def numeral_eq_Suc gp_defs)

theorem password_check_witness:
  "(\<exists>s\<in>set (gp_session (''eve'' @ NEWLINE # ''marvelous'' @ [NEWLINE])). verdict s = Some True) \<and>
   (\<exists>s\<in>set (gp_session (''eve'' @ NEWLINE # ''marvelous?'')). verdict s = Some True)"
proof -
  have l: "verdict s = Some True"
    if "s \<in> set (gp_session (''eve'' @ NEWLINE # ''marvelous'' @ [NEWLINE]))" "verdict s = Some v" for s v
  proof -
    have r: "''marvelous'' @ [NEWLINE] = snd (fgets MAX_SIZE (''eve'' @ NEWLINE # ''marvelous'' @ [NEWLINE]))"
      by code_simp
    have "''marvelous'' @ [NEWLINE] = ''marvelous'' @ NEWLINE # [] \<and> NEWLINE \<notin> set ''marvelous'' \<and> NUL \<notin> set ''marvelous'' \<and>
        length ''marvelous'' < MAX_SIZE - 1" by code_simp
    then have "v \<longleftrightarrow> ''marvelous'' = GOOD_PASSWORD"
      using password_check [OF that(1) [unfolded gp_session_def] that(2) r] by blast
    then show ?thesis using that by (simp add: GOOD_PASSWORD_def)
  qed
  have m: "verdict s = Some True"
    if "s \<in> set (gp_session (''eve'' @ NEWLINE # ''marvelous?''))" "verdict s = Some v" for s v
  proof -
    have r: "''marvelous?'' = snd (fgets MAX_SIZE (''eve'' @ NEWLINE # ''marvelous?''))" by code_simp
    have "NEWLINE \<notin> set ''marvelous?'' \<and> NUL \<notin> set ''marvelous?'' \<and> ''marvelous?'' \<noteq> [] \<and> length ''marvelous?'' < MAX_SIZE"
      by code_simp
    then have "v \<longleftrightarrow> (\<exists>c. ''marvelous?'' = GOOD_PASSWORD @ [c])"
      using password_check [OF that(1) [unfolded gp_session_def] that(2) r] by blast
    then show ?thesis using that by (simp add: GOOD_PASSWORD_def)
  qed
  show ?thesis using session_verdict l m by blast
qed

text \<open>Unless the handler is run after the echo has been switched on again: whenever the process is stopped the echo is on, it is off while the
  password is read, and on at the end.\<close>
theorem echo_restored:
  assumes "\<forall>s\<in>set (gp_run junk es (gp_start inp)). \<not> late s" "s \<in> set (gp_run junk es (gp_start inp))"
  shows "(stopped s \<longrightarrow> echo s) \<and> (pc s \<in> {Verify, Ended} \<longrightarrow> echo s) \<and>
    (pc s = Get_passwd \<and> handling s = None \<longrightarrow> \<not> echo s)"
proof -
  have "echo_inv (gp_start inp)" by (simp add: echo_inv_def gp_start_def)
  then have "echo_inv s" using echo_inv_run assms by blast
  then show ?thesis by (cases "handling s") (auto simp: echo_inv_def late_def)
qed

theorem echo_restored_witness: "\<exists>s\<in>set (gp_session []). pc s = Ended \<and> echo s"
proof -
  have e: "\<exists>s\<in>set (gp_session []). pc s = Ended"
    by (simp add: gp_session_def gp_start_def numeral_eq_Suc gp_defs)
  have "\<forall>s\<in>set (gp_session []). \<not> late s"
    by (simp add: gp_session_def gp_start_def numeral_eq_Suc gp_defs late_def)
  then show ?thesis using e echo_restored [of "[]" _ "[]"] unfolding gp_session_def by blast
qed

text \<open>Ctrl-Z just after the password was read leaves the terminal without echo when the program has ended.\<close>
theorem echo_lost:
  "\<exists>s\<in>set (gp_run [] (replicate 6 Go @ [Tstp] @ replicate 5 Go @ [Cont] @ replicate 7 Go) (gp_start [])). pc s = Ended \<and> \<not> echo s"
  by (simp add: gp_start_def numeral_eq_Suc gp_defs)

end
