(* ===== verification/Pipes.thy ===== *)
theory Pipes
  imports Interleaving
begin

text \<open>
  \<open>07-sockets/pipe.c\<close> and \<open>socket_pair.c\<close>: a parent and its child exchange bytes. The two processes are the threads 0
  (parent) and 1 (child) of an interleaving; the shared state is what the kernel keeps (the bytes in the pipe or
  socket, the open descriptors, the output) and the two buffers of \<open>stdout\<close>. \<open>printf\<close> puts a line out at once if \<open>stdout\<close> is
  a terminal (\<open>tty\<close>), otherwise it stays in the buffer of its process, which \<open>fork\<close> copies and \<open>fflush\<close> and
  \<open>exit\<close> put out. The writes of the child to \<open>STDOUT_FILENO\<close> go past the buffer.
\<close>

section \<open>The pipe\<close>

definition PIPE_BUF :: nat where "PIPE_BUF = 2 ^ 8"
definition msg1 :: string where "msg1 = ''to pipe: Your name is Louie, my child.'' @ [CHR 0x0A]"
definition msg2 :: string where "msg2 = ''to pipe: Now return.'' @ [CHR 0x0A]"

text \<open>The lines that are printed, and the raw writes of the child.\<close>
datatype pipe_text =
  Forking | This_is_a_child | Reading_message | From_pipe | Closing_pipe | Parent_closed | Child_terminated
  | Prefix | Piece string

text \<open>The descriptors \<open>fd[0]\<close> and \<open>fd[1]\<close>, which each process has on its own.\<close>
record pipe_sys =
  bytes :: string
  parent_fd0 :: bool
  parent_fd1 :: bool
  child_fd0 :: bool
  child_fd1 :: bool
  forked :: bool
  out :: "pipe_text list"
  parent_buf :: "pipe_text list"
  child_buf :: "pipe_text list"
  child_exited :: bool

text \<open>\<open>pipe\<close> is not checked: when it fails, \<open>fd\<close> keeps its zeros.\<close>
record pipe_env =
  pipe_fails :: bool
  fork_fails :: bool
  tty :: bool

datatype pipe_pc =
    P_fork | P_close0 | P_write1 | P_write2 | P_say_closing | P_close1 | P_wait | P_say_terminated | P_exit int | P_ended int | P_sigpipe
  | C_close1 | C_say nat | C_flush | C_read | C_prefix string | C_write string | C_close0 | C_say_closed | C_exit | C_ended

definition parent_prints :: "pipe_env \<Rightarrow> pipe_text \<Rightarrow> pipe_sys \<Rightarrow> pipe_sys" where
  "parent_prints env l g = (if tty env then g\<lparr>out := out g @ [l]\<rparr> else g\<lparr>parent_buf := parent_buf g @ [l]\<rparr>)"

definition child_prints :: "pipe_env \<Rightarrow> pipe_text \<Rightarrow> pipe_sys \<Rightarrow> pipe_sys" where
  "child_prints env l g = (if tty env then g\<lparr>out := out g @ [l]\<rparr> else g\<lparr>child_buf := child_buf g @ [l]\<rparr>)"

text \<open>\<open>read (fd[0], buf, PIPE_BUF)\<close>: \<open>None\<close> while it blocks, the empty list at the end.\<close>
definition pipe_read :: "pipe_sys \<Rightarrow> string option" where
  "pipe_read g =
     (if bytes g \<noteq> [] then Some (take PIPE_BUF (bytes g))
      else if parent_fd1 g \<or> child_fd1 g then None else Some [])"

definition pipe_write :: "pipe_env \<Rightarrow> string \<Rightarrow> pipe_pc \<Rightarrow> pipe_sys \<Rightarrow> pipe_sys \<times> pipe_pc" where
  "pipe_write env s next g =
     (if pipe_fails env then (g, next)
      else if parent_fd0 g \<or> child_fd0 g then (g\<lparr>bytes := bytes g @ s\<rparr>, next)
      else (g, P_sigpipe))"

definition pipe_parent :: "pipe_env \<Rightarrow> pipe_sys \<Rightarrow> pipe_pc \<Rightarrow> (pipe_sys \<times> pipe_pc) option" where
  "pipe_parent env g pc =
     (case pc of
        P_write1 \<Rightarrow> Some (pipe_write env msg1 P_write2 g)
      | P_write2 \<Rightarrow> Some (pipe_write env msg2 P_say_closing g)
      | P_say_closing \<Rightarrow> Some (parent_prints env Closing_pipe g, P_close1)
      | P_close1 \<Rightarrow> Some (g\<lparr>parent_fd1 := False\<rparr>, P_wait)
      | P_wait \<Rightarrow> if child_exited g then Some (g, P_say_terminated) else None
      | P_say_terminated \<Rightarrow> Some (parent_prints env Child_terminated g, P_exit EXIT_SUCCESS)
      | _ \<Rightarrow> None)"

definition pipe_child :: "pipe_env \<Rightarrow> pipe_sys \<Rightarrow> pipe_pc \<Rightarrow> (pipe_sys \<times> pipe_pc) option" where
  "pipe_child env g pc =
     (case pc of
        C_say n \<Rightarrow>
          Some (child_prints env ([This_is_a_child, Reading_message, From_pipe] ! n) g,
            if n < 2 then C_say (n + 1) else C_flush)
      | C_flush \<Rightarrow> Some (g\<lparr>out := out g @ child_buf g, child_buf := []\<rparr>, C_read)
      | C_read \<Rightarrow>
          if pipe_fails env then Some (g, C_close0)
          else (case pipe_read g of
                  None \<Rightarrow> None
                | Some s \<Rightarrow> if s = [] then Some (g, C_close0) else Some (g\<lparr>bytes := drop (length s) (bytes g)\<rparr>, C_prefix s))
      | C_prefix s \<Rightarrow> Some (g\<lparr>out := out g @ [Prefix]\<rparr>, C_write s)
      | C_write s \<Rightarrow> Some (g\<lparr>out := out g @ [Piece s]\<rparr>, C_read)
      | C_close0 \<Rightarrow> Some (g\<lparr>child_fd0 := False\<rparr>, C_say_closed)
      | C_say_closed \<Rightarrow> Some (child_prints env Parent_closed g, C_exit)
      | C_exit \<Rightarrow> Some (g\<lparr>out := out g @ child_buf g, child_buf := [], child_fd0 := False, child_exited := True\<rparr>, C_ended)
      | _ \<Rightarrow> None)"

text \<open>\<open>main\<close> from \<open>fork\<close> to the two functions, and its return. The child begins when \<open>fork\<close> has copied the process.\<close>
definition pipe_main :: "pipe_env \<Rightarrow> (pipe_sys, pipe_pc) tstep" where
  "pipe_main env i g pc =
     (case pc of
        P_fork \<Rightarrow>
          if fork_fails env then Some (g, P_exit EXIT_FAILURE)
          else Some (g\<lparr>forked := True, child_fd0 := parent_fd0 g, child_fd1 := parent_fd1 g, child_buf := parent_buf g\<rparr>, P_close0)
      | P_close0 \<Rightarrow> Some (g\<lparr>parent_fd0 := False\<rparr>, P_write1)
      | P_exit x \<Rightarrow> Some (g\<lparr>out := out g @ parent_buf g, parent_buf := [], parent_fd0 := False, parent_fd1 := False\<rparr>, P_ended x)
      | C_close1 \<Rightarrow> if forked g then Some (g\<lparr>child_fd1 := False\<rparr>, C_say 0) else None
      | _ \<Rightarrow> if i = 0 then pipe_parent env g pc else pipe_child env g pc)"

text \<open>The state at the \<open>fork\<close>: \<open>pipe\<close> has been called and the first line printed.\<close>
definition pipe_start :: "pipe_env \<Rightarrow> (pipe_sys, pipe_pc) conf" where
  "pipe_start env =
     (parent_prints env Forking
        \<lparr>bytes = [], parent_fd0 = \<not> pipe_fails env, parent_fd1 = \<not> pipe_fails env, child_fd0 = False, child_fd1 = False,
         forked = False, out = [], parent_buf = [], child_buf = [], child_exited = False\<rparr>,
      (\<lambda>i. if i = 0 then P_fork else C_close1))"

lemmas pipe_defs = pipe_main_def pipe_parent_def pipe_child_def parent_prints_def child_prints_def pipe_write_def pipe_read_def

section \<open>Every run ends\<close>

fun pipe_weight :: "pipe_pc \<Rightarrow> nat" where
  "pipe_weight P_fork = 10 + 4 * length (msg1 @ msg2)"
| "pipe_weight P_close0 = 9 + 4 * length (msg1 @ msg2)"
| "pipe_weight P_write1 = 8 + 4 * length (msg1 @ msg2)"
| "pipe_weight P_write2 = 7 + 4 * length msg2"
| "pipe_weight P_say_closing = 6"
| "pipe_weight P_close1 = 5"
| "pipe_weight P_wait = 4"
| "pipe_weight P_say_terminated = 3"
| "pipe_weight (P_exit x) = 1"
| "pipe_weight (P_ended x) = 0"
| "pipe_weight P_sigpipe = 0"
| "pipe_weight C_close1 = 11"
| "pipe_weight (C_say n) = 7 + (3 - n)"
| "pipe_weight C_flush = 6"
| "pipe_weight C_read = 5"
| "pipe_weight (C_prefix s) = 7"
| "pipe_weight (C_write s) = 6"
| "pipe_weight C_close0 = 4"
| "pipe_weight C_say_closed = 3"
| "pipe_weight C_exit = 2"
| "pipe_weight C_ended = 0"

lemma pipe_less:
  "pipe_main env i g l = Some (g', l') \<Longrightarrow>
     4 * length (bytes g') + pipe_weight l' < 4 * length (bytes g) + pipe_weight l"
  by (cases l) (auto simp: pipe_defs PIPE_BUF_def neq_Nil_conv split: if_splits option.splits)

lemma pipe_run_length:
  assumes "run_sched 2 (pipe_main env) sched c = Some c'"
  shows "length sched \<le> 4 * length (bytes (fst c)) + pipe_weight (snd c 0) + pipe_weight (snd c 1)"
proof -
  let ?m = "\<lambda>c. 4 * length (bytes (fst c)) + (\<Sum>i<2. pipe_weight (snd c i))"
  have "?m (g', ls(i := l')) < ?m (g, ls)"
    if "i < 2" "pipe_main env i g (ls i) = Some (g', l')" for g ls i g' l'
    using pipe_less [OF that(2)] sum_upd_add [OF that(1), of pipe_weight ls l'] by simp
  from run_bound [where m = ?m, OF assms this] show ?thesis by (simp add: numeral_eq_Suc)
qed

section \<open>What the child prints\<close>

text \<open>What the child writes past its buffer.\<close>
fun raw :: "pipe_text \<Rightarrow> bool" where
  "raw Prefix = True"
| "raw (Piece s) = True"
| "raw _ = False"

definition pieces :: "string list \<Rightarrow> pipe_text list" where
  "pieces cs = concat (map (\<lambda>s. [Prefix, Piece s]) cs)"

text \<open>What has been read from the pipe and what is in it, when the parent is at \<open>pc\<close>.\<close>
fun pipe_state :: "pipe_pc \<Rightarrow> (string list \<times> string) set" where
  "pipe_state P_fork = {([], [])}"
| "pipe_state P_close0 = {([], [])}"
| "pipe_state P_write1 = {([], [])}"
| "pipe_state P_write2 = {([], msg1), ([msg1], [])}"
| "pipe_state _ = {([], msg1 @ msg2), ([msg1], msg2), ([msg1 @ msg2], []), ([msg1, msg2], [])}"

fun in_transit :: "pipe_pc \<Rightarrow> string list" where
  "in_transit (C_prefix s) = [s]"
| "in_transit (C_write s) = [s]"
| "in_transit _ = []"

fun prefix_out :: "pipe_pc \<Rightarrow> pipe_text list" where
  "prefix_out (C_write s) = [Prefix]"
| "prefix_out _ = []"

text \<open>Which descriptors a process has open at which point, when \<open>pipe\<close> succeeded.\<close>
fun parent_holds0 :: "pipe_pc \<Rightarrow> bool" where
  "parent_holds0 P_fork = True"
| "parent_holds0 P_close0 = True"
| "parent_holds0 _ = False"

fun parent_holds1 :: "pipe_pc \<Rightarrow> bool" where
  "parent_holds1 P_wait = False"
| "parent_holds1 P_say_terminated = False"
| "parent_holds1 (P_exit x) = False"
| "parent_holds1 (P_ended x) = False"
| "parent_holds1 _ = True"

fun child_holds0 :: "pipe_pc \<Rightarrow> bool" where
  "child_holds0 C_say_closed = False"
| "child_holds0 C_exit = False"
| "child_holds0 C_ended = False"
| "child_holds0 _ = True"

fun child_holds1 :: "pipe_pc \<Rightarrow> bool" where
  "child_holds1 C_close1 = True"
| "child_holds1 _ = False"

fun at_end :: "pipe_pc \<Rightarrow> bool" where
  "at_end C_close0 = True"
| "at_end C_say_closed = True"
| "at_end C_exit = True"
| "at_end C_ended = True"
| "at_end _ = False"

fun parent_pc :: "pipe_pc \<Rightarrow> bool" where
  "parent_pc P_fork = True"
| "parent_pc P_close0 = True"
| "parent_pc P_write1 = True"
| "parent_pc P_write2 = True"
| "parent_pc P_say_closing = True"
| "parent_pc P_close1 = True"
| "parent_pc P_wait = True"
| "parent_pc P_say_terminated = True"
| "parent_pc (P_exit x) = (x = EXIT_SUCCESS)"
| "parent_pc (P_ended x) = (x = EXIT_SUCCESS)"
| "parent_pc _ = False"

fun child_pc :: "pipe_pc \<Rightarrow> bool" where
  "child_pc C_close1 = True"
| "child_pc (C_say n) = (n \<le> 2)"
| "child_pc C_flush = True"
| "child_pc C_read = True"
| "child_pc (C_prefix s) = True"
| "child_pc (C_write s) = True"
| "child_pc c = at_end c"

fun after_wait :: "pipe_pc \<Rightarrow> bool" where
  "after_wait P_say_terminated = True"
| "after_wait (P_exit x) = True"
| "after_wait (P_ended x) = True"
| "after_wait _ = False"

definition proc_inv :: "pipe_env \<Rightarrow> pipe_sys \<Rightarrow> pipe_pc \<Rightarrow> pipe_pc \<Rightarrow> bool" where
  "proc_inv env g p c \<longleftrightarrow>
     parent_pc p \<and> child_pc c \<and> (forked g \<longleftrightarrow> p \<noteq> P_fork) \<and> (p = P_fork \<longrightarrow> c = C_close1) \<and>
     (child_exited g \<longleftrightarrow> c = C_ended) \<and> (after_wait p \<longrightarrow> c = C_ended)"

definition fd_inv :: "pipe_env \<Rightarrow> pipe_sys \<Rightarrow> pipe_pc \<Rightarrow> pipe_pc \<Rightarrow> bool" where
  "fd_inv env g p c \<longleftrightarrow>
     (\<not> pipe_fails env \<longrightarrow>
       parent_fd0 g = parent_holds0 p \<and> parent_fd1 g = parent_holds1 p \<and>
       child_fd0 g = (p \<noteq> P_fork \<and> child_holds0 c) \<and> child_fd1 g = (p \<noteq> P_fork \<and> child_holds1 c) \<and>
       (at_end c \<longrightarrow> \<not> parent_holds1 p \<and> bytes g = []))"

text \<open>The bytes read and the bytes in the pipe, with the chunks \<open>ts\<close> that have left it.\<close>
definition flow_inv :: "pipe_env \<Rightarrow> pipe_sys \<Rightarrow> string list \<Rightarrow> pipe_pc \<Rightarrow> bool" where
  "flow_inv env g ts p \<longleftrightarrow> (if pipe_fails env then ts = [] \<and> bytes g = [] else (ts, bytes g) \<in> pipe_state p)"

definition data_inv :: "pipe_env \<Rightarrow> pipe_sys \<Rightarrow> pipe_pc \<Rightarrow> pipe_pc \<Rightarrow> bool" where
  "data_inv env g p c \<longleftrightarrow>
     (\<exists>cs. filter raw (out g) = pieces cs @ prefix_out c \<and> flow_inv env g (cs @ in_transit c) p)"

text \<open>What is still in the buffers when \<open>stdout\<close> is no terminal.\<close>
fun parent_unwritten :: "pipe_pc \<Rightarrow> pipe_text list" where
  "parent_unwritten P_close1 = [Forking, Closing_pipe]"
| "parent_unwritten P_wait = [Forking, Closing_pipe]"
| "parent_unwritten P_say_terminated = [Forking, Closing_pipe]"
| "parent_unwritten (P_exit x) = [Forking, Closing_pipe, Child_terminated]"
| "parent_unwritten (P_ended x) = []"
| "parent_unwritten _ = [Forking]"

fun child_unwritten :: "pipe_pc \<Rightarrow> pipe_text list" where
  "child_unwritten C_close1 = [Forking]"
| "child_unwritten (C_say n) = Forking # take n [This_is_a_child, Reading_message, From_pipe]"
| "child_unwritten C_flush = [Forking, This_is_a_child, Reading_message, From_pipe]"
| "child_unwritten C_exit = [Parent_closed]"
| "child_unwritten _ = []"

fun parent_flushed :: "pipe_pc \<Rightarrow> nat" where
  "parent_flushed (P_ended x) = 1"
| "parent_flushed _ = 0"

fun child_flushed :: "pipe_pc \<Rightarrow> nat" where
  "child_flushed C_close1 = 0"
| "child_flushed (C_say n) = 0"
| "child_flushed C_flush = 0"
| "child_flushed _ = 1"

definition buf_inv :: "pipe_env \<Rightarrow> pipe_sys \<Rightarrow> pipe_pc \<Rightarrow> pipe_pc \<Rightarrow> bool" where
  "buf_inv env g p c \<longleftrightarrow>
     parent_buf g = (if tty env then [] else parent_unwritten p) \<and>
     child_buf g = (if tty env \<or> p = P_fork then [] else child_unwritten c)"

definition out_inv :: "pipe_env \<Rightarrow> pipe_sys \<Rightarrow> pipe_pc \<Rightarrow> pipe_pc \<Rightarrow> bool" where
  "out_inv env g p c \<longleftrightarrow>
     count_list (out g) Forking = (if tty env then 1 else parent_flushed p + child_flushed c) \<and>
     (p = P_ended EXIT_SUCCESS \<or> tty env \<and> p = P_exit EXIT_SUCCESS \<longrightarrow> out g \<noteq> [] \<and> last (out g) = Child_terminated)"

lemma holds0_until_end: "\<not> at_end c \<Longrightarrow> child_holds0 c"
  by (cases c) auto

lemma raw_unwritten [simp]: "filter raw (parent_unwritten p) = []" "filter raw (child_unwritten c) = []"
  by (cases p; simp) (cases c; auto simp: take_Cons split: nat.splits)

lemma count_parent_unwritten: "parent_pc p \<Longrightarrow> count_list (parent_unwritten p) Forking = 1 - parent_flushed p"
  by (cases p) auto

lemma PIPE_BUF_pos [simp]: "PIPE_BUF \<noteq> 0"
  by (simp add: PIPE_BUF_def)

lemma parent_proc:
  "proc_inv env g p c \<Longrightarrow> \<not> fork_fails env \<Longrightarrow> fd_inv env g p c \<Longrightarrow> pipe_main env 0 g p = Some (g', p') \<Longrightarrow> proc_inv env g' p' c"
  by (cases p) (auto simp: proc_inv_def fd_inv_def pipe_defs holds0_until_end split: if_splits)

lemma parent_fd:
  "fd_inv env g p c \<Longrightarrow> \<not> fork_fails env \<Longrightarrow> proc_inv env g p c \<Longrightarrow> pipe_main env 0 g p = Some (g', p') \<Longrightarrow> fd_inv env g' p' c"
  by (cases p) (auto simp: proc_inv_def fd_inv_def pipe_defs split: if_splits)

lemma parent_buf:
  "buf_inv env g p c \<Longrightarrow> \<not> fork_fails env \<Longrightarrow> proc_inv env g p c \<Longrightarrow> pipe_main env 0 g p = Some (g', p') \<Longrightarrow> buf_inv env g' p' c"
  by (cases p) (auto simp: proc_inv_def buf_inv_def pipe_defs split: if_splits)

lemma parent_out:
  "out_inv env g p c \<Longrightarrow> \<not> fork_fails env \<Longrightarrow> proc_inv env g p c \<Longrightarrow> buf_inv env g p c \<Longrightarrow>
     pipe_main env 0 g p = Some (g', p') \<Longrightarrow> out_inv env g' p' c"
  by (cases p) (auto simp: proc_inv_def buf_inv_def out_inv_def pipe_defs split: if_splits)

lemma parent_raw:
  "\<not> fork_fails env \<Longrightarrow> buf_inv env g p c \<Longrightarrow> pipe_main env 0 g p = Some (g', p') \<Longrightarrow> filter raw (out g') = filter raw (out g)"
  by (cases p) (auto simp: buf_inv_def pipe_defs split: if_splits)

lemma parent_flow:
  assumes "flow_inv env g ts p" "\<not> fork_fails env" "proc_inv env g p c" "fd_inv env g p c"
    and "pipe_main env 0 g p = Some (g', p')"
  shows "flow_inv env g' ts p'"
proof -
  have "parent_fd0 g \<or> child_fd0 g" if "\<not> pipe_fails env" "p = P_write1 \<or> p = P_write2"
    using assms(3,4) that by (auto simp: proc_inv_def fd_inv_def holds0_until_end)
  then show ?thesis
    using assms(1,2,5) by (cases p) (auto simp: flow_inv_def pipe_defs split: if_splits)
qed

lemma parent_data:
  assumes "data_inv env g p c" "\<not> fork_fails env" "proc_inv env g p c" "fd_inv env g p c" "buf_inv env g p c"
    and "pipe_main env 0 g p = Some (g', p')"
  shows "data_inv env g' p' c"
proof -
  obtain cs where cs: "filter raw (out g) = pieces cs @ prefix_out c" "flow_inv env g (cs @ in_transit c) p"
    using assms(1) by (auto simp: data_inv_def)
  from parent_flow [OF cs(2) assms(2-4,6)] show ?thesis
    using cs(1) parent_raw [OF assms(2,5,6)] by (auto simp: data_inv_def)
qed

lemma child_proc:
  "proc_inv env g p c \<Longrightarrow> pipe_main env 1 g c = Some (g', c') \<Longrightarrow> proc_inv env g' p c'"
  by (cases c) (auto simp: proc_inv_def pipe_defs split: if_splits option.splits)

lemma child_fd:
  "fd_inv env g p c \<Longrightarrow> proc_inv env g p c \<Longrightarrow> pipe_main env 1 g c = Some (g', c') \<Longrightarrow> fd_inv env g' p c'"
  by (cases c) (auto simp: proc_inv_def fd_inv_def pipe_defs split: if_splits option.splits)

lemma child_buf:
  "buf_inv env g p c \<Longrightarrow> proc_inv env g p c \<Longrightarrow> pipe_main env 1 g c = Some (g', c') \<Longrightarrow> buf_inv env g' p c'"
  by (cases c) (auto simp: proc_inv_def buf_inv_def pipe_defs le_Suc_eq numeral_eq_Suc split: if_splits option.splits)

lemma child_out:
  "out_inv env g p c \<Longrightarrow> proc_inv env g p c \<Longrightarrow> buf_inv env g p c \<Longrightarrow> pipe_main env 1 g c = Some (g', c') \<Longrightarrow> out_inv env g' p c'"
  by (cases c) (auto simp: proc_inv_def buf_inv_def out_inv_def pipe_defs le_Suc_eq numeral_eq_Suc split: if_splits option.splits)

text \<open>The child takes the whole content of the pipe at once.\<close>
lemma read_flow:
  assumes "flow_inv env g ts p" "\<not> pipe_fails env" "pipe_read g = Some s" "s \<noteq> []"
  shows "flow_inv env (g\<lparr>bytes := drop (length s) (bytes g)\<rparr>) (ts @ [s]) p"
proof -
  have "length (bytes g) \<le> PIPE_BUF" "ts = [] \<and> bytes g \<in> {[], msg1, msg1 @ msg2} \<or> ts = [msg1] \<and> bytes g \<in> {[], msg2} \<or> bytes g = []"
    using assms(1,2) by (cases p; auto simp: flow_inv_def PIPE_BUF_def msg1_def msg2_def)+
  moreover have "s = take PIPE_BUF (bytes g)" "bytes g \<noteq> []"
    using assms(3,4) by (auto simp: pipe_read_def split: if_splits)
  ultimately show ?thesis using assms(1,2) by (cases p) (auto simp: flow_inv_def)
qed

lemma child_data:
  assumes "data_inv env g p c" "proc_inv env g p c" "buf_inv env g p c"
    and "pipe_main env 1 g c = Some (g', c')"
  shows "data_inv env g' p c'"
proof -
  obtain cs where cs: "filter raw (out g) = pieces cs @ prefix_out c" "flow_inv env g (cs @ in_transit c) p"
    using assms(1) by (auto simp: data_inv_def)
  have frame: "flow_inv env g' ts p = flow_inv env g ts p" if "bytes g' = bytes g" for ts
    using that by (simp add: flow_inv_def)
  show ?thesis
  proof (cases c)
    case C_read
    then show ?thesis using cs assms(4) read_flow [OF cs(2)]
      by (auto simp: data_inv_def pipe_main_def pipe_child_def split: if_splits option.splits)
  next
    case (C_write s)
    then show ?thesis using cs assms(4)
      by (auto simp: data_inv_def pipe_defs pieces_def flow_inv_def intro!: exI [of _ "cs @ [s]"])
  qed (use cs assms in \<open>auto simp: data_inv_def flow_inv_def pipe_defs proc_inv_def buf_inv_def le_Suc_eq numeral_eq_Suc split: if_splits\<close>)
qed

definition pipe_inv :: "pipe_env \<Rightarrow> (pipe_sys, pipe_pc) conf \<Rightarrow> bool" where
  "pipe_inv env c \<longleftrightarrow>
     proc_inv env (fst c) (snd c 0) (snd c 1) \<and> fd_inv env (fst c) (snd c 0) (snd c 1) \<and>
     buf_inv env (fst c) (snd c 0) (snd c 1) \<and> out_inv env (fst c) (snd c 0) (snd c 1) \<and>
     data_inv env (fst c) (snd c 0) (snd c 1)"

lemma pipe_inv_start: "pipe_inv env (pipe_start env)"
  by (simp add: pipe_inv_def pipe_start_def proc_inv_def fd_inv_def buf_inv_def out_inv_def data_inv_def flow_inv_def
      parent_prints_def pieces_def)

lemma pipe_inv_step:
  assumes "\<not> fork_fails env" "pipe_inv env (g, ls)" "i < 2" "pipe_main env i g (ls i) = Some (g', l')"
  shows "pipe_inv env (g', ls(i := l'))"
proof -
  consider (parent) "i = 0" | (child) "i = 1" using assms(3) by linarith
  then show ?thesis
  proof cases
    case parent
    then show ?thesis
      using assms(1,2,4) parent_proc [of env g "ls 0" "ls 1"] parent_fd [of env g "ls 0" "ls 1"] parent_buf [of env g "ls 0" "ls 1"]
        parent_out [of env g "ls 0" "ls 1"] parent_data [of env g "ls 0" "ls 1"]
      unfolding pipe_inv_def by simp
  next
    case child
    then show ?thesis
      using assms(2,4) child_proc [of env g "ls 0" "ls 1"] child_fd [of env g "ls 0" "ls 1"] child_buf [of env g "ls 0" "ls 1"]
        child_out [of env g "ls 0" "ls 1"] child_data [of env g "ls 0" "ls 1"]
      unfolding pipe_inv_def by simp
  qed
qed

lemma pipe_inv_reach:
  assumes "\<not> fork_fails env" "reach 2 (pipe_main env) (pipe_start env) c"
  shows "pipe_inv env c"
  using assms(2) pipe_inv_start pipe_inv_step [OF assms(1)] by (rule reach_invariant)

lemma parent_stuck: "parent_pc p \<Longrightarrow> pipe_main env 0 g p = None \<Longrightarrow> p = P_wait \<and> \<not> child_exited g \<or> p = P_ended EXIT_SUCCESS"
  by (cases p) (auto simp: pipe_main_def pipe_parent_def split: if_splits)

lemma child_stuck:
  "child_pc c \<Longrightarrow> pipe_main env 1 g c = None \<Longrightarrow>
     c = C_close1 \<and> \<not> forked g \<or> c = C_ended \<or> c = C_read \<and> \<not> pipe_fails env \<and> (parent_fd1 g \<or> child_fd1 g)"
  by (cases c) (auto simp: pipe_main_def pipe_child_def pipe_read_def split: if_splits)

lemma pipe_stuck:
  assumes "\<not> fork_fails env" "pipe_inv env (g, ls)" "stuck 2 (pipe_main env) (g, ls)"
  shows "ls 0 = P_ended EXIT_SUCCESS \<and> ls 1 = C_ended"
proof -
  have "pipe_main env 0 g (ls 0) = None" "pipe_main env 1 g (ls 1) = None"
    using assms(3) by (simp_all add: stuck_def)
  then show ?thesis
    using assms(2) parent_stuck [of "ls 0" env g] child_stuck [of "ls 1" env g]
    by (auto simp: pipe_inv_def proc_inv_def fd_inv_def)
qed

text \<open>When \<open>fork\<close> fails there is only the parent.\<close>
lemma fork_fails_reach:
  assumes "fork_fails env" "reach 2 (pipe_main env) (pipe_start env) c"
  shows "\<not> forked (fst c) \<and> snd c 1 = C_close1 \<and>
    (snd c 0 = P_fork \<and> out (fst c) @ parent_buf (fst c) = [Forking] \<or>
     snd c 0 = P_exit EXIT_FAILURE \<and> out (fst c) @ parent_buf (fst c) = [Forking] \<or>
     snd c 0 = P_ended EXIT_FAILURE \<and> out (fst c) = [Forking])"
  using assms(2)
proof (rule reach_invariant)
  fix g ls i g' l'
  assume *: "\<not> forked (fst (g, ls)) \<and> snd (g, ls) 1 = C_close1 \<and>
    (snd (g, ls) 0 = P_fork \<and> out (fst (g, ls)) @ parent_buf (fst (g, ls)) = [Forking] \<or>
     snd (g, ls) 0 = P_exit EXIT_FAILURE \<and> out (fst (g, ls)) @ parent_buf (fst (g, ls)) = [Forking] \<or>
     snd (g, ls) 0 = P_ended EXIT_FAILURE \<and> out (fst (g, ls)) = [Forking])"
    and i: "(i::nat) < 2" "pipe_main env i g (ls i) = Some (g', l')"
  consider "i = 0" | "i = 1" using i(1) by linarith
  then show "\<not> forked (fst (g', ls(i := l'))) \<and> snd (g', ls(i := l')) 1 = C_close1 \<and>
    (snd (g', ls(i := l')) 0 = P_fork \<and> out (fst (g', ls(i := l'))) @ parent_buf (fst (g', ls(i := l'))) = [Forking] \<or>
     snd (g', ls(i := l')) 0 = P_exit EXIT_FAILURE \<and> out (fst (g', ls(i := l'))) @ parent_buf (fst (g', ls(i := l'))) = [Forking] \<or>
     snd (g', ls(i := l')) 0 = P_ended EXIT_FAILURE \<and> out (fst (g', ls(i := l'))) = [Forking])"
    using * i(2) assms(1) by cases (auto simp: pipe_main_def pipe_parent_def)
qed (simp add: pipe_start_def parent_prints_def)

section \<open>Property of \<open>pipe.c\<close>\<close>

text \<open>C13. However parent and child of \<open>pipe.c\<close> interleave: every run ends, with no deadlock and no \<open>SIGPIPE\<close>. If \<open>fork\<close> succeeds, at the
  end both have returned, the child has printed the two messages whole, in one piece or two, each after a prefix, nothing if
  \<open>pipe\<close> failed; the parent's last line is the last of the output; and the line before the \<open>fork\<close> is
  printed once on a terminal, but twice when \<open>stdout\<close> is buffered.\<close>
theorem pipe_delivers:
  assumes "run_sched 2 (pipe_main env) sched (pipe_start env) = Some (g, ls)"
  shows "length sched \<le> 261 \<and> ls 0 \<noteq> P_sigpipe \<and>
    (stuck 2 (pipe_main env) (g, ls) \<longrightarrow>
      (if fork_fails env then ls 0 = P_ended EXIT_FAILURE \<and> out g = [Forking]
       else ls 0 = P_ended EXIT_SUCCESS \<and> ls 1 = C_ended \<and> last (out g) = Child_terminated \<and>
         count_list (out g) Forking = (if tty env then 1 else 2) \<and>
         filter raw (out g) \<in> (if pipe_fails env then {[]} else {pieces [msg1 @ msg2], pieces [msg1, msg2]})))"
proof -
  note reach = run_sched_reach [OF assms]
  have len: "length sched \<le> 261"
    using pipe_run_length [OF assms] by (simp add: pipe_start_def parent_prints_def msg1_def msg2_def split: if_splits)
  show ?thesis
  proof (cases "fork_fails env")
    case True
    have "ls 0 = P_ended EXIT_FAILURE \<and> out g = [Forking]" if "stuck 2 (pipe_main env) (g, ls)"
    proof -
      have "pipe_main env 0 g (ls 0) = None" using that by (simp add: stuck_def)
      then show ?thesis using fork_fails_reach [OF True reach] by (auto simp: pipe_main_def True)
    qed
    then show ?thesis using len True fork_fails_reach [OF True reach] by auto
  next
    case False
    note inv = pipe_inv_reach [OF False reach]
    have "ls 0 \<noteq> P_sigpipe" using inv by (auto simp: pipe_inv_def proc_inv_def)
    moreover have "last (out g) = Child_terminated \<and> count_list (out g) Forking = (if tty env then 1 else 2) \<and>
        filter raw (out g) \<in> (if pipe_fails env then {[]} else {pieces [msg1 @ msg2], pieces [msg1, msg2]})"
      if "ls 0 = P_ended EXIT_SUCCESS" "ls 1 = C_ended"
      using inv that
      by (auto simp: pipe_inv_def proc_inv_def fd_inv_def out_inv_def data_inv_def flow_inv_def pieces_def msg1_def msg2_def split: if_splits)
    ultimately show ?thesis using len False pipe_stuck [OF False inv] by auto
  qed
qed

definition pipe_ok :: pipe_env where
  "pipe_ok = \<lparr>pipe_fails = False, fork_fails = False, tty = False\<rparr>"

definition pipe_schedule :: "nat list" where
  "pipe_schedule = replicate 3 0 @ replicate 8 1 @ replicate 3 0 @ replicate 7 1 @ replicate 3 0"

lemma pipe_schedule_ends:
  "case run_sched 2 (pipe_main pipe_ok) pipe_schedule (pipe_start pipe_ok) of
     None \<Rightarrow> False
   | Some c \<Rightarrow> snd c 0 = P_ended 0 \<and> snd c 1 = C_ended \<and> filter raw (out (fst c)) = pieces [msg1, msg2]"
  by code_simp

theorem pipe_delivers_witness:
  "\<exists>g ls. run_sched 2 (pipe_main pipe_ok) pipe_schedule (pipe_start pipe_ok) = Some (g, ls) \<and>
     count_list (out g) Forking = 2 \<and> last (out g) = Child_terminated"
proof -
  obtain g ls where c: "run_sched 2 (pipe_main pipe_ok) pipe_schedule (pipe_start pipe_ok) = Some (g, ls)"
      "ls 0 = P_ended 0" "ls 1 = C_ended"
    using pipe_schedule_ends by (auto split: option.splits)
  have "stuck 2 (pipe_main pipe_ok) (g, ls)"
    using c(2,3) by (simp add: stuck_def less_2_cases_iff pipe_main_def pipe_parent_def pipe_child_def)
  then show ?thesis using pipe_delivers [OF c(1)] c(1) by (simp add: pipe_ok_def)
qed

section \<open>The pair of sockets\<close>

text \<open>\<open>socket_pair.c\<close>: one byte there and one back. The lines of a process stay in its own list, as their order among the
  processes depends on buffering.\<close>
datatype sock_line = Sent char | Got char

record sock_sys =
  to_parent :: string
  to_child :: string
  parent_end :: bool
  child_end :: bool
  sock_forked :: bool
  sock_child_exited :: bool
  parent_lines :: "sock_line list"
  child_lines :: "sock_line list"

record sock_env =
  socketpair_fails :: bool
  sock_fork_fails :: bool

datatype sock_pc =
    SP_pair | SP_fork | SP_close | SP_say_sent | SP_write | SP_read | SP_say_read char | SP_wait | SP_ended int
  | SC_close | SC_read | SC_say_read char | SC_say_sent char | SC_write char | SC_return | SC_ended | S_no_data

definition toupper :: "char \<Rightarrow> char" where
  "toupper c = (if 97 \<le> (of_char c :: nat) \<and> (of_char c :: nat) \<le> 122 then char_of ((of_char c :: nat) - 32) else c)"

text \<open>\<open>read (sv[i], &buf, 1)\<close>: it blocks while the other end is open; at the end of the data \<open>buf\<close> would
  keep what it has (\<open>S_no_data\<close>).\<close>
definition sock_parent :: "sock_env \<Rightarrow> sock_sys \<Rightarrow> sock_pc \<Rightarrow> (sock_sys \<times> sock_pc) option" where
  "sock_parent env g pc =
     (case pc of
        SP_pair \<Rightarrow>
          if socketpair_fails env then Some (g, SP_ended EXIT_FAILURE)
          else Some (g\<lparr>parent_end := True, child_end := True\<rparr>, SP_fork)
      | SP_fork \<Rightarrow>
          if sock_fork_fails env then Some (g, SP_ended EXIT_FAILURE) else Some (g\<lparr>sock_forked := True\<rparr>, SP_close)
      | SP_close \<Rightarrow> Some (g, SP_say_sent)
      | SP_say_sent \<Rightarrow> Some (g\<lparr>parent_lines := parent_lines g @ [Sent (CHR ''b'')]\<rparr>, SP_write)
      | SP_write \<Rightarrow> Some (g\<lparr>to_child := to_child g @ ''b''\<rparr>, SP_read)
      | SP_read \<Rightarrow>
          (case to_parent g of
             c # cs \<Rightarrow> Some (g\<lparr>to_parent := cs\<rparr>, SP_say_read c)
           | [] \<Rightarrow> if child_end g then None else Some (g, S_no_data))
      | SP_say_read c \<Rightarrow> Some (g\<lparr>parent_lines := parent_lines g @ [Got c]\<rparr>, SP_wait)
      | SP_wait \<Rightarrow> if sock_child_exited g then Some (g, SP_ended EXIT_SUCCESS) else None
      | _ \<Rightarrow> None)"

definition sock_child :: "sock_sys \<Rightarrow> sock_pc \<Rightarrow> (sock_sys \<times> sock_pc) option" where
  "sock_child g pc =
     (case pc of
        SC_close \<Rightarrow> if sock_forked g then Some (g, SC_read) else None
      | SC_read \<Rightarrow>
          (case to_child g of
             c # cs \<Rightarrow> Some (g\<lparr>to_child := cs\<rparr>, SC_say_read c)
           | [] \<Rightarrow> if parent_end g then None else Some (g, S_no_data))
      | SC_say_read c \<Rightarrow> Some (g\<lparr>child_lines := child_lines g @ [Got c]\<rparr>, SC_say_sent (toupper c))
      | SC_say_sent c \<Rightarrow> Some (g\<lparr>child_lines := child_lines g @ [Sent c]\<rparr>, SC_write c)
      | SC_write c \<Rightarrow> Some (g\<lparr>to_parent := to_parent g @ [c]\<rparr>, SC_return)
      | SC_return \<Rightarrow> Some (g\<lparr>child_end := False, sock_child_exited := True\<rparr>, SC_ended)
      | _ \<Rightarrow> None)"

definition sock_step :: "sock_env \<Rightarrow> (sock_sys, sock_pc) tstep" where
  "sock_step env i g pc = (if i = 0 then sock_parent env g pc else sock_child g pc)"

definition sock_start :: "(sock_sys, sock_pc) conf" where
  "sock_start =
     (\<lparr>to_parent = [], to_child = [], parent_end = False, child_end = False, sock_forked = False, sock_child_exited = False,
       parent_lines = [], child_lines = []\<rparr>, (\<lambda>i. if i = 0 then SP_pair else SC_close))"

fun sock_weight :: "sock_pc \<Rightarrow> nat" where
  "sock_weight SP_pair = 8"
| "sock_weight SP_fork = 7"
| "sock_weight SP_close = 6"
| "sock_weight SP_say_sent = 5"
| "sock_weight SP_write = 4"
| "sock_weight SP_read = 3"
| "sock_weight (SP_say_read c) = 2"
| "sock_weight SP_wait = 1"
| "sock_weight SC_close = 6"
| "sock_weight SC_read = 5"
| "sock_weight (SC_say_read c) = 4"
| "sock_weight (SC_say_sent c) = 3"
| "sock_weight (SC_write c) = 2"
| "sock_weight SC_return = 1"
| "sock_weight _ = 0"

lemma sock_less: "sock_step env i g l = Some (g', l') \<Longrightarrow> sock_weight l' < sock_weight l"
  by (cases l) (auto simp: sock_step_def sock_parent_def sock_child_def split: if_splits list.splits)

text \<open>Where the byte is: on its way to the child, with the child, on its way back, with the parent.\<close>
fun sock_parent_inv :: "sock_env \<Rightarrow> sock_sys \<Rightarrow> sock_pc \<Rightarrow> sock_pc \<Rightarrow> bool" where
  "sock_parent_inv env g SP_pair c = (c = SC_close \<and> \<not> sock_forked g \<and> parent_lines g = [] \<and> to_child g = [] \<and> to_parent g = [])"
| "sock_parent_inv env g SP_fork c =
     (c = SC_close \<and> \<not> sock_forked g \<and> parent_lines g = [] \<and> to_child g = [] \<and> to_parent g = [] \<and> parent_end g \<and> child_end g)"
| "sock_parent_inv env g SP_close c =
     (c \<in> {SC_close, SC_read} \<and> sock_forked g \<and> parent_lines g = [] \<and> to_child g = [] \<and> to_parent g = [] \<and> parent_end g \<and> child_end g)"
| "sock_parent_inv env g SP_say_sent c =
     (c \<in> {SC_close, SC_read} \<and> sock_forked g \<and> parent_lines g = [] \<and> to_child g = [] \<and> to_parent g = [] \<and> parent_end g \<and> child_end g)"
| "sock_parent_inv env g SP_write c =
     (c \<in> {SC_close, SC_read} \<and> sock_forked g \<and> parent_lines g = [Sent (CHR ''b'')] \<and> to_child g = [] \<and> to_parent g = [] \<and>
      parent_end g \<and> child_end g)"
| "sock_parent_inv env g SP_read c =
     (sock_forked g \<and> parent_lines g = [Sent (CHR ''b'')] \<and>
      (c \<in> {SC_close, SC_read} \<and> to_child g = ''b'' \<and> to_parent g = [] \<and> parent_end g \<and> child_end g \<or>
       c \<in> {SC_say_read (CHR ''b''), SC_say_sent (CHR ''B''), SC_write (CHR ''B'')} \<and> to_child g = [] \<and> to_parent g = [] \<and> child_end g \<or>
       c \<in> {SC_return, SC_ended} \<and> to_parent g = ''B''))"
| "sock_parent_inv env g (SP_say_read b) c = (b = CHR ''B'' \<and> c \<in> {SC_return, SC_ended} \<and> parent_lines g = [Sent (CHR ''b'')])"
| "sock_parent_inv env g SP_wait c = (c \<in> {SC_return, SC_ended} \<and> parent_lines g = [Sent (CHR ''b''), Got (CHR ''B'')])"
| "sock_parent_inv env g (SP_ended x) c =
     (if socketpair_fails env \<or> sock_fork_fails env then x = EXIT_FAILURE \<and> \<not> sock_forked g \<and> c = SC_close \<and> parent_lines g = []
      else x = EXIT_SUCCESS \<and> c = SC_ended \<and> parent_lines g = [Sent (CHR ''b''), Got (CHR ''B'')])"
| "sock_parent_inv env g _ c = False"

fun sock_child_out :: "sock_pc \<Rightarrow> sock_line list" where
  "sock_child_out SC_ended = [Got (CHR ''b''), Sent (CHR ''B'')]"
| "sock_child_out SC_return = [Got (CHR ''b''), Sent (CHR ''B'')]"
| "sock_child_out (SC_write c) = [Got (CHR ''b''), Sent (CHR ''B'')]"
| "sock_child_out (SC_say_sent c) = [Got (CHR ''b'')]"
| "sock_child_out _ = []"

definition sock_inv :: "sock_env \<Rightarrow> (sock_sys, sock_pc) conf \<Rightarrow> bool" where
  "sock_inv env c \<longleftrightarrow>
     sock_parent_inv env (fst c) (snd c 0) (snd c 1) \<and> child_lines (fst c) = sock_child_out (snd c 1) \<and>
     (sock_child_exited (fst c) \<longleftrightarrow> snd c 1 = SC_ended) \<and>
     (snd c 0 \<noteq> SP_pair \<and> snd c 0 \<notin> range SP_ended \<longrightarrow> \<not> socketpair_fails env) \<and>
     (snd c 0 \<notin> {SP_pair, SP_fork} \<and> snd c 0 \<notin> range SP_ended \<longrightarrow> \<not> sock_fork_fails env)"

lemma toupper_b: "toupper (CHR ''b'') = CHR ''B''"
  by code_simp

lemma sock_child_moves:
  "sock_parent_inv env g p c \<Longrightarrow> sock_child g c = Some (g', c') \<Longrightarrow> p \<in> {SP_close, SP_say_sent, SP_write, SP_read, SP_say_read (CHR ''B''), SP_wait}"
  by (cases p) (auto simp: sock_child_def split: if_splits)

lemma sock_child_parent:
  assumes "sock_parent_inv env g p c" "sock_child g c = Some (g', c')"
  shows "sock_parent_inv env g' p c'"
  using sock_child_moves [OF assms] assms
  by (elim insertE emptyE) (auto simp: sock_child_def toupper_b split: list.splits)

lemma sock_child_lines:
  assumes "child_lines g = sock_child_out c" "sock_parent_inv env g p c" "sock_child g c = Some (g', c')"
  shows "child_lines g' = sock_child_out c'"
  using sock_child_moves [OF assms(2,3)] assms
  by (elim insertE emptyE) (auto simp: sock_child_def toupper_b split: list.splits)

lemma sock_inv_step:
  assumes "sock_inv env (g, ls)" "i < 2" "sock_step env i g (ls i) = Some (g', l')"
  shows "sock_inv env (g', ls(i := l'))"
proof -
  consider (parent) "i = 0" | (child) "i = 1" using assms(2) by linarith
  then show ?thesis
  proof cases
    case parent
    then show ?thesis using assms(1,3)
      by (cases "ls 0") (auto simp: sock_inv_def sock_step_def sock_parent_def split: if_splits list.splits)
  next
    case child
    have "sock_child_exited g' \<longleftrightarrow> c' = SC_ended" if "sock_child g c = Some (g', c')" "sock_child_exited g \<longleftrightarrow> c = SC_ended" for c c'
      using that by (cases c) (auto simp: sock_child_def split: if_splits list.splits)
    then show ?thesis
      using assms(1,3) child sock_child_parent [of env g "ls 0" "ls 1" g' l'] sock_child_lines [of g "ls 1" env "ls 0" g' l']
      by (simp add: sock_inv_def sock_step_def)
  qed
qed

theorem socket_pair_exchanges:
  assumes "run_sched 2 (sock_step env) sched sock_start = Some (g, ls)"
  shows "length sched \<le> 14 \<and>
    (stuck 2 (sock_step env) (g, ls) \<longrightarrow>
      (if socketpair_fails env \<or> sock_fork_fails env then ls 0 = SP_ended EXIT_FAILURE \<and> parent_lines g = []
       else ls 0 = SP_ended EXIT_SUCCESS \<and> ls 1 = SC_ended \<and>
         parent_lines g = [Sent (CHR ''b''), Got (CHR ''B'')] \<and> child_lines g = [Got (CHR ''b''), Sent (CHR ''B'')]))"
proof -
  let ?m = "\<lambda>c. \<Sum>i<2. sock_weight (snd c i)"
  have "?m (g', ls(i := l')) < ?m (g, ls)"
    if "i < 2" "sock_step env i g (ls i) = Some (g', l')" for g ls i g' l'
    using sock_less [OF that(2)] sum_upd_less [OF that(1), of sock_weight l' ls] by simp
  from run_bound [where m = ?m, OF assms this] have len: "length sched \<le> 14"
    by (simp add: sock_start_def numeral_eq_Suc)
  have inv: "sock_inv env (g, ls)"
    using run_sched_reach [OF assms] _ sock_inv_step by (rule reach_invariant) (simp add: sock_inv_def sock_start_def)
  show ?thesis
  proof (intro conjI impI len)
    assume "stuck 2 (sock_step env) (g, ls)"
    then have "sock_parent env g (ls 0) = None" "sock_child g (ls 1) = None"
      by (simp_all add: stuck_def sock_step_def less_2_cases_iff)
    then show "if socketpair_fails env \<or> sock_fork_fails env then ls 0 = SP_ended EXIT_FAILURE \<and> parent_lines g = []
       else ls 0 = SP_ended EXIT_SUCCESS \<and> ls 1 = SC_ended \<and>
         parent_lines g = [Sent (CHR ''b''), Got (CHR ''B'')] \<and> child_lines g = [Got (CHR ''b''), Sent (CHR ''B'')]"
      using inv by (cases "ls 0")
        (auto simp: sock_inv_def sock_parent_def sock_child_def split: if_splits list.splits)
  qed
qed

end
