(* ===== verification/Memory_Map.thy ===== *)
theory Memory_Map
  imports Libc
begin

unbundle bit_operations_syntax

text \<open>
  \<open>08-shared_memory/mmap_man_example.c\<close>: a part of a file, given by its offset and its length, is mapped and written to
  the standard output. \<open>off_t\<close>, \<open>size_t\<close> and \<open>ssize_t\<close> have 64 bits; where a signed and an unsigned value meet, both
  are taken as unsigned.
\<close>

type_synonym off_t = "64 word"
type_synonym size_t = "64 word"

text \<open>The file and the system: \<open>mmap_fails offset length\<close>, and the result of \<open>write\<close>, -1 or a number of
  bytes.\<close>
record mm_env =
  content :: string
  open_fails :: bool
  fstat_fails :: bool
  page_size :: "64 word"
  mmap_fails :: "off_t \<Rightarrow> size_t \<Rightarrow> bool"
  write_result :: "size_t \<Rightarrow> int"

datatype mm_error = Usage | Open_error | Fstat_error | Past_end | Mmap_error | Write_error | Partial_write

text \<open>How the program ends, and what it has written before.\<close>
datatype mm_result = Fails mm_error string | Succeeds string

definition st_size :: "mm_env \<Rightarrow> off_t" where
  "st_size env = of_nat (length (content env))"

text \<open>\<open>offset & ~(sysconf (_SC_PAGE_SIZE) - 1)\<close>\<close>
definition page_start :: "mm_env \<Rightarrow> off_t \<Rightarrow> off_t" where
  "page_start env offset = offset AND NOT (page_size env - 1)"

text \<open>An \<open>int\<close> as \<open>off_t\<close> or \<open>size_t\<close>.\<close>
definition of_atoi :: "string \<Rightarrow> 64 word" where
  "of_atoi s = scast (atoi s)"

definition map_length :: "mm_env \<Rightarrow> off_t \<Rightarrow> string option \<Rightarrow> size_t" where
  "map_length env offset arg =
     (case arg of
        Some a \<Rightarrow>
          (let len = of_atoi a
           in if st_size env < offset + len then st_size env - offset else len)
      | None \<Rightarrow> st_size env - offset)"

text \<open>From the mapping on. The bytes at \<open>addr + offset - pa_offset\<close> are those of the file from \<open>offset\<close> on.\<close>
definition mm_write :: "mm_env \<Rightarrow> off_t \<Rightarrow> size_t \<Rightarrow> mm_result" where
  "mm_write env offset len =
     (let pa_offset = page_start env offset in
      if mmap_fails env pa_offset (len + offset - pa_offset) then Fails Mmap_error []
      else
        let s = write_result env len;
            written = take (nat s) (drop (unat offset) (content env))
        in if (word_of_int s :: size_t) \<noteq> len then Fails (if s = -1 then Write_error else Partial_write) written
           else Succeeds written)"

definition mm_main :: "mm_env \<Rightarrow> string list \<Rightarrow> mm_result" where
  "mm_main env args =
     (if length args < 2 \<or> 3 < length args then Fails Usage []
      else if open_fails env then Fails Open_error []
      else if fstat_fails env then Fails Fstat_error []
      else
        let offset = of_atoi (args ! 1) in
        if sint (st_size env) \<le> sint offset then Fails Past_end []
        else mm_write env offset (map_length env offset (if length args = 3 then Some (args ! 2) else None)))"

section \<open>The range\<close>

text \<open>Page sizes are powers of two.\<close>
definition page_bits :: "mm_env \<Rightarrow> nat \<Rightarrow> bool" where
  "page_bits env k \<longleftrightarrow> k < 32 \<and> page_size env = 2 ^ k"

lemma uint_page_start:
  assumes "page_bits env k"
  shows "uint (page_start env offset) = uint offset div 2 ^ k * 2 ^ k"
proof -
  have "page_size env - 1 = mask k" using assms by (simp add: page_bits_def mask_eq_decr_exp)
  then have "page_start env offset = push_bit k (drop_bit k offset)"
    by (simp add: page_start_def) (rule bit_eqI, auto simp: bit_simps)
  moreover have "uint (push_bit k (drop_bit k offset)) = push_bit k (drop_bit k (uint offset))"
    by (rule bit_eqI) (auto simp: bit_simps dest: bit_imp_le_length)
  ultimately show ?thesis by (simp add: push_bit_eq_mult drop_bit_eq_div)
qed

lemma uint_page_size:
  assumes "page_bits env k"
  shows "uint (page_size env) = 2 ^ k"
proof -
  have "page_size env = word_of_int (2 ^ k)" using assms by (simp add: page_bits_def word_of_int_2p)
  moreover have "(2::int) ^ k < 2 ^ 64" using assms by (intro power_strict_increasing) (simp_all add: page_bits_def)
  ultimately show ?thesis
    using assms by (simp only: uint_word_of_int_eq) (simp add: take_bit_int_eq_self page_bits_def)
qed

lemma page_start_bounds:
  assumes "page_bits env k"
  shows "uint (page_start env offset) \<le> uint offset" "uint offset - uint (page_start env offset) < uint (page_size env)"
    "uint (page_size env) dvd uint (page_start env offset)"
proof -
  note p = uint_page_size [OF assms]
  have m: "uint offset div 2 ^ k * 2 ^ k = uint offset - uint offset mod 2 ^ k" by (simp add: minus_mod_eq_div_mult)
  show "uint (page_start env offset) \<le> uint offset" "uint offset - uint (page_start env offset) < uint (page_size env)"
    unfolding uint_page_start [OF assms] p m by simp_all
  show "uint (page_size env) dvd uint (page_start env offset)"
    unfolding uint_page_start [OF assms] p by simp
qed

text \<open>What \<open>atoi\<close> returned, as a number.\<close>
lemma uint_of_atoi:
  "uint (of_atoi a) = (if 0 \<le> sint (atoi a) then sint (atoi a) else 2 ^ 64 + sint (atoi a))"
  "sint (of_atoi a) = sint (atoi a)" "- (2 ^ 31) \<le> sint (atoi a)" "sint (atoi a) < 2 ^ 31"
proof -
  have r: "- (2 ^ 31) \<le> sint (atoi a)" "sint (atoi a) < 2 ^ 31"
    using sint_range_size [of "atoi a"] by (simp_all add: word_size)
  then show "- (2 ^ 31) \<le> sint (atoi a)" "sint (atoi a) < 2 ^ 31" by auto
  show e: "sint (of_atoi a) = sint (atoi a)"
    unfolding of_atoi_def by (rule sint_up_scast) (simp add: is_up_def source_size_def target_size_def word_size)
  have "uint (of_atoi a) = sint (of_atoi a) mod 2 ^ 64"
    by (simp add: uint_sint take_bit_eq_mod)
  also have "\<dots> = (if 0 \<le> sint (atoi a) then sint (atoi a) else 2 ^ 64 + sint (atoi a))"
  proof (cases "0 \<le> sint (atoi a)")
    case False
    then have "sint (atoi a) mod 2 ^ 64 = (sint (atoi a) + 2 ^ 64) mod 2 ^ 64" by simp
    also have "\<dots> = sint (atoi a) + 2 ^ 64" using r False by (intro mod_pos_pos_trivial) auto
    finally show ?thesis using False by (simp add: e)
  qed (use r in \<open>simp add: e mod_pos_pos_trivial\<close>)
  finally show "uint (of_atoi a) = (if 0 \<le> sint (atoi a) then sint (atoi a) else 2 ^ 64 + sint (atoi a))" .
qed

section \<open>Property\<close>

text \<open>A system in which all calls work: as on Linux, a mapping must not be empty, and its offset not negative and at the start of a page; no
  mapping is larger than the address space of 47 bits, and one \<open>write\<close> takes at most \<open>MAX_RW_COUNT\<close> bytes and refuses a
  number that is negative as \<open>ssize_t\<close>.\<close>
definition MAX_RW_COUNT :: int where "MAX_RW_COUNT = 0x7ffff000"

definition linux_maps :: "mm_env \<Rightarrow> bool" where
  "linux_maps env \<longleftrightarrow>
     \<not> open_fails env \<and> \<not> fstat_fails env \<and>
     (\<forall>p n. mmap_fails env p n \<longleftrightarrow>
        n = 0 \<or> sint p < 0 \<or> \<not> uint (page_size env) dvd uint p \<or> 2 ^ 47 < uint n) \<and>
     (\<forall>n. write_result env n = (if 2 ^ 63 \<le> uint n then -1 else min (uint n) MAX_RW_COUNT))"

abbreviation file_size :: "mm_env \<Rightarrow> int" where
  "file_size env \<equiv> int (length (content env))"

lemma uint_st_size:
  assumes "file_size env \<le> 2 ^ 46"
  shows "uint (st_size env) = file_size env" "sint (st_size env) = file_size env"
proof -
  have "st_size env = word_of_int (file_size env)" by (simp add: st_size_def)
  then show "uint (st_size env) = file_size env"
    using assms by (simp only: uint_word_of_int_eq) (simp add: take_bit_int_eq_self)
  then show "sint (st_size env) = file_size env"
    using assms by (simp add: sint_uint signed_take_bit_int_eq_self)
qed

lemma uint_sub_le: "uint y \<le> uint x \<Longrightarrow> uint (x - y) = uint x - uint y" for x y :: "'a::len word"
  by (simp add: uint_minus_simple_alt [symmetric] word_le_def)

lemma uint_add_less: "uint x + uint y < 2 ^ 64 \<Longrightarrow> uint (x + y) = uint x + uint y" for x y :: "64 word"
  by (simp add: uint_plus_simple_iff [symmetric] no_olen_add)

text \<open>The length after the clamping, for an offset in the file.\<close>
lemma map_length_cases:
  assumes "file_size env \<le> 2 ^ 46" "uint off = o'" "o' < file_size env"
  shows "uint (map_length env off None) = file_size env - o'"
    "0 \<le> sint (atoi a) \<Longrightarrow> uint (map_length env off (Some a)) = min (sint (atoi a)) (file_size env - o')"
    "sint (atoi a) < 0 \<Longrightarrow> uint (map_length env off (Some a)) =
       (if o' + sint (atoi a) < 0 then file_size env - o' else 2 ^ 64 + sint (atoi a))"
proof -
  have z: "uint (st_size env) = file_size env" by (rule uint_st_size [OF assms(1)])
  have d: "uint (st_size env - off) = file_size env - o'"
    using assms(2,3) z by (simp add: uint_sub_le)
  show "uint (map_length env off None) = file_size env - o'" by (simp add: map_length_def d)
  have "0 \<le> o'" using assms(2) by auto
  show "uint (map_length env off (Some a)) = min (sint (atoi a)) (file_size env - o')" if "0 \<le> sint (atoi a)"
  proof -
    have "uint (of_atoi a) = sint (atoi a)" using that by (simp add: uint_of_atoi(1))
    moreover have "uint (off + of_atoi a) = o' + sint (atoi a)"
      using that assms uint_of_atoi(4) [of a] by (subst uint_add_less) (simp_all add: uint_of_atoi(1))
    ultimately show ?thesis using d z by (simp add: map_length_def Let_def word_less_def)
  qed
  show "uint (map_length env off (Some a)) = (if o' + sint (atoi a) < 0 then file_size env - o' else 2 ^ 64 + sint (atoi a))"
    if "sint (atoi a) < 0"
  proof -
    have u: "uint (of_atoi a) = 2 ^ 64 + sint (atoi a)" using that by (simp add: uint_of_atoi(1))
    have "uint (off + of_atoi a) = (o' + (2 ^ 64 + sint (atoi a))) mod 2 ^ 64"
      using u assms(2) by (simp add: uint_word_ariths)
    also have "\<dots> = (if o' + sint (atoi a) < 0 then 2 ^ 64 + (o' + sint (atoi a)) else o' + sint (atoi a))"
    proof (cases "o' + sint (atoi a) < 0")
      case True
      then show ?thesis using \<open>0 \<le> o'\<close> uint_of_atoi(3) [of a] by (simp add: algebra_simps mod_pos_pos_trivial)
    next
      case False
      have "(o' + (2 ^ 64 + sint (atoi a))) mod 2 ^ 64 = (o' + sint (atoi a)) mod 2 ^ 64"
        by (metis add.assoc add.commute mod_add_self2)
      then show ?thesis using False that assms by (simp add: mod_pos_pos_trivial)
    qed
    finally show ?thesis using d z u that assms uint_of_atoi(3) [of a] \<open>0 \<le> o'\<close>
      by (auto simp: map_length_def Let_def word_less_def)
  qed
qed

lemma page_offset:
  assumes "page_bits env k"
  shows "uint (page_start env off) = uint off - uint off mod uint (page_size env)"
  by (simp add: uint_page_start [OF assms] uint_page_size [OF assms] minus_mod_eq_div_mult)

lemma sint_small:
  fixes x :: "64 word"
  assumes "uint x < 2 ^ 63"
  shows "sint x = uint x"
proof -
  have "- (2 ^ 63) \<le> uint x" by (rule order_trans [OF _ uint_nonnegative]) simp
  then show ?thesis using assms by (simp add: sint_uint signed_take_bit_int_eq_self)
qed

lemma sint_large:
  fixes x :: "64 word"
  assumes "2 ^ 63 \<le> uint x"
  shows "sint x < 0"
proof (rule ccontr)
  assume "\<not> sint x < 0"
  then have "uint x = sint x" using sint_range_size [of x] by (simp add: uint_sint take_bit_int_eq_self word_size)
  then show False using assms sint_range_size [of x] by (simp add: word_size)
qed

lemma page_rest:
  assumes "page_bits env k"
  shows "0 \<le> uint off mod uint (page_size env)" "uint off mod uint (page_size env) \<le> uint off"
    "uint off mod uint (page_size env) < 2 ^ 32"
proof -
  have p: "0 < uint (page_size env)" "uint (page_size env) < 2 ^ 32"
    using power_strict_increasing [of k 32 "2::int"] assms uint_page_size [OF assms] by (simp_all add: page_bits_def)
  show "0 \<le> uint off mod uint (page_size env)" "uint off mod uint (page_size env) \<le> uint off"
    using p(1) by (simp_all add: zmod_le_nonneg_dividend)
  show "uint off mod uint (page_size env) < 2 ^ 32"
    using pos_mod_bound [OF p(1), of "uint off"] p(2) by linarith
qed

text \<open>Whether the mapping of \<open>n\<close> bytes from the page of an offset that is not negative fails.\<close>
lemma mmap_fails_at:
  assumes "linux_maps env" "page_bits env k" "uint off < 2 ^ 31"
  shows "mmap_fails env (page_start env off) n \<longleftrightarrow> uint n = 0 \<or> 2 ^ 47 < uint n"
proof -
  have "uint (page_start env off) < 2 ^ 63" using page_start_bounds(1) [OF assms(2), of off] assms(3) by simp
  then have "\<not> sint (page_start env off) < 0" by (simp add: sint_small)
  then show ?thesis using assms(1) page_start_bounds(3) [OF assms(2)] by (simp add: linux_maps_def uint_0_iff)
qed

text \<open>A length of at most \<open>2 ^ 46\<close>.\<close>
lemma mm_write_plain:
  assumes "linux_maps env" "page_bits env k" "uint off < 2 ^ 31" "uint len \<le> 2 ^ 46"
  shows "mm_write env off len =
    (if uint len = 0 \<and> uint (page_size env) dvd uint off then Fails Mmap_error []
     else if uint len \<le> MAX_RW_COUNT then Succeeds (take (nat (uint len)) (drop (unat off) (content env)))
     else Fails Partial_write (take (nat MAX_RW_COUNT) (drop (unat off) (content env))))"
proof -
  let ?m = "uint off mod uint (page_size env)"
  have "uint (len + off) = uint len + uint off" using assms(3,4) by (intro uint_add_less) simp
  note e = this page_offset [OF assms(2), of off]
  have "0 \<le> uint len + ?m" using page_rest(1) [OF assms(2), of off] uint_nonnegative [of len] by linarith
  then have "uint (page_start env off) \<le> uint (len + off)" using e by linarith
  from uint_sub_le [OF this] have l: "uint (len + off - page_start env off) = uint len + ?m" using e by linarith
  have f: "mmap_fails env (page_start env off) (len + off - page_start env off) \<longleftrightarrow> uint len = 0 \<and> ?m = 0"
    unfolding mmap_fails_at [OF assms(1-3)] l add_nonneg_eq_0_iff [OF uint_nonnegative page_rest(1) [OF assms(2)]]
    using page_rest(3) [OF assms(2), of off] assms(4) by auto
  have s: "write_result env len = min (uint len) MAX_RW_COUNT"
    using assms(1,4) by (auto simp: linux_maps_def)
  have w: "(word_of_int (min (uint len) MAX_RW_COUNT) :: 64 word) = len \<longleftrightarrow> uint len \<le> MAX_RW_COUNT"
  proof
    assume "(word_of_int (min (uint len) MAX_RW_COUNT) :: 64 word) = len"
    then have "uint (word_of_int (min (uint len) MAX_RW_COUNT) :: 64 word) = uint len" by (rule arg_cong)
    then have "take_bit 64 (min (uint len) MAX_RW_COUNT) = uint len" by (simp only: uint_word_of_int_eq) simp
    moreover have "take_bit 64 (min (uint len) MAX_RW_COUNT) = min (uint len) MAX_RW_COUNT"
      using assms(4) by (intro take_bit_int_eq_self) (auto simp: MAX_RW_COUNT_def)
    ultimately show "uint len \<le> MAX_RW_COUNT" by simp
  qed simp
  have "0 \<le> MAX_RW_COUNT" by (simp add: MAX_RW_COUNT_def)
  then have "0 \<le> min (uint len) MAX_RW_COUNT" by simp
  then have "min (uint len) MAX_RW_COUNT \<noteq> -1" by linarith
  then show ?thesis
    using w by (auto simp: mm_write_def Let_def f s dvd_eq_mod_eq_0 min_def)
qed

text \<open>A negative length, as a \<open>size_t\<close>: the sum with the rest of the offset may wrap to a small mapping.\<close>
lemma mm_write_negative:
  assumes "linux_maps env" "page_bits env k" "uint off < 2 ^ 31" "uint len = 2 ^ 64 + l" "- (2 ^ 31) \<le> l" "l < 0"
  shows "mm_write env off len =
    (if uint off mod uint (page_size env) + l \<le> 0 then Fails Mmap_error []
     else if l = -1 then Succeeds [] else Fails Write_error [])"
proof -
  let ?m = "uint off mod uint (page_size env)"
  have "uint (len + off - page_start env off) = (2 ^ 64 + l + uint off - (uint off - ?m)) mod 2 ^ 64"
    using assms(4) page_offset [OF assms(2), of off] by (simp add: uint_word_ariths mod_simps)
  also have "2 ^ 64 + l + uint off - (uint off - ?m) = (?m + l) + 2 ^ 64" by simp
  also have "((?m + l) + 2 ^ 64) mod 2 ^ 64 = (?m + l) mod 2 ^ 64" by (rule mod_add_self2)
  also have "\<dots> = (if ?m + l < 0 then 2 ^ 64 + (?m + l) else ?m + l)"
  proof (cases "?m + l < 0")
    case True
    then have "(?m + l) mod 2 ^ 64 = (2 ^ 64 + (?m + l)) mod 2 ^ 64" by simp
    also have "\<dots> = 2 ^ 64 + (?m + l)"
      using True assms(5) page_rest(1) [OF assms(2), of off] by (intro mod_pos_pos_trivial) auto
    finally show ?thesis using True by simp
  next
    case False
    then show ?thesis using assms(6) page_rest(3) [OF assms(2), of off] by (simp add: mod_pos_pos_trivial)
  qed
  finally have u: "uint (len + off - page_start env off) = (if ?m + l < 0 then 2 ^ 64 + (?m + l) else ?m + l)" .
  have f: "mmap_fails env (page_start env off) (len + off - page_start env off) \<longleftrightarrow> ?m + l \<le> 0"
    unfolding mmap_fails_at [OF assms(1-3)] u
    using page_rest [OF assms(2), of off] assms(5,6) by auto
  have s: "write_result env len = -1"
    using assms(1,4,5) by (auto simp: linux_maps_def)
  have "(word_of_int (-1) :: 64 word) = len \<longleftrightarrow> l = -1"
  proof
    assume "(word_of_int (-1) :: 64 word) = len"
    then have "uint len = uint (-1 :: 64 word)" by simp
    then show "l = -1" using assms(4) by (simp add: unsigned_minus_1_eq_mask mask_eq_exp_minus_1)
  next
    assume "l = -1"
    then have "uint len = uint (-1 :: 64 word)"
      using assms(4) by (simp add: unsigned_minus_1_eq_mask mask_eq_exp_minus_1)
    then show "(word_of_int (-1) :: 64 word) = len" by (simp add: word_uint_eq_iff)
  qed
  then show ?thesis by (auto simp: mm_write_def Let_def f s)
qed

lemma mm_write_negative_offset:
  assumes "linux_maps env" "page_bits env k" "sint off < 0"
  shows "mm_write env off len = Fails Mmap_error []"
proof -
  have k: "k < 32" using assms(2) by (simp add: page_bits_def)
  have "2 ^ 63 \<le> uint off"
  proof (rule ccontr)
    assume "\<not> 2 ^ 63 \<le> uint off"
    then have "sint off = uint off" by (intro sint_small) simp
    then show False using assms(3) uint_nonnegative [of off] by linarith
  qed
  then have "2 ^ 63 div 2 ^ k \<le> uint off div 2 ^ k" by (rule zdiv_mono1) simp
  then have "2 ^ 63 div 2 ^ k * 2 ^ k \<le> uint off div 2 ^ k * 2 ^ k" by (rule mult_right_mono) simp
  moreover have "(2::int) ^ 63 div 2 ^ k * 2 ^ k = 2 ^ 63"
    using k by (intro dvd_div_mult_self le_imp_power_dvd) simp
  ultimately have "2 ^ 63 \<le> uint (page_start env off)" by (simp only: uint_page_start [OF assms(2)])
  then have "sint (page_start env off) < 0" by (rule sint_large)
  then show ?thesis using assms(1) by (simp add: mm_write_def Let_def linux_maps_def)
qed

text \<open>C28. For files of at most \<open>2 ^ 46\<close> bytes on a system as Linux, with \<open>o'\<close> the offset as \<open>atoi\<close> reads it: an offset at or past the
  end is refused, a negative one is refused only by \<open>mmap\<close>. Otherwise, with no length or with one that is not negative, the bytes asked
  for are printed, up to the end of the file, unless they are none or more than one \<open>write\<close> takes. A negative
  length is no error: if it reaches before the start of the file, the file is printed to its end; otherwise it is taken as almost
  \<open>2 ^ 64\<close> bytes, of which \<open>mmap\<close> may map a few, and then the length -1 ends with \<open>EXIT_SUCCESS\<close> although nothing was
  written.\<close>
theorem mmap_example_prints:
  assumes "linux_maps env" "page_bits env k" "file_size env \<le> 2 ^ 46" "o' = sint (atoi a)"
    and "asked = (case arg of None \<Rightarrow> file_size env - o' | Some b \<Rightarrow> sint (atoi b))"
    and "args = name # a # (case arg of None \<Rightarrow> [] | Some b \<Rightarrow> [b])"
  shows "(file_size env \<le> o' \<longrightarrow> mm_main env args = Fails Past_end []) \<and>
    (o' < 0 \<longrightarrow> mm_main env args = Fails Mmap_error []) \<and>
    (0 \<le> o' \<and> o' < file_size env \<longrightarrow>
      (let n = (if asked < - o' then file_size env - o' else min asked (file_size env - o')); rest = o' mod uint (page_size env) in
        mm_main env args =
          (if 0 \<le> n then
             (if n = 0 \<and> rest = 0 then Fails Mmap_error []
              else if n \<le> MAX_RW_COUNT then Succeeds (take (nat n) (drop (nat o') (content env)))
              else Fails Partial_write (take (nat MAX_RW_COUNT) (drop (nat o') (content env))))
           else if rest + n \<le> 0 then Fails Mmap_error []
           else if n = -1 then Succeeds [] else Fails Write_error [])))"
proof -
  let ?len = "map_length env (of_atoi a) arg"
  have past: "sint (st_size env) \<le> sint (of_atoi a) \<longleftrightarrow> file_size env \<le> o'"
    using uint_st_size(2) [OF assms(3)] uint_of_atoi(2) [of a] assms(4) by simp
  have main: "mm_main env args = (if file_size env \<le> o' then Fails Past_end [] else mm_write env (of_atoi a) ?len)"
    using assms(1,6) by (auto simp: mm_main_def linux_maps_def past Let_def split: option.splits)
  show ?thesis
  proof (intro conjI impI; (elim conjE)?)
    show "mm_main env args = Fails Past_end []" if "file_size env \<le> o'" using main that by simp
  next
    assume "o' < 0"
    then show "mm_main env args = Fails Mmap_error []"
      using main mm_write_negative_offset [OF assms(1,2), of "of_atoi a"] uint_of_atoi(2) [of a] assms(4) by simp
  next
    assume o: "0 \<le> o'" "o' < file_size env"
    have u: "uint (of_atoi a) = o'" "uint (of_atoi a) < 2 ^ 31" "unat (of_atoi a) = nat o'"
      using uint_of_atoi(1,4) [of a] o(1) assms(4) by (simp_all add: unat_eq_nat_uint)
    define n where "n = (if asked < - o' then file_size env - o' else min asked (file_size env - o'))"
    have n: "uint ?len = (if 0 \<le> n then n else 2 ^ 64 + n)" "n \<le> 2 ^ 46" "- (2 ^ 31) \<le> n"
      using map_length_cases [OF assms(3) u(1) o(2)] assms(3,5) o uint_of_atoi(3,4)
      by (cases arg; auto simp: n_def min_def)+
    have d: "uint (page_size env) dvd o' \<longleftrightarrow> o' mod uint (page_size env) = 0" by (simp add: dvd_eq_mod_eq_0)
    have "mm_write env (of_atoi a) ?len =
          (if 0 \<le> n then
             (if n = 0 \<and> o' mod uint (page_size env) = 0 then Fails Mmap_error []
              else if n \<le> MAX_RW_COUNT then Succeeds (take (nat n) (drop (nat o') (content env)))
              else Fails Partial_write (take (nat MAX_RW_COUNT) (drop (nat o') (content env))))
           else if o' mod uint (page_size env) + n \<le> 0 then Fails Mmap_error []
           else if n = -1 then Succeeds [] else Fails Write_error [])"
    proof (cases "0 \<le> n")
      case True
      then show ?thesis using mm_write_plain [OF assms(1,2) u(2), of ?len] n u by (simp add: d)
    next
      case False
      then show ?thesis using mm_write_negative [OF assms(1,2) u(2), of ?len n] n u by simp
    qed
    then show "let n = (if asked < - o' then file_size env - o' else min asked (file_size env - o'));
        rest = o' mod uint (page_size env) in
        mm_main env args =
          (if 0 \<le> n then
             (if n = 0 \<and> rest = 0 then Fails Mmap_error []
              else if n \<le> MAX_RW_COUNT then Succeeds (take (nat n) (drop (nat o') (content env)))
              else Fails Partial_write (take (nat MAX_RW_COUNT) (drop (nat o') (content env))))
           else if rest + n \<le> 0 then Fails Mmap_error []
           else if n = -1 then Succeeds [] else Fails Write_error [])"
      using o main by (simp add: Let_def flip: n_def)
  qed
qed

text \<open>Pages of four bytes, to have small numbers.\<close>
definition small_pages :: mm_env where
  "small_pages = \<lparr>content = ''abcdefgh'', open_fails = False, fstat_fails = False, page_size = 4,
     mmap_fails = (\<lambda>p n. n = 0 \<or> sint p < 0 \<or> \<not> uint (4 :: 64 word) dvd uint p \<or> 2 ^ 47 < uint n),
     write_result = (\<lambda>n. if 2 ^ 63 \<le> uint n then -1 else min (uint n) MAX_RW_COUNT)\<rparr>"

theorem mmap_example_prints_witness:
  "mm_main small_pages [''f'', ''5'', ''2''] = Succeeds ''fg'' \<and> mm_main small_pages [''f'', ''6'', ''-1''] = Succeeds []"
proof -
  have l: "linux_maps small_pages" "page_bits small_pages 2" "file_size small_pages \<le> 2 ^ 46" "file_size small_pages = 8"
    by (simp_all add: small_pages_def linux_maps_def page_bits_def)
  have n: "(5::int) = sint (atoi ''5'')" "(2::int) = sint (atoi ''2'')" "(6::int) = sint (atoi ''6'')" "(-1::int) = sint (atoi ''-1'')"
    by code_simp+
  have p: "uint (page_size small_pages) = 4" "content small_pages = ''abcdefgh''" by (simp_all add: small_pages_def)
  have "mm_main small_pages [''f'', ''5'', ''2''] = Succeeds ''fg''"
    using mmap_example_prints [OF l(1-3) n(1), of 2 "Some ''2''" "[''f'', ''5'', ''2'']" "''f''"]
    by (simp add: l(4) p n(2) [symmetric] Let_def MAX_RW_COUNT_def numeral_eq_Suc)
  moreover have "mm_main small_pages [''f'', ''6'', ''-1''] = Succeeds []"
    using mmap_example_prints [OF l(1-3) n(3), of "-1" "Some ''-1''" "[''f'', ''6'', ''-1'']" "''f''"]
    by (simp add: l(4) p n(4) [symmetric] Let_def)
  ultimately show ?thesis by blast
qed

end
