(* ===== verification/Argument_Passing.thy ===== *)
theory Argument_Passing
  imports Threads
begin

text \<open>
  \<open>03-pthreads/pthread_arg_passing_bad.c\<close> and \<open>pthread_arg_passing_good.c\<close>: \<open>main\<close> (thread \<open>ARG_THREADS\<close>) creates
  ten threads, and each prints the number its argument points to: the loop variable of \<open>main\<close> in the first program, an
  element of an array in the second. The threads read that memory when they run. Errors of \<open>pthread_create\<close> are not
  checked in the source and do not occur here.
\<close>

definition ARG_THREADS :: nat where "ARG_THREADS = 10"

text \<open>The variables \<open>i\<close> and \<open>thread_args\<close> of \<open>main\<close>, the threads that exist and have returned, and what is
  printed, each number with its thread.\<close>
record arg_data =
  loop_i :: int
  thread_args :: "nat \<Rightarrow> int"
  created :: nat
  returned :: "nat \<Rightarrow> bool"
  printed :: "(nat \<times> int) list"

datatype arg_pc = A_deref | A_printf int | A_end | M_first | M_store | M_create | M_next | M_second | M_join

text \<open>\<open>print_arg\<close>: the argument is dereferenced, then printed.\<close>
definition print_arg :: "(arg_data \<Rightarrow> int) \<Rightarrow> nat \<Rightarrow> arg_data \<Rightarrow> arg_pc \<Rightarrow> (arg_data, arg_pc) act option" where
  "print_arg target t d pc =
     (case pc of
        A_deref \<Rightarrow> Some (Go d (A_printf (target d)))
      | A_printf v \<Rightarrow> Some (Go (d\<lparr>printed := printed d @ [(t, v)], returned := (returned d)(t := True)\<rparr>) A_end)
      | _ \<Rightarrow> None)"

definition bad_main :: "arg_data \<Rightarrow> arg_pc \<Rightarrow> (arg_data, arg_pc) act option" where
  "bad_main d pc =
     (case pc of
        M_first \<Rightarrow> Some (Go d (if loop_i d < int ARG_THREADS then M_create else M_second))
      | M_create \<Rightarrow> Some (Go (d\<lparr>created := nat (loop_i d) + 1\<rparr>) M_next)
      | M_next \<Rightarrow> Some (Go (d\<lparr>loop_i := loop_i d + 1\<rparr>) M_first)
      | M_second \<Rightarrow> Some (Go (d\<lparr>loop_i := 0\<rparr>) M_join)
      | M_join \<Rightarrow>
          if loop_i d < int ARG_THREADS then
            (if returned d (nat (loop_i d)) then Some (Go (d\<lparr>loop_i := loop_i d + 1\<rparr>) M_join) else None)
          else Some (Quit d EXIT_SUCCESS)
      | _ \<Rightarrow> None)"

definition good_main :: "arg_data \<Rightarrow> arg_pc \<Rightarrow> (arg_data, arg_pc) act option" where
  "good_main d pc =
     (case pc of
        M_first \<Rightarrow> Some (Go d (if loop_i d < int ARG_THREADS then M_store else M_second))
      | M_store \<Rightarrow> Some (Go (d\<lparr>thread_args := (thread_args d)(nat (loop_i d) := loop_i d)\<rparr>) M_create)
      | M_create \<Rightarrow> Some (Go (d\<lparr>created := nat (loop_i d) + 1\<rparr>) M_next)
      | M_next \<Rightarrow> Some (Go (d\<lparr>loop_i := loop_i d + 1\<rparr>) M_first)
      | M_second \<Rightarrow> Some (Go (d\<lparr>loop_i := 0\<rparr>) M_join)
      | M_join \<Rightarrow>
          if loop_i d < int ARG_THREADS then
            (if returned d (nat (loop_i d)) then Some (Go (d\<lparr>loop_i := loop_i d + 1\<rparr>) M_join) else None)
          else Some (Quit d EXIT_SUCCESS)
      | _ \<Rightarrow> None)"

text \<open>The programs: \<open>&i\<close> and \<open>&thread_args[i]\<close> as arguments.\<close>
definition bad_outs :: "nat \<Rightarrow> arg_data \<Rightarrow> arg_pc \<Rightarrow> (arg_data, arg_pc) act option" where
  "bad_outs t d pc =
     (if t = ARG_THREADS then bad_main d pc
      else if t < created d then print_arg loop_i t d pc else None)"

definition good_outs :: "nat \<Rightarrow> arg_data \<Rightarrow> arg_pc \<Rightarrow> (arg_data, arg_pc) act option" where
  "good_outs t d pc =
     (if t = ARG_THREADS then good_main d pc
      else if t < created d then print_arg (\<lambda>d. thread_args d t) t d pc else None)"

definition arg_data0 :: arg_data where
  "arg_data0 = \<lparr>loop_i = 0, thread_args = (\<lambda>_. 0), created = 0, returned = (\<lambda>_. False), printed = []\<rparr>"

definition arg_locals :: "nat \<Rightarrow> arg_pc" where
  "arg_locals t = (if t = ARG_THREADS then M_first else A_deref)"

abbreviation arg_start :: "(arg_data process, arg_pc) conf" where
  "arg_start \<equiv> ((arg_data0, None), arg_locals)"

lemmas arg_defs = bad_outs_def good_outs_def bad_main_def good_main_def print_arg_def

section \<open>The invariant\<close>

text \<open>\<open>ok t v\<close>: thread \<open>t\<close> may print \<open>v\<close>.\<close>
fun arg_main_ok :: "arg_data \<Rightarrow> arg_pc \<Rightarrow> bool" where
  "arg_main_ok d M_first = (loop_i d = int (created d))"
| "arg_main_ok d M_store = (loop_i d = int (created d) \<and> created d < ARG_THREADS)"
| "arg_main_ok d M_create = (loop_i d = int (created d) \<and> created d < ARG_THREADS)"
| "arg_main_ok d M_next = (loop_i d + 1 = int (created d))"
| "arg_main_ok d M_second = (created d = ARG_THREADS)"
| "arg_main_ok d M_join = (created d = ARG_THREADS \<and> (\<forall>j<nat (loop_i d). returned d j))"
| "arg_main_ok d _ = False"

fun arg_thread_ok :: "(nat \<Rightarrow> int \<Rightarrow> bool) \<Rightarrow> nat \<Rightarrow> arg_data \<Rightarrow> arg_pc \<Rightarrow> bool" where
  "arg_thread_ok ok t d A_deref = (\<not> returned d t)"
| "arg_thread_ok ok t d (A_printf v) = (\<not> returned d t \<and> ok t v \<and> t < created d)"
| "arg_thread_ok ok t d A_end = (returned d t \<and> t < created d)"
| "arg_thread_ok ok t d _ = False"

definition arg_inv :: "(nat \<Rightarrow> int \<Rightarrow> bool) \<Rightarrow> arg_data \<Rightarrow> (nat \<Rightarrow> arg_pc) \<Rightarrow> bool" where
  "arg_inv ok d ls \<longleftrightarrow>
     0 \<le> loop_i d \<and> loop_i d \<le> int ARG_THREADS \<and> created d \<le> ARG_THREADS \<and> arg_main_ok d (ls ARG_THREADS) \<and>
     (\<forall>t<ARG_THREADS. arg_thread_ok ok t d (ls t)) \<and>
     distinct (map fst (printed d)) \<and> (\<forall>(t, v)\<in>set (printed d). ok t v) \<and>
     fst ` set (printed d) = {t. t < ARG_THREADS \<and> returned d t}"

text \<open>The energy of what \<open>main\<close> has still to create and to join, and the weights of the positions.\<close>
definition arg_energy :: "arg_data \<Rightarrow> nat" where
  "arg_energy d = 3 * (ARG_THREADS - created d) + 3 * (ARG_THREADS - nat (loop_i d))"

fun arg_weight :: "arg_pc \<Rightarrow> nat" where
  "arg_weight A_deref = 2"
| "arg_weight (A_printf v) = 1"
| "arg_weight A_end = 0"
| "arg_weight M_first = 34"
| "arg_weight M_store = 33"
| "arg_weight M_create = 32"
| "arg_weight M_next = 33"
| "arg_weight M_second = 31"
| "arg_weight M_join = 0"

lemma arg_thread_frame:
  "arg_thread_ok ok t d l \<Longrightarrow> returned d' t = returned d t \<Longrightarrow> created d \<le> created d' \<Longrightarrow> arg_thread_ok ok t d' l"
  by (cases l) auto

text \<open>A step of a thread, whatever its argument points to.\<close>
lemma print_arg_inv:
  assumes "arg_inv ok d ls" "t < ARG_THREADS" "t < created d" "print_arg target t d (ls t) = Some (Go d' l')" "ok t (target d)"
  shows "arg_inv ok d' (ls(t := l')) \<and> arg_energy d' + arg_weight l' < arg_energy d + arg_weight (ls t)"
proof -
  have t: "arg_thread_ok ok t d (ls t)" using assms(1,2) by (simp add: arg_inv_def)
  show ?thesis
  proof (cases "ls t")
    case A_deref
    then have "d' = d \<and> l' = A_printf (target d)" using assms(4) by (auto simp: print_arg_def)
    then show ?thesis using assms t A_deref by (auto simp: arg_inv_def)
  next
    case (A_printf v)
    then have d': "d' = d\<lparr>printed := printed d @ [(t, v)], returned := (returned d)(t := True)\<rparr>" "l' = A_end"
      using assms(4) by (simp_all add: print_arg_def)
    have "arg_main_ok d' (ls ARG_THREADS)"
      using assms(1) by (cases "ls ARG_THREADS") (auto simp: arg_inv_def d')
    moreover have "arg_thread_ok ok s d' ((ls(t := l')) s)" if "s < ARG_THREADS" for s
      using that assms(1,3) arg_thread_frame [of ok s d "ls s" d'] by (auto simp: arg_inv_def d')
    moreover have "t \<notin> fst ` set (printed d)" using assms(1) t A_printf by (auto simp: arg_inv_def)
    ultimately show ?thesis
      using assms(1,2) t A_printf by (auto simp: arg_inv_def d' arg_energy_def)
  qed (use assms(4) in \<open>simp_all add: print_arg_def\<close>)
qed

text \<open>A step of \<open>main\<close> in either program.\<close>
lemma arg_main_inv:
  assumes "arg_inv ok d ls" "bad_main d (ls ARG_THREADS) = Some (Go d' l') \<or> good_main d (ls ARG_THREADS) = Some (Go d' l')"
  shows "arg_inv ok d' (ls(ARG_THREADS := l')) \<and> arg_energy d' + arg_weight l' < arg_energy d + arg_weight (ls ARG_THREADS)"
proof -
  have m: "arg_main_ok d (ls ARG_THREADS)" using assms(1) by (simp add: arg_inv_def)
  have f: "printed d' = printed d" "returned d' = returned d" "created d \<le> created d'"
    using assms(2) m by (cases "ls ARG_THREADS"; auto simp: bad_main_def good_main_def split: if_splits)+
  have "0 \<le> loop_i d' \<and> loop_i d' \<le> int ARG_THREADS \<and> created d' \<le> ARG_THREADS \<and> arg_main_ok d' l'"
    using assms m by (cases "ls ARG_THREADS") (auto simp: arg_inv_def bad_main_def good_main_def nat_add_distrib less_Suc_eq split: if_splits)
  moreover have "arg_thread_ok ok t d' (ls t)" if "t < ARG_THREADS" for t
    using assms(1) that f arg_thread_frame [of ok t d "ls t" d'] by (simp add: arg_inv_def)
  moreover have "arg_energy d' + arg_weight l' < arg_energy d + arg_weight (ls ARG_THREADS)"
    using assms m by (cases "ls ARG_THREADS")
      (auto simp: arg_inv_def arg_energy_def bad_main_def good_main_def ARG_THREADS_def split: if_splits)
  ultimately show ?thesis using assms(1) by (simp add: arg_inv_def f)
qed

text \<open>The array of the second program: what the existing threads will find there.\<close>
definition args_stored :: "arg_data \<Rightarrow> (nat \<Rightarrow> arg_pc) \<Rightarrow> bool" where
  "args_stored d ls \<longleftrightarrow>
     (\<forall>t<created d. thread_args d t = int t) \<and>
     (ls ARG_THREADS = M_create \<longrightarrow> thread_args d (created d) = int (created d))"

abbreviation bad_ok :: "nat \<Rightarrow> int \<Rightarrow> bool" where
  "bad_ok t v \<equiv> 0 \<le> v \<and> v \<le> int ARG_THREADS"

abbreviation good_ok :: "nat \<Rightarrow> int \<Rightarrow> bool" where
  "good_ok t v \<equiv> v = int t"

lemma args_stored_step:
  assumes "args_stored d ls" "arg_inv ok d ls" "t < ARG_THREADS + 1" "good_outs t d (ls t) = Some (Go d' l')"
  shows "args_stored d' (ls(t := l'))"
proof (cases "t = ARG_THREADS")
  case True
  then show ?thesis
    using assms by (cases "ls ARG_THREADS")
      (auto simp: args_stored_def arg_inv_def good_outs_def good_main_def less_Suc_eq split: if_splits)
next
  case False
  then show ?thesis
    using assms by (cases "ls t") (auto simp: args_stored_def good_outs_def print_arg_def split: if_splits)
qed

text \<open>How the programs end.\<close>
definition arg_end :: "(nat \<Rightarrow> int \<Rightarrow> bool) \<Rightarrow> arg_data \<Rightarrow> int \<Rightarrow> bool" where
  "arg_end ok d x \<longleftrightarrow>
     x = EXIT_SUCCESS \<and> distinct (map fst (printed d)) \<and> set (map fst (printed d)) = {0..<ARG_THREADS} \<and>
     (\<forall>(t, v)\<in>set (printed d). ok t v)"

lemma arg_quit:
  assumes "arg_inv ok d ls" "bad_outs t d (ls t) = Some (Quit d' x) \<or> good_outs t d (ls t) = Some (Quit d' x)"
  shows "arg_end ok d' x"
proof -
  have t: "t = ARG_THREADS" "ls t = M_join"
    using assms(2) by (cases "ls t"; auto simp: arg_defs split: if_splits)+
  then have "x = EXIT_SUCCESS" "d' = d" "loop_i d = int ARG_THREADS"
    using assms by (auto simp: arg_defs arg_inv_def split: if_splits)
  then show ?thesis using assms(1) t by (auto simp: arg_inv_def arg_end_def)
qed

lemma arg_main_None:
  assumes "arg_main_ok d l" "0 \<le> loop_i d" "bad_main d l = None \<and> l \<noteq> M_store \<or> good_main d l = None"
  shows "nat (loop_i d) < ARG_THREADS \<and> \<not> returned d (nat (loop_i d)) \<and> created d = ARG_THREADS"
  using assms by (cases l) (auto simp: bad_main_def good_main_def split: if_splits)

lemma arg_moves:
  assumes "arg_inv ok d ls" "outs = bad_outs \<and> ls ARG_THREADS \<noteq> M_store \<or> outs = good_outs"
  shows "\<exists>t<ARG_THREADS + 1. outs t d (ls t) \<noteq> None"
proof (cases "outs ARG_THREADS d (ls ARG_THREADS)")
  case None
  let ?t = "nat (loop_i d)"
  have j: "?t < ARG_THREADS" "\<not> returned d ?t" "created d = ARG_THREADS"
    using arg_main_None [of d "ls ARG_THREADS"] assms None by (auto simp: arg_inv_def bad_outs_def good_outs_def)
  then have "arg_thread_ok ok ?t d (ls ?t)" using assms(1) by (simp add: arg_inv_def)
  then have "print_arg target ?t d (ls ?t) \<noteq> None" for target
    using j(2) by (cases "ls ?t") (simp_all add: print_arg_def)
  then have "outs ?t d (ls ?t) \<noteq> None" using assms(2) j by (auto simp: bad_outs_def good_outs_def)
  then show ?thesis using j(1) by (intro exI [of _ ?t]) simp
qed auto

lemma bad_no_store:
  "ls ARG_THREADS \<noteq> M_store \<Longrightarrow> bad_outs t d (ls t) = Some (Go d' l') \<Longrightarrow> (ls(t := l')) ARG_THREADS \<noteq> M_store"
  by (cases "ls t") (auto simp: bad_outs_def bad_main_def print_arg_def split: if_splits)

lemma bad_step:
  assumes "arg_inv bad_ok d ls" "t < ARG_THREADS + 1" "bad_outs t d (ls t) = Some (Go d' l')"
  shows "arg_inv bad_ok d' (ls(t := l')) \<and> arg_energy d' + arg_weight l' < arg_energy d + arg_weight (ls t)"
proof (cases "t = ARG_THREADS")
  case True
  then show ?thesis using arg_main_inv [OF assms(1), of d' l'] assms(3) by (simp add: bad_outs_def)
next
  case False
  then have t: "t < ARG_THREADS" "t < created d" "print_arg loop_i t d (ls t) = Some (Go d' l')"
    using assms(2,3) by (simp_all add: bad_outs_def split: if_splits)
  show ?thesis by (rule print_arg_inv [OF assms(1) t]) (use assms(1) in \<open>simp add: arg_inv_def\<close>)
qed

lemma good_step:
  assumes "arg_inv good_ok d ls" "args_stored d ls" "t < ARG_THREADS + 1" "good_outs t d (ls t) = Some (Go d' l')"
  shows "arg_inv good_ok d' (ls(t := l')) \<and> arg_energy d' + arg_weight l' < arg_energy d + arg_weight (ls t)"
proof (cases "t = ARG_THREADS")
  case True
  then show ?thesis using arg_main_inv [OF assms(1), of d' l'] assms(4) by (simp add: good_outs_def)
next
  case False
  then have t: "t < ARG_THREADS" "t < created d" "print_arg (\<lambda>d. thread_args d t) t d (ls t) = Some (Go d' l')"
    using assms(3,4) by (simp_all add: good_outs_def split: if_splits)
  show ?thesis by (rule print_arg_inv [OF assms(1) t]) (use assms(2) t(2) in \<open>simp add: args_stored_def\<close>)
qed

lemma arg_sync: "bad_outs t d l \<noteq> Some (Sync d' l')" "good_outs t d l \<noteq> Some (Sync d' l')"
  by (cases l; simp add: arg_defs)+

interpretation bad: bounded_program "ARG_THREADS + 1" bad_outs "\<lambda>d ls. arg_inv bad_ok d ls \<and> ls ARG_THREADS \<noteq> M_store" "arg_end bad_ok"
  arg_weight arg_energy False
proof (unfold_locales, goal_cases)
  case 1
  then show ?case by (rule arg_sync)
next
  case (2 d ls i d' l')
  then show ?case using bad_step [of d ls i d' l'] by simp
next
  case (3 d ls i d' l')
  then show ?case using bad_step [of d ls i d' l'] bad_no_store [of ls i d d' l'] by simp
next
  case (4 d ls i d' x)
  then show ?case using arg_quit [of bad_ok d ls i d' x] by simp
next
  case (5 d ls)
  then show ?case using arg_moves [of bad_ok d ls bad_outs] by simp
qed

interpretation good: bounded_program "ARG_THREADS + 1" good_outs "\<lambda>d ls. arg_inv good_ok d ls \<and> args_stored d ls" "arg_end good_ok"
  arg_weight arg_energy False
proof (unfold_locales, goal_cases)
  case 1
  then show ?case by (rule arg_sync)
next
  case (2 d ls i d' l')
  then show ?case using good_step [of d ls i d' l'] by simp
next
  case (3 d ls i d' l')
  then show ?case using good_step [of d ls i d' l'] args_stored_step [of d ls good_ok i d' l'] by simp
next
  case (4 d ls i d' x)
  then show ?case using arg_quit [of good_ok d ls i d' x] by simp
next
  case (5 d ls)
  then show ?case using arg_moves [of good_ok d ls good_outs] by simp
qed

section \<open>Property\<close>

lemma arg_inv_start:
  "arg_inv ok arg_data0 arg_locals" "args_stored arg_data0 arg_locals" "arg_locals ARG_THREADS \<noteq> M_store"
  by (auto simp: arg_inv_def args_stored_def arg_data0_def arg_locals_def)

lemma arg_start_bound: "1 + arg_energy arg_data0 + (\<Sum>t<ARG_THREADS + 1. arg_weight (arg_locals t)) = 115"
  by (simp add: arg_energy_def arg_data0_def arg_locals_def ARG_THREADS_def numeral_eq_Suc)

text \<open>A run of the bad program in which thread \<open>t\<close> prints \<open>v\<close>: it reads the loop variable in the first loop when \<open>t \<le> v\<close>, else in
  the second one, when the threads before \<open>v\<close> have been joined.\<close>
definition turns :: "nat list \<Rightarrow> nat list" where
  "turns ts = concat (map (\<lambda>s. [s, s]) ts)"

definition bad_schedule :: "nat \<Rightarrow> nat \<Rightarrow> nat list" where
  "bad_schedule t v =
     (if t \<le> v then
        (let k = max (3 * v) (3 * t + 2) in
         replicate k 10 @ [t, t] @ replicate (32 - k) 10 @ turns (filter (\<lambda>s. s \<noteq> t) [0..<10]) @ replicate 11 10)
      else
        replicate 32 10 @ turns [0..<v] @ replicate v 10 @ [t, t] @ turns (filter (\<lambda>s. s \<noteq> t) [v..<10]) @ replicate (11 - v) 10)"

definition prints_in_run :: "nat \<Rightarrow> nat \<Rightarrow> bool" where
  "prints_in_run t v =
     (case run_sched (ARG_THREADS + 1) (free_step bad_outs) (bad_schedule t v) arg_start of
        None \<Rightarrow> False
      | Some c \<Rightarrow> snd (fst c) = Some EXIT_SUCCESS \<and> (t, int v) \<in> set (printed (fst (fst c))))"

lemma all_printed: "list_all (\<lambda>t. list_all (\<lambda>v. prints_in_run t v) [0..<11]) [0..<10]"
  by code_simp

lemma can_print:
  assumes "t < ARG_THREADS" "v \<le> ARG_THREADS"
  shows "\<exists>sched d ls. run_sched (ARG_THREADS + 1) (free_step bad_outs) sched arg_start = Some ((d, Some EXIT_SUCCESS), ls) \<and>
    (t, int v) \<in> set (printed d)"
proof -
  have "t \<in> set [0..<10]" "v \<in> set [0..<11]" using assms by (simp_all add: ARG_THREADS_def)
  then have "prints_in_run t v" using all_printed unfolding list_all_iff by blast
  then obtain d ls where "run_sched (ARG_THREADS + 1) (free_step bad_outs) (bad_schedule t v) arg_start = Some ((d, Some 0), ls)"
    and "(t, int v) \<in> set (printed d)"
    unfolding prints_in_run_def by (fastforce split: option.splits)
  then show ?thesis by fastforce
qed

text \<open>C37. Every run of either program ends, after at most 115 steps, with \<open>EXIT_SUCCESS\<close> and ten lines, one of each thread.
  In the second program each thread prints its own number, so that the lines are a permutation of 0 to 9. In the first one a
  thread prints a number from 0 to 10, and each thread can print each of them: there is a run to the end in which it
  does.\<close>
theorem arguments_printed:
  assumes "outs = (if good then good_outs else bad_outs)"
    and "run_sched (ARG_THREADS + 1) (free_step outs) sched arg_start = Some ((d, x), ls)"
  shows "length sched \<le> 115 \<and>
    (stuck (ARG_THREADS + 1) (free_step outs) ((d, x), ls) \<longrightarrow> x \<noteq> None) \<and>
    (\<forall>e. x = Some e \<longrightarrow> e = EXIT_SUCCESS \<and> distinct (map fst (printed d)) \<and> set (map fst (printed d)) = {0..<ARG_THREADS} \<and>
       (\<forall>(t, v)\<in>set (printed d). if good then v = int t else 0 \<le> v \<and> v \<le> int ARG_THREADS)) \<and>
    (good \<or> (\<forall>t<ARG_THREADS. \<forall>v\<le>ARG_THREADS. \<exists>sched' d' ls'.
       run_sched (ARG_THREADS + 1) (free_step bad_outs) sched' arg_start = Some ((d', Some EXIT_SUCCESS), ls') \<and>
       (t, int v) \<in> set (printed d')))"
proof (cases good)
  case True
  then have r: "run_sched (ARG_THREADS + 1) (free_step good_outs) sched arg_start = Some ((d, x), ls)" "outs = good_outs"
    using assms by simp_all
  note start = conjI [OF arg_inv_start(1) [of good_ok] arg_inv_start(2)]
  note reach = run_sched_reach [OF r(1)]
  have e: "\<forall>e. x = Some e \<longrightarrow> arg_end good_ok d e" using good.at_end [OF _ start] reach by blast
  have "stuck (ARG_THREADS + 1) (free_step good_outs) ((d, x), ls) \<longrightarrow> x \<noteq> None"
    using good.stuck_end [OF reach start] by auto
  moreover have "length sched \<le> 115" using good.run_length [OF r(1) start] arg_start_bound by linarith
  ultimately show ?thesis
    using e r(2) True by (simp add: arg_end_def)
next
  case False
  then have r: "run_sched (ARG_THREADS + 1) (free_step bad_outs) sched arg_start = Some ((d, x), ls)" "outs = bad_outs"
    using assms by simp_all
  note start = conjI [OF arg_inv_start(1) [of bad_ok] arg_inv_start(3)]
  note reach = run_sched_reach [OF r(1)]
  have e: "\<forall>e. x = Some e \<longrightarrow> arg_end bad_ok d e" using bad.at_end [OF _ start] reach by blast
  have "stuck (ARG_THREADS + 1) (free_step bad_outs) ((d, x), ls) \<longrightarrow> x \<noteq> None"
    using bad.stuck_end [OF reach start] by auto
  moreover have "length sched \<le> 115" using bad.run_length [OF r(1) start] arg_start_bound by linarith
  ultimately show ?thesis
    using e r(2) False can_print by (simp add: arg_end_def)
qed

definition threads_in_turn :: "nat list" where
  "threads_in_turn = turns [0..<10]"

lemma good_run_ends:
  "case run_sched (ARG_THREADS + 1) (free_step good_outs) (replicate 42 10 @ threads_in_turn @ replicate 11 10) arg_start of
     None \<Rightarrow> False | Some c \<Rightarrow> snd (fst c) = Some 0"
  by code_simp

text \<open>The threads run when the first loop has ended: they all print 10.\<close>
lemma bad_run_ends:
  "case run_sched (ARG_THREADS + 1) (free_step bad_outs) (replicate 31 10 @ threads_in_turn @ replicate 12 10) arg_start of
     None \<Rightarrow> False | Some c \<Rightarrow> snd (fst c) = Some 0 \<and> map snd (printed (fst (fst c))) = replicate 10 10"
  by code_simp

theorem arguments_printed_witness:
  "(\<exists>d ls. run_sched (ARG_THREADS + 1) (free_step good_outs) (replicate 42 10 @ threads_in_turn @ replicate 11 10) arg_start =
      Some ((d, Some 0), ls) \<and> (\<forall>(t, v)\<in>set (printed d). v = int t)) \<and>
   (\<exists>d ls. run_sched (ARG_THREADS + 1) (free_step bad_outs) (replicate 31 10 @ threads_in_turn @ replicate 12 10) arg_start =
      Some ((d, Some 0), ls) \<and> map snd (printed d) = replicate 10 10 \<and> distinct (map fst (printed d)))"
proof -
  obtain d ls where g: "run_sched (ARG_THREADS + 1) (free_step good_outs) (replicate 42 10 @ threads_in_turn @ replicate 11 10) arg_start =
      Some ((d, Some 0), ls)"
    using good_run_ends by (auto split: option.splits)
  obtain d' ls' where b: "run_sched (ARG_THREADS + 1) (free_step bad_outs) (replicate 31 10 @ threads_in_turn @ replicate 12 10) arg_start =
      Some ((d', Some 0), ls')" "map snd (printed d') = replicate 10 10"
    using bad_run_ends by (auto split: option.splits)
  have "\<forall>(t, v)\<in>set (printed d). v = int t"
    using arguments_printed [where good = True, OF refl [THEN trans, OF if_True [symmetric]] g] by simp
  moreover have "distinct (map fst (printed d'))"
    using arguments_printed [where good = False, OF refl [THEN trans, OF if_False [symmetric]] b(1)] by simp
  ultimately show ?thesis using g b by blast
qed

end
