(* ===== verification/Signals.thy ===== *)
theory Signals
  imports Interleaving
begin

text \<open>
  Programs of \<open>02-signals\<close>: processes that send signals to each other. A process is a thread of an interleaving; a
  signal that is sent is pending, at most once, until its process takes its next step, which then is the delivery: the handler
  is run, as one step where nothing can happen in between, or the process is killed. As in the GNU library, a handler set
  with \<open>signal\<close> stays set. A sleep can end at any time, so that everything is shown for all timings.
\<close>

section \<open>\<open>alarm.c\<close>\<close>

text \<open>The parent waits for a signal its child sends. \<open>alarm_set\<close>: the handler \<open>ding\<close> is installed. A signal to a parent that
  has ended has no effect.\<close>
record alarm_sys =
  alarm_fired :: bool
  alarm_set :: bool
  alarm_pending :: bool
  alarm_child :: bool
  dinged :: bool

datatype alarm_pc =
    AP_fork | AP_signal | AP_print | AP_pause | AP_test | AP_done | AP_exited int | AP_killed
  | AC_sleep | AC_kill | AC_exit | AC_exited

definition ding :: "alarm_sys \<Rightarrow> alarm_sys" where
  "ding g = g\<lparr>alarm_fired := True\<rparr>"

definition alarm_parent :: "bool \<Rightarrow> alarm_sys \<Rightarrow> alarm_pc \<Rightarrow> (alarm_sys \<times> alarm_pc) option" where
  "alarm_parent fork_fails g pc =
     (case pc of
        AP_fork \<Rightarrow> if fork_fails then Some (g, AP_exited EXIT_FAILURE) else Some (g\<lparr>alarm_child := True\<rparr>, AP_signal)
      | AP_signal \<Rightarrow> Some (g\<lparr>alarm_set := True\<rparr>, AP_print)
      | AP_print \<Rightarrow> Some (g, AP_pause)
      | AP_test \<Rightarrow> Some (if alarm_fired g then g\<lparr>dinged := True\<rparr> else g, AP_done)
      | AP_done \<Rightarrow> Some (g, AP_exited EXIT_SUCCESS)
      | _ \<Rightarrow> None)"

definition alarm_childs :: "alarm_sys \<Rightarrow> alarm_pc \<Rightarrow> (alarm_sys \<times> alarm_pc) option" where
  "alarm_childs g pc =
     (case pc of
        AC_sleep \<Rightarrow> if alarm_child g then Some (g, AC_kill) else None
      | AC_kill \<Rightarrow> Some (g\<lparr>alarm_pending := True\<rparr>, AC_exit)
      | AC_exit \<Rightarrow> Some (g, AC_exited)
      | _ \<Rightarrow> None)"

fun alarm_ended :: "alarm_pc \<Rightarrow> bool" where
  "alarm_ended (AP_exited x) = True"
| "alarm_ended AP_killed = True"
| "alarm_ended _ = False"

text \<open>\<open>main\<close> in both processes: a pending signal comes first, and \<open>pause\<close> returns after the handler.\<close>
definition alarm_main :: "bool \<Rightarrow> (alarm_sys, alarm_pc) tstep" where
  "alarm_main fork_fails i g pc =
     (if i = 0 then
        (if alarm_ended pc then None
         else if alarm_pending g then
           (if alarm_set g then Some (ding (g\<lparr>alarm_pending := False\<rparr>), if pc = AP_pause then AP_test else pc)
            else Some (g\<lparr>alarm_pending := False\<rparr>, AP_killed))
         else alarm_parent fork_fails g pc)
      else alarm_childs g pc)"

definition alarm_start :: "(alarm_sys, alarm_pc) conf" where
  "alarm_start =
     (\<lparr>alarm_fired = False, alarm_set = False, alarm_pending = False, alarm_child = False, dinged = False\<rparr>,
      (\<lambda>i. if i = 0 then AP_fork else AC_sleep))"

lemmas alarm_defs = alarm_main_def alarm_parent_def alarm_childs_def ding_def

fun alarm_weight :: "alarm_pc \<Rightarrow> nat" where
  "alarm_weight AP_fork = 6"
| "alarm_weight AP_signal = 5"
| "alarm_weight AP_print = 4"
| "alarm_weight AP_pause = 3"
| "alarm_weight AP_test = 2"
| "alarm_weight AP_done = 1"
| "alarm_weight AC_sleep = 4"
| "alarm_weight AC_kill = 3"
| "alarm_weight AC_exit = 1"
| "alarm_weight _ = 0"

text \<open>The child has sent the signal.\<close>
fun alarm_sent :: "alarm_pc \<Rightarrow> bool" where
  "alarm_sent AC_exit = True"
| "alarm_sent AC_exited = True"
| "alarm_sent _ = False"

fun alarm_child_pc :: "alarm_pc \<Rightarrow> bool" where
  "alarm_child_pc AC_sleep = True"
| "alarm_child_pc AC_kill = True"
| "alarm_child_pc c = alarm_sent c"

fun alarm_parent_ok :: "bool \<Rightarrow> alarm_sys \<Rightarrow> alarm_pc \<Rightarrow> bool" where
  "alarm_parent_ok ff g AP_fork = (\<not> alarm_child g \<and> \<not> alarm_set g \<and> \<not> alarm_pending g \<and> \<not> alarm_fired g \<and> \<not> dinged g)"
| "alarm_parent_ok ff g AP_signal = (\<not> ff \<and> alarm_child g \<and> \<not> alarm_set g \<and> \<not> alarm_fired g \<and> \<not> dinged g)"
| "alarm_parent_ok ff g AP_print = (\<not> ff \<and> alarm_child g \<and> alarm_set g \<and> \<not> dinged g)"
| "alarm_parent_ok ff g AP_pause = (\<not> ff \<and> alarm_child g \<and> alarm_set g \<and> \<not> dinged g)"
| "alarm_parent_ok ff g AP_test = (\<not> ff \<and> alarm_child g \<and> alarm_set g \<and> alarm_fired g \<and> \<not> dinged g)"
| "alarm_parent_ok ff g AP_done = (\<not> ff \<and> alarm_child g \<and> alarm_set g \<and> alarm_fired g \<and> dinged g)"
| "alarm_parent_ok ff g (AP_exited x) =
     (if ff then x = EXIT_FAILURE \<and> \<not> alarm_child g else x = EXIT_SUCCESS \<and> alarm_child g \<and> alarm_fired g \<and> dinged g)"
| "alarm_parent_ok ff g AP_killed = (\<not> ff \<and> alarm_child g \<and> \<not> alarm_set g \<and> \<not> dinged g)"
| "alarm_parent_ok ff g _ = False"

definition alarm_inv :: "bool \<Rightarrow> alarm_sys \<Rightarrow> alarm_pc \<Rightarrow> alarm_pc \<Rightarrow> bool" where
  "alarm_inv ff g p c \<longleftrightarrow>
     alarm_parent_ok ff g p \<and> alarm_child_pc c \<and> (p = AP_killed \<longrightarrow> alarm_sent c) \<and> (\<not> alarm_child g \<longrightarrow> c = AC_sleep) \<and>
     (alarm_pending g \<longrightarrow> alarm_sent c) \<and> (alarm_pending g \<longrightarrow> \<not> alarm_fired g \<and> p \<noteq> AP_killed) \<and>
     (alarm_fired g \<longrightarrow> alarm_sent c) \<and> (alarm_sent c \<and> p \<noteq> AP_killed \<longrightarrow> alarm_pending g \<or> alarm_fired g)"

lemma alarm_inv_parent:
  "alarm_inv ff g p c \<Longrightarrow> alarm_main ff 0 g p = Some (g', p') \<Longrightarrow> alarm_inv ff g' p' c"
  by (cases p) (auto simp: alarm_inv_def alarm_defs split: if_splits)

lemma alarm_inv_child:
  "alarm_inv ff g p c \<Longrightarrow> alarm_main ff 1 g c = Some (g', c') \<Longrightarrow> alarm_inv ff g' p c'"
  by (cases c; cases p) (auto simp: alarm_inv_def alarm_defs split: if_splits)

text \<open>Two processes: the bound of a run, and an invariant of both.\<close>
lemma pair_run_bound:
  assumes "run_sched 2 ts sched c = Some c'"
    and "\<And>i g l g' l'. ts i g l = Some (g', l') \<Longrightarrow> f g' + w l' < f g + (w l :: nat)"
  shows "length sched \<le> f (fst c) + w (snd c 0) + w (snd c 1)"
proof -
  let ?m = "\<lambda>c. f (fst c) + (\<Sum>i<2. w (snd c i))"
  have "?m (g', ls(i := l')) < ?m (g, ls)" if "i < 2" "ts i g (ls i) = Some (g', l')" for g ls i g' l'
    using assms(2) [OF that(2)] sum_upd_add [OF that(1), of w ls l'] by simp
  from run_bound [where m = ?m, OF assms(1) this] show ?thesis by (simp add: numeral_eq_Suc)
qed

lemma pair_invariant:
  assumes "reach 2 ts c0 c" "P (fst c0) (snd c0 0) (snd c0 1)"
    and "\<And>g p c g' p'. P g p c \<Longrightarrow> ts 0 g p = Some (g', p') \<Longrightarrow> P g' p' c"
    and "\<And>g p c g' c'. P g p c \<Longrightarrow> ts 1 g c = Some (g', c') \<Longrightarrow> P g' p c'"
  shows "P (fst c) (snd c 0) (snd c 1)"
  using assms(1)
proof (rule reach_invariant [where P = "\<lambda>c. P (fst c) (snd c 0) (snd c 1)"])
  fix g ls i g' l'
  assume I: "P (fst (g, ls)) (snd (g, ls) 0) (snd (g, ls) 1)" and i: "(i::nat) < 2" and st: "ts i g (ls i) = Some (g', l')"
  consider "i = 0" | "i = 1" using i by linarith
  then show "P (fst (g', ls(i := l'))) (snd (g', ls(i := l')) 0) (snd (g', ls(i := l')) 1)"
    using I st assms(3) [of g "ls 0" "ls 1" g' l'] assms(4) [of g "ls 0" "ls 1" g' l'] by cases simp_all
qed (rule assms(2))

lemma alarm_less:
  "alarm_main ff i g l = Some (g', l') \<Longrightarrow>
     of_bool (alarm_pending g') + alarm_weight l' < of_bool (alarm_pending g) + alarm_weight l"
  by (cases l) (auto simp: alarm_defs split: if_splits)

lemma alarm_reach:
  assumes "reach 2 (alarm_main ff) alarm_start c"
  shows "alarm_inv ff (fst c) (snd c 0) (snd c 1)"
proof (rule pair_invariant [where P = "alarm_inv ff", OF assms])
  show "alarm_inv ff (fst alarm_start) (snd alarm_start 0) (snd alarm_start 1)"
    by (simp add: alarm_start_def alarm_inv_def)
qed (erule (1) alarm_inv_parent, erule (1) alarm_inv_child)

text \<open>Every run of \<open>alarm.c\<close> has at most ten steps. Where it stops, with the child there: either the program has ended
  with \<open>EXIT_SUCCESS\<close> and rung, or the signal came before the handler was set and killed it, or it came after that but before
  \<open>pause\<close>, and the program waits for ever. When the signal is sent while the parent is in \<open>pause\<close>, it rings.\<close>
theorem alarm_outcomes:
  assumes "run_sched 2 (alarm_main ff) sched alarm_start = Some (g, ls)"
  shows "length sched \<le> 10 \<and>
    (stuck 2 (alarm_main ff) (g, ls) \<longrightarrow>
      (if ff then ls 0 = AP_exited EXIT_FAILURE
       else ls 1 = AC_exited \<and>
         (ls 0 = AP_exited EXIT_SUCCESS \<and> dinged g \<or> ls 0 = AP_killed \<and> \<not> alarm_set g \<or> ls 0 = AP_pause \<and> alarm_fired g))) \<and>
    (ls 0 = AP_pause \<and> alarm_pending g \<longrightarrow>
      (\<exists>g' ls'. run_sched 2 (alarm_main ff) [0, 0, 0] (g, ls) = Some (g', ls') \<and> ls' 0 = AP_exited EXIT_SUCCESS \<and> dinged g'))"
proof -
  have inv: "alarm_inv ff g (ls 0) (ls 1)" using alarm_reach [OF run_sched_reach [OF assms]] by simp
  show ?thesis
  proof (intro conjI impI)
    show "length sched \<le> 10"
      using pair_run_bound [where f = "\<lambda>g. of_bool (alarm_pending g)" and w = alarm_weight, OF assms alarm_less] by (simp add: alarm_start_def)
    assume "stuck 2 (alarm_main ff) (g, ls)"
    then have "alarm_main ff 0 g (ls 0) = None" "alarm_main ff 1 g (ls 1) = None" by (simp_all add: stuck_def)
    then show "if ff then ls 0 = AP_exited EXIT_FAILURE
       else ls 1 = AC_exited \<and>
         (ls 0 = AP_exited EXIT_SUCCESS \<and> dinged g \<or> ls 0 = AP_killed \<and> \<not> alarm_set g \<or> ls 0 = AP_pause \<and> alarm_fired g)"
      using inv by (cases "ls 0"; cases "ls 1") (auto simp: alarm_inv_def alarm_defs split: if_splits)
  next
    assume "ls 0 = AP_pause \<and> alarm_pending g"
    then show "\<exists>g' ls'. run_sched 2 (alarm_main ff) [0, 0, 0] (g, ls) = Some (g', ls') \<and> ls' 0 = AP_exited EXIT_SUCCESS \<and> dinged g'"
      using inv by (simp add: alarm_inv_def sched_step_def alarm_defs)
  qed
qed

theorem alarm_outcomes_witness:
  "(\<exists>g ls. run_sched 2 (alarm_main False) [0, 0, 0, 1, 1] alarm_start = Some (g, ls) \<and> ls 0 = AP_pause \<and>
      (\<exists>g' ls'. run_sched 2 (alarm_main False) [0, 0, 0] (g, ls) = Some (g', ls') \<and> dinged g')) \<and>
   (\<exists>g ls. run_sched 2 (alarm_main False) [0, 0, 1, 1, 0, 0, 1] alarm_start = Some (g, ls) \<and> stuck 2 (alarm_main False) (g, ls) \<and>
      ls 0 = AP_pause)"
proof -
  have a: "case run_sched 2 (alarm_main False) [0, 0, 0, 1, 1] alarm_start of None \<Rightarrow> False
      | Some c \<Rightarrow> snd c 0 = AP_pause \<and> alarm_pending (fst c)" by code_simp
  then obtain g ls where a: "run_sched 2 (alarm_main False) [0, 0, 0, 1, 1] alarm_start = Some (g, ls)" "ls 0 = AP_pause" "alarm_pending g"
    by (auto split: option.splits)
  have b: "case run_sched 2 (alarm_main False) [0, 0, 1, 1, 0, 0, 1] alarm_start of None \<Rightarrow> False
      | Some c \<Rightarrow> snd c 0 = AP_pause \<and> alarm_main False 0 (fst c) (snd c 0) = None \<and> alarm_main False 1 (fst c) (snd c 1) = None"
    by code_simp
  then obtain g' ls' where b: "run_sched 2 (alarm_main False) [0, 0, 1, 1, 0, 0, 1] alarm_start = Some (g', ls')" "ls' 0 = AP_pause"
      "stuck 2 (alarm_main False) (g', ls')"
    by (auto simp: stuck_def less_2_cases_iff split: option.splits)
  show ?thesis using alarm_outcomes [OF a(1)] a b by blast
qed

section \<open>\<open>signal_kill.c\<close> and \<open>signal_kill2.c\<close>\<close>

text \<open>The child sets the handler, in the first program, or has it from the parent; \<open>received\<close> counts the lines the handler prints.\<close>
record kill_sys =
  kill_set :: bool
  kill_pending :: bool
  kill_child :: bool
  kill_dead :: bool
  received :: nat

datatype kill_pc =
    KP_set | KP_fork | KP_reset | KP_print | KP_kill nat | KP_wait | KP_exited int
  | KC_signal | KC_sleep | KC_print | KC_exit | KC_exited | KC_killed

text \<open>The handler of both programs.\<close>
definition kill_handler :: "kill_sys \<Rightarrow> kill_sys" where
  "kill_handler g = g\<lparr>kill_pending := False, received := received g + 1\<rparr>"

text \<open>The child: a signal interrupts the sleep.\<close>
definition kill_childs :: "kill_sys \<Rightarrow> kill_pc \<Rightarrow> (kill_sys \<times> kill_pc) option" where
  "kill_childs g pc =
     (if pc = KC_exited \<or> pc = KC_killed \<or> \<not> kill_child g then None
      else if kill_pending g then
        (if kill_set g then Some (kill_handler g, if pc = KC_sleep then KC_print else pc)
         else Some (g\<lparr>kill_pending := False, kill_dead := True\<rparr>, KC_killed))
      else case pc of
        KC_signal \<Rightarrow> Some (g\<lparr>kill_set := True\<rparr>, KC_sleep)
      | KC_sleep \<Rightarrow> Some (g, KC_print)
      | KC_print \<Rightarrow> Some (g, KC_exit)
      | KC_exit \<Rightarrow> Some (g\<lparr>kill_dead := True\<rparr>, KC_exited)
      | _ \<Rightarrow> None)"

text \<open>\<open>kill (child, SIGUSR1)\<close>: a child that has ended but was not waited for gets nothing.\<close>
definition send_usr1 :: "kill_sys \<Rightarrow> kill_sys" where
  "send_usr1 g = (if kill_dead g then g else g\<lparr>kill_pending := True\<rparr>)"

definition kill_main :: "bool \<Rightarrow> (kill_sys, kill_pc) tstep" where
  "kill_main fork_fails i g pc =
     (if i = 0 then
        (case pc of
           KP_fork \<Rightarrow> if fork_fails then Some (g, KP_exited EXIT_FAILURE) else Some (g\<lparr>kill_child := True\<rparr>, KP_print)
         | KP_print \<Rightarrow> Some (g, KP_kill 1)
         | KP_kill n \<Rightarrow> Some (send_usr1 g, KP_wait)
         | KP_wait \<Rightarrow> if kill_dead g then Some (g, KP_exited EXIT_SUCCESS) else None
         | _ \<Rightarrow> None)
      else kill_childs g pc)"

text \<open>The second program sends the signal three times; the parent resets its own handler.\<close>
definition kill2_main :: "bool \<Rightarrow> (kill_sys, kill_pc) tstep" where
  "kill2_main fork_fails i g pc =
     (if i = 0 then
        (case pc of
           KP_set \<Rightarrow> Some (g\<lparr>kill_set := True\<rparr>, KP_fork)
         | KP_fork \<Rightarrow> if fork_fails then Some (g, KP_exited EXIT_FAILURE) else Some (g\<lparr>kill_child := True\<rparr>, KP_reset)
         | KP_reset \<Rightarrow> Some (g, KP_print)
         | KP_print \<Rightarrow> Some (g, KP_kill 3)
         | KP_kill n \<Rightarrow> Some (send_usr1 g, if 1 < n then KP_kill (n - 1) else KP_wait)
         | KP_wait \<Rightarrow> if kill_dead g then Some (g, KP_exited EXIT_SUCCESS) else None
         | _ \<Rightarrow> None)
      else kill_childs g pc)"

definition kill_sys0 :: kill_sys where
  "kill_sys0 = \<lparr>kill_set = False, kill_pending = False, kill_child = False, kill_dead = False, received = 0\<rparr>"

definition kill_start :: "(kill_sys, kill_pc) conf" where
  "kill_start = (kill_sys0, (\<lambda>i. if i = 0 then KP_fork else KC_signal))"

definition kill2_start :: "(kill_sys, kill_pc) conf" where
  "kill2_start = (kill_sys0, (\<lambda>i. if i = 0 then KP_set else KC_sleep))"

lemmas kill_defs = kill_main_def kill2_main_def kill_childs_def kill_handler_def send_usr1_def

text \<open>How many signals are still to be sent, at most.\<close>
fun kills_left :: "nat \<Rightarrow> kill_pc \<Rightarrow> nat" where
  "kills_left k (KP_kill n) = n"
| "kills_left k KP_wait = 0"
| "kills_left k (KP_exited x) = 0"
| "kills_left k _ = k"

fun kill_parent_ok :: "bool \<Rightarrow> kill_sys \<Rightarrow> kill_pc \<Rightarrow> bool" where
  "kill_parent_ok ff g KP_set = (\<not> kill_child g)"
| "kill_parent_ok ff g KP_fork = (\<not> kill_child g)"
| "kill_parent_ok ff g (KP_kill n) = (\<not> ff \<and> kill_child g \<and> 0 < n)"
| "kill_parent_ok ff g (KP_exited x) =
     (if ff then x = EXIT_FAILURE \<and> \<not> kill_child g else x = EXIT_SUCCESS \<and> kill_child g \<and> kill_dead g)"
| "kill_parent_ok ff g p = (p \<in> {KP_reset, KP_print, KP_wait} \<and> \<not> ff \<and> kill_child g)"

fun kill_child_ok :: "kill_sys \<Rightarrow> kill_pc \<Rightarrow> bool" where
  "kill_child_ok g KC_signal = (\<not> kill_set g \<and> \<not> kill_dead g \<and> received g = 0)"
| "kill_child_ok g KC_sleep = (\<not> kill_dead g)"
| "kill_child_ok g KC_print = (\<not> kill_dead g \<and> kill_set g)"
| "kill_child_ok g KC_exit = (\<not> kill_dead g \<and> kill_set g)"
| "kill_child_ok g KC_exited = (kill_dead g \<and> kill_set g)"
| "kill_child_ok g KC_killed = (kill_dead g \<and> \<not> kill_set g \<and> received g = 0)"
| "kill_child_ok g _ = False"

definition kill_inv :: "bool \<Rightarrow> nat \<Rightarrow> kill_sys \<Rightarrow> kill_pc \<Rightarrow> kill_pc \<Rightarrow> bool" where
  "kill_inv ff k g p c \<longleftrightarrow>
     kill_parent_ok ff g p \<and> kill_child_ok g c \<and> received g + of_bool (kill_pending g) + kills_left k p \<le> k \<and>
     (\<not> kill_child g \<longrightarrow> c = KC_signal \<or> c = KC_sleep) \<and> (c = KC_sleep \<and> kill_child g \<longrightarrow> kill_set g)"

lemma kill_inv_child:
  "kill_inv ff k g p c \<Longrightarrow> kill_childs g c = Some (g', c') \<Longrightarrow> kill_inv ff k g' p c'"
  by (cases c; cases p) (auto simp: kill_inv_def kill_defs split: if_splits)

text \<open>The two programs.\<close>
definition kill1_inv :: "bool \<Rightarrow> kill_sys \<Rightarrow> kill_pc \<Rightarrow> kill_pc \<Rightarrow> bool" where
  "kill1_inv ff g p c \<longleftrightarrow> kill_inv ff 1 g p c \<and> p \<noteq> KP_set \<and> p \<noteq> KP_reset \<and> (\<not> kill_child g \<longrightarrow> c = KC_signal)"

definition kill2_inv :: "bool \<Rightarrow> kill_sys \<Rightarrow> kill_pc \<Rightarrow> kill_pc \<Rightarrow> bool" where
  "kill2_inv ff g p c \<longleftrightarrow> kill_inv ff 3 g p c \<and> (p \<noteq> KP_set \<longrightarrow> kill_set g) \<and> c \<noteq> KC_signal \<and> c \<noteq> KC_killed"

lemma kill_childs_exists: "kill_childs g c = Some (g', c') \<Longrightarrow> kill_child g \<and> kill_child g' \<and> (kill_set g \<longrightarrow> kill_set g' \<and> c' \<noteq> KC_killed)"
  by (cases c) (auto simp: kill_defs split: if_splits)

lemma kill1_parent: "kill1_inv ff g p c \<Longrightarrow> kill_main ff 0 g p = Some (g', p') \<Longrightarrow> kill1_inv ff g' p' c"
  by (cases p; cases c) (auto simp: kill1_inv_def kill_inv_def kill_defs split: if_splits)

lemma kill1_child: "kill1_inv ff g p c \<Longrightarrow> kill_main ff 1 g c = Some (g', c') \<Longrightarrow> kill1_inv ff g' p c'"
  using kill_inv_child [of ff 1 g p c g' c'] kill_childs_exists [of g c g' c'] by (auto simp: kill1_inv_def kill_main_def)

lemma kill2_parent: "kill2_inv ff g p c \<Longrightarrow> kill2_main ff 0 g p = Some (g', p') \<Longrightarrow> kill2_inv ff g' p' c"
  by (cases p; cases c) (auto simp: kill2_inv_def kill_inv_def kill_defs split: if_splits)

lemma kill2_child:
  assumes "kill2_inv ff g p c" "kill2_main ff 1 g c = Some (g', c')"
  shows "kill2_inv ff g' p c'"
proof -
  have s: "kill_childs g c = Some (g', c')" using assms(2) by (simp add: kill2_main_def)
  have "kill_child g" using kill_childs_exists [OF s] by simp
  then have "p \<noteq> KP_set" using assms(1) by (auto simp: kill2_inv_def kill_inv_def)
  moreover have "c' \<noteq> KC_signal" using s assms(1) by (cases c) (auto simp: kill2_inv_def kill_defs split: if_splits)
  ultimately show ?thesis
    using kill_inv_child [of ff 3 g p c g' c'] kill_childs_exists [OF s] assms(1) s by (auto simp: kill2_inv_def)
qed

lemma kill1_reach:
  assumes "reach 2 (kill_main ff) kill_start c"
  shows "kill1_inv ff (fst c) (snd c 0) (snd c 1)"
proof (rule pair_invariant [where P = "kill1_inv ff", OF assms])
  show "kill1_inv ff (fst kill_start) (snd kill_start 0) (snd kill_start 1)"
    by (simp add: kill_start_def kill_sys0_def kill1_inv_def kill_inv_def)
qed (erule (1) kill1_parent, erule (1) kill1_child)

lemma kill2_reach:
  assumes "reach 2 (kill2_main ff) kill2_start c"
  shows "kill2_inv ff (fst c) (snd c 0) (snd c 1)"
proof (rule pair_invariant [where P = "kill2_inv ff", OF assms])
  show "kill2_inv ff (fst kill2_start) (snd kill2_start 0) (snd kill2_start 1)"
    by (simp add: kill2_start_def kill_sys0_def kill2_inv_def kill_inv_def)
qed (erule (1) kill2_parent, erule (1) kill2_child)

text \<open>Neither program waits for ever. In the first one the child is killed if the signal comes before its handler is set, otherwise it
  prints at most one line; in the second one it always ends by itself and prints at most three.\<close>
theorem kill_outcomes:
  assumes "reach 2 (kill_main ff) kill_start (g, ls)" "stuck 2 (kill_main ff) (g, ls)"
  shows "if ff then ls 0 = KP_exited EXIT_FAILURE
    else ls 0 = KP_exited EXIT_SUCCESS \<and> (ls 1 = KC_killed \<and> received g = 0 \<or> ls 1 = KC_exited \<and> received g \<le> 1)"
proof -
  have "kill_main ff 0 g (ls 0) = None" "kill_main ff 1 g (ls 1) = None" using assms(2) by (simp_all add: stuck_def)
  then show ?thesis
    using kill1_reach [OF assms(1)]
    by (cases "ls 0"; cases "ls 1") (auto simp: kill1_inv_def kill_inv_def kill_defs split: if_splits)
qed

theorem kill2_outcomes:
  assumes "reach 2 (kill2_main ff) kill2_start (g, ls)" "stuck 2 (kill2_main ff) (g, ls)"
  shows "if ff then ls 0 = KP_exited EXIT_FAILURE
    else ls 0 = KP_exited EXIT_SUCCESS \<and> ls 1 = KC_exited \<and> received g \<le> 3"
proof -
  have "kill2_main ff 0 g (ls 0) = None" "kill2_main ff 1 g (ls 1) = None" using assms(2) by (simp_all add: stuck_def)
  then show ?thesis
    using kill2_reach [OF assms(1)]
    by (cases "ls 0"; cases "ls 1") (auto simp: kill2_inv_def kill_inv_def kill_defs split: if_splits)
qed

text \<open>The three signals can be one line, as a pending signal is not counted.\<close>
theorem three_kills_once:
  "case run_sched 2 (kill2_main False) [0, 0, 0, 0, 0, 0, 0, 1, 1, 1, 0] kill2_start of
     None \<Rightarrow> False | Some c \<Rightarrow> snd c 0 = KP_exited 0 \<and> snd c 1 = KC_exited \<and> received (fst c) = 1"
  by code_simp

section \<open>\<open>alarm_INT.c\<close>\<close>

text \<open>One process (thread 0), a user who presses Ctrl-C a number of times (thread 1), and the timer of \<open>alarm\<close> (thread 2).\<close>
record int_sys =
  int_set :: bool
  alrm_set :: bool
  int_pending :: bool
  alrm_pending :: bool
  armed :: bool
  interrupted :: bool
  timed_out :: bool

datatype int_pc = I_set_int | I_set_alrm | I_puts | I_alarm | I_call | I_suspend | I_test | I_exited int | I_killed | User nat | Timer

definition catch_sig :: "bool \<Rightarrow> int_sys \<Rightarrow> int_sys" where
  "catch_sig is_int g =
     (if is_int then g\<lparr>int_pending := False, armed := False, interrupted := True\<rparr>
      else g\<lparr>alrm_pending := False, timed_out := True\<rparr>)"

fun int_ended :: "int_pc \<Rightarrow> bool" where
  "int_ended (I_exited x) = True"
| "int_ended I_killed = True"
| "int_ended _ = False"

text \<open>\<open>sigsuspend\<close> returns after a handler; \<open>SIGALRM\<close> comes only when its handler is set.\<close>
definition alarm_int_main :: "(int_sys, int_pc) tstep" where
  "alarm_int_main i g pc =
     (if i = 0 then
        (if int_ended pc then None
         else if int_pending g then
           (if int_set g then Some (catch_sig True g, if pc = I_suspend then I_test else pc)
            else Some (g\<lparr>int_pending := False\<rparr>, I_killed))
         else if alrm_pending g then Some (catch_sig False g, if pc = I_suspend then I_test else pc)
         else case pc of
           I_set_int \<Rightarrow> Some (g\<lparr>int_set := True\<rparr>, I_set_alrm)
         | I_set_alrm \<Rightarrow> Some (g\<lparr>alrm_set := True\<rparr>, I_puts)
         | I_puts \<Rightarrow> Some (g, I_alarm)
         | I_alarm \<Rightarrow> Some (g\<lparr>armed := True\<rparr>, I_call)
         | I_call \<Rightarrow> Some (g, I_suspend)
         | I_test \<Rightarrow> Some (g, I_exited (if interrupted g then 1 else 0))
         | _ \<Rightarrow> None)
      else if i = 1 then
        (case pc of User n \<Rightarrow> if 0 < n then Some (g\<lparr>int_pending := True\<rparr>, User (n - 1)) else None | _ \<Rightarrow> None)
      else
        (if armed g then Some (g\<lparr>armed := False, alrm_pending := True\<rparr>, pc) else None))"

definition alarm_int_start :: "nat \<Rightarrow> (int_sys, int_pc) conf" where
  "alarm_int_start n =
     (\<lparr>int_set = False, alrm_set = False, int_pending = False, alrm_pending = False, armed = False, interrupted = False,
       timed_out = False\<rparr>, (\<lambda>i. if i = 0 then I_set_int else if i = 1 then User n else Timer))"

lemmas int_defs = alarm_int_main_def catch_sig_def

fun int_ok :: "int_sys \<Rightarrow> int_pc \<Rightarrow> bool" where
  "int_ok g I_set_int = (\<not> int_set g \<and> \<not> interrupted g \<and> \<not> armed g \<and> \<not> alrm_pending g)"
| "int_ok g I_set_alrm = (int_set g \<and> \<not> armed g \<and> \<not> alrm_pending g)"
| "int_ok g I_puts = (int_set g \<and> \<not> armed g \<and> \<not> alrm_pending g)"
| "int_ok g I_alarm = (int_set g \<and> \<not> armed g \<and> \<not> alrm_pending g)"
| "int_ok g I_call = (int_set g \<and> (armed g \<or> alrm_pending g \<or> interrupted g \<or> timed_out g))"
| "int_ok g I_suspend = (int_set g \<and> (armed g \<or> alrm_pending g \<or> interrupted g \<or> timed_out g))"
| "int_ok g I_test = (int_set g \<and> (interrupted g \<or> timed_out g))"
| "int_ok g (I_exited x) = (x = 1 \<and> interrupted g \<or> x = 0 \<and> \<not> interrupted g \<and> timed_out g)"
| "int_ok g I_killed = (\<not> int_set g)"
| "int_ok g _ = False"

text \<open>The status is 1 exactly when Ctrl-C was caught, and 0 only after the timeout. Ctrl-C kills the program only before it has set the handler.
  If a signal is handled between \<open>alarm\<close> and \<open>sigsuspend\<close>, the program can wait for ever.\<close>
theorem alarm_int_outcomes:
  assumes "reach 3 alarm_int_main (alarm_int_start n) (g, ls)"
  shows "(ls 0 = I_exited x \<longrightarrow> x = 1 \<and> interrupted g \<or> x = 0 \<and> \<not> interrupted g \<and> timed_out g) \<and>
    (ls 0 = I_killed \<longrightarrow> \<not> int_set g) \<and>
    (stuck 3 alarm_int_main (g, ls) \<longrightarrow>
      ls 0 = I_killed \<or> (\<exists>x. ls 0 = I_exited x) \<or> ls 0 = I_suspend \<and> \<not> armed g \<and> (interrupted g \<or> timed_out g))"
proof -
  have "int_ok (fst (g, ls)) (snd (g, ls) 0) \<and> (\<exists>k. snd (g, ls) 1 = User k)"
    using assms
  proof (rule reach_invariant)
    fix g ls i g' l'
    assume "int_ok (fst (g, ls)) (snd (g, ls) 0) \<and> (\<exists>k. snd (g, ls) 1 = User k)"
      and "(i::nat) < 3" "alarm_int_main i g (ls i) = Some (g', l')"
    moreover consider "i = 0" | "i = 1" | "i = 2" using \<open>i < 3\<close> by linarith
    ultimately show "int_ok (fst (g', ls(i := l'))) (snd (g', ls(i := l')) 0) \<and> (\<exists>k. snd (g', ls(i := l')) 1 = User k)"
      by cases (cases "ls 0"; auto simp: int_defs split: if_splits)+
  qed (simp add: alarm_int_start_def)
  then have ok: "int_ok g (ls 0)" by simp
  show ?thesis
  proof (intro conjI impI)
    assume "stuck 3 alarm_int_main (g, ls)"
    then have "alarm_int_main 0 g (ls 0) = None" "alarm_int_main 2 g (ls 2) = None" by (simp_all add: stuck_def)
    then show "ls 0 = I_killed \<or> (\<exists>x. ls 0 = I_exited x) \<or> ls 0 = I_suspend \<and> \<not> armed g \<and> (interrupted g \<or> timed_out g)"
      using ok by (cases "ls 0") (auto simp: int_defs split: if_splits)
  qed (use ok in auto)
qed

text \<open>Ctrl-C just before \<open>sigsuspend\<close>.\<close>
theorem alarm_int_waits:
  "case run_sched 3 alarm_int_main [0, 0, 0, 0, 1, 0, 0] (alarm_int_start 1) of
     None \<Rightarrow> False | Some c \<Rightarrow> snd c 0 = I_suspend \<and> interrupted (fst c) \<and> \<not> armed (fst c)"
  by code_simp

end
