(* ===== verification/Child_Signals.thy ===== *)
theory Child_Signals
  imports Interleaving
begin

text \<open>
  \<open>02-signals/sigUSR.c\<close> and \<open>sigUSRwait.c\<close>: a parent runs \<open>sigUSR_a\<close> and \<open>sigUSR_b\<close> as its children, sends each its
  signal and waits for both, in the second program in a handler for \<open>SIGCHLD\<close>. The processes are the threads 0 (parent), 1
  and 2 (children \<open>a\<close> and \<open>b\<close>) of an interleaving. A pending signal is delivered with the next step of its process; a
  sleep can end at any time.
\<close>

abbreviation SIGUSR1 :: int where "SIGUSR1 \<equiv> 10"
abbreviation SIGUSR2 :: int where "SIGUSR2 \<equiv> 12"
abbreviation SIGTERM :: int where "SIGTERM \<equiv> 15"

text \<open>The signal of a child, and that of the other one.\<close>
definition own_signal :: "nat \<Rightarrow> int" where
  "own_signal i = (if i = 1 then SIGUSR1 else SIGUSR2)"

definition other_signal :: "nat \<Rightarrow> int" where
  "other_signal i = (if i = 1 then SIGUSR2 else SIGUSR1)"

datatype wait_status = Exited_with int | Killed_by int

text \<open>A child that has ended is a zombie until its parent has waited for it.\<close>
datatype child_state = Unborn | Alive | Zombie wait_status | Reaped wait_status

record usr_sys =
  child_of :: "nat \<Rightarrow> child_state"
  own_pending :: "nat \<Rightarrow> bool"
  other_pending :: "nat \<Rightarrow> bool"
  chld_pending :: bool
  broadcast :: bool

record usr_env =
  fork_fails :: "nat \<Rightarrow> bool"
  exec_fails :: "nat \<Rightarrow> bool"

datatype usr_pc =
    UP_set | UP_fork nat | UP_sleep_before | UP_kill nat | UP_sleep | UP_wait nat | UP_finished | UP_exited int | UP_handler usr_pc
  | UC_exec | UC_signal | UC_pause | UC_report | UC_ended

section \<open>The children\<close>

definition child_ends :: "nat \<Rightarrow> wait_status \<Rightarrow> usr_sys \<Rightarrow> usr_sys \<times> usr_pc" where
  "child_ends i s g = (g\<lparr>child_of := (child_of g)(i := Zombie s), chld_pending := True\<rparr>, UC_ended)"

text \<open>\<open>main\<close> and \<open>handler\<close> of \<open>sigUSR_a.c\<close>: the handler exits with status 11. Before it is set the signal kills.\<close>
definition sigUSR_a :: "usr_sys \<Rightarrow> usr_pc \<Rightarrow> (usr_sys \<times> usr_pc) option" where
  "sigUSR_a g pc =
     (case pc of
        UC_signal \<Rightarrow> Some (if own_pending g 1 then child_ends 1 (Killed_by SIGUSR1) g else (g, UC_pause))
      | UC_pause \<Rightarrow> if own_pending g 1 then Some (g\<lparr>own_pending := (own_pending g)(1 := False)\<rparr>, UC_report) else None
      | UC_report \<Rightarrow> Some (child_ends 1 (Exited_with 11) g)
      | _ \<Rightarrow> None)"

text \<open>Of \<open>sigUSR_b.c\<close>: the handler raises \<open>SIGTERM\<close>, which kills.\<close>
definition sigUSR_b :: "usr_sys \<Rightarrow> usr_pc \<Rightarrow> (usr_sys \<times> usr_pc) option" where
  "sigUSR_b g pc =
     (case pc of
        UC_signal \<Rightarrow> Some (if own_pending g 2 then child_ends 2 (Killed_by SIGUSR2) g else (g, UC_pause))
      | UC_pause \<Rightarrow> if own_pending g 2 then Some (g\<lparr>own_pending := (own_pending g)(2 := False)\<rparr>, UC_report) else None
      | UC_report \<Rightarrow> Some (child_ends 2 (Killed_by SIGTERM) g)
      | _ \<Rightarrow> None)"

text \<open>A child from \<open>fork\<close> on. The signal of the other child has no handler.\<close>
definition usr_child :: "usr_env \<Rightarrow> nat \<Rightarrow> usr_sys \<Rightarrow> usr_pc \<Rightarrow> (usr_sys \<times> usr_pc) option" where
  "usr_child env i g pc =
     (if child_of g i \<noteq> Alive then None
      else if other_pending g i then Some (child_ends i (Killed_by (other_signal i)) g)
      else if pc = UC_exec then
        Some (if own_pending g i then child_ends i (Killed_by (own_signal i)) g
              else if exec_fails env i then child_ends i (Exited_with EXIT_FAILURE) g
              else (g, UC_signal))
      else if i = 1 then sigUSR_a g pc else sigUSR_b g pc)"

section \<open>The parents\<close>

text \<open>\<open>kill (child, sig)\<close>: after a failed \<open>fork\<close> the variable is -1, and the signal goes to every process it may be
  sent to, the other child among them.\<close>
definition send_signal :: "usr_env \<Rightarrow> nat \<Rightarrow> usr_sys \<Rightarrow> usr_sys" where
  "send_signal env i g =
     (if fork_fails env i then
        g\<lparr>broadcast := True,
          other_pending := (\<lambda>j. if j \<noteq> i \<and> child_of g j = Alive then True else other_pending g j)\<rparr>
      else if child_of g i = Alive then g\<lparr>own_pending := (own_pending g)(i := True)\<rparr>
      else g)"

text \<open>One child that has ended is waited for, the first one when both have.\<close>
definition reap :: "usr_sys \<Rightarrow> usr_sys option" where
  "reap g =
     (case child_of g 1 of
        Zombie s \<Rightarrow> Some (g\<lparr>child_of := (child_of g)(1 := Reaped s)\<rparr>)
      | _ \<Rightarrow>
          (case child_of g 2 of
             Zombie s \<Rightarrow> Some (g\<lparr>child_of := (child_of g)(2 := Reaped s)\<rparr>)
           | _ \<Rightarrow> None))"

definition fork_child :: "usr_env \<Rightarrow> nat \<Rightarrow> usr_sys \<Rightarrow> usr_sys" where
  "fork_child env i g = (if fork_fails env i then g else g\<lparr>child_of := (child_of g)(i := Alive)\<rparr>)"

text \<open>\<open>catch_child\<close>, one \<open>waitpid\<close> at a time, until none is left.\<close>
definition catch_child :: "usr_pc \<Rightarrow> usr_sys \<Rightarrow> usr_sys \<times> usr_pc" where
  "catch_child back g = (case reap g of Some g' \<Rightarrow> (g', UP_handler back) | None \<Rightarrow> (g, back))"

text \<open>\<open>main\<close> of \<open>sigUSRwait.c\<close>. The first sleep is cut short by a signal, the second one begins again.\<close>
definition sigUSRwait :: "usr_env \<Rightarrow> usr_sys \<Rightarrow> usr_pc \<Rightarrow> (usr_sys \<times> usr_pc) option" where
  "sigUSRwait env g pc =
     (case pc of
        UP_exited x \<Rightarrow> None
      | UP_handler back \<Rightarrow> Some (catch_child back g)
      | _ \<Rightarrow>
          if chld_pending g then
            Some (g\<lparr>chld_pending := False\<rparr>, UP_handler (if pc = UP_sleep_before then UP_kill 1 else pc))
          else case pc of
            UP_set \<Rightarrow> Some (g, UP_fork 1)
          | UP_fork i \<Rightarrow> Some (fork_child env i g, if i = 1 then UP_fork 2 else UP_sleep_before)
          | UP_sleep_before \<Rightarrow> Some (g, UP_kill 1)
          | UP_kill i \<Rightarrow> Some (send_signal env i g, if i = 1 then UP_kill 2 else UP_sleep)
          | UP_sleep \<Rightarrow> Some (g, UP_finished)
          | UP_finished \<Rightarrow> Some (g, UP_exited EXIT_SUCCESS)
          | _ \<Rightarrow> None)"

text \<open>\<open>main\<close> of \<open>sigUSR.c\<close>: \<open>wait\<close> blocks while a child is alive and none has ended, and fails when there is none.\<close>
definition sigUSR :: "usr_env \<Rightarrow> usr_sys \<Rightarrow> usr_pc \<Rightarrow> (usr_sys \<times> usr_pc) option" where
  "sigUSR env g pc =
     (case pc of
        UP_fork i \<Rightarrow> Some (fork_child env i g, if i = 1 then UP_fork 2 else UP_sleep_before)
      | UP_sleep_before \<Rightarrow> Some (g, UP_kill 1)
      | UP_kill i \<Rightarrow> Some (send_signal env i g, if i = 1 then UP_kill 2 else UP_sleep)
      | UP_sleep \<Rightarrow> Some (g, UP_wait 1)
      | UP_wait i \<Rightarrow>
          (case reap g of
             Some g' \<Rightarrow> Some (g', if i = 1 then UP_wait 2 else UP_finished)
           | None \<Rightarrow>
               if child_of g 1 = Alive \<or> child_of g 2 = Alive then None
               else Some (g, if i = 1 then UP_wait 2 else UP_finished))
      | UP_finished \<Rightarrow> Some (g, UP_exited EXIT_SUCCESS)
      | _ \<Rightarrow> None)"

definition usr_step :: "bool \<Rightarrow> usr_env \<Rightarrow> (usr_sys, usr_pc) tstep" where
  "usr_step handler env i g pc =
     (if i = 0 then (if handler then sigUSRwait env g pc else sigUSR env g pc) else usr_child env i g pc)"

definition usr_start :: "bool \<Rightarrow> (usr_sys, usr_pc) conf" where
  "usr_start handler =
     (\<lparr>child_of = (\<lambda>_. Unborn), own_pending = (\<lambda>_. False), other_pending = (\<lambda>_. False), chld_pending = False, broadcast = False\<rparr>,
      (\<lambda>i. if i = 0 then (if handler then UP_set else UP_fork 1) else UC_exec))"

section \<open>Invariants\<close>

text \<open>The position of \<open>main\<close>, also while the handler runs; whether \<open>main\<close> is past the \<open>fork\<close>, or the \<open>kill\<close>, of child
  \<open>i\<close>.\<close>
fun main_pc :: "usr_pc \<Rightarrow> usr_pc" where
  "main_pc (UP_handler back) = back"
| "main_pc pc = pc"

fun past_fork :: "nat \<Rightarrow> usr_pc \<Rightarrow> bool" where
  "past_fork i UP_set = False"
| "past_fork i (UP_fork j) = (i < j)"
| "past_fork i _ = True"

fun past_kill :: "nat \<Rightarrow> usr_pc \<Rightarrow> bool" where
  "past_kill i UP_set = False"
| "past_kill i (UP_fork j) = False"
| "past_kill i UP_sleep_before = False"
| "past_kill i (UP_kill j) = (i < j)"
| "past_kill i _ = True"

fun main_ok :: "bool \<Rightarrow> usr_pc \<Rightarrow> bool" where
  "main_ok h UP_set = h"
| "main_ok h (UP_fork j) = (j = 1 \<or> j = 2)"
| "main_ok h UP_sleep_before = True"
| "main_ok h (UP_kill j) = (j = 1 \<or> j = 2)"
| "main_ok h UP_sleep = True"
| "main_ok h (UP_wait j) = (\<not> h \<and> (j = 1 \<or> j = 2))"
| "main_ok h UP_finished = True"
| "main_ok h _ = False"

fun parent_ok :: "bool \<Rightarrow> usr_pc \<Rightarrow> bool" where
  "parent_ok h (UP_handler back) = (h \<and> main_ok h back)"
| "parent_ok h (UP_exited x) = (x = EXIT_SUCCESS)"
| "parent_ok h pc = main_ok h pc"

text \<open>How a child can end.\<close>
definition status_ok :: "usr_env \<Rightarrow> nat \<Rightarrow> wait_status \<Rightarrow> bool" where
  "status_ok env i s \<longleftrightarrow>
     s = Exited_with EXIT_FAILURE \<and> exec_fails env i \<or> s = Killed_by (own_signal i) \<or>
     s = (if i = 1 then Exited_with 11 else Killed_by SIGTERM) \<or> s = Killed_by (other_signal i) \<and> fork_fails env (3 - i)"

text \<open>Child \<open>i\<close> at \<open>c\<close>, with \<open>main\<close> at \<open>m\<close>.\<close>
definition child_ok :: "usr_env \<Rightarrow> usr_sys \<Rightarrow> usr_pc \<Rightarrow> nat \<Rightarrow> usr_pc \<Rightarrow> bool" where
  "child_ok env g m i c \<longleftrightarrow>
     (child_of g i \<noteq> Unborn \<longleftrightarrow> past_fork i m \<and> \<not> fork_fails env i) \<and>
     (case child_of g i of
        Unborn \<Rightarrow> c = UC_exec \<and> \<not> own_pending g i
      | Alive \<Rightarrow> c \<in> {UC_exec, UC_signal, UC_pause} \<and> (past_kill i m \<longrightarrow> own_pending g i) \<or> c = UC_report
      | Zombie s \<Rightarrow> c = UC_ended \<and> status_ok env i s
      | Reaped s \<Rightarrow> c = UC_ended \<and> status_ok env i s) \<and>
     (other_pending g i \<longrightarrow> fork_fails env (3 - i))"

definition usr_inv :: "bool \<Rightarrow> usr_env \<Rightarrow> usr_sys \<Rightarrow> usr_pc \<Rightarrow> usr_pc \<Rightarrow> usr_pc \<Rightarrow> bool" where
  "usr_inv h env g p a b \<longleftrightarrow>
     parent_ok h p \<and> child_ok env g (main_pc p) 1 a \<and> child_ok env g (main_pc p) 2 b \<and>
     (broadcast g \<longleftrightarrow> past_kill 1 (main_pc p) \<and> fork_fails env 1 \<or> past_kill 2 (main_pc p) \<and> fork_fails env 2)"

lemma child_ok_frame:
  "child_ok env g m i c \<Longrightarrow> child_of g' i = child_of g i \<Longrightarrow> own_pending g' i = own_pending g i \<Longrightarrow>
     other_pending g' i = other_pending g i \<Longrightarrow> child_ok env g' m i c"
  by (cases "child_of g i") (simp_all add: child_ok_def)

lemma child_ok_main:
  "child_ok env g m i c \<Longrightarrow> past_fork i m' = past_fork i m \<Longrightarrow> past_kill i m' = past_kill i m \<Longrightarrow> child_ok env g m' i c"
  by (cases "child_of g i") (simp_all add: child_ok_def)

lemma reap_Some:
  assumes "reap g = Some g'"
  obtains j s where "child_of g j = Zombie s" "g' = g\<lparr>child_of := (child_of g)(j := Reaped s)\<rparr>"
  using assms by (auto simp: reap_def split: child_state.splits)

lemma child_ok_reap:
  assumes "child_ok env g m i c" "reap g = Some g'"
  shows "child_ok env g' m i c"
proof -
  obtain j s where r: "child_of g j = Zombie s" "g' = g\<lparr>child_of := (child_of g)(j := Reaped s)\<rparr>"
    using assms(2) by (rule reap_Some)
  show ?thesis
  proof (cases "i = j")
    case True
    then show ?thesis using assms(1) r by (simp add: child_ok_def)
  next
    case False
    then show ?thesis using child_ok_frame [OF assms(1)] r by simp
  qed
qed

lemma child_ok_fork:
  assumes "child_ok env g (UP_fork j) i c" "i = 1 \<or> i = 2" "j = 1 \<or> j = 2"
  shows "child_ok env (fork_child env j g) (if j = 1 then UP_fork 2 else UP_sleep_before) i c"
  using assms(2,3,1) by (elim disjE; cases "child_of g i"; auto simp: fork_child_def child_ok_def)

lemma child_ok_kill:
  assumes "child_ok env g (UP_kill j) i c" "i = 1 \<or> i = 2" "j = 1 \<or> j = 2"
  shows "child_ok env (send_signal env j g) (if j = 1 then UP_kill 2 else UP_sleep) i c"
  using assms(2,3,1) by (elim disjE; cases "child_of g i"; auto simp: send_signal_def child_ok_def)

text \<open>A step of a child.\<close>
lemma child_step_ok:
  assumes "child_ok env g m i c" "i = 1 \<or> i = 2" "usr_child env i g c = Some (g', c')"
  shows "child_ok env g' m i c'"
proof -
  have alive: "child_of g i = Alive" using assms(3) by (simp add: usr_child_def split: if_splits)
  show ?thesis
    using assms(2,1,3) alive
    by (elim disjE; cases c)
      (auto simp: child_ok_def usr_child_def sigUSR_a_def sigUSR_b_def child_ends_def status_ok_def own_signal_def split: if_splits)
qed

lemma child_step_other:
  assumes "usr_child env i g c = Some (g', c')" "i = 1 \<or> i = 2"
  shows "broadcast g' = broadcast g \<and>
    (j \<noteq> i \<longrightarrow> child_of g' j = child_of g j \<and> own_pending g' j = own_pending g j \<and> other_pending g' j = other_pending g j)"
  using assms(2,1)
  by (elim disjE; cases c) (auto simp: usr_child_def sigUSR_a_def sigUSR_b_def child_ends_def split: if_splits)

text \<open>A step of a parent.\<close>
lemma reap_frame: "reap g = Some g' \<Longrightarrow> broadcast g' = broadcast g"
  by (auto simp: reap_def split: child_state.splits)

lemma parent_step_main:
  assumes "child_ok env g m 1 a \<and> child_ok env g m 2 b" "m = UP_fork j \<or> m = UP_kill j" "j = 1 \<or> j = 2"
    and "broadcast g \<longleftrightarrow> past_kill 1 m \<and> fork_fails env 1 \<or> past_kill 2 m \<and> fork_fails env 2"
    and "g' = (if m = UP_fork j then fork_child env j g else send_signal env j g)"
    and "m' = (if m = UP_fork j then if j = 1 then UP_fork 2 else UP_sleep_before else if j = 1 then UP_kill 2 else UP_sleep)"
  shows "child_ok env g' m' 1 a \<and> child_ok env g' m' 2 b \<and>
    (broadcast g' \<longleftrightarrow> past_kill 1 m' \<and> fork_fails env 1 \<or> past_kill 2 m' \<and> fork_fails env 2)"
  using assms(2)
proof
  assume m: "m = UP_fork j"
  then show ?thesis
    using assms child_ok_fork [of env g j 1 a] child_ok_fork [of env g j 2 b] by (auto simp: fork_child_def)
next
  assume m: "m = UP_kill j"
  have "child_ok env g' m' 1 a" "child_ok env g' m' 2 b"
    using assms m child_ok_kill [of env g j 1 a] child_ok_kill [of env g j 2 b] by simp_all
  then show ?thesis using assms m by (auto simp: send_signal_def)
qed

text \<open>The step of a parent leads from a good position to a good one, and changes the children as above.\<close>
lemma parent_moves:
  assumes "parent_ok h p" "(if h then sigUSRwait env g p else sigUSR env g p) = Some (g', p')"
  obtains (same) "g' = g \<or> g' = g\<lparr>chld_pending := False\<rparr> \<or> reap g = Some g'"
      "\<And>i. 0 < i \<Longrightarrow> past_fork i (main_pc p') = past_fork i (main_pc p) \<and> past_kill i (main_pc p') = past_kill i (main_pc p)" "parent_ok h p'"
    | (acts) j where "main_pc p = UP_fork j \<or> main_pc p = UP_kill j" "j = 1 \<or> j = 2"
      "g' = (if main_pc p = UP_fork j then fork_child env j g else send_signal env j g)"
      "main_pc p' = (if main_pc p = UP_fork j then if j = 1 then UP_fork 2 else UP_sleep_before
         else if j = 1 then UP_kill 2 else UP_sleep)" "parent_ok h p'"
proof (cases "h \<and> chld_pending g \<and> main_pc p = p \<and> main_ok h p")
  case True
  then have "g' = g\<lparr>chld_pending := False\<rparr> \<and> p' = UP_handler (if p = UP_sleep_before then UP_kill 1 else p)"
    using assms by (cases p) (auto simp: sigUSRwait_def)
  then show thesis using True by (intro same) (auto split: if_splits)
next
  case False
  show thesis
  proof (cases p)
    case (UP_fork j)
    then have "g' = fork_child env j g \<and> p' = (if j = 1 then UP_fork 2 else UP_sleep_before)"
      using assms False by (auto simp: sigUSRwait_def sigUSR_def split: if_splits)
    then show thesis using assms(1) UP_fork by (intro acts [of j]) auto
  next
    case (UP_kill j)
    then have "g' = send_signal env j g \<and> p' = (if j = 1 then UP_kill 2 else UP_sleep)"
      using assms False by (auto simp: sigUSRwait_def sigUSR_def split: if_splits)
    then show thesis using assms(1) UP_kill by (intro acts [of j]) auto
  next
    case (UP_handler r)
    then have "(g' = g \<and> p' = r \<or> reap g = Some g' \<and> p' = UP_handler r) \<and> h \<and> main_ok h r"
      using assms by (auto simp: sigUSRwait_def catch_child_def split: option.splits if_splits)
    moreover from this have "main_pc r = r" "parent_ok h r" by (cases r; simp)+
    ultimately show thesis using UP_handler by (intro same) auto
  next
    case (UP_wait j)
    then have "(g' = g \<or> reap g = Some g') \<and> p' = (if j = 1 then UP_wait 2 else UP_finished)" "\<not> h"
      using assms by (auto simp: sigUSR_def sigUSRwait_def split: option.splits if_splits)
    then show thesis using UP_wait by (intro same) auto
  next
    case UP_set
    then have "g' = g \<and> p' = UP_fork 1" using assms False by (auto simp: sigUSRwait_def split: if_splits)
    then show thesis using UP_set by (intro same) auto
  next
    case UP_sleep_before
    then have "g' = g \<and> p' = UP_kill 1" using assms False by (auto simp: sigUSRwait_def sigUSR_def split: if_splits)
    then show thesis using UP_sleep_before by (intro same) auto
  next
    case UP_sleep
    then have "g' = g \<and> p' = (if h then UP_finished else UP_wait 1)"
      using assms False by (auto simp: sigUSRwait_def sigUSR_def split: if_splits)
    then show thesis using UP_sleep by (intro same) auto
  next
    case UP_finished
    then have "g' = g \<and> p' = UP_exited EXIT_SUCCESS"
      using assms False by (auto simp: sigUSRwait_def sigUSR_def split: if_splits)
    then show thesis using UP_finished by (intro same) auto
  qed (use assms in \<open>auto simp: sigUSRwait_def sigUSR_def split: if_splits\<close>)
qed

lemma usr_inv_parent:
  assumes "usr_inv h env g p a b" "usr_step h env 0 g p = Some (g', p')"
  shows "usr_inv h env g' p' a b"
proof -
  have P: "parent_ok h p" "child_ok env g (main_pc p) 1 a \<and> child_ok env g (main_pc p) 2 b"
      "broadcast g \<longleftrightarrow> past_kill 1 (main_pc p) \<and> fork_fails env 1 \<or> past_kill 2 (main_pc p) \<and> fork_fails env 2"
    using assms(1) by (simp_all add: usr_inv_def)
  have s: "(if h then sigUSRwait env g p else sigUSR env g p) = Some (g', p')" using assms(2) by (simp add: usr_step_def)
  from P(1) s show ?thesis
  proof (cases rule: parent_moves)
    case same
    have "child_ok env g' (main_pc p) i c" if "child_ok env g (main_pc p) i c" for i c
      using same(1) that child_ok_reap child_ok_frame [of env g "main_pc p" i c g'] by auto
    then have "child_ok env g' (main_pc p') 1 a \<and> child_ok env g' (main_pc p') 2 b"
      using P(2) same(2) [of 1] same(2) [of 2] child_ok_main [of env g' "main_pc p" 1 a "main_pc p'"]
        child_ok_main [of env g' "main_pc p" 2 b "main_pc p'"] by simp
    moreover have "broadcast g' = broadcast g" using same(1) reap_frame by auto
    ultimately show ?thesis using P(3) same(2) [of 1] same(2) [of 2] same(3) by (simp add: usr_inv_def)
  next
    case (acts j)
    from parent_step_main [OF P(2) acts(1,2) P(3) acts(3,4)] show ?thesis using acts(5) by (simp add: usr_inv_def)
  qed
qed

lemma usr_inv_child:
  assumes "usr_inv h env g p a b" "i = 1 \<or> i = 2" "usr_step h env i g (if i = 1 then a else b) = Some (g', c')"
  shows "usr_inv h env g' p (if i = 1 then c' else a) (if i = 1 then b else c')"
proof -
  have s: "usr_child env i g (if i = 1 then a else b) = Some (g', c')" using assms(2,3) by (auto simp: usr_step_def)
  have o: "broadcast g' = broadcast g"
      "j \<noteq> i \<Longrightarrow> child_of g' j = child_of g j \<and> own_pending g' j = own_pending g j \<and> other_pending g' j = other_pending g j" for j
    using child_step_other [OF s assms(2)] by auto
  have "child_ok env g' (main_pc p) i c'"
    using child_step_ok [OF _ assms(2) s, of "main_pc p"] assms(1,2) by (auto simp: usr_inv_def)
  moreover have "child_ok env g' (main_pc p) j c" if "j \<noteq> i" "child_ok env g (main_pc p) j c" for j c
    using child_ok_frame [OF that(2)] o(2) [OF that(1)] by simp
  ultimately show ?thesis using assms(1,2) o(1) by (auto simp: usr_inv_def)
qed

text \<open>In the program with the handler: who has ended but was not waited for will be.\<close>
fun zombie :: "child_state \<Rightarrow> bool" where
  "zombie (Zombie s) = True"
| "zombie _ = False"

fun in_handler :: "usr_pc \<Rightarrow> bool" where
  "in_handler (UP_handler back) = True"
| "in_handler _ = False"

fun has_exited :: "usr_pc \<Rightarrow> bool" where
  "has_exited (UP_exited x) = True"
| "has_exited _ = False"

definition zombies_known :: "usr_sys \<Rightarrow> usr_pc \<Rightarrow> bool" where
  "zombies_known g p \<longleftrightarrow> (zombie (child_of g 1) \<or> zombie (child_of g 2)) \<longrightarrow> chld_pending g \<or> in_handler p \<or> has_exited p"

lemma reap_None: "reap g = None \<longleftrightarrow> \<not> zombie (child_of g 1) \<and> \<not> zombie (child_of g 2)"
  by (auto simp: reap_def split: child_state.splits)

lemma zombie_fork: "zombie (child_of (fork_child env j g) i) \<Longrightarrow> zombie (child_of g i)"
  by (auto simp: fork_child_def split: if_splits)

lemma zombie_send: "zombie (child_of (send_signal env j g) i) \<Longrightarrow> zombie (child_of g i)"
  by (auto simp: send_signal_def split: if_splits)

lemma zombies_parent:
  assumes "zombies_known g p" "sigUSRwait env g p = Some (g', p')"
  shows "zombies_known g' p'"
proof (cases "in_handler p")
  case True
  then obtain r where p: "p = UP_handler r" by (cases p) simp_all
  show ?thesis
  proof (cases "reap g")
    case None
    then show ?thesis using reap_None [of g] assms(2) p by (simp add: sigUSRwait_def catch_child_def zombies_known_def)
  next
    case (Some h)
    then have "p' = UP_handler r" using assms(2) p by (simp add: sigUSRwait_def catch_child_def)
    then show ?thesis by (simp add: zombies_known_def)
  qed
next
  case False
  show ?thesis
  proof (cases "chld_pending g")
    case True
    then show ?thesis using assms(2) False by (cases p) (auto simp: sigUSRwait_def zombies_known_def)
  next
    case pending: False
    have "g' = g \<or> (\<exists>j. g' = fork_child env j g \<or> g' = send_signal env j g)"
      using assms(2) False pending by (cases p) (auto simp: sigUSRwait_def)
    then have z: "zombie (child_of g' i) \<Longrightarrow> zombie (child_of g i)" for i
      using zombie_fork [of env _ g i] zombie_send [of env _ g i] by (elim disjE exE; simp)
    have "\<not> has_exited p" using assms(2) by (cases p) (simp_all add: sigUSRwait_def)
    then have "\<not> zombie (child_of g 1)" "\<not> zombie (child_of g 2)"
      using assms(1) False pending by (simp_all add: zombies_known_def)
    then show ?thesis using z unfolding zombies_known_def by blast
  qed
qed

lemma child_step_pending:
  assumes "usr_child env i g c = Some (g', c')" "i = 1 \<or> i = 2"
  shows "(chld_pending g \<longrightarrow> chld_pending g') \<and> (child_of g' = child_of g \<or> chld_pending g')"
  using assms(2,1) by (elim disjE; cases c) (auto simp: usr_child_def sigUSR_a_def sigUSR_b_def child_ends_def split: if_splits)

lemma zombies_child:
  assumes "zombies_known g p" "usr_child env i g c = Some (g', c')" "i = 1 \<or> i = 2"
  shows "zombies_known g' p"
proof (cases "chld_pending g'")
  case False
  then have "child_of g' = child_of g" "\<not> chld_pending g" using child_step_pending [OF assms(2,3)] by simp_all
  then show ?thesis using assms(1) by (simp add: zombies_known_def)
qed (simp add: zombies_known_def)

text \<open>In the program without it: after each \<open>wait\<close> at least one child less is to be waited for.\<close>
fun unreaped :: "child_state \<Rightarrow> bool" where
  "unreaped Alive = True"
| "unreaped (Zombie s) = True"
| "unreaped _ = False"

fun waits_ok :: "usr_sys \<Rightarrow> usr_pc \<Rightarrow> bool" where
  "waits_ok g (UP_wait j) = (j = 1 \<or> \<not> (unreaped (child_of g 1) \<and> unreaped (child_of g 2)))"
| "waits_ok g UP_finished = (\<not> unreaped (child_of g 1) \<and> \<not> unreaped (child_of g 2))"
| "waits_ok g (UP_exited x) = (\<not> unreaped (child_of g 1) \<and> \<not> unreaped (child_of g 2))"
| "waits_ok g _ = True"

lemma waits_reap:
  assumes "waits_ok g (UP_wait j)" "reap g = Some g'" "j = 1 \<or> j = 2"
  shows "waits_ok g' (if j = 1 then UP_wait 2 else UP_finished)"
  using assms by (elim disjE; cases "child_of g 1"; cases "child_of g 2"; auto simp: reap_def)

lemma waits_none:
  assumes "reap g = None" "child_of g 1 \<noteq> Alive" "child_of g 2 \<noteq> Alive" "j = 1 \<or> j = 2"
  shows "waits_ok g (if j = 1 then UP_wait 2 else UP_finished)"
  using assms by (cases "child_of g 1"; cases "child_of g 2"; auto simp: reap_def)

lemma waits_parent:
  assumes "waits_ok g p" "parent_ok False p" "sigUSR env g p = Some (g', p')"
  shows "waits_ok g' p'"
proof (cases p)
  case (UP_wait j)
  then have j: "j = 1 \<or> j = 2" using assms(2) by simp
  show ?thesis
  proof (cases "reap g")
    case None
    then show ?thesis using waits_none [OF None _ _ j] assms(3) UP_wait by (simp add: sigUSR_def split: if_split_asm)
  next
    case (Some h)
    then show ?thesis using waits_reap [of g j h] j assms(1,3) UP_wait by (simp add: sigUSR_def)
  qed
qed (use assms in \<open>auto simp: sigUSR_def\<close>)

lemma child_step_unreaped:
  assumes "usr_child env i g c = Some (g', c')" "i = 1 \<or> i = 2"
  shows "unreaped (child_of g' j) = unreaped (child_of g j)"
proof (cases "j = i")
  case True
  then show ?thesis
    using assms(2,1) by (elim disjE; cases c) (auto simp: usr_child_def sigUSR_a_def sigUSR_b_def child_ends_def split: if_splits)
next
  case False
  then show ?thesis using child_step_other [OF assms] by simp
qed

lemma waits_child:
  assumes "waits_ok g p" "usr_child env i g c = Some (g', c')" "i = 1 \<or> i = 2"
  shows "waits_ok g' p"
  using assms(1) child_step_unreaped [OF assms(2,3)] by (cases p) simp_all

definition usr_all :: "bool \<Rightarrow> usr_env \<Rightarrow> (usr_sys, usr_pc) conf \<Rightarrow> bool" where
  "usr_all h env c \<longleftrightarrow> usr_inv h env (fst c) (snd c 0) (snd c 1) (snd c 2) \<and>
     (if h then zombies_known (fst c) (snd c 0) else waits_ok (fst c) (snd c 0))"

lemma usr_reach:
  assumes "reach 3 (usr_step h env) (usr_start h) c"
  shows "usr_all h env c"
  using assms
proof (rule reach_invariant)
  show "usr_all h env (usr_start h)"
    by (simp add: usr_all_def usr_start_def usr_inv_def child_ok_def zombies_known_def)
next
  fix g ls i g' l'
  assume I: "usr_all h env (g, ls)" and i: "(i::nat) < 3" and st: "usr_step h env i g (ls i) = Some (g', l')"
  consider (parent) "i = 0" | (child) "i = 1 \<or> i = 2" using i by linarith
  then show "usr_all h env (g', ls(i := l'))"
  proof cases
    case parent
    have "usr_inv h env g' l' (ls 1) (ls 2)"
      using usr_inv_parent [of h env g "ls 0" "ls 1" "ls 2" g' l'] I st parent by (simp add: usr_all_def)
    moreover have "zombies_known g' l'" if h
      using zombies_parent [of g "ls 0" env g' l'] I st parent that by (simp add: usr_all_def usr_step_def)
    moreover have "waits_ok g' l'" if "\<not> h"
      using waits_parent [of g "ls 0" env g' l'] I st parent that by (simp add: usr_all_def usr_inv_def usr_step_def)
    ultimately show ?thesis using parent by (simp add: usr_all_def)
  next
    case child
    then have c: "usr_child env i g (ls i) = Some (g', l')" using st by (auto simp: usr_step_def)
    have "if h then zombies_known g' (ls 0) else waits_ok g' (ls 0)"
      using I zombies_child [OF _ c child] waits_child [OF _ c child] by (simp add: usr_all_def split: if_split_asm)
    moreover have "ls i = (if i = 1 then ls 1 else ls 2)" using child by auto
    then have "usr_inv h env g' (ls 0) (if i = 1 then l' else ls 1) (if i = 1 then ls 2 else l')"
      using usr_inv_child [of h env g "ls 0" "ls 1" "ls 2" i g' l'] I st child by (simp add: usr_all_def)
    ultimately show ?thesis using child by (elim disjE; simp add: usr_all_def)
  qed
qed

section \<open>What the programs do\<close>

fun ended :: "child_state \<Rightarrow> bool" where
  "ended (Zombie s) = True"
| "ended (Reaped s) = True"
| "ended _ = False"

fun status :: "child_state \<Rightarrow> wait_status option" where
  "status (Zombie s) = Some s"
| "status (Reaped s) = Some s"
| "status _ = None"

text \<open>Every step brings the end nearer: the positions, a signal that is still to be handled, a child that has still to
  end and to be waited for.\<close>
fun usr_weight :: "usr_pc \<Rightarrow> nat" where
  "usr_weight UP_set = 20"
| "usr_weight (UP_fork i) = (if i = 1 then 19 else 14)"
| "usr_weight UP_sleep_before = 9"
| "usr_weight (UP_kill i) = (if i = 1 then 8 else 7)"
| "usr_weight UP_sleep = 6"
| "usr_weight (UP_wait i) = (if i = 1 then 5 else 4)"
| "usr_weight UP_finished = 3"
| "usr_weight (UP_handler back) = usr_weight back + 1"
| "usr_weight UC_exec = 3"
| "usr_weight UC_signal = 2"
| "usr_weight UC_pause = 1"
| "usr_weight _ = 0"

fun child_energy :: "child_state \<Rightarrow> nat" where
  "child_energy Alive = 4"
| "child_energy (Zombie s) = 1"
| "child_energy _ = 0"

definition usr_energy :: "usr_sys \<Rightarrow> nat" where
  "usr_energy g = (if chld_pending g then 2 else 0) + child_energy (child_of g 1) + child_energy (child_of g 2)"

lemma child_energy_le: "child_energy c \<le> 4"
  by (cases c) simp_all

lemma reap_energy: "reap g = Some g' \<Longrightarrow> usr_energy g' < usr_energy g"
  by (auto simp: reap_def usr_energy_def split: child_state.splits)

lemma fork_energy: "usr_energy (fork_child env i g) \<le> usr_energy g + 4"
  by (simp add: fork_child_def usr_energy_def)

lemma send_energy: "usr_energy (send_signal env i g) = usr_energy g"
  by (simp add: send_signal_def usr_energy_def)

lemma usr_parent_less:
  assumes "(if h then sigUSRwait env g p else sigUSR env g p) = Some (g', p')"
  shows "usr_energy g' + usr_weight p' < usr_energy g + usr_weight p"
proof (cases "h \<and> chld_pending g \<and> \<not> in_handler p \<and> \<not> has_exited p")
  case True
  then have "g' = g\<lparr>chld_pending := False\<rparr> \<and> usr_weight p' \<le> usr_weight p + 1"
    using assms by (cases p) (auto simp: sigUSRwait_def)
  then show ?thesis using True by (simp add: usr_energy_def)
next
  case False
  show ?thesis
  proof (cases p)
    case (UP_handler r)
    then show ?thesis
      using assms reap_energy [of g g'] by (auto simp: sigUSRwait_def sigUSR_def catch_child_def split: if_splits option.splits)
  next
    case (UP_fork i)
    then show ?thesis
      using assms False fork_energy [of env i g] by (auto simp: sigUSRwait_def sigUSR_def split: if_splits)
  next
    case (UP_wait i)
    then show ?thesis
      using assms False reap_energy [of g g'] by (auto simp: sigUSRwait_def sigUSR_def split: if_splits option.splits)
  qed (use assms False send_energy in \<open>auto simp: sigUSRwait_def sigUSR_def split: if_splits\<close>)
qed

lemma child_ends_less:
  assumes "child_of g i = Alive" "i = 1 \<or> i = 2" "child_ends i s g = (g', c')"
  shows "usr_energy g' < usr_energy g \<and> usr_weight c' = 0"
  using assms(2,1,3) by (elim disjE) (auto simp: child_ends_def usr_energy_def)

lemma usr_child_cases:
  assumes "usr_child env i g c = Some (g', c')" "i = 1 \<or> i = 2"
  shows "(\<exists>s. child_ends i s g = (g', c')) \<or> chld_pending g' = chld_pending g \<and> child_of g' = child_of g \<and> usr_weight c' < usr_weight c"
proof (cases "other_pending g i")
  case True
  then show ?thesis using assms(1) by (auto simp: usr_child_def split: if_split_asm)
next
  case False
  then have r: "child_of g i = Alive" using assms(1) by (simp add: usr_child_def split: if_split_asm)
  show ?thesis
  proof (cases "c = UC_exec")
    case True
    then show ?thesis using assms(1) False r by (auto simp: usr_child_def split: if_split_asm)
  next
    case exec: False
    from assms(2) have "(if i = 1 then sigUSR_a g c else sigUSR_b g c) = Some (g', c')"
      using assms(1) False r exec by (simp add: usr_child_def)
    with assms(2) show ?thesis
      by (elim disjE; cases c) (auto simp: sigUSR_a_def sigUSR_b_def split: if_split_asm)
  qed
qed

lemma usr_child_less:
  assumes "usr_child env i g c = Some (g', c')" "i = 1 \<or> i = 2"
  shows "usr_energy g' + usr_weight c' < usr_energy g + usr_weight c"
proof -
  have alive: "child_of g i = Alive" using assms by (simp add: usr_child_def split: if_splits)
  from usr_child_cases [OF assms] show ?thesis
  proof (elim disjE exE conjE)
    fix s assume "child_ends i s g = (g', c')"
    then show ?thesis using child_ends_less [OF alive assms(2)] by fastforce
  qed (simp add: usr_energy_def)
qed

lemma usr_run_length:
  assumes "run_sched 3 (usr_step h env) sched (usr_start h) = Some c"
  shows "length sched \<le> 26"
proof -
  let ?m = "\<lambda>c. usr_energy (fst c) + (\<Sum>j<3. usr_weight (snd c j))"
  have "?m (g', ls(i := l')) < ?m (g, ls)" if "i < 3" "usr_step h env i g (ls i) = Some (g', l')" for g ls i g' l'
  proof -
    have i: "i = 0 \<or> i = 1 \<or> i = 2" using that(1) by linarith
    then have "usr_energy g' + usr_weight l' < usr_energy g + usr_weight (ls i)"
      using that(2) usr_parent_less [of h env g "ls 0" g' l'] usr_child_less [of env i g "ls i" g' l']
      by (elim disjE) (simp_all add: usr_step_def)
    then show ?thesis using sum_upd_add [OF that(1), of usr_weight ls l'] by simp
  qed
  from run_bound [where m = ?m, OF assms this] show ?thesis
    by (cases h) (simp_all add: usr_start_def usr_energy_def numeral_3_eq_3)
qed

text \<open>A child that was sent its signal can always take a step.\<close>
lemma child_moves:
  assumes "child_ok env g m i c" "child_of g i = Alive" "past_kill i m" "i = 1 \<or> i = 2"
  shows "usr_child env i g c \<noteq> None"
  using assms(4,1-3)
  by (elim disjE; cases c) (auto simp: child_ok_def usr_child_def sigUSR_a_def sigUSR_b_def)

text \<open>So only a parent that has exited is without a step for ever.\<close>
lemma usr_stuck:
  assumes "usr_all h env (g, ls)" "stuck 3 (usr_step h env) (g, ls)"
  shows "ls 0 = UP_exited EXIT_SUCCESS \<and> child_of g 1 \<noteq> Alive \<and> child_of g 2 \<noteq> Alive"
proof -
  have I: "usr_inv h env g (ls 0) (ls 1) (ls 2)" using assms(1) by (simp add: usr_all_def)
  have "ts < 3 \<Longrightarrow> usr_step h env ts g (ls ts) = None" for ts using assms(2) by (simp add: stuck_def)
  from this [of 0] this [of 1] this [of 2]
  have N: "(if h then sigUSRwait env g (ls 0) else sigUSR env g (ls 0)) = None"
      "usr_child env 1 g (ls 1) = None" "usr_child env 2 g (ls 2) = None"
    by (simp_all add: usr_step_def)
  have p: "ls 0 = UP_exited EXIT_SUCCESS \<or> \<not> h \<and> (\<exists>j. ls 0 = UP_wait j \<and> (child_of g 1 = Alive \<or> child_of g 2 = Alive))"
    using N(1) I by (cases "ls 0") (auto simp: usr_inv_def sigUSRwait_def sigUSR_def split: if_splits option.splits)
  then have "past_kill 1 (main_pc (ls 0))" "past_kill 2 (main_pc (ls 0))" by auto
  then have "child_of g 1 \<noteq> Alive" "child_of g 2 \<noteq> Alive"
    using child_moves [of env g "main_pc (ls 0)" 1 "ls 1"] child_moves [of env g "main_pc (ls 0)" 2 "ls 2"] N(2,3) I
    by (auto simp: usr_inv_def)
  then show ?thesis using p by auto
qed

lemma child_status:
  assumes "child_ok env g m i c" "status (child_of g i) = Some s"
  shows "status_ok env i s"
  using assms by (cases "child_of g i") (simp_all add: child_ok_def)

lemma child_finished:
  assumes "child_ok env g (UP_exited x) i c" "child_of g i \<noteq> Alive"
  shows "ended (child_of g i) \<longleftrightarrow> \<not> fork_fails env i"
  using assms by (cases "child_of g i") (simp_all add: child_ok_def)

text \<open>C19. Every run of \<open>sigUSR.c\<close> and of \<open>sigUSRwait.c\<close> has at most 26 steps. A child that has ended did so by its own
  signal, caught (status 11 for \<open>a\<close>, \<open>SIGTERM\<close> for \<open>b\<close>) or not yet caught, after a failed \<open>exec\<close>, or, only when the other
  \<open>fork\<close> failed, killed by the other child's signal: \<open>kill\<close> is then called with -1 and reaches every process. When no
  process can take a step the parent has exited with success and every child that was forked has ended. \<open>sigUSR.c\<close> has
  then waited for all of them. \<open>sigUSRwait.c\<close> may exit while a child runs, which is then not waited for; but while the
  parent has not exited, the \<open>SIGCHLD\<close> of a child that ended and was not waited for is pending, or the handler still runs.
\<close>
theorem children_collected:
  assumes "run_sched 3 (usr_step h env) sched (usr_start h) = Some (g, ls)"
  shows "length sched \<le> 26 \<and> (\<forall>s. status (child_of g 1) = Some s \<longrightarrow> status_ok env 1 s) \<and>
    (\<forall>s. status (child_of g 2) = Some s \<longrightarrow> status_ok env 2 s) \<and>
    (broadcast g \<longrightarrow> fork_fails env 1 \<or> fork_fails env 2) \<and>
    (h \<longrightarrow> zombie (child_of g 1) \<or> zombie (child_of g 2) \<longrightarrow> chld_pending g \<or> in_handler (ls 0) \<or> has_exited (ls 0)) \<and>
    (stuck 3 (usr_step h env) (g, ls) \<longrightarrow>
       ls 0 = UP_exited EXIT_SUCCESS \<and> (ended (child_of g 1) \<longleftrightarrow> \<not> fork_fails env 1) \<and>
       (ended (child_of g 2) \<longleftrightarrow> \<not> fork_fails env 2) \<and> (broadcast g \<longleftrightarrow> fork_fails env 1 \<or> fork_fails env 2) \<and>
       (h \<or> \<not> zombie (child_of g 1) \<and> \<not> zombie (child_of g 2)))"
    (is "?l \<and> ?a \<and> ?b \<and> ?c \<and> ?d \<and> ?e")
proof (intro conjI)
  have A: "usr_all h env (g, ls)" using usr_reach run_sched_reach [OF assms] by blast
  then have I: "usr_inv h env g (ls 0) (ls 1) (ls 2)" by (simp add: usr_all_def)
  then have ok: "child_ok env g (main_pc (ls 0)) 1 (ls 1)" "child_ok env g (main_pc (ls 0)) 2 (ls 2)"
    by (simp_all add: usr_inv_def)
  show ?l by (rule usr_run_length [OF assms])
  show ?a using child_status [OF ok(1)] by blast
  show ?b using child_status [OF ok(2)] by blast
  show ?c using I unfolding usr_inv_def by blast
  show ?d using A by (auto simp: usr_all_def zombies_known_def)
  show ?e
  proof
    assume "stuck 3 (usr_step h env) (g, ls)"
    then have e: "ls 0 = UP_exited EXIT_SUCCESS" "child_of g 1 \<noteq> Alive" "child_of g 2 \<noteq> Alive"
      using usr_stuck [OF A] by simp_all
    then have "ended (child_of g 1) \<longleftrightarrow> \<not> fork_fails env 1" "ended (child_of g 2) \<longleftrightarrow> \<not> fork_fails env 2"
      using child_finished [of env g EXIT_SUCCESS 1 "ls 1"] child_finished [of env g EXIT_SUCCESS 2 "ls 2"] ok by simp_all
    moreover have "broadcast g \<longleftrightarrow> fork_fails env 1 \<or> fork_fails env 2" using I e(1) by (simp add: usr_inv_def)
    moreover have "h \<or> \<not> zombie (child_of g 1) \<and> \<not> zombie (child_of g 2)"
      using A e(1) by (cases "child_of g 1"; cases "child_of g 2"; simp add: usr_all_def split: if_split_asm)
    ultimately show "ls 0 = UP_exited EXIT_SUCCESS \<and> (ended (child_of g 1) \<longleftrightarrow> \<not> fork_fails env 1) \<and>
       (ended (child_of g 2) \<longleftrightarrow> \<not> fork_fails env 2) \<and> (broadcast g \<longleftrightarrow> fork_fails env 1 \<or> fork_fails env 2) \<and>
       (h \<or> \<not> zombie (child_of g 1) \<and> \<not> zombie (child_of g 2))"
      using e(1) by blast
  qed
qed

text \<open>A run of \<open>sigUSR.c\<close> to its end: the statuses 11 and \<open>SIGTERM\<close>; and one with a failed first \<open>fork\<close>, in which \<open>b\<close> is
  killed by \<open>SIGUSR1\<close>.\<close>
definition usr_end :: "usr_env \<Rightarrow> (usr_sys, usr_pc) conf \<Rightarrow> bool" where
  "usr_end env c \<longleftrightarrow> usr_step False env 0 (fst c) (snd c 0) = None \<and> usr_step False env 1 (fst c) (snd c 1) = None \<and>
     usr_step False env 2 (fst c) (snd c 2) = None"

lemma usr_end_stuck: "usr_end env c \<Longrightarrow> stuck 3 (usr_step False env) c"
  by (auto simp: usr_end_def stuck_def less_Suc_eq numeral_3_eq_3 numeral_2_eq_2)

theorem children_collected_witness:
  "(\<exists>g ls. run_sched 3 (usr_step False \<lparr>fork_fails = \<lambda>_. False, exec_fails = \<lambda>_. False\<rparr>)
        [0, 1, 1, 0, 2, 2, 0, 0, 0, 1, 1, 0, 2, 2, 0, 0, 0] (usr_start False) = Some (g, ls) \<and>
      ls 0 = UP_exited EXIT_SUCCESS \<and> child_of g 1 = Reaped (Exited_with 11) \<and> child_of g 2 = Reaped (Killed_by SIGTERM) \<and>
      \<not> broadcast g) \<and>
   (\<exists>g ls. run_sched 3 (usr_step False \<lparr>fork_fails = \<lambda>i. i = 1, exec_fails = \<lambda>_. False\<rparr>)
        [0, 0, 2, 2, 0, 0, 2, 0, 0, 0, 0, 0] (usr_start False) = Some (g, ls) \<and>
      ls 0 = UP_exited EXIT_SUCCESS \<and> child_of g 1 = Unborn \<and> child_of g 2 = Reaped (Killed_by SIGUSR1) \<and> broadcast g)"
proof -
  let ?e = "\<lparr>fork_fails = \<lambda>_. False, exec_fails = \<lambda>_. False\<rparr>" and ?f = "\<lparr>fork_fails = \<lambda>i. i = 1, exec_fails = \<lambda>_. False\<rparr>"
  let ?s = "[0, 1, 1, 0, 2, 2, 0, 0, 0, 1, 1, 0, 2, 2, 0, 0, 0]" and ?t = "[0, 0, 2, 2, 0, 0, 2, 0, 0, 0, 0, 0]"
  have "case run_sched 3 (usr_step False ?e) ?s (usr_start False) of None \<Rightarrow> False
      | Some c \<Rightarrow> usr_end ?e c \<and> child_of (fst c) 1 = Reaped (Exited_with 11) \<and> child_of (fst c) 2 = Reaped (Killed_by SIGTERM)"
    by code_simp
  then obtain g ls where a: "run_sched 3 (usr_step False ?e) ?s (usr_start False) = Some (g, ls)" "usr_end ?e (g, ls)"
      "child_of g 1 = Reaped (Exited_with 11)" "child_of g 2 = Reaped (Killed_by SIGTERM)"
    by (auto split: option.splits)
  have "case run_sched 3 (usr_step False ?f) ?t (usr_start False) of None \<Rightarrow> False
      | Some c \<Rightarrow> usr_end ?f c \<and> child_of (fst c) 1 = Unborn \<and> child_of (fst c) 2 = Reaped (Killed_by SIGUSR1)"
    by code_simp
  then obtain g' ls' where b: "run_sched 3 (usr_step False ?f) ?t (usr_start False) = Some (g', ls')" "usr_end ?f (g', ls')"
      "child_of g' 1 = Unborn" "child_of g' 2 = Reaped (Killed_by SIGUSR1)"
    by (auto split: option.splits)
  have "ls 0 = UP_exited EXIT_SUCCESS \<and> \<not> broadcast g"
    using children_collected [OF a(1)] usr_end_stuck [OF a(2)] by auto
  moreover have "ls' 0 = UP_exited EXIT_SUCCESS \<and> broadcast g'"
    using children_collected [OF b(1)] usr_end_stuck [OF b(2)] by auto
  ultimately show ?thesis using a b by blast
qed

end
