(* ===== verification/Exit_Functions.thy ===== *)
theory Exit_Functions
  imports Libc
begin

text \<open>
  \<open>01-processes/atexit.c\<close>: two blocks of memory, functions registered with \<open>atexit\<close> that release them, and three ways to
  leave \<open>main\<close>. Each \<open>printf\<close> is a line of \<open>stdout\<close>: it is shown at once on a terminal, else it is in the buffer of the
  stream until the stream is flushed; the few lines never fill it. \<open>atexit\<close> succeeds.
\<close>

datatype exit_type = EXIT_BY_RETURN | EXIT_BY_EXIT | EXIT_BY__EXIT

definition EXIT_TYPE :: exit_type where "EXIT_TYPE = EXIT_BY__EXIT"

definition DEFAULT_BUF_SIZE :: "64 word" where "DEFAULT_BUF_SIZE = push_bit 8 1"

datatype exit_line =
    Trying nat int | Success | Calling_exit | Working | Leaving exit_type | Deallocated nat | Finished

datatype exit_fun = Finish | Deallocate nat

text \<open>\<open>bufs\<close> holds \<open>buf1\<close> and \<open>buf2\<close>, \<open>blocks\<close> the memory in use, \<open>registered\<close> the functions, the last one first.\<close>
record exit_sys =
  bufs :: "nat \<Rightarrow> nat option"
  blocks :: "nat set"
  registered :: "exit_fun list"
  buffered :: "exit_line list"
  shown :: "exit_line list"
  failed_mallocs :: "nat list"
  bad_free :: bool

text \<open>Whether \<open>stdout\<close> is a terminal, and what the first and the second \<open>malloc\<close> return.\<close>
record exit_env =
  terminal :: bool
  malloc_call :: "nat \<Rightarrow> 64 word \<Rightarrow> nat option"

definition say :: "exit_env \<Rightarrow> exit_line \<Rightarrow> exit_sys \<Rightarrow> exit_sys" where
  "say env l s = (if terminal env then s\<lparr>shown := shown s @ [l]\<rparr> else s\<lparr>buffered := buffered s @ [l]\<rparr>)"

definition free :: "nat option \<Rightarrow> exit_sys \<Rightarrow> exit_sys" where
  "free p s =
     (case p of
        None \<Rightarrow> s
      | Some a \<Rightarrow> if a \<in> blocks s then s\<lparr>blocks := blocks s - {a}\<rparr> else s\<lparr>bad_free := True\<rparr>)"

definition at_exit :: "exit_fun \<Rightarrow> exit_sys \<Rightarrow> exit_sys" where
  "at_exit f s = s\<lparr>registered := f # registered s\<rparr>"

section \<open>The program\<close>

text \<open>\<open>allocate_resource_1\<close> and \<open>allocate_resource_2\<close>: the size is printed with \<open>%zd\<close>.\<close>
definition allocate_resource :: "exit_env \<Rightarrow> nat \<Rightarrow> 64 word \<Rightarrow> exit_sys \<Rightarrow> bool \<times> exit_sys" where
  "allocate_resource env i bytes s =
     (let s1 = say env (Trying i (sint bytes)) s in
      case malloc_call env i bytes of
        None \<Rightarrow> (False, s1\<lparr>bufs := (bufs s1)(i := None), failed_mallocs := failed_mallocs s1 @ [i]\<rparr>)
      | Some a \<Rightarrow> (True, say env Success (s1\<lparr>bufs := (bufs s1)(i := Some a), blocks := insert a (blocks s1)\<rparr>)))"

text \<open>\<open>deallocate_resource_1\<close>, \<open>deallocate_resource_2\<close> and \<open>finish\<close>.\<close>
definition deallocate_resource :: "exit_env \<Rightarrow> nat \<Rightarrow> exit_sys \<Rightarrow> exit_sys" where
  "deallocate_resource env i s =
     (let s1 = free (bufs s i) s in say env (Deallocated i) (s1\<lparr>bufs := (bufs s1)(i := None)\<rparr>))"

definition finish :: "exit_env \<Rightarrow> exit_sys \<Rightarrow> exit_sys" where
  "finish env s = say env Finished s"

fun call_exit_fun :: "exit_env \<Rightarrow> exit_fun \<Rightarrow> exit_sys \<Rightarrow> exit_sys" where
  "call_exit_fun env Finish s = finish env s"
| "call_exit_fun env (Deallocate i) s = deallocate_resource env i s"

text \<open>\<open>exit\<close>: the functions in the reverse order of their registration, then \<open>stdout\<close> is flushed. \<open>_exit\<close> does neither.\<close>
fun call_registered :: "exit_env \<Rightarrow> exit_fun list \<Rightarrow> exit_sys \<Rightarrow> exit_sys" where
  "call_registered env [] s = s"
| "call_registered env (f # fs) s = call_registered env fs (call_exit_fun env f (s\<lparr>registered := fs\<rparr>))"

definition exit :: "exit_env \<Rightarrow> exit_sys \<Rightarrow> exit_sys" where
  "exit env s =
     (let s1 = call_registered env (registered s) s in s1\<lparr>shown := shown s1 @ buffered s1, buffered := []\<rparr>)"

text \<open>\<open>main\<close> for any value of \<open>EXIT_TYPE\<close>: the status and the state at the end of the process.\<close>
definition exit_main :: "exit_env \<Rightarrow> exit_type \<Rightarrow> string list \<Rightarrow> exit_sys \<Rightarrow> int \<times> exit_sys" where
  "exit_main env how args s0 =
     (let s1 = at_exit Finish s0; (ok1, s2) = allocate_resource env 1 DEFAULT_BUF_SIZE s1 in
      if \<not> ok1 then (EXIT_FAILURE, exit env (say env Calling_exit s2))
      else
        (let s3 = at_exit (Deallocate 1) s2;
             bytes = (case args of [] \<Rightarrow> DEFAULT_BUF_SIZE | a # _ \<Rightarrow> word_of_int (strtol_any a));
             (ok2, s4) = allocate_resource env 2 bytes s3 in
         if \<not> ok2 then (EXIT_FAILURE, exit env (say env Calling_exit s4))
         else
           (let s5 = say env (Leaving how) (say env Working (at_exit (Deallocate 2) s4)) in
            (EXIT_SUCCESS, if how = EXIT_BY__EXIT then s5 else exit env s5))))"

definition exit_start :: exit_sys where
  "exit_start = \<lparr>bufs = (\<lambda>_. None), blocks = {}, registered = [], buffered = [], shown = [], failed_mallocs = [], bad_free = False\<rparr>"

section \<open>What it does\<close>

text \<open>What the library promises: the second block is not the first one, which is still in use.\<close>
definition malloc_fresh :: "exit_env \<Rightarrow> bool" where
  "malloc_fresh env \<longleftrightarrow> (\<forall>n m. malloc_call env 1 n = None \<or> malloc_call env 1 n \<noteq> malloc_call env 2 m)"

text \<open>No block is larger than \<open>PTRDIFF_MAX\<close>.\<close>
definition malloc_limited :: "exit_env \<Rightarrow> bool" where
  "malloc_limited env \<longleftrightarrow> (\<forall>k n. sint n < 0 \<longrightarrow> malloc_call env k n = None)"

text \<open>The size given on the command line.\<close>
definition size_arg :: "string list \<Rightarrow> 64 word" where
  "size_arg args = (case args of [] \<Rightarrow> DEFAULT_BUF_SIZE | a # _ \<Rightarrow> word_of_int (strtol_any a))"

text \<open>The lines of \<open>main\<close>, and those of the functions after it.\<close>
definition main_lines :: "exit_env \<Rightarrow> exit_type \<Rightarrow> string list \<Rightarrow> exit_line list" where
  "main_lines env how args =
     Trying 1 (sint DEFAULT_BUF_SIZE) #
     (if malloc_call env 1 DEFAULT_BUF_SIZE = None then [Calling_exit]
      else [Success, Trying 2 (sint (size_arg args))] @
        (if malloc_call env 2 (size_arg args) = None then [Calling_exit] else [Success, Working, Leaving how]))"

lemmas exit_defs = exit_main_def exit_start_def allocate_resource_def exit_def finish_def main_lines_def say_def at_exit_def
  size_arg_def Let_def fun_eq_iff

lemma exit_cases:
  assumes "malloc_fresh env" "exit_main env how args exit_start = (x, s)"
  obtains
    (first) "malloc_call env 1 DEFAULT_BUF_SIZE = None" "x = EXIT_FAILURE" "failed_mallocs s = [1]" "blocks s = {}"
      "bufs s = (\<lambda>_. None)" "registered s = []" "buffered s = []" "\<not> bad_free s" "shown s = main_lines env how args @ [Finished]"
  | (second) a where "malloc_call env 1 DEFAULT_BUF_SIZE = Some a" "malloc_call env 2 (size_arg args) = None"
      "x = EXIT_FAILURE" "failed_mallocs s = [2]" "blocks s = {}" "bufs s = (\<lambda>_. None)" "registered s = []" "buffered s = []" "\<not> bad_free s"
      "shown s = main_lines env how args @ [Deallocated 1, Finished]"
  | (exit) a b where "malloc_call env 1 DEFAULT_BUF_SIZE = Some a" "malloc_call env 2 (size_arg args) = Some b"
      "how \<noteq> EXIT_BY__EXIT" "x = EXIT_SUCCESS" "failed_mallocs s = []" "blocks s = {}" "bufs s = (\<lambda>_. None)"
      "registered s = []" "buffered s = []" "\<not> bad_free s" "shown s = main_lines env how args @ [Deallocated 2, Deallocated 1, Finished]"
  | (at_once) a b where "malloc_call env 1 DEFAULT_BUF_SIZE = Some a" "malloc_call env 2 (size_arg args) = Some b"
      "how = EXIT_BY__EXIT" "x = EXIT_SUCCESS" "failed_mallocs s = []" "blocks s = {a, b}"
      "bufs s 1 = Some a" "bufs s 2 = Some b" "registered s = [Deallocate 2, Deallocate 1, Finish]" "\<not> bad_free s"
      "shown s = (if terminal env then main_lines env how args else [])"
      "buffered s = (if terminal env then [] else main_lines env how args)"
proof (cases "malloc_call env 1 DEFAULT_BUF_SIZE")
  case None
  have "x = EXIT_FAILURE \<and> failed_mallocs s = [1] \<and> blocks s = {} \<and> bufs s = (\<lambda>_. None) \<and> registered s = [] \<and>
      buffered s = [] \<and> \<not> bad_free s \<and> shown s = main_lines env how args @ [Finished]"
    using assms(2) None by (cases "terminal env") (auto simp: exit_defs)
  then show thesis using first None by blast
next
  case (Some a)
  note m = this
  show thesis
  proof (cases "malloc_call env 2 (size_arg args)")
    case None
    have "x = EXIT_FAILURE \<and> failed_mallocs s = [2] \<and> blocks s = {} \<and> bufs s = (\<lambda>_. None) \<and> registered s = [] \<and>
        buffered s = [] \<and> \<not> bad_free s \<and> shown s = main_lines env how args @ [Deallocated 1, Finished]"
      using assms(2) m None by (cases "terminal env") (auto simp: exit_defs deallocate_resource_def free_def)
    then show thesis using second m None by blast
  next
    case (Some b)
    then have ab: "a \<noteq> b" using m assms(1) unfolding malloc_fresh_def by (metis option.distinct(1))
    show thesis
    proof (cases "how = EXIT_BY__EXIT")
      case True
      have "x = EXIT_SUCCESS \<and> failed_mallocs s = [] \<and> blocks s = {a, b} \<and> bufs s 1 = Some a \<and> bufs s 2 = Some b \<and>
          registered s = [Deallocate 2, Deallocate 1, Finish] \<and> \<not> bad_free s \<and>
          shown s = (if terminal env then main_lines env how args else []) \<and>
          buffered s = (if terminal env then [] else main_lines env how args)"
        using assms(2) m Some True by (cases "terminal env") (auto simp: exit_defs)
      then show thesis using at_once m Some True by blast
    next
      case False
      have "x = EXIT_SUCCESS \<and> failed_mallocs s = [] \<and> blocks s = {} \<and> bufs s = (\<lambda>_. None) \<and> registered s = [] \<and>
          buffered s = [] \<and> \<not> bad_free s \<and> shown s = main_lines env how args @ [Deallocated 2, Deallocated 1, Finished]"
        using assms(2) m Some False ab by (cases "terminal env") (auto simp: exit_defs deallocate_resource_def free_def)
      then show thesis using exit m Some False by blast
    qed
  qed
qed

text \<open>C29. However \<open>main\<close> of \<open>atexit.c\<close> is left, it ends with success exactly when both allocations succeed, and frees nothing
  twice. Left by \<open>exit\<close> or \<open>return\<close>, and always when an allocation failed, no memory and no unwritten line is left, and the
  lines of \<open>main\<close> are followed by the deallocation of what was allocated, the last first, and by the line of \<open>finish\<close>. Left
  by \<open>_exit\<close>, the value of \<open>EXIT_TYPE\<close> in the file, both blocks stay allocated, no registered function is called, and where
  \<open>stdout\<close> is no terminal nothing at all is written. A negative size ends in a failure.
\<close>
theorem exit_functions_run:
  assumes "malloc_fresh env" "exit_main env how args exit_start = (x, s)"
  shows "(x = EXIT_SUCCESS \<longleftrightarrow> failed_mallocs s = []) \<and> (x = EXIT_SUCCESS \<or> x = EXIT_FAILURE) \<and> \<not> bad_free s \<and>
    (how \<noteq> EXIT_BY__EXIT \<or> x = EXIT_FAILURE \<longrightarrow>
       blocks s = {} \<and> bufs s = (\<lambda>_. None) \<and> registered s = [] \<and> buffered s = [] \<and>
       shown s = main_lines env how args @
         (if x = EXIT_SUCCESS then [Deallocated 2] else []) @ (if 1 \<in> set (failed_mallocs s) then [] else [Deallocated 1]) @ [Finished]) \<and>
    (how = EXIT_BY__EXIT \<and> x = EXIT_SUCCESS \<longrightarrow>
       (\<exists>a b. a \<noteq> b \<and> blocks s = {a, b}) \<and> registered s = [Deallocate 2, Deallocate 1, Finish] \<and>
       shown s = (if terminal env then main_lines env how args else [])) \<and>
    (malloc_limited env \<and> sint (size_arg args) < 0 \<longrightarrow> x = EXIT_FAILURE)"
  using assms
proof (cases rule: exit_cases)
  case (at_once a b)
  then have "a \<noteq> b" using assms(1) unfolding malloc_fresh_def by (metis option.distinct(1))
  then show ?thesis using at_once by (auto simp: malloc_limited_def)
qed (auto simp: malloc_limited_def)

text \<open>Both ways to leave with the default size, and the size -1.\<close>
definition small_malloc :: "bool \<Rightarrow> exit_env" where
  "small_malloc tty = \<lparr>terminal = tty, malloc_call = (\<lambda>k n. if sint n < 0 then None else Some k)\<rparr>"

lemma small_malloc_ok: "malloc_fresh (small_malloc tty)" "malloc_limited (small_malloc tty)"
  by (simp_all add: malloc_fresh_def malloc_limited_def small_malloc_def)

theorem exit_functions_run_witness:
  "(case exit_main (small_malloc False) EXIT_BY_RETURN [] exit_start of (x, s) \<Rightarrow>
      x = EXIT_SUCCESS \<and> blocks s = {} \<and> last (shown s) = Finished) \<and>
   (case exit_main (small_malloc False) EXIT_TYPE [] exit_start of (x, s) \<Rightarrow> x = EXIT_SUCCESS \<and> shown s = []) \<and>
   (case exit_main (small_malloc True) EXIT_TYPE [''-1''] exit_start of (x, s) \<Rightarrow> x = EXIT_FAILURE \<and> blocks s = {})"
proof -
  have n: "sint (size_arg [''-1'']) < 0" by code_simp
  obtain x1 s1 where r1: "exit_main (small_malloc False) EXIT_BY_RETURN [] exit_start = (x1, s1)" by fastforce
  obtain x2 s2 where r2: "exit_main (small_malloc False) EXIT_TYPE [] exit_start = (x2, s2)" by fastforce
  obtain x3 s3 where r3: "exit_main (small_malloc True) EXIT_TYPE [''-1''] exit_start = (x3, s3)" by fastforce
  have "fst (exit_main (small_malloc False) EXIT_BY_RETURN [] exit_start) = EXIT_SUCCESS"
      "fst (exit_main (small_malloc False) EXIT_TYPE [] exit_start) = EXIT_SUCCESS" by code_simp+
  then have x: "x1 = EXIT_SUCCESS" "x2 = EXIT_SUCCESS" using r1 r2 by simp_all
  have t: "\<not> terminal (small_malloc False)" by (simp add: small_malloc_def)
  have "blocks s1 = {} \<and> last (shown s1) = Finished"
    using exit_functions_run [OF small_malloc_ok(1) r1] x(1) by simp
  moreover have "shown s2 = []"
    using exit_functions_run [OF small_malloc_ok(1) r2] x(2) t by (simp add: EXIT_TYPE_def)
  moreover have "x3 = EXIT_FAILURE \<and> blocks s3 = {}"
    using exit_functions_run [OF small_malloc_ok(1) r3] small_malloc_ok(2) n by simp
  ultimately show ?thesis using r1 r2 r3 x by simp
qed

end
