(* ===== verification/Cpu_Time.thy ===== *)
theory Cpu_Time
  imports Threads Libc
begin

text \<open>
  \<open>04-critical_section/cpu_time_measuring.c\<close>, \<open>cpu_time_measuring1.c\<close>, \<open>cpu_time_measuring2.c\<close> and
  \<open>cpu_time_measuring2_arg.c\<close>: threads start together at a barrier, add to \<open>count\<close> behind a variable \<open>locked\<close> that they
  test and set in two steps, and \<open>main\<close> prints the processor time since the barrier opened. The threads are 0 to
  \<open>THREADS - 1\<close>, then \<open>main\<close>; each access of a shared variable is a step, \<open>count++\<close> a read and a write. Times are exact
  numbers of nanoseconds, without the rounding of \<open>double\<close>.
\<close>

datatype cpu_program = CPU | CPU1 | CPU2 | CPU2_ARG

fun CPU_THREADS :: "cpu_program \<Rightarrow> nat" where
  "CPU_THREADS CPU = 5"
| "CPU_THREADS CPU1 = 2"
| "CPU_THREADS CPU2 = 4"
| "CPU_THREADS CPU2_ARG = 4"

fun CPU_ITERATIONS :: "cpu_program \<Rightarrow> nat" where
  "CPU_ITERATIONS CPU = 2 ^ 22"
| "CPU_ITERATIONS CPU1 = 2 ^ 20"
| "CPU_ITERATIONS CPU2 = 2 ^ 26"
| "CPU_ITERATIONS CPU2_ARG = 2 ^ 26"

text \<open>Whether the busy wait gives up the processor: a macro, and the argument of the last program.\<close>
fun give_up_CPU :: "cpu_program \<Rightarrow> string list \<Rightarrow> bool" where
  "give_up_CPU CPU2_ARG (a # args) = (0 <s Libc.atoi a)"
| "give_up_CPU _ _ = True"

text \<open>What the clocks show: \<open>clock\<close> in microseconds, the seconds and microseconds of \<open>getrusage\<close>, the seconds and nanoseconds of
  \<open>clock_gettime\<close>.\<close>
record clocks =
  clock_us :: int
  ru_utime :: "int \<times> int"
  ru_stime :: "int \<times> int"
  monotonic :: "int \<times> int"

record cpu_data =
  count :: "64 word"
  locked :: bool
  arrived :: nat
  created :: nat
  returned :: "nat \<Rightarrow> bool"
  barrier_there :: bool
  CPU_time1 :: clocks
  printed :: "int list"

text \<open>Which calls fail, which thread the barrier calls the serial one, and what that thread and \<open>main\<close> read from the clocks.\<close>
record cpu_env =
  init_fails :: bool
  wait_fails :: "nat \<Rightarrow> bool"
  create_fails :: "nat \<Rightarrow> bool"
  join_fails :: "nat \<Rightarrow> bool"
  destroy_fails :: bool
  serial_thread :: nat
  time_start :: clocks
  time_end :: clocks

datatype cpu_pc =
    C_start | C_wait | C_clock | C_loop nat | C_test nat | C_yield nat | C_set nat | C_read nat | C_store nat "64 word" | C_clear nat | C_end
  | CM_init | CM_create nat | CM_join nat | CM_measure

section \<open>The programs\<close>

text \<open>\<open>release_resources\<close>, which only the last two programs register.\<close>
definition release_cpu_barrier :: "cpu_program \<Rightarrow> cpu_env \<Rightarrow> cpu_data \<Rightarrow> cpu_data" where
  "release_cpu_barrier p env d =
     (if (p = CPU2 \<or> p = CPU2_ARG) \<and> barrier_there d \<and> \<not> destroy_fails env then d\<lparr>barrier_there := False\<rparr> else d)"

text \<open>The two steps of \<open>wait_thread\<close> and \<open>sync_threads\<close>: a thread arrives, and passes when all have arrived; the serial thread
  reads the clocks afterwards.\<close>
definition sync_threads :: "cpu_program \<Rightarrow> cpu_env \<Rightarrow> nat \<Rightarrow> cpu_data \<Rightarrow> cpu_pc \<Rightarrow> (cpu_data, cpu_pc) act option" where
  "sync_threads p env i d pc =
     (case pc of
        C_start \<Rightarrow>
          if wait_fails env i then Some (Quit (release_cpu_barrier p env d) EXIT_FAILURE)
          else Some (Go (d\<lparr>arrived := arrived d + 1\<rparr>) C_wait)
      | C_wait \<Rightarrow>
          if CPU_THREADS p \<le> arrived d then Some (Go d (if i = serial_thread env then C_clock else C_loop 0)) else None
      | C_clock \<Rightarrow> Some (Go (d\<lparr>CPU_time1 := time_start env\<rparr>) (C_loop 0))
      | _ \<Rightarrow> None)"

definition cpu_thread :: "cpu_program \<Rightarrow> cpu_env \<Rightarrow> string list \<Rightarrow> nat \<Rightarrow> cpu_data \<Rightarrow> cpu_pc \<Rightarrow> (cpu_data, cpu_pc) act option" where
  "cpu_thread p env args i d pc =
     (case pc of
        C_start \<Rightarrow> if i < created d then sync_threads p env i d pc else None
      | C_loop k \<Rightarrow>
          if k < CPU_ITERATIONS p then Some (Go d (C_test k))
          else Some (Go (d\<lparr>returned := (returned d)(i := True)\<rparr>) C_end)
      | C_test k \<Rightarrow>
          if locked d then Some (Go d (if give_up_CPU p args then C_yield k else C_test k)) else Some (Go d (C_set k))
      | C_yield k \<Rightarrow> Some (Go d (C_test k))
      | C_set k \<Rightarrow> Some (Go (d\<lparr>locked := True\<rparr>) (C_read k))
      | C_read k \<Rightarrow> Some (Go d (C_store k (count d + 1)))
      | C_store k v \<Rightarrow> Some (Go (d\<lparr>count := v\<rparr>) (C_clear k))
      | C_clear k \<Rightarrow> Some (Go (d\<lparr>locked := False\<rparr>) (C_loop (k + 1)))
      | _ \<Rightarrow> sync_threads p env i d pc)"

text \<open>Seconds and a part of them, as \<open>unit\<close> nanoseconds each.\<close>
definition time_span :: "int \<Rightarrow> int \<times> int \<Rightarrow> int \<times> int \<Rightarrow> int" where
  "time_span unit t2 t1 = (fst t2 - fst t1) * 10 ^ 9 + (snd t2 - snd t1) * unit"

text \<open>The times that are printed at the end of \<open>main\<close>.\<close>
definition times_printed :: "cpu_program \<Rightarrow> clocks \<Rightarrow> clocks \<Rightarrow> int list" where
  "times_printed p t2 t1 =
     (let CPU_time_user = time_span 1000 (ru_utime t2) (ru_utime t1);
          CPU_time_system = time_span 1000 (ru_stime t2) (ru_stime t1) in
      case p of
        CPU \<Rightarrow> [(clock_us t2 - clock_us t1) * 1000]
      | CPU1 \<Rightarrow> [CPU_time_user + CPU_time_system]
      | CPU2 \<Rightarrow> [time_span 1 (monotonic t2) (monotonic t1), CPU_time_user, CPU_time_system]
      | CPU2_ARG \<Rightarrow> [CPU_time_user + CPU_time_system, CPU_time_user, CPU_time_system])"

text \<open>\<open>main\<close> of the programs. The first two destroy the barrier before they print.\<close>
definition cpu_main :: "cpu_program \<Rightarrow> cpu_env \<Rightarrow> cpu_data \<Rightarrow> cpu_pc \<Rightarrow> (cpu_data, cpu_pc) act option" where
  "cpu_main p env d pc =
     (case pc of
        CM_init \<Rightarrow>
          if init_fails env then Some (Quit d EXIT_FAILURE) else Some (Go (d\<lparr>barrier_there := True\<rparr>) (CM_create 0))
      | CM_create t \<Rightarrow>
          if t < CPU_THREADS p then
            (if create_fails env t then Some (Quit (release_cpu_barrier p env d) EXIT_FAILURE)
             else Some (Go (d\<lparr>created := t + 1\<rparr>) (CM_create (t + 1))))
          else Some (Go d (CM_join 0))
      | CM_join t \<Rightarrow>
          if t < CPU_THREADS p then
            (if join_fails env t then Some (Quit (release_cpu_barrier p env d) EXIT_FAILURE)
             else if returned d t then Some (Go d (CM_join (t + 1))) else None)
          else Some (Go d CM_measure)
      | CM_measure \<Rightarrow>
          (let times = times_printed p (time_end env) (CPU_time1 d) in
           if p = CPU \<or> p = CPU1 then
             if destroy_fails env then Some (Quit d EXIT_FAILURE)
             else Some (Quit (d\<lparr>barrier_there := False, printed := times\<rparr>) EXIT_SUCCESS)
           else Some (Quit (release_cpu_barrier p env (d\<lparr>printed := times\<rparr>)) EXIT_SUCCESS))
      | _ \<Rightarrow> None)"

definition cpu_outs :: "cpu_program \<Rightarrow> cpu_env \<Rightarrow> string list \<Rightarrow> nat \<Rightarrow> cpu_data \<Rightarrow> cpu_pc \<Rightarrow> (cpu_data, cpu_pc) act option" where
  "cpu_outs p env args i d pc = (if i = CPU_THREADS p then cpu_main p env d pc else cpu_thread p env args i d pc)"

text \<open>The variables at the start: static variables are zero.\<close>
definition cpu_data0 :: cpu_data where
  "cpu_data0 = \<lparr>count = 0, locked = False, arrived = 0, created = 0, returned = (\<lambda>_. False), barrier_there = False,
     CPU_time1 = \<lparr>clock_us = 0, ru_utime = (0, 0), ru_stime = (0, 0), monotonic = (0, 0)\<rparr>, printed = []\<rparr>"

definition cpu_locals :: "cpu_program \<Rightarrow> nat \<Rightarrow> cpu_pc" where
  "cpu_locals p i = (if i = CPU_THREADS p then CM_init else C_start)"

abbreviation cpu_time_step :: "cpu_program \<Rightarrow> cpu_env \<Rightarrow> string list \<Rightarrow> (cpu_data process, cpu_pc) tstep" where
  "cpu_time_step p env args \<equiv> free_step (cpu_outs p env args)"

section \<open>Invariants\<close>

text \<open>The increments a thread has stored, and whether it may have set \<open>locked\<close>.\<close>
fun stored :: "nat \<Rightarrow> cpu_pc \<Rightarrow> nat" where
  "stored n (C_loop k) = k"
| "stored n (C_test k) = k"
| "stored n (C_yield k) = k"
| "stored n (C_set k) = k"
| "stored n (C_read k) = k"
| "stored n (C_store k v) = k"
| "stored n (C_clear k) = k + 1"
| "stored n C_end = n"
| "stored n _ = 0"

fun holds :: "cpu_pc \<Rightarrow> bool" where
  "holds (C_read k) = True"
| "holds (C_store k v) = True"
| "holds (C_clear k) = True"
| "holds _ = False"

text \<open>A thread \<open>i\<close>: its rounds, whether it exists and has returned. \<open>lost\<close> increments are missing in what it is to store.\<close>
fun thread_ok :: "nat \<Rightarrow> nat \<Rightarrow> nat \<Rightarrow> nat \<Rightarrow> cpu_data \<Rightarrow> cpu_pc \<Rightarrow> bool" where
  "thread_ok n lost all i d C_start = (\<not> returned d i)"
| "thread_ok n lost all i d C_wait = (i < created d \<and> \<not> returned d i)"
| "thread_ok n lost all i d C_clock = (i < created d \<and> \<not> returned d i)"
| "thread_ok n lost all i d (C_loop k) = (i < created d \<and> \<not> returned d i \<and> k \<le> n)"
| "thread_ok n lost all i d (C_store k v) = (i < created d \<and> \<not> returned d i \<and> k < n \<and> unat v + lost \<le> all + 1)"
| "thread_ok n lost all i d C_end = (i < created d \<and> returned d i)"
| "thread_ok n lost all i d (C_test k) = (i < created d \<and> \<not> returned d i \<and> k < n)"
| "thread_ok n lost all i d (C_yield k) = (i < created d \<and> \<not> returned d i \<and> k < n)"
| "thread_ok n lost all i d (C_set k) = (i < created d \<and> \<not> returned d i \<and> k < n)"
| "thread_ok n lost all i d (C_read k) = (i < created d \<and> \<not> returned d i \<and> k < n)"
| "thread_ok n lost all i d (C_clear k) = (i < created d \<and> \<not> returned d i \<and> k < n)"
| "thread_ok n lost all i d _ = False"

fun main_ok :: "nat \<Rightarrow> cpu_data \<Rightarrow> cpu_pc \<Rightarrow> bool" where
  "main_ok T d CM_init = (created d = 0)"
| "main_ok T d (CM_create t) = (created d = t \<and> t \<le> T \<and> barrier_there d)"
| "main_ok T d (CM_join t) = (created d = T \<and> t \<le> T \<and> (\<forall>j<t. returned d j) \<and> barrier_there d)"
| "main_ok T d CM_measure = (created d = T \<and> (\<forall>j<T. returned d j) \<and> barrier_there d)"
| "main_ok T d _ = False"

fun before_clock :: "cpu_pc \<Rightarrow> bool" where
  "before_clock C_start = True"
| "before_clock C_wait = True"
| "before_clock C_clock = True"
| "before_clock _ = False"

definition all_stored :: "cpu_program \<Rightarrow> (nat \<Rightarrow> cpu_pc) \<Rightarrow> nat" where
  "all_stored p ls = (\<Sum>i<CPU_THREADS p. stored (CPU_ITERATIONS p) (ls i))"

definition at_barrier :: "cpu_program \<Rightarrow> (nat \<Rightarrow> cpu_pc) \<Rightarrow> nat" where
  "at_barrier p ls = (\<Sum>i<CPU_THREADS p. if ls i = C_start then 0 else 1)"

text \<open>All three, and: \<open>lost\<close> increments are missing in \<open>count\<close>; who set \<open>locked\<close> is still there.\<close>
definition cpu_inv :: "cpu_program \<Rightarrow> cpu_env \<Rightarrow> nat \<Rightarrow> cpu_data \<Rightarrow> (nat \<Rightarrow> cpu_pc) \<Rightarrow> bool" where
  "cpu_inv p env lost d ls \<longleftrightarrow>
     main_ok (CPU_THREADS p) d (ls (CPU_THREADS p)) \<and>
     (\<forall>i<CPU_THREADS p. thread_ok (CPU_ITERATIONS p) lost (all_stored p ls) i d (ls i)) \<and>
     arrived d = at_barrier p ls \<and>
     (before_clock (ls (serial_thread env)) \<or> CPU_time1 d = time_start env) \<and>
     (locked d \<longrightarrow> (\<exists>i<CPU_THREADS p. holds (ls i))) \<and>
     unat (count d) + lost \<le> all_stored p ls"

text \<open>A step of a thread, as far as the others see it.\<close>
lemmas cpu_defs = cpu_thread_def sync_threads_def

lemma unat_incr: "unat (w + 1 :: 64 word) \<le> unat w + 1"
  by (metis Suc_eq_plus1 add.commute le_refl unat_eq_zero unatSuc zero_le)

lemma thread_moves:
  assumes "cpu_thread p env args i d l = Some (Go d' l')" "thread_ok (CPU_ITERATIONS p) lost all i d l"
  shows "created d' = created d" "barrier_there d' = barrier_there d" "\<And>j. j \<noteq> i \<Longrightarrow> returned d' j = returned d j"
    "\<And>j. returned d j \<Longrightarrow> returned d' j"
    and "stored (CPU_ITERATIONS p) l \<le> stored (CPU_ITERATIONS p) l'" "l' \<noteq> C_start"
    and "arrived d' = arrived d + (if l = C_start then 1 else 0)"
    and "locked d' \<Longrightarrow> holds l' \<or> locked d \<and> \<not> holds l"
    and "i = serial_thread env \<Longrightarrow> before_clock l \<or> CPU_time1 d = time_start env \<Longrightarrow> before_clock l' \<or> CPU_time1 d' = time_start env"
    and "CPU_time1 d' = CPU_time1 d \<or> CPU_time1 d' = time_start env"
  using assms by (cases l; auto simp: cpu_defs split: if_splits)+

lemma thread_counts:
  assumes "cpu_thread p env args i d l = Some (Go d' l')" "thread_ok (CPU_ITERATIONS p) lost all i d l" "unat (count d) + lost \<le> all"
    and "all' + stored (CPU_ITERATIONS p) l = all + stored (CPU_ITERATIONS p) l'"
  shows "unat (count d') + lost \<le> all'" "thread_ok (CPU_ITERATIONS p) lost all' i d' l'"
  using assms unat_incr [of "count d"] by (cases l; auto simp: cpu_defs split: if_splits)+

lemma thread_ok_mono:
  "thread_ok n lost all i d l \<Longrightarrow> all \<le> all' \<Longrightarrow> created d \<le> created d' \<Longrightarrow> returned d' i = returned d i \<Longrightarrow>
     thread_ok n lost all' i d' l"
  by (cases l) auto

lemma main_ok_mono:
  "main_ok T d m \<Longrightarrow> created d' = created d \<Longrightarrow> barrier_there d' = barrier_there d \<Longrightarrow>
     (\<And>j. returned d j \<Longrightarrow> returned d' j) \<Longrightarrow> main_ok T d' m"
  by (cases m) auto

lemma all_stored_upd:
  "i < CPU_THREADS p \<Longrightarrow>
     all_stored p (ls(i := l')) + stored (CPU_ITERATIONS p) (ls i) = all_stored p ls + stored (CPU_ITERATIONS p) l'"
  unfolding all_stored_def by (rule sum_upd_add)

lemma cpu_inv_thread:
  assumes "cpu_inv p env lost d ls" "i < CPU_THREADS p" "cpu_thread p env args i d (ls i) = Some (Go d' l')"
  shows "cpu_inv p env lost d' (ls(i := l'))"
proof -
  let ?all = "all_stored p ls" and ?all' = "all_stored p (ls(i := l'))"
  have ok: "thread_ok (CPU_ITERATIONS p) lost ?all i d (ls i)" using assms(1,2) by (simp add: cpu_inv_def)
  note mv = thread_moves [OF assms(3) ok]
  have u: "?all' + stored (CPU_ITERATIONS p) (ls i) = ?all + stored (CPU_ITERATIONS p) l'" by (rule all_stored_upd [OF assms(2)])
  then have le: "?all \<le> ?all'" using mv(5) by linarith
  have c: "unat (count d) + lost \<le> ?all" using assms(1) by (simp add: cpu_inv_def)
  note cnt = thread_counts [OF assms(3) ok c u]
  have "main_ok (CPU_THREADS p) d' (ls (CPU_THREADS p))"
    using main_ok_mono [OF _ mv(1,2,4)] assms(1) by (simp add: cpu_inv_def)
  moreover have "thread_ok (CPU_ITERATIONS p) lost ?all' j d' ((ls(i := l')) j)" if "j < CPU_THREADS p" for j
    using thread_ok_mono [of "CPU_ITERATIONS p" lost ?all j d "ls j" ?all' d'] mv(1) mv(3) [of j] le cnt(2) assms(1) that
    by (simp add: cpu_inv_def)
  moreover have "arrived d' = at_barrier p (ls(i := l'))"
    using sum_upd_add [OF assms(2), of "\<lambda>l. if l = C_start then 0 else 1 :: nat" ls l'] mv(6,7) assms(1)
    by (simp add: at_barrier_def cpu_inv_def split: if_splits)
  moreover have "before_clock ((ls(i := l')) (serial_thread env)) \<or> CPU_time1 d' = time_start env"
    using mv(9,10) assms(1) by (auto simp: cpu_inv_def)
  moreover have "\<exists>j<CPU_THREADS p. holds ((ls(i := l')) j)" if "locked d'"
  proof (cases "holds l'")
    case True
    then show ?thesis using assms(2) by (intro exI [of _ i]) simp
  next
    case False
    then have "locked d" "\<not> holds (ls i)" using mv(8) that by simp_all
    then obtain j where j: "j < CPU_THREADS p" "holds (ls j)" using assms(1) by (auto simp: cpu_inv_def)
    then have "j \<noteq> i" using \<open>\<not> holds (ls i)\<close> by auto
    then show ?thesis using j by (intro exI [of _ j]) simp
  qed
  ultimately show ?thesis using assms(2) cnt(1) unfolding cpu_inv_def by simp
qed

lemma cpu_inv_main:
  assumes "cpu_inv p env lost d ls" "cpu_main p env d (ls (CPU_THREADS p)) = Some (Go d' l')" "serial_thread env < CPU_THREADS p"
  shows "cpu_inv p env lost d' (ls(CPU_THREADS p := l'))"
proof -
  have m: "main_ok (CPU_THREADS p) d (ls (CPU_THREADS p))" using assms(1) by (simp add: cpu_inv_def)
  have e: "all_stored p (ls(CPU_THREADS p := l')) = all_stored p ls" "at_barrier p (ls(CPU_THREADS p := l')) = at_barrier p ls"
    by (simp_all add: all_stored_def at_barrier_def)
  have f: "main_ok (CPU_THREADS p) d' l'" "created d \<le> created d'" "returned d' = returned d" "arrived d' = arrived d"
      "CPU_time1 d' = CPU_time1 d" "locked d' = locked d" "count d' = count d"
    using m assms(2) by (cases "ls (CPU_THREADS p)"; auto simp: cpu_main_def Let_def less_Suc_eq split: if_splits)+
  have "\<forall>j<CPU_THREADS p. thread_ok (CPU_ITERATIONS p) lost (all_stored p ls) j d' ((ls(CPU_THREADS p := l')) j)"
    using thread_ok_mono [OF _ order_refl f(2)] f(3) assms(1) by (simp add: cpu_inv_def)
  moreover have "locked d' \<longrightarrow> (\<exists>j<CPU_THREADS p. holds ((ls(CPU_THREADS p := l')) j))"
  proof
    assume "locked d'"
    then obtain j where j: "j < CPU_THREADS p" "holds (ls j)" using assms(1) f(6) by (auto simp: cpu_inv_def)
    then show "\<exists>j<CPU_THREADS p. holds ((ls(CPU_THREADS p := l')) j)" by (intro exI [of _ j]) simp
  qed
  moreover have "arrived d = at_barrier p ls" "unat (count d) + lost \<le> all_stored p ls"
      "before_clock (ls (serial_thread env)) \<or> CPU_time1 d = time_start env"
    using assms(1) by (simp_all add: cpu_inv_def)
  ultimately show ?thesis using f e assms(3) unfolding cpu_inv_def by simp
qed

text \<open>How the programs end.\<close>
definition calls_ok :: "cpu_program \<Rightarrow> cpu_env \<Rightarrow> bool" where
  "calls_ok p env \<longleftrightarrow> \<not> init_fails env \<and> \<not> destroy_fails env \<and>
     (\<forall>i<CPU_THREADS p. \<not> wait_fails env i \<and> \<not> create_fails env i \<and> \<not> join_fails env i)"

definition cpu_ending :: "cpu_program \<Rightarrow> cpu_env \<Rightarrow> nat \<Rightarrow> cpu_data \<Rightarrow> int \<Rightarrow> bool" where
  "cpu_ending p env lost d x \<longleftrightarrow>
     unat (count d) + lost \<le> CPU_THREADS p * CPU_ITERATIONS p \<and>
     (if x = EXIT_SUCCESS then
        printed d = times_printed p (time_end env) (time_start env) \<and> (\<forall>i<CPU_THREADS p. returned d i) \<and>
        (barrier_there d \<longrightarrow> destroy_fails env)
      else x = EXIT_FAILURE \<and> \<not> calls_ok p env)"

lemma stored_bound: "thread_ok n lost all i d l \<Longrightarrow> stored n l \<le> n"
  by (cases l) auto

lemma all_stored_bound:
  assumes "cpu_inv p env lost d ls"
  shows "all_stored p ls \<le> CPU_THREADS p * CPU_ITERATIONS p"
proof -
  have "all_stored p ls \<le> of_nat (card {..<CPU_THREADS p}) * CPU_ITERATIONS p"
    unfolding all_stored_def
    using assms stored_bound by (intro sum_bounded_above) (fastforce simp: cpu_inv_def)
  then show ?thesis by simp
qed

lemma release_barrier_fields [simp]:
  "count (release_cpu_barrier p env d) = count d" "printed (release_cpu_barrier p env d) = printed d"
  "returned (release_cpu_barrier p env d) = returned d"
  by (simp_all add: release_cpu_barrier_def)

lemma thread_quits:
  assumes "cpu_thread p env args i d l = Some (Quit d' x)"
  shows "x = EXIT_FAILURE \<and> wait_fails env i \<and> count d' = count d"
  using assms by (cases l) (auto simp: cpu_defs split: if_splits)

lemma all_ended:
  assumes "cpu_inv p env lost d ls" "\<forall>j<CPU_THREADS p. returned d j" "serial_thread env < CPU_THREADS p"
  shows "CPU_time1 d = time_start env"
proof -
  have "thread_ok (CPU_ITERATIONS p) lost (all_stored p ls) (serial_thread env) d (ls (serial_thread env))"
    using assms(1,3) by (simp add: cpu_inv_def)
  then have "\<not> before_clock (ls (serial_thread env))"
    using assms(2,3) by (cases "ls (serial_thread env)") auto
  then show ?thesis using assms(1) by (simp add: cpu_inv_def)
qed

lemma cpu_quits:
  assumes "cpu_inv p env lost d ls" "i \<le> CPU_THREADS p" "cpu_outs p env args i d (ls i) = Some (Quit d' x)"
    and "serial_thread env < CPU_THREADS p"
  shows "cpu_ending p env lost d' x"
proof (cases "i = CPU_THREADS p")
  case False
  then have q: "x = EXIT_FAILURE \<and> wait_fails env i \<and> count d' = count d" "i < CPU_THREADS p"
    using thread_quits [of p env args i d "ls i" d' x] assms(2,3) by (simp_all add: cpu_outs_def)
  then show ?thesis using all_stored_bound [OF assms(1)] assms(1) by (auto simp: cpu_ending_def cpu_inv_def calls_ok_def)
next
  case True
  then have m: "cpu_main p env d (ls (CPU_THREADS p)) = Some (Quit d' x)" using assms(3) by (simp add: cpu_outs_def)
  have b: "unat (count d) + lost \<le> CPU_THREADS p * CPU_ITERATIONS p"
    using all_stored_bound [OF assms(1)] assms(1) by (simp add: cpu_inv_def)
  have ok: "main_ok (CPU_THREADS p) d (ls (CPU_THREADS p))" using assms(1) by (simp add: cpu_inv_def)
  show ?thesis
  proof (cases "ls (CPU_THREADS p) = CM_measure")
    case True
    then have "\<forall>j<CPU_THREADS p. returned d j" "barrier_there d" using ok by simp_all
    then have t: "CPU_time1 d = time_start env" using all_ended [OF assms(1) _ assms(4)] by blast
    show ?thesis
      using True m b t ok by (cases p) (auto simp: cpu_main_def cpu_ending_def calls_ok_def Let_def release_cpu_barrier_def split: if_splits)
  next
    case False
    then have "x = EXIT_FAILURE \<and> \<not> calls_ok p env \<and> count d' = count d"
      using m by (cases "ls (CPU_THREADS p)") (auto simp: cpu_main_def calls_ok_def Let_def split: if_splits)
    then show ?thesis using b by (simp add: cpu_ending_def)
  qed
qed

lemma cpu_inv_start: "serial_thread env < CPU_THREADS p \<Longrightarrow> cpu_inv p env 0 cpu_data0 (cpu_locals p)"
  by (simp add: cpu_inv_def cpu_data0_def cpu_locals_def all_stored_def at_barrier_def)

lemma cpu_no_sync: "cpu_outs p env args i d l \<noteq> Some (Sync d' l')"
  by (cases l) (auto simp: cpu_outs_def cpu_defs cpu_main_def Let_def)

lemma cpu_outcome:
  assumes "reach (CPU_THREADS p + 1) (cpu_time_step p env args) ((d0, None), ls0) c" "cpu_inv p env lost d0 ls0"
    and "serial_thread env < CPU_THREADS p"
  shows "case snd (fst c) of None \<Rightarrow> cpu_inv p env lost (fst (fst c)) (snd c) | Some x \<Rightarrow> cpu_ending p env lost (fst (fst c)) x"
  using assms(1,2) cpu_no_sync
proof (rule free_outcome)
  fix d ls i d' l'
  assume I: "cpu_inv p env lost d ls" and i: "i < CPU_THREADS p + 1" and st: "cpu_outs p env args i d (ls i) = Some (Go d' l')"
  show "cpu_inv p env lost d' (ls(i := l'))"
  proof (cases "i = CPU_THREADS p")
    case True
    then show ?thesis using cpu_inv_main [OF I _ assms(3)] st by (simp add: cpu_outs_def)
  next
    case False
    then show ?thesis using cpu_inv_thread [OF I] i st by (simp add: cpu_outs_def)
  qed
next
  fix d ls i d' x
  assume "cpu_inv p env lost d ls" "i < CPU_THREADS p + 1" "cpu_outs p env args i d (ls i) = Some (Quit d' x)"
  then show "cpu_ending p env lost d' x" using cpu_quits [of p env lost d ls i args d' x] assms(3) by simp
qed

section \<open>Progress\<close>

text \<open>What is left to do for a thread and for \<open>main\<close>, if no busy wait has to be repeated.\<close>
fun togo :: "nat \<Rightarrow> cpu_pc \<Rightarrow> nat" where
  "togo n C_start = 7 * n + 6"
| "togo n C_wait = 7 * n + 5"
| "togo n C_clock = 7 * n + 4"
| "togo n (C_loop k) = 7 * (n - k) + 2"
| "togo n (C_yield k) = 7 * (n - k) + 2"
| "togo n (C_test k) = 7 * (n - k) + 1"
| "togo n (C_set k) = 7 * (n - k)"
| "togo n (C_read k) = 7 * (n - k) - 1"
| "togo n (C_store k v) = 7 * (n - k) - 2"
| "togo n (C_clear k) = 7 * (n - k) - 3"
| "togo n _ = 0"

fun main_togo :: "nat \<Rightarrow> cpu_pc \<Rightarrow> nat" where
  "main_togo T CM_init = 2 * T + 5"
| "main_togo T (CM_create t) = 2 * T - t + 4"
| "main_togo T (CM_join t) = T - t + 2"
| "main_togo T _ = 1"

definition left_over :: "cpu_program \<Rightarrow> (nat \<Rightarrow> cpu_pc) \<Rightarrow> nat" where
  "left_over p ls = main_togo (CPU_THREADS p) (ls (CPU_THREADS p)) + (\<Sum>i<CPU_THREADS p. togo (CPU_ITERATIONS p) (ls i))"

text \<open>Thread \<open>i\<close> ends the process or comes nearer to the end.\<close>
definition advances :: "cpu_program \<Rightarrow> cpu_env \<Rightarrow> string list \<Rightarrow> cpu_data \<Rightarrow> (nat \<Rightarrow> cpu_pc) \<Rightarrow> nat \<Rightarrow> bool" where
  "advances p env args d ls i \<longleftrightarrow>
     (\<exists>d' x. cpu_outs p env args i d (ls i) = Some (Quit d' x)) \<or>
     (\<exists>d' l'. cpu_outs p env args i d (ls i) = Some (Go d' l') \<and> left_over p (ls(i := l')) < left_over p ls)"

lemma thread_advances:
  assumes "i < CPU_THREADS p" "thread_ok (CPU_ITERATIONS p) lost all i d (ls i)" "i < created d"
    and "ls i = C_start \<or> holds (ls i) \<or> \<not> returned d i \<and> \<not> locked d \<and> CPU_THREADS p \<le> arrived d"
  shows "advances p env args d ls i"
proof -
  have "(\<exists>d' x. cpu_thread p env args i d (ls i) = Some (Quit d' x)) \<or>
      (\<exists>d' l'. cpu_thread p env args i d (ls i) = Some (Go d' l') \<and> togo (CPU_ITERATIONS p) l' < togo (CPU_ITERATIONS p) (ls i))"
    using assms(2-4) by (cases "ls i") (auto simp: cpu_defs)
  moreover have "left_over p (ls(i := l')) < left_over p ls" if "togo (CPU_ITERATIONS p) l' < togo (CPU_ITERATIONS p) (ls i)" for l'
    using sum_upd_less [of i "CPU_THREADS p" "togo (CPU_ITERATIONS p)" l' ls] that assms(1) by (simp add: left_over_def)
  ultimately show ?thesis using assms(1) by (auto simp: advances_def cpu_outs_def)
qed

lemma main_advances:
  assumes "main_ok (CPU_THREADS p) d (ls (CPU_THREADS p))"
    and "\<And>t. ls (CPU_THREADS p) = CM_join t \<Longrightarrow> t < CPU_THREADS p \<Longrightarrow> returned d t \<or> join_fails env t"
  shows "advances p env args d ls (CPU_THREADS p)"
proof -
  have "(\<exists>d' x. cpu_main p env d (ls (CPU_THREADS p)) = Some (Quit d' x)) \<or>
      (\<exists>d' l'. cpu_main p env d (ls (CPU_THREADS p)) = Some (Go d' l') \<and>
         main_togo (CPU_THREADS p) l' < main_togo (CPU_THREADS p) (ls (CPU_THREADS p)))"
    using assms by (cases "ls (CPU_THREADS p)") (auto simp: cpu_main_def Let_def)
  then show ?thesis by (auto simp: advances_def cpu_outs_def left_over_def)
qed

lemma somebody_advances:
  assumes "cpu_inv p env lost d ls"
  shows "\<exists>i<CPU_THREADS p + 1. advances p env args d ls i"
proof -
  have m: "main_ok (CPU_THREADS p) d (ls (CPU_THREADS p))" using assms by (simp add: cpu_inv_def)
  have ok: "thread_ok (CPU_ITERATIONS p) lost (all_stored p ls) i d (ls i)" if "i < CPU_THREADS p" for i
    using assms that by (simp add: cpu_inv_def)
  show ?thesis
  proof (cases "\<exists>t. ls (CPU_THREADS p) = CM_join t \<and> t < CPU_THREADS p \<and> \<not> returned d t \<and> \<not> join_fails env t")
    case False
    then have "advances p env args d ls (CPU_THREADS p)" using main_advances [of p d ls env args] m by blast
    then show ?thesis by (intro exI [of _ "CPU_THREADS p"]) simp
  next
    case True
    then obtain t where t: "ls (CPU_THREADS p) = CM_join t" "t < CPU_THREADS p" "\<not> returned d t" by blast
    then have c: "created d = CPU_THREADS p" using m by simp
    consider (start) i where "i < CPU_THREADS p" "ls i = C_start" | (holder) i where "i < CPU_THREADS p" "holds (ls i)"
      | (free) "\<forall>i<CPU_THREADS p. ls i \<noteq> C_start" "\<not> locked d"
      using assms unfolding cpu_inv_def by blast
    then show ?thesis
    proof cases
      case start
      have "advances p env args d ls i" by (rule thread_advances [of i p _ _ d ls, OF start(1) ok [OF start(1)]]) (use start c in simp_all)
      then show ?thesis using start(1) by (intro exI [of _ i]) simp
    next
      case holder
      have "advances p env args d ls i" by (rule thread_advances [of i p _ _ d ls, OF holder(1) ok [OF holder(1)]]) (use holder c in simp_all)
      then show ?thesis using holder(1) by (intro exI [of _ i]) simp
    next
      case free
      have "at_barrier p ls = (\<Sum>i<CPU_THREADS p. 1)" unfolding at_barrier_def using free(1) by (intro sum.cong) simp_all
      then have "CPU_THREADS p \<le> arrived d" using assms by (simp add: cpu_inv_def)
      then have "advances p env args d ls t"
        by (intro thread_advances [of t p _ _ d ls, OF t(2) ok [OF t(2)]]) (use t(2,3) c free(2) in simp_all)
      then show ?thesis using t(2) by (intro exI [of _ t]) simp
    qed
  qed
qed

lemma cpu_time_ends:
  assumes "cpu_inv p env lost d ls" "serial_thread env < CPU_THREADS p"
  shows "\<exists>d' x ls'. reach (CPU_THREADS p + 1) (cpu_time_step p env args) ((d, None), ls) ((d', Some x), ls') \<and> cpu_ending p env lost d' x"
  using assms(1)
proof (induction "left_over p ls" arbitrary: d ls rule: less_induct)
  case less
  obtain i where i: "i < CPU_THREADS p + 1" "advances p env args d ls i" using somebody_advances [OF less.prems] by blast
  from i(2) show ?case unfolding advances_def
  proof (elim disjE exE conjE)
    fix d' x
    assume q: "cpu_outs p env args i d (ls i) = Some (Quit d' x)"
    then have "reach (CPU_THREADS p + 1) (cpu_time_step p env args) ((d, None), ls) ((d', Some x), ls)"
      using i(1) by (intro reach_one [of _ _ i]) (simp add: sched_step_def free_step_Quit)
    then show ?thesis using cpu_quits [OF less.prems _ q assms(2)] i(1) by auto
  next
    fix d' l'
    assume g: "cpu_outs p env args i d (ls i) = Some (Go d' l')" and l: "left_over p (ls(i := l')) < left_over p ls"
    have s: "reach (CPU_THREADS p + 1) (cpu_time_step p env args) ((d, None), ls) ((d', None), ls(i := l'))"
      using g i(1) by (intro reach_one [of _ _ i]) (simp add: sched_step_def free_step_Go)
    from cpu_outcome [OF s less.prems assms(2)] have "cpu_inv p env lost d' (ls(i := l'))" by simp
    from less.hyps [OF l this] show ?thesis using reach_trans [OF _ s] by blast
  qed
qed

section \<open>The lock does not lock\<close>

text \<open>The programs up to the opened barrier.\<close>
lemma cpu_go:
  assumes "cpu_outs p env args i d (ls i) = Some (Go d' l')" "i \<le> CPU_THREADS p"
  shows "reach (CPU_THREADS p + 1) (cpu_time_step p env args) ((d, None), ls) ((d', None), ls(i := l'))"
  using assms by (intro reach_one [of _ _ i]) (simp_all add: sched_step_def free_step_Go)

lemma all_created:
  assumes "calls_ok p env" "t \<le> CPU_THREADS p"
  shows "reach (CPU_THREADS p + 1) (cpu_time_step p env args) ((cpu_data0, None), cpu_locals p)
    ((cpu_data0\<lparr>barrier_there := True, created := t\<rparr>, None), (cpu_locals p)(CPU_THREADS p := CM_create t))"
  using assms(2)
proof (induction t)
  case 0
  have "cpu_outs p env args (CPU_THREADS p) cpu_data0 (cpu_locals p (CPU_THREADS p)) = Some (Go (cpu_data0\<lparr>barrier_there := True, created := 0\<rparr>) (CM_create 0))"
    using assms(1) by (simp add: cpu_outs_def cpu_main_def cpu_locals_def calls_ok_def cpu_data0_def)
  then show ?case using cpu_go by blast
next
  case (Suc t)
  let ?d = "cpu_data0\<lparr>barrier_there := True, created := t\<rparr>"
  have "cpu_outs p env args (CPU_THREADS p) ?d (((cpu_locals p)(CPU_THREADS p := CM_create t)) (CPU_THREADS p)) =
      Some (Go (cpu_data0\<lparr>barrier_there := True, created := Suc t\<rparr>) (CM_create (Suc t)))"
    using assms(1) Suc.prems by (simp add: cpu_outs_def cpu_main_def calls_ok_def)
  from cpu_go [of p env args "CPU_THREADS p" ?d "(cpu_locals p)(CPU_THREADS p := CM_create t)", OF this order_refl]
  show ?case unfolding fun_upd_upd using reach_trans [OF _ Suc.IH [OF Suc_leD [OF Suc.prems]]] by blast
qed

definition waiting :: "cpu_program \<Rightarrow> nat \<Rightarrow> nat \<Rightarrow> cpu_pc" where
  "waiting p t i = (if i = CPU_THREADS p then CM_create (CPU_THREADS p) else if i < t then C_wait else C_start)"

lemma all_wait:
  assumes "calls_ok p env" "t \<le> CPU_THREADS p"
  shows "reach (CPU_THREADS p + 1) (cpu_time_step p env args) ((cpu_data0, None), cpu_locals p)
    ((cpu_data0\<lparr>barrier_there := True, created := CPU_THREADS p, arrived := t\<rparr>, None), waiting p t)"
  using assms(2)
proof (induction t)
  case 0
  have "(cpu_locals p)(CPU_THREADS p := CM_create (CPU_THREADS p)) = waiting p 0"
    by (simp add: waiting_def cpu_locals_def fun_eq_iff)
  then show ?case using all_created [OF assms(1) order_refl, of args] by (simp add: cpu_data0_def)
next
  case (Suc t)
  let ?d = "cpu_data0\<lparr>barrier_there := True, created := CPU_THREADS p, arrived := t\<rparr>"
  have "cpu_outs p env args t ?d (waiting p t t) = Some (Go (?d\<lparr>arrived := Suc t\<rparr>) C_wait)"
    using assms(1) Suc.prems by (simp add: cpu_outs_def waiting_def cpu_defs calls_ok_def)
  moreover have "(waiting p t)(t := C_wait) = waiting p (Suc t)"
    using Suc.prems by (auto simp: waiting_def fun_eq_iff)
  ultimately show ?case using cpu_go [of p env args t ?d "waiting p t"] reach_trans [OF _ Suc.IH] Suc.prems by simp
qed

text \<open>A thread on its way from the barrier to its first test, while \<open>locked\<close> is not set.\<close>
lemma to_first_set:
  assumes "i < CPU_THREADS p" "ls i = C_wait" "CPU_THREADS p \<le> arrived d" "\<not> locked d" "0 < CPU_ITERATIONS p"
  shows "\<exists>t. reach (CPU_THREADS p + 1) (cpu_time_step p env args) ((d, None), ls) ((d\<lparr>CPU_time1 := t\<rparr>, None), ls(i := C_set 0))"
proof -
  have go: "reach (CPU_THREADS p + 1) (cpu_time_step p env args) ((e, None), m) ((e', None), m(i := l'))"
    if "cpu_thread p env args i e (m i) = Some (Go e' l')" for e e' m l'
    using cpu_go [of p env args i e m e' l'] that assms(1) by (simp add: cpu_outs_def)
  have s: "reach (CPU_THREADS p + 1) (cpu_time_step p env args) ((e, None), m) ((e, None), m(i := C_set 0))"
    if "m i = C_loop 0" "\<not> locked e" for e m
    using reach_trans [OF go [of e "m(i := C_test 0)" e "C_set 0"] go [of e m e "C_test 0"]] that assms(5) by (simp add: cpu_thread_def)
  show ?thesis
  proof (cases "i = serial_thread env")
    case True
    have a: "reach (CPU_THREADS p + 1) (cpu_time_step p env args) ((d, None), ls) ((d, None), ls(i := C_clock))"
      using assms True by (intro go) (simp add: cpu_defs)
    have b: "reach (CPU_THREADS p + 1) (cpu_time_step p env args) ((d, None), ls(i := C_clock)) ((d\<lparr>CPU_time1 := time_start env\<rparr>, None), ls(i := C_loop 0))"
      using go [of d "ls(i := C_clock)" "d\<lparr>CPU_time1 := time_start env\<rparr>" "C_loop 0"] by (simp add: cpu_defs)
    have c: "reach (CPU_THREADS p + 1) (cpu_time_step p env args) ((d\<lparr>CPU_time1 := time_start env\<rparr>, None), ls(i := C_loop 0))
        ((d\<lparr>CPU_time1 := time_start env\<rparr>, None), ls(i := C_set 0))"
      using s [of "ls(i := C_loop 0)" "d\<lparr>CPU_time1 := time_start env\<rparr>"] assms(4) by simp
    from reach_trans [OF c reach_trans [OF b a]] show ?thesis by blast
  next
    case False
    have a: "reach (CPU_THREADS p + 1) (cpu_time_step p env args) ((d, None), ls) ((d, None), ls(i := C_loop 0))"
      using assms False by (intro go) (simp add: cpu_defs)
    have c: "reach (CPU_THREADS p + 1) (cpu_time_step p env args) ((d, None), ls(i := C_loop 0)) ((d, None), ls(i := C_set 0))"
      using s [of "ls(i := C_loop 0)" d] assms(4) by simp
    have "d\<lparr>CPU_time1 := CPU_time1 d\<rparr> = d" by simp
    then show ?thesis using reach_trans [OF c a] by metis
  qed
qed

text \<open>Two threads that have both passed the test before one of them sets \<open>locked\<close>: an increment is lost.\<close>
lemma two_pass:
  assumes "calls_ok p env" "serial_thread env < CPU_THREADS p"
  shows "\<exists>d ls. reach (CPU_THREADS p + 1) (cpu_time_step p env args) ((cpu_data0, None), cpu_locals p) ((d, None), ls) \<and> cpu_inv p env 1 d ls"
proof -
  have T: "0 < CPU_THREADS p" "1 < CPU_THREADS p" "0 < CPU_ITERATIONS p" by (cases p; simp)+
  let ?R = "\<lambda>d ls d' ls'. reach (CPU_THREADS p + 1) (cpu_time_step p env args) ((d, None), ls) ((d', None), ls')"
  let ?d = "cpu_data0\<lparr>barrier_there := True, created := CPU_THREADS p, arrived := CPU_THREADS p\<rparr>" and ?ls = "waiting p (CPU_THREADS p)"
  have 0: "?R cpu_data0 (cpu_locals p) ?d ?ls" by (rule all_wait [OF assms(1) order_refl])
  obtain t where 1: "?R ?d ?ls (?d\<lparr>CPU_time1 := t\<rparr>) (?ls(0 := C_set 0))"
    using to_first_set [of 0 p ?ls ?d] T by (auto simp: waiting_def cpu_data0_def)
  obtain u where 2: "?R (?d\<lparr>CPU_time1 := t\<rparr>) (?ls(0 := C_set 0)) (?d\<lparr>CPU_time1 := u\<rparr>) (?ls(0 := C_set 0, 1 := C_set 0))"
    using to_first_set [of 1 p "?ls(0 := C_set 0)" "?d\<lparr>CPU_time1 := t\<rparr>"] T by (auto simp: waiting_def cpu_data0_def)
  define d ls where "d = ?d\<lparr>CPU_time1 := u\<rparr>" and "ls = ?ls(0 := C_set 0, 1 := C_set 0)"
  have R: "?R cpu_data0 (cpu_locals p) d ls" unfolding d_def ls_def by (rule reach_trans [OF 2 reach_trans [OF 1 0]])
  have 3: "?R d ls (d\<lparr>locked := True\<rparr>) (ls(0 := C_read 0))"
    using cpu_go [of p env args 0 d ls] T by (simp add: cpu_outs_def cpu_thread_def ls_def)
  have 4: "?R (d\<lparr>locked := True\<rparr>) (ls(0 := C_read 0)) (d\<lparr>locked := True\<rparr>) (ls(0 := C_read 0, 1 := C_read 0))"
    using cpu_go [of p env args 1 "d\<lparr>locked := True\<rparr>" "ls(0 := C_read 0)"] T by (simp add: cpu_outs_def cpu_thread_def ls_def)
  define e where "e = d\<lparr>locked := True\<rparr>"
  have z: "count e = 0" by (simp add: e_def d_def cpu_data0_def)
  have 5: "?R e (ls(0 := C_read 0, 1 := C_read 0)) e (ls(0 := C_store 0 1, 1 := C_read 0))"
    using cpu_go [of p env args 0 e "ls(0 := C_read 0, 1 := C_read 0)"] T z
    by (simp add: cpu_outs_def cpu_thread_def fun_upd_twist)
  have 6: "?R e (ls(0 := C_store 0 1, 1 := C_read 0)) e (ls(0 := C_store 0 1, 1 := C_store 0 1))"
    using cpu_go [of p env args 1 e "ls(0 := C_store 0 1, 1 := C_read 0)"] T z by (simp add: cpu_outs_def cpu_thread_def)
  have 7: "?R e (ls(0 := C_store 0 1, 1 := C_store 0 1)) (e\<lparr>count := 1\<rparr>) (ls(0 := C_clear 0, 1 := C_store 0 1))"
    using cpu_go [of p env args 0 e "ls(0 := C_store 0 1, 1 := C_store 0 1)"] T
    by (simp add: cpu_outs_def cpu_thread_def fun_upd_twist)
  have 8: "?R (e\<lparr>count := 1\<rparr>) (ls(0 := C_clear 0, 1 := C_store 0 1)) (e\<lparr>count := 1\<rparr>) (ls(0 := C_clear 0, 1 := C_clear 0))"
    using cpu_go [of p env args 1 "e\<lparr>count := 1\<rparr>" "ls(0 := C_clear 0, 1 := C_store 0 1)"] T
    by (simp add: cpu_outs_def cpu_thread_def)
  let ?e = "e\<lparr>count := 1\<rparr>" and ?m = "?ls(0 := C_clear 0, 1 := C_clear 0)"
  have m: "ls(0 := C_clear 0, 1 := C_clear 0) = ?m" by (simp add: ls_def fun_eq_iff)
  have E: "?R cpu_data0 (cpu_locals p) ?e ?m"
    using reach_trans [OF 8 reach_trans [OF 7 reach_trans [OF 6 reach_trans [OF 5 reach_trans [OF 4 [folded e_def] reach_trans [OF 3 [folded e_def] R]]]]]]
    unfolding m .
  have I: "cpu_inv p env 0 ?e ?m" using cpu_outcome [OF E cpu_inv_start assms(2)] assms(2) by simp
  have "all_stored p ?ls = 0" by (simp add: all_stored_def waiting_def)
  then have a: "all_stored p ?m = 2"
    using all_stored_upd [of 0 p ?ls "C_clear 0"] all_stored_upd [of 1 p "?ls(0 := C_clear 0)" "C_clear 0"] T by (simp add: waiting_def)
  have "thread_ok (CPU_ITERATIONS p) 1 2 i ?e (?m i)" if "i < CPU_THREADS p" for i
    using I that a by (auto simp: cpu_inv_def waiting_def)
  then have "cpu_inv p env 1 ?e ?m" using I a by (simp add: cpu_inv_def)
  then show ?thesis using E by blast
qed

text \<open>C14. In every interleaving of the four programs \<open>count\<close> is at most \<open>THREADS * ITERATIONS\<close>. When a program ends with
  success all threads have returned and the times it prints are those from the serial thread's reading of the clocks, after
  the barrier has opened, to the end; it ends with a failure only when a call fails; and from every state it reaches some
  interleaving leads it to its end. But the test of \<open>locked\<close> and its setting are two steps: some interleaving ends with
  success and a smaller \<open>count\<close>, whatever the number of threads and rounds.
\<close>
theorem cpu_time_measured:
  assumes "run_sched (CPU_THREADS p + 1) (cpu_time_step p env args) sched ((cpu_data0, None), cpu_locals p) = Some ((d, x), ls)"
    and serial: "serial_thread env < CPU_THREADS p"
  shows "unat (count d) \<le> CPU_THREADS p * CPU_ITERATIONS p \<and>
    (x = Some EXIT_SUCCESS \<longrightarrow> printed d = times_printed p (time_end env) (time_start env) \<and>
       (\<forall>i<CPU_THREADS p. returned d i) \<and> (barrier_there d \<longrightarrow> destroy_fails env)) \<and>
    (x \<noteq> None \<and> x \<noteq> Some EXIT_SUCCESS \<longrightarrow> x = Some EXIT_FAILURE \<and> \<not> calls_ok p env) \<and>
    (\<exists>d' y ls'. reach (CPU_THREADS p + 1) (cpu_time_step p env args) ((d, x), ls) ((d', Some y), ls')) \<and>
    (calls_ok p env \<longrightarrow> (\<exists>d' ls'. reach (CPU_THREADS p + 1) (cpu_time_step p env args) ((cpu_data0, None), cpu_locals p) ((d', Some EXIT_SUCCESS), ls') \<and>
       unat (count d') < CPU_THREADS p * CPU_ITERATIONS p))"
proof -
  let ?R = "reach (CPU_THREADS p + 1) (cpu_time_step p env args)"
  have r: "?R ((cpu_data0, None), cpu_locals p) ((d, x), ls)" by (rule run_sched_reach [OF assms(1)])
  have o: "case x of None \<Rightarrow> cpu_inv p env 0 d ls | Some x \<Rightarrow> cpu_ending p env 0 d x"
    using cpu_outcome [OF r cpu_inv_start [OF serial] serial] by (cases x) simp_all
  have "unat (count d) \<le> CPU_THREADS p * CPU_ITERATIONS p"
    using o all_stored_bound [of p env 0 d ls] by (cases x) (simp_all add: cpu_inv_def cpu_ending_def)
  moreover have "\<exists>d' y ls'. ?R ((d, x), ls) ((d', Some y), ls')"
  proof (cases x)
    case None
    then show ?thesis using o cpu_time_ends [of p env 0 d ls args, OF _ serial] by simp blast
  next
    case (Some y)
    then show ?thesis using reach_init by blast
  qed
  moreover have "\<exists>d' ls'. ?R ((cpu_data0, None), cpu_locals p) ((d', Some EXIT_SUCCESS), ls') \<and> unat (count d') < CPU_THREADS p * CPU_ITERATIONS p"
    if c: "calls_ok p env"
  proof -
    obtain e m where e: "?R ((cpu_data0, None), cpu_locals p) ((e, None), m)" "cpu_inv p env 1 e m" using two_pass [OF c serial] by blast
    obtain e' y m' where f: "?R ((e, None), m) ((e', Some y), m')" "cpu_ending p env 1 e' y" using cpu_time_ends [OF e(2) serial] by blast
    then have "y = EXIT_SUCCESS" "unat (count e') < CPU_THREADS p * CPU_ITERATIONS p" using c by (simp_all add: cpu_ending_def split: if_splits)
    then show ?thesis using reach_trans [OF f(1) e(1)] by blast
  qed
  ultimately show ?thesis using o by (cases x) (auto simp: cpu_ending_def split: if_splits)
qed

text \<open>Times of 1.5 s and 2.25 s in user mode.\<close>
definition cpu_times :: "int \<times> int \<Rightarrow> clocks" where
  "cpu_times u = \<lparr>clock_us = 0, ru_utime = u, ru_stime = (0, 0), monotonic = u\<rparr>"

definition cpu_env0 :: "cpu_env" where
  "cpu_env0 = \<lparr>init_fails = False, wait_fails = (\<lambda>_. False), create_fails = (\<lambda>_. False), join_fails = (\<lambda>_. False), destroy_fails = False,
     serial_thread = 1, time_start = cpu_times (1, 500000), time_end = cpu_times (2, 250000)\<rparr>"

theorem cpu_time_measured_witness:
  "(\<exists>d ls. run_sched 3 (cpu_time_step CPU1 cpu_env0 []) [2, 2, 2, 0, 1, 1, 1] ((cpu_data0, None), cpu_locals CPU1) = Some ((d, None), ls) \<and>
      CPU_time1 d = cpu_times (1, 500000)) \<and>
   (\<exists>d ls. reach 3 (cpu_time_step CPU1 cpu_env0 []) ((cpu_data0, None), cpu_locals CPU1) ((d, Some EXIT_SUCCESS), ls) \<and>
      unat (count d) < 2 ^ 21) \<and>
   times_printed CPU1 (time_end cpu_env0) (time_start cpu_env0) = [750000000]"
proof -
  have "case run_sched 3 (cpu_time_step CPU1 cpu_env0 []) [2, 2, 2, 0, 1, 1, 1] ((cpu_data0, None), cpu_locals CPU1) of None \<Rightarrow> False
      | Some c \<Rightarrow> snd (fst c) = None \<and> CPU_time1 (fst (fst c)) = cpu_times (1, 500000)" by code_simp
  then obtain d ls where r: "run_sched 3 (cpu_time_step CPU1 cpu_env0 []) [2, 2, 2, 0, 1, 1, 1] ((cpu_data0, None), cpu_locals CPU1) = Some ((d, None), ls)"
      "CPU_time1 d = cpu_times (1, 500000)"
    by (auto split: option.splits)
  have ok: "calls_ok CPU1 cpu_env0" "serial_thread cpu_env0 < CPU_THREADS CPU1" by (simp_all add: calls_ok_def cpu_env0_def)
  have "\<exists>d ls. reach 3 (cpu_time_step CPU1 cpu_env0 []) ((cpu_data0, None), cpu_locals CPU1) ((d, Some EXIT_SUCCESS), ls) \<and> unat (count d) < 2 ^ 21"
    using cpu_time_measured [of CPU1 cpu_env0 "[]" "[2, 2, 2, 0, 1, 1, 1]" d None ls] r(1) ok by (simp add: numeral_3_eq_3)
  moreover have "times_printed CPU1 (time_end cpu_env0) (time_start cpu_env0) = [750000000]"
    by (simp add: times_printed_def time_span_def cpu_env0_def cpu_times_def)
  ultimately show ?thesis using r by blast
qed

end
