(* ===== verification/Pitching.thy ===== *)
theory Pitching
  imports Threads
begin

text \<open>
  \<open>05-synchronization/pitching/pitching.c\<close> as the file stands, without the synchronization it asks for; \<open>pitchingSV.c\<close>
  has the same threads, \<open>pitchingPOSIX.c\<close> is the same file. Thread 0 is \<open>batter\<close>, 1 is \<open>pitcher\<close>, 2 is \<open>main\<close>. The three
  status variables are volatile: each read and write is a step. The arguments of a \<open>printf\<close> are evaluated in any order, so
  that it is a parameter whether the first text is chosen before the second.
\<close>

definition P_FAST :: int where "P_FAST = 70"
definition P_FAST_LONG :: int where "P_FAST_LONG = 80"
definition P_SLOW_LONG :: int where "P_SLOW_LONG = 40"
definition P_LONG_CATCHED :: int where "P_LONG_CATCHED = 2"
definition P_SHORT_CATCHED :: int where "P_SHORT_CATCHED = 40"

abbreviation (input) SPEED_SLOW :: nat where "SPEED_SLOW \<equiv> 0"
abbreviation (input) HIT_SHORT :: nat where "HIT_SHORT \<equiv> 0"
abbreviation (input) UNDEFINED :: nat where "UNDEFINED \<equiv> 2"

definition speed_status_text :: "string list" where "speed_status_text = [''SLOW'', ''FAST'', ''UNDEFINED'']"
definition hit_status_text :: "string list" where "hit_status_text = [''SHORT'', ''LONG'', ''UNDEFINED'']"
definition catch_status_text :: "string list" where "catch_status_text = [''NOT CATCHED'', ''CATCHED'', ''UNDEFINED'']"

text \<open>\<open>RAND_MAX\<close> is \<open>2 ^ 31 - 1\<close>: the product and the quotient of the doubles are exact.\<close>
definition probably :: "int \<Rightarrow> int \<Rightarrow> nat" where
  "probably probability rand = (if 100 * rand < probability * 2 ^ 31 then 1 else 0)"

text \<open>The lines, with the indices of the texts in them.\<close>
datatype pitch_line = Throwing nat | Fielding nat nat | Batting nat nat | Dropping | At_base nat

record pitch_data =
  speed_status :: nat
  hit_status :: nat
  catch_status :: nat
  pitch_lines :: "pitch_line list"
  created :: nat
  returned :: "nat \<Rightarrow> bool"

text \<open>The values of the three calls of \<open>rand\<close>, the order of evaluation, and which calls fail.\<close>
record pitch_env =
  rand_speed :: int
  rand_hit :: int
  rand_catch :: int
  left_first :: bool
  create_fails :: "nat \<Rightarrow> bool"
  join_fails :: "nat \<Rightarrow> bool"

datatype pitch_pc =
    T_start | T_throw nat | T_args | T_second nat | T_store "nat option" nat | T_first nat | T_say nat nat | T_run | T_check | T_base nat | T_end
  | TM_create nat | TM_join nat | TM_end

definition say :: "pitch_line \<Rightarrow> pitch_data \<Rightarrow> pitch_data" where
  "say l d = d\<lparr>pitch_lines := pitch_lines d @ [l]\<rparr>"

definition return_of :: "nat \<Rightarrow> pitch_data \<Rightarrow> pitch_data" where
  "return_of i d = d\<lparr>returned := (returned d)(i := True)\<rparr>"

definition field_chance :: "nat \<Rightarrow> int" where
  "field_chance hit = (if HIT_SHORT = hit then P_SHORT_CATCHED else P_LONG_CATCHED)"

definition bat_chance :: "nat \<Rightarrow> int" where
  "bat_chance speed = (if SPEED_SLOW = speed then P_SLOW_LONG else P_FAST_LONG)"

text \<open>\<open>T_args\<close>: the first of the two arguments is evaluated, then the other; the second one reads the status of the other
  thread, computes its own and stores it.\<close>
definition pitcher :: "pitch_env \<Rightarrow> pitch_data \<Rightarrow> pitch_pc \<Rightarrow> (pitch_data, pitch_pc) act option" where
  "pitcher env d pc =
     (case pc of
        T_start \<Rightarrow> (let s = probably P_FAST (rand_speed env) in Some (Go (d\<lparr>speed_status := s\<rparr>) (T_throw s)))
      | T_throw s \<Rightarrow> Some (Go (say (Throwing s) d) T_args)
      | T_args \<Rightarrow>
          if left_first env then Some (Go d (T_second (hit_status d)))
          else Some (Go d (T_store None (probably (field_chance (hit_status d)) (rand_catch env))))
      | T_second h \<Rightarrow> Some (Go d (T_store (Some h) (probably (field_chance (hit_status d)) (rand_catch env))))
      | T_store h c \<Rightarrow> Some (Go (d\<lparr>catch_status := c\<rparr>) (case h of None \<Rightarrow> T_first c | Some h \<Rightarrow> T_say h c))
      | T_first c \<Rightarrow> Some (Go d (T_say (hit_status d) c))
      | T_say h c \<Rightarrow> Some (Go (return_of 1 (say (Fielding h c) d)) T_end)
      | _ \<Rightarrow> None)"

definition batter :: "pitch_env \<Rightarrow> pitch_data \<Rightarrow> pitch_pc \<Rightarrow> (pitch_data, pitch_pc) act option" where
  "batter env d pc =
     (case pc of
        T_start \<Rightarrow>
          if left_first env then Some (Go d (T_second (speed_status d)))
          else Some (Go d (T_store None (probably (bat_chance (speed_status d)) (rand_hit env))))
      | T_second s \<Rightarrow> Some (Go d (T_store (Some s) (probably (bat_chance (speed_status d)) (rand_hit env))))
      | T_store s h \<Rightarrow> Some (Go (d\<lparr>hit_status := h\<rparr>) (case s of None \<Rightarrow> T_first h | Some s \<Rightarrow> T_say s h))
      | T_first h \<Rightarrow> Some (Go d (T_say (speed_status d) h))
      | T_say s h \<Rightarrow> Some (Go (say (Batting s h) d) T_run)
      | T_run \<Rightarrow> Some (Go (say Dropping d) T_check)
      | T_check \<Rightarrow> Some (Go d (T_base (catch_status d)))
      | T_base c \<Rightarrow> Some (Go (return_of 0 (say (At_base c) d)) T_end)
      | _ \<Rightarrow> None)"

definition pitch_main :: "pitch_env \<Rightarrow> pitch_data \<Rightarrow> pitch_pc \<Rightarrow> (pitch_data, pitch_pc) act option" where
  "pitch_main env d pc =
     (case pc of
        TM_create t \<Rightarrow>
          if create_fails env t then Some (Quit d EXIT_FAILURE)
          else Some (Go (d\<lparr>created := t + 1\<rparr>) (if t = 0 then TM_create 1 else TM_join 0))
      | TM_join t \<Rightarrow>
          if join_fails env t then Some (Quit d EXIT_FAILURE)
          else if returned d t then Some (Go d (if t = 0 then TM_join 1 else TM_end))
          else None
      | TM_end \<Rightarrow> Some (Quit d EXIT_SUCCESS)
      | _ \<Rightarrow> None)"

definition pitch_outs :: "pitch_env \<Rightarrow> nat \<Rightarrow> pitch_data \<Rightarrow> pitch_pc \<Rightarrow> (pitch_data, pitch_pc) act option" where
  "pitch_outs env i d pc =
     (if i = 2 then pitch_main env d pc
      else if i < created d then (if i = 0 then batter env d pc else pitcher env d pc)
      else None)"

definition pitch_data0 :: pitch_data where
  "pitch_data0 = \<lparr>speed_status = UNDEFINED, hit_status = UNDEFINED, catch_status = UNDEFINED, pitch_lines = [], created = 0,
     returned = (\<lambda>_. False)\<rparr>"

definition pitch_locals :: "nat \<Rightarrow> pitch_pc" where
  "pitch_locals i = (if i = 2 then TM_create 0 else T_start)"

section \<open>The probabilities\<close>

lemma probably_le: "probably p r \<le> 1"
  by (simp add: probably_def)

text \<open>Of the \<open>2 ^ 31\<close> values of \<open>rand\<close> as many give 1 as there are below the given part of them.\<close>
lemma probably_count:
  assumes "0 \<le> p" "p \<le> 100"
  shows "card {r. 0 \<le> r \<and> r < 2 ^ 31 \<and> probably p r = 1} = nat ((p * 2 ^ 31 + 99) div 100)"
proof -
  have "{r. 0 \<le> r \<and> r < 2 ^ 31 \<and> probably p r = 1} = {0..<(p * 2 ^ 31 + 99) div 100}"
    using assms by (auto simp: probably_def)
  then show ?thesis by simp
qed

section \<open>The invariant\<close>

text \<open>Each status is written once; a line shows what its own thread wrote, and of the other thread that or nothing yet.\<close>
definition seen :: "nat \<Rightarrow> nat \<Rightarrow> bool" where
  "seen x status \<longleftrightarrow> x = UNDEFINED \<or> x = status"

fun line_ok :: "pitch_data \<Rightarrow> pitch_line \<Rightarrow> bool" where
  "line_ok d (Throwing s) = (s = speed_status d)"
| "line_ok d (Fielding h c) = (seen h (hit_status d) \<and> c = catch_status d)"
| "line_ok d (Batting s h) = (seen s (speed_status d) \<and> h = hit_status d)"
| "line_ok d Dropping = True"
| "line_ok d (At_base c) = seen c (catch_status d)"

definition catches :: "pitch_env \<Rightarrow> nat set" where
  "catches env = {probably P_SHORT_CATCHED (rand_catch env), probably P_LONG_CATCHED (rand_catch env)}"

definition hits :: "pitch_env \<Rightarrow> nat set" where
  "hits env = {probably P_SLOW_LONG (rand_hit env), probably P_FAST_LONG (rand_hit env)}"

fun is_pitcher :: "pitch_line \<Rightarrow> bool" where
  "is_pitcher (Throwing s) = True"
| "is_pitcher (Fielding h c) = True"
| "is_pitcher _ = False"

fun kind :: "pitch_line \<Rightarrow> nat" where
  "kind (Throwing s) = 0"
| "kind (Fielding h c) = 1"
| "kind (Batting s h) = 0"
| "kind Dropping = 1"
| "kind (At_base c) = 2"

definition pitcher_lines :: "pitch_data \<Rightarrow> nat list" where
  "pitcher_lines d = map kind (filter is_pitcher (pitch_lines d))"

definition batter_lines :: "pitch_data \<Rightarrow> nat list" where
  "batter_lines d = map kind (filter (\<lambda>l. \<not> is_pitcher l) (pitch_lines d))"

text \<open>The pitcher at a position: what it has written and printed.\<close>
fun pitcher_ok :: "pitch_env \<Rightarrow> pitch_data \<Rightarrow> pitch_pc \<Rightarrow> bool" where
  "pitcher_ok env d T_start = (speed_status d = UNDEFINED \<and> catch_status d = UNDEFINED \<and> pitcher_lines d = [] \<and> \<not> returned d 1)"
| "pitcher_ok env d (T_throw s) = (speed_status d = s \<and> catch_status d = UNDEFINED \<and> pitcher_lines d = [] \<and> \<not> returned d 1 \<and> s = probably P_FAST (rand_speed env))"
| "pitcher_ok env d T_args = (speed_status d = probably P_FAST (rand_speed env) \<and> catch_status d = UNDEFINED \<and> pitcher_lines d = [0] \<and> \<not> returned d 1)"
| "pitcher_ok env d (T_second h) = (speed_status d = probably P_FAST (rand_speed env) \<and> catch_status d = UNDEFINED \<and> pitcher_lines d = [0] \<and> \<not> returned d 1 \<and> seen h (hit_status d))"
| "pitcher_ok env d (T_store a c) = (speed_status d = probably P_FAST (rand_speed env) \<and> catch_status d = UNDEFINED \<and> pitcher_lines d = [0] \<and> \<not> returned d 1 \<and>
     (case a of None \<Rightarrow> True | Some h \<Rightarrow> seen h (hit_status d)) \<and> c \<in> catches env)"
| "pitcher_ok env d (T_first c) = (speed_status d = probably P_FAST (rand_speed env) \<and> catch_status d = c \<and> pitcher_lines d = [0] \<and> \<not> returned d 1 \<and> c \<in> catches env)"
| "pitcher_ok env d (T_say h c) = (speed_status d = probably P_FAST (rand_speed env) \<and> catch_status d = c \<and> pitcher_lines d = [0] \<and> \<not> returned d 1 \<and> c \<in> catches env \<and>
     seen h (hit_status d))"
| "pitcher_ok env d T_end = (speed_status d = probably P_FAST (rand_speed env) \<and> catch_status d \<in> catches env \<and> pitcher_lines d = [0, 1] \<and> returned d 1)"
| "pitcher_ok env d _ = False"

fun batter_ok :: "pitch_env \<Rightarrow> pitch_data \<Rightarrow> pitch_pc \<Rightarrow> bool" where
  "batter_ok env d T_start = (hit_status d = UNDEFINED \<and> batter_lines d = [] \<and> \<not> returned d 0)"
| "batter_ok env d (T_second s) = (hit_status d = UNDEFINED \<and> batter_lines d = [] \<and> \<not> returned d 0 \<and> seen s (speed_status d))"
| "batter_ok env d (T_store a h) = (hit_status d = UNDEFINED \<and> batter_lines d = [] \<and> \<not> returned d 0 \<and> h \<in> hits env \<and>
     (case a of None \<Rightarrow> True | Some s \<Rightarrow> seen s (speed_status d)))"
| "batter_ok env d (T_first h) = (hit_status d = h \<and> batter_lines d = [] \<and> \<not> returned d 0 \<and> h \<in> hits env)"
| "batter_ok env d (T_say s h) = (hit_status d = h \<and> batter_lines d = [] \<and> \<not> returned d 0 \<and> h \<in> hits env \<and> seen s (speed_status d))"
| "batter_ok env d T_run = (hit_status d \<in> hits env \<and> batter_lines d = [0] \<and> \<not> returned d 0)"
| "batter_ok env d T_check = (hit_status d \<in> hits env \<and> batter_lines d = [0, 1] \<and> \<not> returned d 0)"
| "batter_ok env d (T_base c) = (hit_status d \<in> hits env \<and> batter_lines d = [0, 1] \<and> \<not> returned d 0 \<and> seen c (catch_status d))"
| "batter_ok env d T_end = (hit_status d \<in> hits env \<and> batter_lines d = [0, 1, 2] \<and> returned d 0)"
| "batter_ok env d _ = False"

fun pitch_main_ok :: "pitch_data \<Rightarrow> pitch_pc \<Rightarrow> bool" where
  "pitch_main_ok d (TM_create t) = (t < 2 \<and> created d = t)"
| "pitch_main_ok d (TM_join t) = (t < 2 \<and> created d = 2 \<and> (t = 1 \<longrightarrow> returned d 0))"
| "pitch_main_ok d TM_end = (created d = 2 \<and> returned d 0 \<and> returned d 1)"
| "pitch_main_ok d _ = False"

definition pitch_inv :: "pitch_env \<Rightarrow> pitch_data \<Rightarrow> (nat \<Rightarrow> pitch_pc) \<Rightarrow> bool" where
  "pitch_inv env d ls \<longleftrightarrow>
     batter_ok env d (ls 0) \<and> pitcher_ok env d (ls 1) \<and> pitch_main_ok d (ls 2) \<and> list_all (line_ok d) (pitch_lines d)"

text \<open>What the others may change.\<close>
definition more :: "nat \<Rightarrow> nat \<Rightarrow> bool" where
  "more status status' \<longleftrightarrow> status' = status \<or> status = UNDEFINED"

lemma seen_more: "seen x s \<Longrightarrow> more s s' \<Longrightarrow> seen x s'"
  by (auto simp: seen_def more_def)

lemmas lines_defs = pitcher_lines_def batter_lines_def say_def return_of_def

lemma line_ok_more:
  "line_ok d l \<Longrightarrow> more (hit_status d) (hit_status d') \<Longrightarrow> more (speed_status d) (speed_status d') \<Longrightarrow>
     more (catch_status d) (catch_status d') \<Longrightarrow> speed_status d' = speed_status d \<or> \<not> is_pitcher l \<Longrightarrow>
     catch_status d' = catch_status d \<or> \<not> is_pitcher l \<Longrightarrow> hit_status d' = hit_status d \<or> is_pitcher l \<Longrightarrow> line_ok d' l"
  using seen_more by (cases l) auto

lemma chance_in:
  "probably (field_chance h) (rand_catch env) \<in> catches env" "probably (bat_chance s) (rand_hit env) \<in> hits env"
  by (simp_all add: field_chance_def bat_chance_def catches_def hits_def)

text \<open>The steps of the threads, for themselves and for the other one.\<close>
lemma pitcher_step:
  assumes "pitcher env d l = Some (Go d' l')" "pitcher_ok env d l"
  shows "pitcher_ok env d' l'" "batter_lines d' = batter_lines d" "hit_status d' = hit_status d" "created d' = created d"
    "\<And>j. j \<noteq> 1 \<Longrightarrow> returned d' j = returned d j" "\<And>j. returned d j \<Longrightarrow> returned d' j"
    "more (speed_status d) (speed_status d')" "more (catch_status d) (catch_status d')"
    "pitch_lines d' = pitch_lines d \<or> (\<exists>x. pitch_lines d' = pitch_lines d @ [x] \<and> line_ok d' x)"
    "speed_status d' = speed_status d \<or> pitcher_lines d = []" "catch_status d' = catch_status d \<or> pitcher_lines d = [0]"
  using assms chance_in(1) [of "hit_status d" env]
  by (cases l; auto simp: pitcher_def lines_defs more_def seen_def Let_def split: if_splits option.splits)+

lemma batter_step:
  assumes "batter env d l = Some (Go d' l')" "batter_ok env d l"
  shows "batter_ok env d' l'" "pitcher_lines d' = pitcher_lines d" "speed_status d' = speed_status d" "catch_status d' = catch_status d"
    "created d' = created d" "\<And>j. j \<noteq> 0 \<Longrightarrow> returned d' j = returned d j" "\<And>j. returned d j \<Longrightarrow> returned d' j"
    "more (hit_status d) (hit_status d')"
    "pitch_lines d' = pitch_lines d \<or> (\<exists>x. pitch_lines d' = pitch_lines d @ [x] \<and> line_ok d' x)"
    "hit_status d' = hit_status d \<or> batter_lines d = []"
  using assms chance_in(2) [of "speed_status d" env]
  by (cases l; auto simp: batter_def lines_defs more_def seen_def Let_def split: if_splits option.splits)+

lemma batter_frame:
  assumes "batter_ok env d l" "batter_lines d' = batter_lines d" "hit_status d' = hit_status d" "returned d' 0 = returned d 0"
    and "more (speed_status d) (speed_status d')" "more (catch_status d) (catch_status d')"
  shows "batter_ok env d' l"
  using assms seen_more by (cases l) (auto split: option.splits)

lemma pitcher_frame:
  assumes "pitcher_ok env d l" "pitcher_lines d' = pitcher_lines d" "speed_status d' = speed_status d" "catch_status d' = catch_status d"
    and "returned d' 1 = returned d 1" "more (hit_status d) (hit_status d')"
  shows "pitcher_ok env d' l"
  using assms seen_more by (cases l) (auto split: option.splits)

lemma pitch_main_frame:
  "pitch_main_ok d m \<Longrightarrow> created d' = created d \<Longrightarrow> (\<And>j. returned d j \<Longrightarrow> returned d' j) \<Longrightarrow> pitch_main_ok d' m"
  by (cases m) auto

lemma more_refl [simp]: "more s s"
  by (simp add: more_def)

lemma no_pitcher_lines: "pitcher_lines d = [] \<Longrightarrow> l \<in> set (pitch_lines d) \<Longrightarrow> \<not> is_pitcher l"
  by (auto simp: pitcher_lines_def filter_empty_conv)

lemma no_batter_lines: "batter_lines d = [] \<Longrightarrow> l \<in> set (pitch_lines d) \<Longrightarrow> is_pitcher l"
  by (auto simp: batter_lines_def filter_empty_conv)

text \<open>Before the catch is stored the pitcher has only printed the throw.\<close>
lemma only_throw:
  assumes a: "pitcher_lines d = [0]" and "l \<in> set (pitch_lines d)" "is_pitcher l"
  shows "kind l = 0"
proof -
  have "kind l \<in> kind ` {x \<in> set (pitch_lines d). is_pitcher x}" using assms(2,3) by blast
  then have "kind l \<in> set (pitcher_lines d)" by (simp add: pitcher_lines_def)
  then show ?thesis unfolding a by simp
qed

lemma pitch_inv_pitcher:
  assumes "pitch_inv env d ls" "pitcher env d (ls 1) = Some (Go d' l')"
  shows "pitch_inv env d' (ls(1 := l'))"
proof -
  have I: "batter_ok env d (ls 0)" "pitcher_ok env d (ls 1)" "pitch_main_ok d (ls 2)" "\<And>l. l \<in> set (pitch_lines d) \<Longrightarrow> line_ok d l"
    using assms(1) by (simp_all add: pitch_inv_def list_all_iff)
  note st = pitcher_step [OF assms(2) I(2)]
  have "line_ok d' l" if "l \<in> set (pitch_lines d)" for l
  proof (cases "is_pitcher l")
    case False
    then show ?thesis using line_ok_more [OF I(4) [OF that], of d'] st by simp
  next
    case True
    then have s: "speed_status d' = speed_status d" using st(10) no_pitcher_lines that by blast
    show ?thesis
    proof (cases "kind l = 0")
      case True
      then show ?thesis using I(4) [OF that] s \<open>is_pitcher l\<close> by (cases l) auto
    next
      case False
      then have "catch_status d' = catch_status d" using st(11) only_throw [OF _ that \<open>is_pitcher l\<close>] by metis
      then show ?thesis using line_ok_more [OF I(4) [OF that], of d'] st s by simp
    qed
  qed
  then have "list_all (line_ok d') (pitch_lines d')" using st(9) by (auto simp: list_all_iff)
  moreover have "batter_ok env d' (ls 0)" using batter_frame [OF I(1)] st by simp
  moreover have "pitch_main_ok d' (ls 2)" using pitch_main_frame [OF I(3)] st by blast
  ultimately show ?thesis using st(1) by (simp add: pitch_inv_def)
qed

lemma pitch_inv_batter:
  assumes "pitch_inv env d ls" "batter env d (ls 0) = Some (Go d' l')"
  shows "pitch_inv env d' (ls(0 := l'))"
proof -
  have I: "batter_ok env d (ls 0)" "pitcher_ok env d (ls 1)" "pitch_main_ok d (ls 2)" "\<And>l. l \<in> set (pitch_lines d) \<Longrightarrow> line_ok d l"
    using assms(1) by (simp_all add: pitch_inv_def list_all_iff)
  note st = batter_step [OF assms(2) I(1)]
  have "line_ok d' l" if "l \<in> set (pitch_lines d)" for l
    using line_ok_more [OF I(4) [OF that], of d'] st(3,4,8,10) no_batter_lines that by auto
  then have "list_all (line_ok d') (pitch_lines d')" using st(9) by (auto simp: list_all_iff)
  moreover have "pitcher_ok env d' (ls 1)" using pitcher_frame [OF I(2)] st by simp
  moreover have "pitch_main_ok d' (ls 2)" using pitch_main_frame [OF I(3)] st by blast
  ultimately show ?thesis using st(1) by (simp add: pitch_inv_def)
qed

lemma pitch_inv_main:
  assumes "pitch_inv env d ls" "pitch_main env d (ls 2) = Some (Go d' l')"
  shows "pitch_inv env d' (ls(2 := l'))"
proof -
  have I: "batter_ok env d (ls 0)" "pitcher_ok env d (ls 1)" "pitch_main_ok d (ls 2)" "list_all (line_ok d) (pitch_lines d)"
    using assms(1) by (simp_all add: pitch_inv_def)
  have "pitch_main_ok d' l' \<and> (d' = d \<or> (\<exists>t. d' = d\<lparr>created := t\<rparr>))"
    using I(3) assms(2) by (cases "ls 2") (auto simp: pitch_main_def less_2_cases_iff split: if_splits)
  then show ?thesis
  proof (elim conjE disjE exE)
    fix t assume m: "pitch_main_ok d' l'" and d': "d' = d\<lparr>created := t\<rparr>"
    have "line_ok d' l = line_ok d l" for l by (cases l) (simp_all add: d')
    then have "list_all (line_ok d') (pitch_lines d')" using I(4) by (simp add: list_all_iff d')
    moreover have "batter_ok env d' (ls 0)" using batter_frame [OF I(1), of d'] by (simp add: d' batter_lines_def)
    moreover have "pitcher_ok env d' (ls 1)" using pitcher_frame [OF I(2), of d'] by (simp add: d' pitcher_lines_def)
    ultimately show ?thesis using m by (simp add: pitch_inv_def)
  qed (use I in \<open>simp add: pitch_inv_def\<close>)
qed

text \<open>Every line names a text of its array.\<close>
definition texts_exist :: "pitch_line \<Rightarrow> bool" where
  "texts_exist l =
     (case l of
        Throwing s \<Rightarrow> s < length speed_status_text
      | Fielding h c \<Rightarrow> h < length hit_status_text \<and> c < length catch_status_text
      | Batting s h \<Rightarrow> s < length speed_status_text \<and> h < length hit_status_text
      | Dropping \<Rightarrow> True
      | At_base c \<Rightarrow> c < length catch_status_text)"

lemma chances_le: "c \<in> catches env \<Longrightarrow> c < 2" "h \<in> hits env \<Longrightarrow> h < 2"
  by (auto simp: catches_def hits_def probably_def)

lemma statuses_le:
  assumes "pitch_inv env d ls"
  shows "speed_status d \<le> 2" "hit_status d \<le> 2" "catch_status d \<le> 2"
proof -
  have I: "batter_ok env d (ls 0)" "pitcher_ok env d (ls 1)" using assms by (simp_all add: pitch_inv_def)
  have s: "probably P_FAST (rand_speed env) \<le> 2" by (simp add: probably_def)
  then show "speed_status d \<le> 2" using I(2) by (cases "ls 1") simp_all
  show "hit_status d \<le> 2" using I(1) chances_le(2) [of "hit_status d" env] by (cases "ls 0") auto
  show "catch_status d \<le> 2" using I(2) chances_le(1) [of "catch_status d" env] by (cases "ls 1") auto
qed

lemma texts_ok:
  assumes "pitch_inv env d ls"
  shows "list_all texts_exist (pitch_lines d)"
proof -
  have "texts_exist l" if "line_ok d l" for l
    using that statuses_le [OF assms]
    by (cases l) (auto simp: texts_exist_def seen_def speed_status_text_def hit_status_text_def catch_status_text_def)
  then show ?thesis using assms by (auto simp: pitch_inv_def list_all_iff)
qed

definition pitch_calls_ok :: "pitch_env \<Rightarrow> bool" where
  "pitch_calls_ok env \<longleftrightarrow> (\<forall>t<2. \<not> create_fails env t \<and> \<not> join_fails env t)"

text \<open>At the end.\<close>
definition pitch_ending :: "pitch_env \<Rightarrow> pitch_data \<Rightarrow> int \<Rightarrow> bool" where
  "pitch_ending env d x \<longleftrightarrow>
     list_all (line_ok d) (pitch_lines d) \<and> list_all texts_exist (pitch_lines d) \<and>
     (if x = EXIT_SUCCESS then
        pitcher_lines d = [0, 1] \<and> batter_lines d = [0, 1, 2] \<and> speed_status d = probably P_FAST (rand_speed env) \<and>
        hit_status d \<in> hits env \<and> catch_status d \<in> catches env
      else x = EXIT_FAILURE \<and> \<not> pitch_calls_ok env)"

fun pitch_weight :: "pitch_pc \<Rightarrow> nat" where
  "pitch_weight T_start = 10"
| "pitch_weight (T_throw s) = 9"
| "pitch_weight T_args = 8"
| "pitch_weight (T_second h) = 7"
| "pitch_weight (T_store a c) = 6"
| "pitch_weight (T_first c) = 5"
| "pitch_weight (T_say h c) = 4"
| "pitch_weight T_run = 3"
| "pitch_weight T_check = 2"
| "pitch_weight (T_base c) = 1"
| "pitch_weight T_end = 0"
| "pitch_weight (TM_create t) = (if t = 0 then 5 else 4)"
| "pitch_weight (TM_join t) = (if t = 0 then 3 else 2)"
| "pitch_weight TM_end = 1"

lemma pitch_no_sync: "pitch_outs env i d l \<noteq> Some (Sync d' l')"
  by (cases l) (simp_all add: pitch_outs_def pitch_main_def batter_def pitcher_def Let_def)

lemma pitch_less:
  assumes "pitch_outs env i d l = Some (Go d' l')"
  shows "pitch_weight l' < pitch_weight l"
  using assms
  by (cases l) (auto simp: pitch_outs_def pitch_main_def batter_def pitcher_def Let_def split: if_splits option.splits)

lemma pitch_step:
  assumes "pitch_inv env d ls" "i < 3" "pitch_outs env i d (ls i) = Some (Go d' l')"
  shows "pitch_inv env d' (ls(i := l'))"
proof -
  consider "i = 0" | "i = 1" | "i = 2" using assms(2) by linarith
  then show ?thesis
    using pitch_inv_batter [OF assms(1), of d' l'] pitch_inv_pitcher [OF assms(1), of d' l'] pitch_inv_main [OF assms(1), of d' l'] assms(3)
    by cases (simp_all add: pitch_outs_def split: if_splits)
qed

lemma pitch_quits:
  assumes "pitch_inv env d ls" "i < 3" "pitch_outs env i d (ls i) = Some (Quit d' x)"
  shows "pitch_ending env d' x"
proof -
  have I: "batter_ok env d (ls 0)" "pitcher_ok env d (ls 1)" "pitch_main_ok d (ls 2)" "list_all (line_ok d) (pitch_lines d)"
    using assms(1) by (simp_all add: pitch_inv_def)
  have m: "i = 2" using assms(3)
    by (cases "ls i") (auto simp: pitch_outs_def batter_def pitcher_def Let_def split: if_splits)
  then have q: "pitch_main env d (ls 2) = Some (Quit d' x)" using assms(3) by (simp add: pitch_outs_def)
  show ?thesis
  proof (cases "ls 2 = TM_end")
    case True
    then have r: "returned d 0" "returned d 1" "d' = d" "x = EXIT_SUCCESS" using I(3) q by (simp_all add: pitch_main_def)
    have "batter_lines d = [0, 1, 2] \<and> hit_status d \<in> hits env" using I(1) r(1) by (cases "ls 0") simp_all
    moreover have "pitcher_lines d = [0, 1] \<and> speed_status d = probably P_FAST (rand_speed env) \<and> catch_status d \<in> catches env"
      using I(2) r(2) by (cases "ls 1") simp_all
    ultimately show ?thesis using I(4) r texts_ok [OF assms(1)] by (simp add: pitch_ending_def)
  next
    case False
    then have "x = EXIT_FAILURE \<and> \<not> pitch_calls_ok env \<and> d' = d"
      using q I(3) by (cases "ls 2") (auto simp: pitch_main_def pitch_calls_ok_def split: if_splits)
    then show ?thesis using I(4) texts_ok [OF assms(1)] by (simp add: pitch_ending_def)
  qed
qed

lemma pitch_moves:
  assumes "pitch_inv env d ls"
  shows "\<exists>i<3. pitch_outs env i d (ls i) \<noteq> None"
proof -
  have I: "batter_ok env d (ls 0)" "pitcher_ok env d (ls 1)" "pitch_main_ok d (ls 2)"
    using assms(1) by (simp_all add: pitch_inv_def)
  have "created d = 2 \<and> (\<not> returned d 0 \<or> \<not> returned d 1)" if "pitch_main env d (ls 2) = None"
    using I(3) that by (cases "ls 2") (auto simp: pitch_main_def less_2_cases_iff split: if_splits)
  then consider (main) "pitch_main env d (ls 2) \<noteq> None" | (batter) "created d = 2" "\<not> returned d 0" | (pitcher) "created d = 2" "\<not> returned d 1"
    by blast
  then show ?thesis
  proof cases
    case main
    then show ?thesis by (intro exI [of _ 2]) (simp add: pitch_outs_def)
  next
    case batter
    then have "batter env d (ls 0) \<noteq> None" using I(1) by (cases "ls 0") (simp_all add: batter_def)
    then show ?thesis using batter(1) by (intro exI [of _ 0]) (simp add: pitch_outs_def)
  next
    case pitcher
    then have "pitcher env d (ls 1) \<noteq> None" using I(2) by (cases "ls 1") (simp_all add: pitcher_def Let_def)
    then show ?thesis using pitcher(1) by (intro exI [of _ 1]) (simp add: pitch_outs_def)
  qed
qed

interpretation pitching: finite_program 3 "pitch_outs env" "pitch_inv env" "pitch_ending env" pitch_weight False
  for env
proof (unfold_locales, goal_cases)
  case 1
  then show ?case by (rule pitch_no_sync)
next
  case 2
  then show ?case by (rule pitch_less)
next
  case 3
  then show ?case by (rule pitch_step)
next
  case 4
  then show ?case by (rule pitch_quits)
next
  case 5
  then show ?case using pitch_moves by blast
qed

lemma pitch_start: "pitch_inv env pitch_data0 pitch_locals"
  by (simp add: pitch_inv_def pitch_data0_def pitch_locals_def pitcher_lines_def batter_lines_def)

text \<open>C38. Every run of \<open>pitching.c\<close>, whatever the order of evaluation, ends after at most 26 steps, with a failure only when
  \<open>pthread_create\<close> or \<open>pthread_join\<close> fails, and every text that is printed exists. On success the pitcher has printed the throw
  and then the catch, the batter the bat, the run and the first base; each line shows the status its own thread has stored,
  and of the other thread that status or \<open>UNDEFINED\<close>; the speed comes of its chance, the hit and the catch of one of their two chances.
\<close>
theorem pitching_statuses:
  assumes "run_sched 3 (free_step (pitch_outs env)) sched ((pitch_data0, None), pitch_locals) = Some ((d, x), ls)"
  shows "length sched \<le> 26 \<and> list_all (line_ok d) (pitch_lines d) \<and>
    list_all texts_exist (pitch_lines d) \<and>
    (stuck 3 (free_step (pitch_outs env)) ((d, x), ls) \<longrightarrow> x \<noteq> None) \<and>
    (x \<noteq> None \<longrightarrow> (if x = Some EXIT_SUCCESS then
        pitcher_lines d = [0, 1] \<and> batter_lines d = [0, 1, 2] \<and> speed_status d = probably P_FAST (rand_speed env) \<and>
        hit_status d \<in> hits env \<and> catch_status d \<in> catches env
      else x = Some EXIT_FAILURE \<and> \<not> pitch_calls_ok env))"
proof -
  have r: "reach 3 (free_step (pitch_outs env)) ((pitch_data0, None), pitch_locals) ((d, x), ls)" by (rule run_sched_reach [OF assms])
  have n: "length sched \<le> 26"
    using pitching.run_length [OF assms] by (simp add: pitch_locals_def numeral_3_eq_3)
  show ?thesis
  proof (cases x)
    case None
    then have I: "pitch_inv env d ls" using pitching.while_running [OF _ pitch_start] r by simp
    have "\<not> stuck 3 (free_step (pitch_outs env)) ((d, x), ls)"
      using pitching.stuck_end [OF r pitch_start] None by blast
    then show ?thesis using n texts_ok [OF I] I None by (simp add: pitch_inv_def list_all_iff)
  next
    case (Some e)
    then have "pitch_ending env d e" using pitching.at_end [OF _ pitch_start] r by simp
    then show ?thesis using n Some by (simp add: pitch_ending_def split: if_split_asm)
  qed
qed

text \<open>A batter that is first: an undefined ball is hit, and at the first base the catch is undefined.\<close>
definition pitch_env0 :: pitch_env where
  "pitch_env0 = \<lparr>rand_speed = 0, rand_hit = 2 ^ 30, rand_catch = 2 ^ 30, left_first = True, create_fails = (\<lambda>_. False), join_fails = (\<lambda>_. False)\<rparr>"

theorem pitching_statuses_witness:
  "\<exists>d ls. run_sched 3 (free_step (pitch_outs pitch_env0)) [2, 0, 0, 0, 0, 0, 0, 0, 2, 2, 1, 1, 1, 1, 1, 1, 2, 2] ((pitch_data0, None), pitch_locals) =
        Some ((d, Some EXIT_SUCCESS), ls) \<and>
      pitch_lines d = [Batting UNDEFINED 1, Dropping, At_base UNDEFINED, Throwing 1, Fielding 1 0] \<and>
      speed_status d = probably P_FAST 0 \<and> pitcher_lines d = [0, 1]"
proof -
  let ?s = "[2, 0, 0, 0, 0, 0, 0, 0, 2, 2, 1, 1, 1, 1, 1, 1, 2, 2]"
  have "case run_sched 3 (free_step (pitch_outs pitch_env0)) ?s ((pitch_data0, None), pitch_locals) of None \<Rightarrow> False
      | Some c \<Rightarrow> snd (fst c) = Some EXIT_SUCCESS \<and>
          pitch_lines (fst (fst c)) = [Batting UNDEFINED 1, Dropping, At_base UNDEFINED, Throwing 1, Fielding 1 0]" by code_simp
  then obtain d ls where r: "run_sched 3 (free_step (pitch_outs pitch_env0)) ?s ((pitch_data0, None), pitch_locals) = Some ((d, Some EXIT_SUCCESS), ls)"
      "pitch_lines d = [Batting UNDEFINED 1, Dropping, At_base UNDEFINED, Throwing 1, Fielding 1 0]"
    by (auto split: option.splits)
  from pitching_statuses [OF r(1)] have "speed_status d = probably P_FAST (rand_speed pitch_env0)" "pitcher_lines d = [0, 1]" by simp_all
  then show ?thesis using r by (simp add: pitch_env0_def)
qed

end
