(* ===== verification/Spec2Isabelle.thy ===== *)
theory Spec2Isabelle
  imports Bank_Deposit Peterson_TSO Bank_Transactions Producer_Consumer Thread_Add Basic_Traceroute Working_Threads Simple_Sockets Messages
    Condition_Variables Sync_Barrier Sync_RGB Cleanup Withdrawals Address_Translation Prime_Threads Get_Passwd Pipes
    Memory_Map Argument_Passing Signals Child_Signals Exit_Functions Cpu_Time Pitching
begin

text \<open>
  A verification development for the sample programs of an operating-systems course: the ways to
  protect a critical section, the programs that use them, and the network programs.

  \<^bold>\<open>The programs and their theories.\<close>

  \<^item> \<open>everything.h\<close> (\<open>cs_init\<close>, \<open>cs_destroy\<close>, \<open>cs_enter\<close>, \<open>cs_leave\<close> with ten methods) is
    \<open>CS_Methods\<close>; the five earlier headers, one group of methods each
    (\<open>locked_testAset_xchng.h\<close>, \<open>mutex_sem_namedSem.h\<close>, \<open>sem_sysv.h\<close>,
    \<open>messageQueue_posix.h\<close>, \<open>messageQueue_sysV.h\<close>), are \<open>CS_Variants\<close>. The file-scope variables
    are the record \<open>cs_vars\<close>, which extends the kernel's tables; the semaphores, mutexes and
    queues themselves are in \<open>Ipc\<close>, as POSIX and Linux document them.
  \<^item> \<open>04-critical_section/Peterson*.h\<close> are \<open>Peterson\<close> (accesses in program order) and
    \<open>Peterson_TSO\<close> (the store buffers of x86).
  \<^item> the deposit programs (\<open>04-critical_section/bank_deposit.c\<close>, \<open>new/\<close>, \<open>CPUtime/\<close>,
    \<open>CPUtime/v2021/\<close>): \<open>Deposit\<close> has the threads and \<open>main\<close>, \<open>Plain_Deposit\<close> what becomes of them when
    nothing keeps them apart, \<open>Bank_Deposit\<close> the options, the two \<open>cs_methods.h\<close> (whose entry and exit sections
    are empty) and the four programs up to their threads. The same threads with the methods of
    \<open>everything.h\<close> and of the earlier headers, which no program includes, are in \<open>Bank_Deposit\<close> too, as
    \<open>cs_methods.h\<close> is a template of these.
  \<^item> \<open>bank_withdraw.c\<close> and \<open>bank_withdrawal.c\<close>, without any protection: \<open>Withdrawals\<close>.
  \<^item> \<open>bank_transactions.c\<close> and \<open>bank_transactions_Peterson.c\<close>: \<open>Bank_Transactions\<close>.
  \<^item> \<open>thread_add*.c\<close> of \<open>04-critical_section\<close> and \<open>thread_add_barrier_mutex.c\<close> of
    \<open>05-synchronization\<close>: \<open>Thread_Add\<close>.
  \<^item> the ring buffers of \<open>bounded_buffer.c\<close> and \<open>producer_consumer.c\<close>, and the threads of the
    former: \<open>Ring_Buffer\<close>; the options, \<open>main\<close> and the threads of the latter:
    \<open>Producer_Consumer\<close>.
  \<^item> \<open>07-sockets/traceroute/successive_traceroute\<close>: \<open>Traceroute_Options\<close> (\<open>options.c\<close>, \<open>main\<close>),
    \<open>Icmp\<close> (error strings), \<open>Traceroute\<close> (\<open>ip_stuff.c\<close>, \<open>do_traceroute\<close>),
    \<open>Traceroute_Memory\<close> and \<open>Traceroute_Run\<close> (what is proved of them). The first version,
    \<open>basic_traceroute/traceroute.c\<close>, is \<open>Basic_Traceroute\<close>: the same probes with other state, other
    loops and other output.
  \<^item> \<open>05-synchronization/sync_working_threads_partial_mq_sem.c\<close> is \<open>Working_Threads\<close>: \<open>main\<close>, the
    workers and the collector around a message queue, as the file stands, without the waiting that
    is left to the students.
  \<^item> \<open>07-sockets/multi-client-echo-server.c\<close> is \<open>Echo_Server\<close>: the descriptor set, the \<open>select\<close> loop, and
    the descriptors the kernel has open. \<open>Simple_Sockets\<close> has the servers for one client at a time
    (\<open>single-client-echo-server.c\<close>, \<open>hello-world-server.c\<close>), the IPv4 versions of all servers, and the
    two daytime clients.
  \<^item> the samples of one primitive each in \<open>05-synchronization\<close>: condition variables
    (\<open>sync_cond_var.c\<close>, \<open>sync_assignment_cond.c\<close>, and \<open>sync_assignment.c\<close>, the exercise without
    its solution) are \<open>Condition_Variables\<close>; the barrier of \<open>sync_barrier.c\<close> is \<open>Sync_Barrier\<close>; the
    unsynchronized colour of \<open>sync_RGB_assignment.c\<close> and \<open>sync_RGB_assignment2.c\<close> is \<open>Sync_RGB\<close>;
    the cancelled thread of \<open>pthread_cleanup.c\<close>, and of \<open>pthread_cleanup_sem.c\<close> without handlers, is
    \<open>Cleanup\<close>.
  \<^item> \<open>06-messages/messagesSV_*.c\<close> is \<open>Messages\<close>: processes that send and receive over System V queues, and
    the parent that runs its receiver in a child.
  \<^item> \<open>08-shared_memory/address_translation_paging_partial.c\<close>, as the file stands, is
    \<open>Address_Translation\<close>: options, checks and \<open>main\<close>. \<open>mmap_man_example.c\<close> is \<open>Memory_Map\<close>.
  \<^item> the samples of processes, signals and threads: \<open>01-processes/atexit.c\<close> is \<open>Exit_Functions\<close>;
    \<open>02-signals/get-passwd.c\<close> is \<open>Get_Passwd\<close>, \<open>alarm.c\<close>, \<open>alarm_INT.c\<close>, \<open>signal_kill.c\<close> and
    \<open>signal_kill2.c\<close> are \<open>Signals\<close>, the programs \<open>sigUSR*.c\<close>, two parents and the two children they
    execute, are \<open>Child_Signals\<close>; \<open>03-pthreads/pthread_join*.c\<close> is \<open>Prime_Threads\<close>,
    \<open>pthread_arg_passing_*.c\<close> is \<open>Argument_Passing\<close>; \<open>07-sockets/pipe.c\<close> and \<open>socket_pair.c\<close> are
    \<open>Pipes\<close>. Processes are threads of an interleaving whose shared state is what the kernel keeps:
    pending signals, descriptors, bytes in a pipe, children that have ended.
  \<^item> \<open>04-critical_section/cpu_time_measuring*.c\<close>, four programs around a variable that is no lock, is
    \<open>Cpu_Time\<close>; \<open>05-synchronization/pitching/\<close>, as the files stand, is \<open>Pitching\<close>.
  \<^item> \<open>Prelude\<close> and \<open>Libc\<close> (\<open>atoi\<close>, \<open>atof\<close>, \<open>strtol\<close>, \<open>getopt\<close>) are shared by all.

  \<^bold>\<open>Threads.\<close> A program is a step function per thread; a run is a list of thread indices
  (\<open>Interleaving\<close>). One step is one access of a shared variable or one library call, so that
  \<open>x++\<close> is a read and a write. A busy wait is a step that stays in the routine, a blocking
  call a step that cannot be taken. \<open>locked_step\<close> (\<open>Lock_Interface\<close>) puts the body of a program
  between the entry and exit routines of a method; \<open>free_step\<close> (\<open>Threads\<close>) runs it without.
  The process ends with its exit code as soon as a thread calls \<open>exit\<close> or \<open>main\<close> returns.

  \<^bold>\<open>The interfaces.\<close> \<open>Critical_Section\<close> has the contracts as locales: \<open>mutex_protocol\<close> and
  \<open>live_protocol\<close> for the methods, \<open>simple_lock\<close> for a single lock word, semaphore or queue (it
  gives a \<open>mutex_protocol\<close>), \<open>cs_client\<close> for programs that assume exclusion, and their
  compositions \<open>locked_program\<close> and \<open>live_program\<close>; \<open>bounded_program\<close> (\<open>Threads\<close>) is for programs without
  a busy wait: a bound on the length of runs, and what holds at their end; \<open>finite_program\<close> gives one when the
  threads' positions alone shrink. The methods are interpreted in
  \<open>CS_Methods\<close>, \<open>CS_Variants\<close>, \<open>Peterson\<close> and \<open>Thread_Add\<close>, the clients in \<open>Deposit\<close>,
  \<open>Bank_Transactions\<close> and \<open>Thread_Add\<close>; \<open>Simulation\<close> carries a client's invariant over to a
  program that is its image, as \<open>Thread_Add\<close> is of \<open>Deposit\<close>. \<open>Condition_Variables\<close>, \<open>Sync_Barrier\<close>,
  \<open>Sync_RGB\<close>, \<open>Cleanup\<close>, \<open>Withdrawals\<close> and \<open>Pitching\<close> interpret \<open>finite_program\<close>, \<open>Argument_Passing\<close>
  and \<open>Plain_Deposit\<close> interpret \<open>bounded_program\<close>.

  \<^bold>\<open>What is shown.\<close> Mutual exclusion and progress of the methods for every client and every
  interleaving; what \<open>cs_init\<close> and \<open>cs_destroy\<close> leave in the kernel; that the transfer program with Peterson's
  algorithm and the counting programs with a lock end with the exact balance or count and the exit code that
  reports it, and can end from everywhere, and so would the deposit programs with \<open>everything.h\<close>; as these programs
  stand, that every run ends, that at least two and at most all deposits arrive, and that the exit code tells; runs in
  which the programs without protection lose updates; that the ring buffers are queues while no thread overruns them, and what stays true in every
  interleaving when they are overrun; that the options let only values pass that fit the tables.
  Of traceroute: the program ends, with the first answering probe as the final one and whole
  TTLs printed up to it; error strings can be read back; every string is freed once, unless an
  answer names no host, where a static string is freed; the first version uses a negative index when
  \<open>-f\<close> is not positive. The working threads end after a bounded number of steps and never take a work
  twice, but may lose works and use freed memory. The echo server
  never uses a closed descriptor and returns what it gets, unless a \<open>send\<close> is cut short; the servers
  for one client at a time leave no descriptor open and answer every client in order, but hand a failed \<open>recv\<close>
  on as a length; the daytime clients stay inside their buffer. Of the samples with one
  primitive: every run of the condition variable and of the barrier program ends, the threshold is never
  missed, nobody passes the barrier early; the order exercise is solved but for lost and spurious
  wakeups; a colour that is printed is the one that was set; no memory is freed twice when the
  reading thread is cancelled, and none is lost unless \<open>printf\<close> is a cancellation point or \<open>pthread_join\<close> fails. The options of the address translation leave a frame number inside its
  entry, and its range check is right up to 31 bits and undefined beyond. Messages are printed as they were
  sent, cut to the size of a message, in order and without loss as long as the receiver runs; the identifier of a removed queue does not reach a later one; an
  old queue gives the child an old message. Unprotected withdrawals only ever make the balance too large.
  Of the small samples: the n-th prime number is printed where the result outlives its thread; a password is accepted with any
  byte in the place of the newline; the pipe delivers whole messages, and the line before the \<open>fork\<close> twice when it is
  buffered; the mapped bytes are those asked for, and a negative length ends in success without output; threads that get the
  address of the loop variable can print any of its values; a signal before \<open>pause\<close> is lost; a child ends by its own
  signal unless \<open>fork\<close> failed, when \<open>kill\<close> reaches everybody; the registered functions free what was allocated unless
  \<open>_exit\<close> is called; the variable \<open>locked\<close> lets increments get lost.

  \<^bold>\<open>Machine integers.\<close> C's \<open>int\<close>, \<open>unsigned\<close> and \<open>long long\<close> are words (\<open>cint\<close>, \<open>cuint\<close>,
  \<open>cllong\<close>), ports 16-bit words, wherever a value can wrap; a property whose proof needs that a
  sum does not wrap has the bound as a hypothesis, and \<open>expected_overflow\<close> shows what happens
  beyond it. Balances of the transfer programs stay between 0 and \<open>AMOUNT\<close>, which is what makes
  \<open>int\<close> adequate for them. Times are whole microseconds, the resolution of \<open>gettimeofday\<close>, and nanoseconds in \<open>Cpu_Time\<close>. In
  \<open>Prime_Threads\<close> an \<open>int\<close> is an integer and an overflow a value of its own.

  \<^bold>\<open>Loops.\<close> Loops over threads and probes are recursions with a measure. There is no fuel: a
  run is as long as its schedule, so that a program can be shown to loop or wait for ever, and
  that it ends is stated as reachability of the end from every reachable state; for programs
  without a busy wait as a bound on the length of every run with no deadlock; for
  traceroute under the hypothesis that some \<open>poll\<close> returns after the deadline
  (\<open>polls_end\<close>); without one the model's answer is \<open>Hangs\<close>.

  \<^bold>\<open>The environment.\<close> Which library calls fail is the parameter \<open>faults\<close>, \<open>denv\<close> or \<open>penv\<close> of
  the thread programs. For traceroute the answers of \<open>getaddrinfo\<close>, \<open>getnameinfo\<close> and the socket
  calls and the clock are parameters (\<open>probe_env\<close>, \<open>resolver\<close>), any answer is allowed, and each
  property names what it needs of them. \<open>malloc\<close> and \<open>strdup\<close> do not fail, except in \<open>Cleanup\<close> and \<open>Exit_Functions\<close>.

  \<^bold>\<open>Not modelled.\<close> Output for its own sake (usage texts, colours, debugging), locale settings,
  delays and the measurement of CPU time outside \<open>Cpu_Time\<close>; samples that are straight-line calls of the operating
  system (what is not named above of \<open>01-processes\<close>, \<open>03-pthreads\<close>, \<open>06-messages\<close>, \<open>07-sockets\<close> and
  \<open>08-shared_memory\<close>); exercises whose algorithm is left to the students (the
  files named \<open>partial\<close> other than the two above); the inline assembly of
  \<open>test_and_set*.h\<close>; the signal handlers of the larger programs; the threaded traceroute, whose thread function is missing and whose other
  functions are those of the successive one; programs in other languages.
\<close>

end
